(* ===== verification/Prelude.thy ===== *)
theory Prelude
  imports Main
begin

text \<open>
  The vocabulary every component theory shares.

  A smart pointer \<open>sPtr<T>\<close> of the C++ code is a value of type \<^typ>\<open>'a option\<close>: \<^term>\<open>None\<close>
  is \<open>thNULL\<close>.  \<open>INTEGER64\<close> (an \<open>int64_t\<close>) and \<open>int\<close> are read as \<^typ>\<open>int\<close>; where a
  component relies on the width, the bound is written out with \<open>max_integer64\<close>.

  The proof collections: \<open>refines\<close> holds the lemmas that relate an operation on the concrete
  state to the abstract one, \<open>preserves\<close> the lemmas that an operation keeps its component's
  invariant.
\<close>

named_theorems refines
named_theorems preserves

type_synonym 'a sptr = "'a option"

text \<open>\<open>MAX_INTEGER64\<close> of \<open>src/src/h/ts2/c++/ts_types.h\<close>.\<close>

definition max_integer64 :: int where
  "max_integer64 = 0x7fffffffffffffff"

subsection \<open>Lists split at the first element that fails a test\<close>

lemma takeWhile_all [simp]: "\<forall>x \<in> set xs. P x \<Longrightarrow> takeWhile P xs = xs"
  by (induction xs) auto

lemma dropWhile_all [simp]: "\<forall>x \<in> set xs. P x \<Longrightarrow> dropWhile P xs = []"
  by (induction xs) auto

lemma sorted_insert_split:
  assumes "sorted (map f xs)"
    and "\<forall>x \<in> set (takeWhile P xs). f x \<le> k"
    and "\<forall>x \<in> set (dropWhile P xs). k \<le> f x"
    and "f y = k"
  shows "sorted (map f (takeWhile P xs @ y # dropWhile P xs))"
proof -
  have "sorted (map f (takeWhile P xs @ dropWhile P xs))"
    using assms(1) by simp
  then show ?thesis
    using assms(2-4) by (auto simp: sorted_append simp del: takeWhile_dropWhile_id)
qed

lemma dropWhile_sorted_le:
  assumes "sorted (map f xs)" and "x \<in> set (dropWhile (\<lambda>y. f y < k) xs)"
  shows "k \<le> (f x :: 'b :: linorder)"
  using assms by (induction xs) (auto split: if_splits)

lemma dropWhile_sorted_less:
  assumes "sorted (map f xs)" and "x \<in> set (dropWhile (\<lambda>y. f y \<le> k) xs)"
  shows "k < (f x :: 'b :: linorder)"
  using assms by (induction xs) (auto split: if_splits)

subsection \<open>The first element that passes a test\<close>

text \<open>Removal of the first match, the shape of every conditional \<open>del\<close> of the code.\<close>

fun remove_first :: "('a \<Rightarrow> bool) \<Rightarrow> 'a list \<Rightarrow> 'a list" where
  "remove_first P [] = []"
| "remove_first P (x # xs) = (if P x then xs else x # remove_first P xs)"

lemma remove_first_none [simp]: "\<forall>x \<in> set xs. \<not> P x \<Longrightarrow> remove_first P xs = xs"
  by (induction xs) auto

lemma remove_first_append:
  "\<forall>x \<in> set xs. \<not> P x \<Longrightarrow> remove_first P (xs @ ys) = xs @ remove_first P ys"
  by (induction xs) auto

lemma set_remove_first: "set (remove_first P xs) \<subseteq> set xs"
  by (induction xs) auto

lemma distinct_remove_first: "distinct xs \<Longrightarrow> distinct (remove_first P xs)"
  by (induction xs) (auto dest: subsetD [OF set_remove_first])

lemma find_None_remove_first: "find P xs = None \<Longrightarrow> remove_first P xs = xs"
  by (induction xs) (auto split: if_splits)

lemma length_remove_first:
  "length (remove_first P xs) = (if find P xs = None then length xs else length xs - 1)"
  by (induction xs) (auto split: if_splits dest: length_pos_if_in_set simp: find_None_iff)

lemma find_SomeD: "find P xs = Some x \<Longrightarrow> x \<in> set xs \<and> P x"
  by (induction xs) (auto split: if_splits)

lemma find_map: "find P (map f xs) = map_option f (find (\<lambda>x. P (f x)) xs)"
  by (induction xs) auto

end
