(* ===== verification/StdQueue.thy ===== *)
theory StdQueue
  imports Prelude "HOL-Library.Monad_Syntax"
begin

text \<open>
  The linked priority queue \<open>stdQueue_<T>\<close> / \<open>stdQueue<T>\<close> of \<open>src/src/h/ts2/c++/stdQueue.h\<close>
  at pointer level: nodes live in a store, a queue holds a head and a tail pointer, and the
  loops walk \<open>next\<close> links.  A loop that would not end, or a null dereference, is \<^term>\<open>None\<close>.
  The abstract queue is the list of its (key, data) pairs; the lemmas in \<open>refines\<close> show that
  each pointer operation computes the list operation of the same name (\<open>sq_\<dots>\<close>).

  Reference counting is not modelled here: a node that is unlinked stays in the store, where
  nothing reaches it.
\<close>

section \<open>State\<close>

text \<open>\<open>stdQueueElement\<close>: the three fields the code reads (\<open>top\<close> is never read).\<close>

record 'a qnode =
  nd_next :: "nat option"
  nd_data :: "'a sptr"
  nd_key :: int

text \<open>
  The store of nodes.  \<open>thNEW\<close> returns zeroed memory at an address not in use, so a new node
  has no successor, null data and key 0.
\<close>

record 'a store =
  nodes :: "nat \<Rightarrow> 'a qnode"
  fresh :: nat

record stdq =
  q_head :: "nat option"
  q_tail :: "nat option"
  q_count :: int
  q_insNeq :: bool

definition null_node :: "'a qnode" where
  "null_node = \<lparr>nd_next = None, nd_data = None, nd_key = 0\<rparr>"

definition new_store :: "'a store" where
  "new_store = \<lparr>nodes = (\<lambda>_. null_node), fresh = 0\<rparr>"

definition alloc :: "'a store \<Rightarrow> nat \<times> 'a store" where
  "alloc s = (fresh s, s\<lparr>nodes := (nodes s)(fresh s := null_node), fresh := Suc (fresh s)\<rparr>)"

definition new_stdQueue :: stdq where
  "new_stdQueue = \<lparr>q_head = None, q_tail = None, q_count = 0, q_insNeq = False\<rparr>"

definition set_next :: "'a store \<Rightarrow> nat \<Rightarrow> nat option \<Rightarrow> 'a store" where
  "set_next s a p = s\<lparr>nodes := (nodes s)(a := (nodes s a)\<lparr>nd_next := p\<rparr>)\<rparr>"

definition fill_node :: "'a store \<Rightarrow> nat \<Rightarrow> int \<Rightarrow> 'a sptr \<Rightarrow> 'a store" where
  "fill_node s a k d = s\<lparr>nodes := (nodes s)(a := (nodes s a)\<lparr>nd_data := d, nd_key := k\<rparr>)\<rparr>"

text \<open>A pointer to a link (\<open>sPtr<\<dots>> * elp\<close>): the head field, or a node's \<open>next\<close> field.\<close>

datatype link = Head | NextOf nat

fun link_get :: "'a store \<Rightarrow> stdq \<Rightarrow> link \<Rightarrow> nat option" where
  "link_get s q Head = q_head q"
| "link_get s q (NextOf a) = nd_next (nodes s a)"

fun link_set :: "'a store \<Rightarrow> stdq \<Rightarrow> link \<Rightarrow> nat option \<Rightarrow> 'a store \<times> stdq" where
  "link_set s q Head p = (s, q\<lparr>q_head := p\<rparr>)"
| "link_set s q (NextOf a) p = (set_next s a p, q)"

section \<open>Operations\<close>

subsection \<open>Insertion by key\<close>

text \<open>The loop \<open>for ( ; (*elp).is_notNull() ; elp = &(*elp)->next )\<close> of \<open>ins(key,data)\<close>.\<close>

partial_function (option) ins_pos ::
    "'a store \<Rightarrow> stdq \<Rightarrow> int \<Rightarrow> link \<Rightarrow> link option" where
  "ins_pos s q key elp =
     (case link_get s q elp of
        None \<Rightarrow> Some elp
      | Some a \<Rightarrow>
          if (if q_insNeq q then nd_key (nodes s a) > key else nd_key (nodes s a) \<ge> key)
          then Some elp
          else ins_pos s q key (NextOf a))"

definition ins :: "int \<Rightarrow> 'a sptr \<Rightarrow> 'a store \<Rightarrow> stdq \<Rightarrow> ('a store \<times> stdq) option" where
  "ins key data s q =
     (let (el, s0) = alloc s; s1 = fill_node s0 el key data in
      do {
        (s2, q2) \<leftarrow>
          (case q_head q of
             Some _ \<Rightarrow>
               if key = max_integer64 then
                 (case q_tail q of
                    None \<Rightarrow> None
                  | Some t \<Rightarrow> Some (set_next s1 t (Some el), q\<lparr>q_tail := Some el\<rparr>))
               else do {
                 elp \<leftarrow> ins_pos s1 q key Head;
                 let s2 = set_next s1 el (link_get s1 q elp);
                 let (s3, q3) = link_set s2 q elp (Some el);
                 Some (s3, if nd_next (nodes s3 el) = None then q3\<lparr>q_tail := Some el\<rparr> else q3)
               }
           | None \<Rightarrow> Some (s1, q\<lparr>q_head := Some el, q_tail := Some el\<rparr>));
        Some (s2, q2\<lparr>q_count := q_count q2 + 1\<rparr>)
      })"

text \<open>\<open>ins(q)\<close>: append every datum of another queue.  The walk reads the live store.\<close>

partial_function (option) ins_all ::
    "'a store \<Rightarrow> stdq \<Rightarrow> nat option \<Rightarrow> ('a store \<times> stdq) option" where
  "ins_all s q p =
     (case p of
        None \<Rightarrow> Some (s, q)
      | Some a \<Rightarrow>
          Option.bind (ins max_integer64 (nd_data (nodes s a)) s q)
            (\<lambda>r. ins_all (fst r) (snd r) (nd_next (nodes (fst r) a))))"

definition ins_queue :: "stdq \<Rightarrow> 'a store \<Rightarrow> stdq \<Rightarrow> ('a store \<times> stdq) option" where
  "ins_queue src s q = ins_all s q (q_head src)"

text \<open>
  The copy constructor: \<open>insNeq\<close> is taken over, the data are appended through \<open>check\<close> with a
  callback that inserts under \<open>MAX_INTEGER64\<close> and always answers 0, so every element is visited.
\<close>

definition copy_queue :: "stdq \<Rightarrow> 'a store \<Rightarrow> ('a store \<times> stdq) option" where
  "copy_queue src s = ins_all s (new_stdQueue\<lparr>q_insNeq := q_insNeq src\<rparr>) (q_head src)"

subsection \<open>Removal\<close>

definition del :: "'a store \<Rightarrow> stdq \<Rightarrow> 'a sptr \<times> stdq" where
  "del s q =
     (case q_head q of
        None \<Rightarrow> (None, q)
      | Some el \<Rightarrow>
          let h = nd_next (nodes s el)
          in (nd_data (nodes s el),
              q\<lparr>q_head := h, q_tail := (if h = None then None else q_tail q),
                 q_count := q_count q - 1\<rparr>))"

partial_function (option) del_loop ::
    "('a sptr \<Rightarrow> bool) \<Rightarrow> 'a store \<Rightarrow> stdq \<Rightarrow> nat \<Rightarrow> ('a sptr \<times> 'a store \<times> stdq) option" where
  "del_loop cmp s q el =
     (case nd_next (nodes s el) of
        None \<Rightarrow> Some (None, s, q)
      | Some nx \<Rightarrow>
          if cmp (nd_data (nodes s nx)) then
            Some (nd_data (nodes s nx),
                  set_next s el (nd_next (nodes s nx)),
                  q\<lparr>q_tail := (if q_tail q = Some nx then Some el else q_tail q),
                     q_count := q_count q - 1\<rparr>)
          else del_loop cmp s q nx)"

definition del_fun ::
    "('a sptr \<Rightarrow> bool) \<Rightarrow> 'a store \<Rightarrow> stdq \<Rightarrow> ('a sptr \<times> 'a store \<times> stdq) option" where
  "del_fun cmp s q =
     (case q_head q of
        None \<Rightarrow> Some (None, s, q)
      | Some h \<Rightarrow>
          if cmp (nd_data (nodes s h)) then
            let (d, q') = del s q in Some (d, s, q')
          else del_loop cmp s q h)"

text \<open>\<open>cmp_stdQueue\<close>: pointer equality, the default when the caller passes no comparison.\<close>

definition cmp_stdQueue :: "'a sptr \<Rightarrow> 'a sptr \<Rightarrow> int" where
  "cmp_stdQueue d1 d2 = (if d1 = d2 then 1 else 0)"

definition del_cmp ::
    "'a sptr \<Rightarrow> ('a sptr \<Rightarrow> 'a sptr \<Rightarrow> int) option \<Rightarrow> 'a store \<Rightarrow> stdq
      \<Rightarrow> ('a sptr \<times> 'a store \<times> stdq) option" where
  "del_cmp data cmp s q =
     (let f = (case cmp of None \<Rightarrow> cmp_stdQueue | Some f \<Rightarrow> f)
      in del_fun (\<lambda>d. f d data \<noteq> 0) s q)"

subsection \<open>Search\<close>

partial_function (option) check_loop ::
    "('a sptr \<Rightarrow> bool) \<Rightarrow> 'a store \<Rightarrow> nat option \<Rightarrow> 'a sptr option" where
  "check_loop cmp s p =
     (case p of
        None \<Rightarrow> Some None
      | Some a \<Rightarrow>
          if cmp (nd_data (nodes s a)) then Some (nd_data (nodes s a))
          else check_loop cmp s (nd_next (nodes s a)))"

definition check_fun :: "('a sptr \<Rightarrow> bool) \<Rightarrow> 'a store \<Rightarrow> stdq \<Rightarrow> 'a sptr option" where
  "check_fun f s q = check_loop f s (q_head q)"

definition check_cmp ::
    "'a sptr \<Rightarrow> ('a sptr \<Rightarrow> 'a sptr \<Rightarrow> int) option \<Rightarrow> 'a store \<Rightarrow> stdq \<Rightarrow> 'a sptr option" where
  "check_cmp data cmp s q =
     (let f = (case cmp of None \<Rightarrow> cmp_stdQueue | Some f \<Rightarrow> f)
      in check_loop (\<lambda>d. f d data \<noteq> 0) s (q_head q))"

subsection \<open>Recomputing the tail, bulk removal\<close>

partial_function (option) set_tail_loop ::
    "'a store \<Rightarrow> nat \<Rightarrow> int \<Rightarrow> (nat \<times> int) option" where
  "set_tail_loop s el cnt =
     (case nd_next (nodes s el) of
        None \<Rightarrow> Some (el, cnt)
      | Some nx \<Rightarrow> set_tail_loop s nx (cnt + 1))"

definition set_tail :: "'a store \<Rightarrow> stdq \<Rightarrow> stdq option" where
  "set_tail s q =
     (case q_head q of
        None \<Rightarrow> Some (q\<lparr>q_count := 0, q_tail := None\<rparr>)
      | Some h \<Rightarrow>
          map_option (\<lambda>(t, c). q\<lparr>q_count := c, q_tail := Some t\<rparr>) (set_tail_loop s h 1))"

definition reset :: "'a store \<Rightarrow> stdq \<Rightarrow> stdq option" where
  "reset s q = set_tail s (q\<lparr>q_head := None\<rparr>)"

text \<open>
  \<open>move(dest,cmp)\<close>: elements with \<open>cmp > 0\<close> leave this queue (and join \<open>dest\<close> if there is one),
  the first with \<open>cmp < 0\<close> stops the walk.  \<open>dest\<close> is another queue object.
\<close>

partial_function (option) move_loop ::
    "('a sptr \<Rightarrow> int) \<Rightarrow> 'a store \<Rightarrow> stdq \<Rightarrow> stdq option \<Rightarrow> link \<Rightarrow> int
      \<Rightarrow> ('a store \<times> stdq \<times> stdq option \<times> int) option" where
  "move_loop cmp s q dest elp cnt =
     (case link_get s q elp of
        None \<Rightarrow> Some (s, q, dest, cnt)
      | Some a \<Rightarrow>
          if cmp (nd_data (nodes s a)) > 0 then
            Option.bind
              (case dest of
                 None \<Rightarrow> Some (s, None)
               | Some dq \<Rightarrow>
                   map_option (\<lambda>(s', dq'). (s', Some dq'))
                     (ins max_integer64 (nd_data (nodes s a)) s dq))
              (\<lambda>r. let s1 = fst r; w = link_set s1 q elp (nd_next (nodes s1 a))
                   in move_loop cmp (fst w) (snd w) (snd r) elp (cnt + 1))
          else if cmp (nd_data (nodes s a)) < 0 then Some (s, q, dest, cnt)
          else move_loop cmp s q dest (NextOf a) cnt)"

definition move ::
    "stdq option \<Rightarrow> ('a sptr \<Rightarrow> int) \<Rightarrow> 'a store \<Rightarrow> stdq
      \<Rightarrow> (int \<times> 'a store \<times> stdq \<times> stdq option) option" where
  "move dest cmp s q = do {
     (s', q', dest', cnt) \<leftarrow> move_loop cmp s q dest Head 0;
     q'' \<leftarrow> set_tail s' q';
     Some (cnt, s', q'', dest')
   }"

subsection \<open>Insertion next to a reference element\<close>

text \<open>
  \<open>ins(ref,d,cmp)\<close>: after the first element with \<open>cmp > 0\<close>, before the first with \<open>cmp < 0\<close>;
  if there is none, \<open>cmp(0,ref)\<close> chooses head or tail.  None of its four insertions counts the
  new element.
\<close>

definition cmp_stdQueue3 :: "'a sptr \<Rightarrow> 'a sptr \<Rightarrow> int" where
  "cmp_stdQueue3 d1 d2 = (if d1 = None then 1 else if d1 = d2 then 1 else 0)"

definition advance_tail :: "'a store \<Rightarrow> stdq \<Rightarrow> stdq option" where
  "advance_tail s q =
     (case q_tail q of
        None \<Rightarrow> None
      | Some t \<Rightarrow>
          Some (case nd_next (nodes s t) of None \<Rightarrow> q | Some t' \<Rightarrow> q\<lparr>q_tail := Some t'\<rparr>))"

partial_function (option) ins_ref_loop ::
    "('a sptr \<Rightarrow> int) \<Rightarrow> 'a sptr \<Rightarrow> 'a store \<Rightarrow> stdq \<Rightarrow> link \<Rightarrow> ('a store \<times> stdq) option" where
  "ins_ref_loop cmp d s q elpp =
     (case link_get s q elpp of
        None \<Rightarrow>
          if cmp None = 0 then Some (s, q)
          else
            let (elp, s0) = alloc s; s1 = fill_node s0 elp 0 d in
            if cmp None > 0 then
              let s2 = set_next s1 elp (q_head q); q1 = q\<lparr>q_head := Some elp\<rparr>
              in Some (s2, if q_tail q1 = None then q1\<lparr>q_tail := Some elp\<rparr> else q1)
            else
              (case q_tail q of
                 None \<Rightarrow> Some (s1, q\<lparr>q_tail := Some elp, q_head := Some elp\<rparr>)
               | Some t \<Rightarrow> Some (set_next s1 t (Some elp), q\<lparr>q_tail := Some elp\<rparr>))
      | Some a \<Rightarrow>
          if cmp (nd_data (nodes s a)) = 0 then ins_ref_loop cmp d s q (NextOf a)
          else
            let (elp, s0) = alloc s; s1 = fill_node s0 elp 0 d in
            if cmp (nd_data (nodes s a)) > 0 then
              let s2 = set_next s1 elp (nd_next (nodes s1 a)); s3 = set_next s2 a (Some elp)
              in map_option (\<lambda>q'. (s3, q')) (advance_tail s3 q)
            else
              let s2 = set_next s1 elp (Some a); (s3, q3) = link_set s2 q elpp (Some elp)
              in map_option (\<lambda>q'. (s3, q')) (advance_tail s3 q3))"

definition ins_ref ::
    "'a sptr \<Rightarrow> 'a sptr \<Rightarrow> ('a sptr \<Rightarrow> 'a sptr \<Rightarrow> int) option \<Rightarrow> 'a store \<Rightarrow> stdq
      \<Rightarrow> ('a store \<times> stdq) option" where
  "ins_ref ref d cmp s q =
     (let f = (case cmp of None \<Rightarrow> cmp_stdQueue3 | Some f \<Rightarrow> f)
      in ins_ref_loop (\<lambda>x. f x ref) d s q Head)"

end
