(* ===== verification/StdQueueRefine.thy ===== *)
theory StdQueueRefine
  imports StdQueue
begin

text \<open>
  The queue of \<open>StdQueue\<close> refines a list of (key, data) pairs.  \<open>queue_rep s q as\<close> says that
  the nodes \<open>as\<close>, in this order, are what the head pointer of \<open>q\<close> reaches, that the tail pointer
  is the last of them and that \<open>count\<close> is their number; \<open>contents s as\<close> is the abstract list.
\<close>

section \<open>Paths\<close>

primrec path :: "'a store \<Rightarrow> nat option \<Rightarrow> nat list \<Rightarrow> nat option \<Rightarrow> bool" where
  "path s p [] r \<longleftrightarrow> p = r"
| "path s p (a # as) r \<longleftrightarrow> p = Some a \<and> path s (nd_next (nodes s a)) as r"

lemma path_append [simp]: "path s p (as @ bs) r \<longleftrightarrow> (\<exists>m. path s p as m \<and> path s m bs r)"
  by (induction as arbitrary: p) auto

lemma path_cong:
  assumes "\<forall>a \<in> set as. nd_next (nodes s' a) = nd_next (nodes s a)"
  shows "path s' p as r = path s p as r"
  using assms by (induction as arbitrary: p) auto

lemma path_None_nil: "path s None as None \<Longrightarrow> as = []"
  by (cases as) auto

lemma path_Some_cons: "path s (Some a) as None \<Longrightarrow> \<exists>bs. as = a # bs \<and> path s (nd_next (nodes s a)) bs None"
  by (cases as) auto

section \<open>The store after an update\<close>

lemma nodes_set_next [simp]:
  "nodes (set_next s a p) b = (if b = a then (nodes s a)\<lparr>nd_next := p\<rparr> else nodes s b)"
  by (simp add: set_next_def)

lemma fresh_set_next [simp]: "fresh (set_next s a p) = fresh s"
  by (simp add: set_next_def)

lemma nodes_fill_node [simp]:
  "nodes (fill_node s a k d) b
    = (if b = a then (nodes s a)\<lparr>nd_data := d, nd_key := k\<rparr> else nodes s b)"
  by (simp add: fill_node_def)

lemma fresh_fill_node [simp]: "fresh (fill_node s a k d) = fresh s"
  by (simp add: fill_node_def)

lemma alloc_simps [simp]:
  "fst (alloc s) = fresh s"
  "fresh (snd (alloc s)) = Suc (fresh s)"
  "nodes (snd (alloc s)) b = (if b = fresh s then null_node else nodes s b)"
  by (simp_all add: alloc_def)

lemma null_node_simps [simp]:
  "nd_next null_node = None" "nd_data null_node = None" "nd_key null_node = 0"
  by (simp_all add: null_node_def)

section \<open>Representation\<close>

definition contents :: "'a store \<Rightarrow> nat list \<Rightarrow> (int \<times> 'a sptr) list" where
  "contents s as = map (\<lambda>a. (nd_key (nodes s a), nd_data (nodes s a))) as"

definition last_opt :: "'b list \<Rightarrow> 'b option" where
  "last_opt xs = (if xs = [] then None else Some (last xs))"

definition queue_rep :: "'a store \<Rightarrow> stdq \<Rightarrow> nat list \<Rightarrow> bool" where
  "queue_rep s q as \<longleftrightarrow>
     path s (q_head q) as None \<and> distinct as \<and> (\<forall>a \<in> set as. a < fresh s)
     \<and> q_tail q = last_opt as \<and> q_count q = int (length as)"

text \<open>Nothing outside \<open>A\<close> (and the newly allocated nodes) changed.\<close>

definition same_outside :: "nat set \<Rightarrow> 'a store \<Rightarrow> 'a store \<Rightarrow> bool" where
  "same_outside A s s' \<longleftrightarrow>
     fresh s \<le> fresh s' \<and> (\<forall>a. a < fresh s \<longrightarrow> a \<notin> A \<longrightarrow> nodes s' a = nodes s a)"

lemma last_opt_simps [simp]:
  "last_opt [] = None" "last_opt (xs @ [x]) = Some x"
  "xs \<noteq> [] \<Longrightarrow> last_opt (x # xs) = last_opt xs" "last_opt [x] = Some x"
  "last_opt (xs @ y # ys) = last_opt (y # ys)"
  by (auto simp: last_opt_def)

lemma last_opt_None_iff [simp]: "last_opt xs = None \<longleftrightarrow> xs = []"
  by (simp add: last_opt_def)

lemma last_opt_in_set: "last_opt xs = Some x \<Longrightarrow> x \<in> set xs"
  by (auto simp: last_opt_def split: if_splits)

lemma contents_simps [simp]:
  "contents s [] = []"
  "contents s (a # as) = (nd_key (nodes s a), nd_data (nodes s a)) # contents s as"
  "contents s (as @ bs) = contents s as @ contents s bs"
  "length (contents s as) = length as"
  by (simp_all add: contents_def)

lemma contents_cong:
  "\<forall>a \<in> set as. nd_key (nodes s' a) = nd_key (nodes s a) \<and> nd_data (nodes s' a) = nd_data (nodes s a)
    \<Longrightarrow> contents s' as = contents s as"
  by (simp add: contents_def)

lemma queue_rep_frame:
  assumes "queue_rep s q as" "same_outside A s s'" "set as \<inter> A = {}"
  shows "queue_rep s' q as \<and> contents s' as = contents s as"
proof -
  have same: "nodes s' a = nodes s a" if "a \<in> set as" for a
    using assms that by (auto simp: queue_rep_def same_outside_def)
  then have "path s' p as r = path s p as r" for p r
    by (simp add: path_cong)
  then show ?thesis
    using assms(1,2) same by (auto simp: queue_rep_def same_outside_def contents_def)
qed

lemma queue_rep_new: "queue_rep s new_stdQueue []"
  by (simp add: queue_rep_def new_stdQueue_def)

lemma queue_rep_head:
  "queue_rep s q as \<Longrightarrow> q_head q = (case as of [] \<Rightarrow> None | a # _ \<Rightarrow> Some a)"
  by (cases as) (auto simp: queue_rep_def)

section \<open>The abstract queue\<close>

definition key_passes :: "bool \<Rightarrow> int \<Rightarrow> int \<Rightarrow> bool" where
  "key_passes neq key k = (if neq then k \<le> key else k < key)"

definition sq_ins :: "bool \<Rightarrow> int \<Rightarrow> 'b \<Rightarrow> (int \<times> 'b) list \<Rightarrow> (int \<times> 'b) list" where
  "sq_ins neq key d xs =
     (if key = max_integer64 then xs @ [(key, d)]
      else takeWhile (\<lambda>e. key_passes neq key (fst e)) xs
           @ (key, d) # dropWhile (\<lambda>e. key_passes neq key (fst e)) xs)"

definition sq_del :: "(int \<times> 'a sptr) list \<Rightarrow> 'a sptr \<times> (int \<times> 'a sptr) list" where
  "sq_del xs = (case xs of [] \<Rightarrow> (None, []) | e # es \<Rightarrow> (snd e, es))"

definition sq_find :: "('a sptr \<Rightarrow> bool) \<Rightarrow> (int \<times> 'a sptr) list \<Rightarrow> 'a sptr" where
  "sq_find f xs = (case find (\<lambda>e. f (snd e)) xs of None \<Rightarrow> None | Some e \<Rightarrow> snd e)"

definition sq_remove :: "('a sptr \<Rightarrow> bool) \<Rightarrow> (int \<times> 'a sptr) list \<Rightarrow> (int \<times> 'a sptr) list" where
  "sq_remove f xs = remove_first (\<lambda>e. f (snd e)) xs"

definition sq_appends :: "(int \<times> 'a sptr) list \<Rightarrow> (int \<times> 'a sptr) list \<Rightarrow> (int \<times> 'a sptr) list" where
  "sq_appends xs ys = xs @ map (\<lambda>e. (max_integer64, snd e)) ys"

text \<open>\<open>move\<close>: what leaves and what stays.\<close>

fun sq_move :: "('a sptr \<Rightarrow> int) \<Rightarrow> (int \<times> 'a sptr) list
    \<Rightarrow> (int \<times> 'a sptr) list \<times> (int \<times> 'a sptr) list" where
  "sq_move cmp [] = ([], [])"
| "sq_move cmp (e # es) =
     (if cmp (snd e) > 0 then (let (out, stay) = sq_move cmp es in (e # out, stay))
      else if cmp (snd e) < 0 then ([], e # es)
      else (let (out, stay) = sq_move cmp es in (out, e # stay)))"

subsection \<open>Facts about the abstract queue\<close>

lemma set_sq_ins [simp]: "set (sq_ins neq key d xs) = insert (key, d) (set xs)"
proof -
  have "set (takeWhile P xs) \<union> set (dropWhile P xs) = set xs" for P :: "int \<times> 'a \<Rightarrow> bool"
    by (metis set_append takeWhile_dropWhile_id)
  then show ?thesis by (auto simp: sq_ins_def)
qed

lemma length_sq_ins [simp]: "length (sq_ins neq key d xs) = Suc (length xs)"
proof -
  have "length (takeWhile P xs) + length (dropWhile P xs) = length xs"
    for P :: "int \<times> 'a \<Rightarrow> bool"
    by (metis length_append takeWhile_dropWhile_id)
  then show ?thesis by (simp add: sq_ins_def)
qed

lemma sorted_sq_ins:
  assumes "sorted (map fst xs)" "\<forall>e \<in> set xs. fst e \<le> max_integer64"
  shows "sorted (map fst (sq_ins neq key d xs))"
proof (cases "key = max_integer64")
  case True
  then show ?thesis using assms by (auto simp: sq_ins_def sorted_append)
next
  case False
  have "\<forall>e \<in> set (takeWhile (\<lambda>e. key_passes neq key (fst e)) xs). fst e \<le> key"
    by (auto dest!: set_takeWhileD simp: key_passes_def split: if_splits)
  moreover have "\<forall>e \<in> set (dropWhile (\<lambda>e. key_passes neq key (fst e)) xs). key \<le> fst e"
    using assms(1) by (cases neq)
      (auto simp: key_passes_def intro: dropWhile_sorted_le less_imp_le dropWhile_sorted_less)
  ultimately show ?thesis
    using False sorted_insert_split [OF assms(1), of _ key "(key, d)"]
    by (simp add: sq_ins_def del: map_append)
qed

lemma find_None_iff_sq: "find P xs = None \<longleftrightarrow> (\<forall>x \<in> set xs. \<not> P x)"
  by (auto simp: find_None_iff)

section \<open>Links\<close>

definition link_at :: "nat list \<Rightarrow> link" where
  "link_at ts = (case last_opt ts of None \<Rightarrow> Head | Some a \<Rightarrow> NextOf a)"

definition hd_opt :: "'b list \<Rightarrow> 'b option" where
  "hd_opt xs = (case xs of [] \<Rightarrow> None | x # _ \<Rightarrow> Some x)"

lemma hd_opt_simps [simp]: "hd_opt [] = None" "hd_opt (x # xs) = Some x"
  by (simp_all add: hd_opt_def)

lemma link_at_simps [simp]: "link_at [] = Head" "link_at (ts @ [a]) = NextOf a"
  by (simp_all add: link_at_def)

lemma path_hd_opt: "path s p as None \<Longrightarrow> p = hd_opt as"
  by (cases as) auto

lemma path_suffix: "path s p (ts @ ds) None \<Longrightarrow> path s (hd_opt ds) ds None"
  by (auto dest: path_hd_opt)

lemma link_get_at:
  assumes "path s (q_head q) (ts @ ds) None"
  shows "link_get s q (link_at ts) = hd_opt ds"
  using assms by (cases ts rule: rev_cases) (auto dest: path_hd_opt)

lemma link_set_fields:
  assumes "link_set s q l p = (s', q')"
  shows "q_tail q' = q_tail q" "q_count q' = q_count q" "q_insNeq q' = q_insNeq q"
    "fresh s' = fresh s"
    "nd_key (nodes s' a) = nd_key (nodes s a)" "nd_data (nodes s' a) = nd_data (nodes s a)"
  using assms by (cases l; auto)+

lemma link_set_at:
  assumes "path s (q_head q) (ts @ ds) None" "distinct ts" "set es \<inter> set ts = {}"
    and "path s p es None" "link_set s q (link_at ts) p = (s', q')"
  shows "path s' (q_head q') (ts @ es) None"
proof (cases ts rule: rev_cases)
  case Nil
  with assms show ?thesis by auto
next
  case (snoc us a)
  from snoc assms have *: "path s (q_head q) us (Some a)" "s' = set_next s a p" "q' = q"
    "a \<notin> set us" "a \<notin> set es" by auto
  then have "path s' (q_head q) us (Some a)" "path s' p es None"
    using assms(4) path_cong [of us s' s] path_cong [of es s' s] by auto
  with * snoc show ?thesis by auto
qed

lemma link_set_outside:
  assumes "link_set s q (link_at ts) p = (s', q')"
  shows "same_outside (set ts) s s'"
  using assms by (cases ts rule: rev_cases) (auto simp: same_outside_def)

lemma link_set_next_other:
  assumes "link_set s q (link_at ts) p = (s', q')" "a \<notin> set ts"
  shows "nodes s' a = nodes s a"
  using assms by (cases ts rule: rev_cases) auto

section \<open>Insertion by key\<close>

lemma ins_pos_path:
  assumes "path s (link_get s q l) as None"
  shows "ins_pos s q key l
    = Some (case last_opt (takeWhile (\<lambda>a. key_passes (q_insNeq q) key (nd_key (nodes s a))) as)
            of None \<Rightarrow> l | Some a \<Rightarrow> NextOf a)"
  using assms
proof (induction as arbitrary: l)
  case Nil
  then show ?case by (simp add: ins_pos.simps)
next
  case (Cons a as)
  let ?P = "\<lambda>a. key_passes (q_insNeq q) key (nd_key (nodes s a))"
  from Cons.prems have l: "link_get s q l = Some a"
    and tl: "path s (link_get s q (NextOf a)) as None" by auto
  note IH = Cons.IH [OF tl]
  show ?case
  proof (cases "?P a")
    case True
    then have "ins_pos s q key l = ins_pos s q key (NextOf a)"
      by (subst ins_pos.simps) (auto simp: l key_passes_def split: if_splits)
    with True show ?thesis
      by (cases "takeWhile ?P as = []") (auto simp: IH last_opt_def)
  next
    case False
    then show ?thesis
      by (subst ins_pos.simps) (auto simp: l key_passes_def split: if_splits)
  qed
qed

definition ins_at :: "stdq \<Rightarrow> int \<Rightarrow> 'a store \<Rightarrow> nat list \<Rightarrow> nat list" where
  "ins_at q key s as =
     (if key = max_integer64 then as @ [fresh s]
      else takeWhile (\<lambda>a. key_passes (q_insNeq q) key (nd_key (nodes s a))) as
           @ fresh s # dropWhile (\<lambda>a. key_passes (q_insNeq q) key (nd_key (nodes s a))) as)"

lemma contents_ins_at:
  assumes "\<forall>a \<in> set as. nd_key (nodes s' a) = nd_key (nodes s a)
             \<and> nd_data (nodes s' a) = nd_data (nodes s a)"
    and "nd_key (nodes s' (fresh s)) = key" "nd_data (nodes s' (fresh s)) = d"
  shows "contents s' (ins_at q key s as) = sq_ins (q_insNeq q) key d (contents s as)"
proof -
  have "contents s' (takeWhile P as) = contents s (takeWhile P as)"
    "contents s' (dropWhile P as) = contents s (dropWhile P as)"
    "contents s' as = contents s as" for P
    using assms(1) by (auto intro!: contents_cong dest: set_takeWhileD set_dropWhileD)
  then show ?thesis
    using assms(2,3)
    by (simp add: ins_at_def sq_ins_def) (simp add: contents_def takeWhile_map dropWhile_map comp_def)
qed

lemma set_ins_at: "set (ins_at q key s as) = insert (fresh s) (set as)"
proof -
  have "set (takeWhile P as) \<union> set (dropWhile P as) = set as" for P
    by (metis set_append takeWhile_dropWhile_id)
  then show ?thesis by (auto simp: ins_at_def)
qed

lemma length_ins_at: "length (ins_at q key s as) = Suc (length as)"
proof -
  have "length (takeWhile P as) + length (dropWhile P as) = length as" for P
    by (metis length_append takeWhile_dropWhile_id)
  then show ?thesis by (simp add: ins_at_def)
qed

lemma distinct_ins_at:
  assumes "distinct as" "fresh s \<notin> set as"
  shows "distinct (ins_at q key s as)"
proof -
  have "distinct (takeWhile P as @ dropWhile P as)" for P using assms(1) by simp
  then show ?thesis
    using assms by (auto simp: ins_at_def dest: set_takeWhileD set_dropWhileD
      simp del: takeWhile_dropWhile_id)
qed

text \<open>The store with the new node filled in, before it is linked.\<close>

definition with_node :: "'a store \<Rightarrow> int \<Rightarrow> 'a sptr \<Rightarrow> 'a store" where
  "with_node s key d = fill_node (snd (alloc s)) (fresh s) key d"

lemma with_node_simps [simp]:
  "nodes (with_node s key d) b
    = (if b = fresh s then \<lparr>nd_next = None, nd_data = d, nd_key = key\<rparr> else nodes s b)"
  "fresh (with_node s key d) = Suc (fresh s)"
  by (auto simp: with_node_def null_node_def)

lemma path_with_node:
  assumes "fresh s \<notin> set as"
  shows "path (with_node s key d) p as r = path s p as r"
  using assms by (intro path_cong) auto

definition ins_ok :: "'a store \<Rightarrow> stdq \<Rightarrow> nat list \<Rightarrow> int \<Rightarrow> 'a sptr \<Rightarrow> 'a store \<Rightarrow> stdq \<Rightarrow> bool" where
  "ins_ok s q as key d s' q' \<longleftrightarrow>
     queue_rep s' q' (ins_at q key s as)
     \<and> contents s' (ins_at q key s as) = sq_ins (q_insNeq q) key d (contents s as)
     \<and> q_insNeq q' = q_insNeq q \<and> same_outside (set as) s s' \<and> fresh s' = Suc (fresh s)"

lemma ins_okI:
  assumes "queue_rep s q as"
    and "path s' (q_head q') (ins_at q key s as) None" "q_tail q' = last_opt (ins_at q key s as)"
    and "q_count q' = q_count q + 1" "q_insNeq q' = q_insNeq q" "fresh s' = Suc (fresh s)"
    and "\<And>a. a \<in> set as \<Longrightarrow> nd_key (nodes s' a) = nd_key (nodes s a)
             \<and> nd_data (nodes s' a) = nd_data (nodes s a)"
    and "nd_key (nodes s' (fresh s)) = key" "nd_data (nodes s' (fresh s)) = d"
    and "\<And>a. a < fresh s \<Longrightarrow> a \<notin> set as \<Longrightarrow> nodes s' a = nodes s a"
  shows "ins_ok s q as key d s' q'"
proof -
  have "fresh s \<notin> set as" using assms(1) by (auto simp: queue_rep_def)
  then have "queue_rep s' q' (ins_at q key s as)"
    using assms(1-6) by (auto simp: queue_rep_def set_ins_at length_ins_at distinct_ins_at)
  moreover have "contents s' (ins_at q key s as) = sq_ins (q_insNeq q) key d (contents s as)"
    using assms(7-9) by (intro contents_ins_at) auto
  ultimately show ?thesis
    using assms(5,6,10) by (simp add: ins_ok_def same_outside_def)
qed

lemma ins_refines_tail:
  assumes rep: "queue_rep s q as" and as: "as = us @ [t]" and key: "key = max_integer64"
  shows "\<exists>s' q'. ins key d s q = Some (s', q') \<and> ins_ok s q as key d s' q'"
proof -
  let ?s1 = "with_node s key d"
  from rep as have n: "fresh s \<notin> set as" and t: "q_tail q = Some t" "t \<notin> set us" "t \<noteq> fresh s"
    and p: "path s (q_head q) us (Some t)"
    by (auto simp: queue_rep_def)
  from p have h: "q_head q \<noteq> None" by (cases us) auto
  let ?s' = "set_next ?s1 t (Some (fresh s))"
  let ?q' = "q\<lparr>q_tail := Some (fresh s), q_count := q_count q + 1\<rparr>"
  have "ins key d s q = Some (?s', ?q')"
    using h t key by (auto simp: ins_def alloc_def with_node_def fill_node_def Let_def)
  moreover have "path ?s' (q_head q) us (Some t) = path s (q_head q) us (Some t)"
    using n t(2) as by (intro path_cong) auto
  with p have "path ?s' (q_head q) us (Some t)" by simp
  then have "ins_ok s q as key d ?s' ?q'"
    using rep as n t key by (intro ins_okI) (auto simp: ins_at_def queue_rep_def)
  ultimately show ?thesis by blast
qed

lemma ins_refines_empty:
  assumes rep: "queue_rep s q []"
  shows "\<exists>s' q'. ins key d s q = Some (s', q') \<and> ins_ok s q [] key d s' q'"
proof -
  let ?s1 = "with_node s key d"
  let ?q' = "q\<lparr>q_head := Some (fresh s), q_tail := Some (fresh s), q_count := q_count q + 1\<rparr>"
  have "ins key d s q = Some (?s1, ?q')"
    using rep by (auto simp: ins_def alloc_def with_node_def fill_node_def Let_def queue_rep_def)
  moreover have "ins_ok s q [] key d ?s1 ?q'"
    using rep by (intro ins_okI) (auto simp: ins_at_def queue_rep_def)
  ultimately show ?thesis by blast
qed

lemma ins_refines_key:
  assumes rep: "queue_rep s q as" and as: "as \<noteq> []" and key: "key \<noteq> max_integer64"
  shows "\<exists>s' q'. ins key d s q = Some (s', q') \<and> ins_ok s q as key d s' q'"
proof -
  let ?s1 = "with_node s key d"
  let ?P = "\<lambda>a. key_passes (q_insNeq q) key (nd_key (nodes s a))"
  let ?ts = "takeWhile ?P as" and ?ds = "dropWhile ?P as"
  from rep have n: "fresh s \<notin> set as" and d: "distinct (?ts @ ?ds)" and h: "q_head q = hd_opt as"
    and p: "path s (q_head q) as None" by (auto simp: queue_rep_def path_hd_opt)
  from n have n': "fresh s \<notin> set ?ts" "fresh s \<notin> set ?ds"
    by (auto dest: set_takeWhileD set_dropWhileD)
  have p1: "path ?s1 (q_head q) (?ts @ ?ds) None"
    using p n by (simp add: path_with_node del: path_append)
  have tw: "takeWhile (\<lambda>a. key_passes (q_insNeq q) key (nd_key (nodes ?s1 a))) as = ?ts"
    using n by (intro takeWhile_cong) auto
  have pos: "ins_pos ?s1 q key Head = Some (link_at ?ts)"
  proof -
    have "path ?s1 (link_get ?s1 q Head) as None" using p n by (simp add: path_with_node)
    from ins_pos_path [OF this, of key] show ?thesis by (simp only: tw link_at_def)
  qed
  let ?s2 = "set_next ?s1 (fresh s) (hd_opt ?ds)"
  obtain s3 q3 where l3: "link_set ?s2 q (link_at ?ts) (Some (fresh s)) = (s3, q3)"
    by (meson prod.exhaust)
  have p2: "path ?s2 (q_head q) (?ts @ ?ds) None"
    using p1 n path_cong [of "?ts @ ?ds" ?s2 ?s1] by (auto simp del: path_append)
  then have dsp: "path ?s2 (hd_opt ?ds) ?ds None"
    by (rule path_suffix)
  have p3: "path s3 (q_head q3) (?ts @ fresh s # ?ds) None"
  proof (rule link_set_at [OF p2 _ _ _ l3])
    show "distinct ?ts" "set (fresh s # ?ds) \<inter> set ?ts = {}"
      using d n' unfolding distinct_append by auto
  qed (use dsp in simp)
  have nx: "nd_next (nodes s3 (fresh s)) = hd_opt ?ds"
    using link_set_next_other [OF l3] n' by auto
  note fl = link_set_fields [OF l3]
  let ?q' = "(if hd_opt ?ds = None then q3\<lparr>q_tail := Some (fresh s)\<rparr> else q3)
               \<lparr>q_count := q_count q + 1\<rparr>"
  have "ins key d s q = Some (s3, ?q')"
    using h as key pos nx l3 fl(2) link_get_at [OF p1]
    by (auto simp: ins_def Let_def with_node_def alloc_def neq_Nil_conv)
  moreover have "ins_ok s q as key d s3 ?q'"
  proof (rule ins_okI [OF rep])
    have "?ds \<noteq> [] \<Longrightarrow> last_opt as = last_opt ?ds"
      by (metis last_appendR last_opt_def takeWhile_dropWhile_id append_is_Nil_conv)
    then show "q_tail ?q' = last_opt (ins_at q key s as)"
      using rep fl(1) key by (cases ?ds) (auto simp: ins_at_def queue_rep_def)
    show "nodes s3 a = nodes s a" if "a < fresh s" "a \<notin> set as" for a
      using link_set_next_other [OF l3, of a] that by (auto dest: set_takeWhileD)
  qed (use p3 fl n key in \<open>auto simp: ins_at_def\<close>)
  ultimately show ?thesis by blast
qed

lemma ins_refines [refines]:
  assumes "queue_rep s q as"
  shows "\<exists>s' q'. ins key d s q = Some (s', q') \<and> ins_ok s q as key d s' q'"
  using assms ins_refines_empty ins_refines_tail ins_refines_key
  by (metis rev_exhaust)

section \<open>Removal and search\<close>

lemma del_refines [refines]:
  assumes "queue_rep s q as"
  shows "\<exists>q'. del s q = (fst (sq_del (contents s as)), q') \<and> queue_rep s q' (tl as)
           \<and> contents s (tl as) = snd (sq_del (contents s as)) \<and> q_insNeq q' = q_insNeq q"
proof (cases as)
  case Nil
  with assms show ?thesis by (auto simp: del_def queue_rep_def sq_del_def)
next
  case (Cons a bs)
  with assms show ?thesis
    by (cases bs) (auto simp: del_def queue_rep_def sq_del_def Let_def last_opt_def)
qed

lemma sq_find_simps [simp]:
  "sq_find f [] = None"
  "sq_find f (e # es) = (if f (snd e) then snd e else sq_find f es)"
  by (simp_all add: sq_find_def)

lemma sq_remove_simps [simp]:
  "sq_remove f [] = []"
  "sq_remove f (e # es) = (if f (snd e) then es else e # sq_remove f es)"
  by (simp_all add: sq_remove_def)

lemma queue_rep_unlink:
  assumes "queue_rep s q (us @ el # nx # vs)"
  shows "queue_rep (set_next s el (nd_next (nodes s nx)))
           (q\<lparr>q_tail := (if q_tail q = Some nx then Some el else q_tail q), q_count := q_count q - 1\<rparr>)
           (us @ el # vs)"
proof -
  let ?s' = "set_next s el (nd_next (nodes s nx))"
  have d: "el \<notin> set us" "el \<notin> set vs" "nx \<noteq> el" "nx \<notin> set vs"
    using assms by (auto simp: queue_rep_def)
  then have "path ?s' p us r = path s p us r" "path ?s' p vs r = path s p vs r" for p r
    by (auto intro!: path_cong)
  moreover have "q_tail q = Some nx \<longleftrightarrow> vs = []"
    using assms d by (auto simp: queue_rep_def last_opt_def split: if_splits)
  ultimately show ?thesis
    using assms by (auto simp: queue_rep_def last_opt_def)
qed

lemma del_loop_refines:
  assumes "queue_rep s q (us @ el # vs)"
  shows "\<exists>s' q' vs'. del_loop f s q el = Some (sq_find f (contents s vs), s', q')
           \<and> queue_rep s' q' (us @ el # vs')
           \<and> contents s' (us @ el # vs') = contents s (us @ [el]) @ sq_remove f (contents s vs)
           \<and> q_insNeq q' = q_insNeq q \<and> same_outside (set (us @ el # vs)) s s'"
  using assms
proof (induction vs arbitrary: us el)
  case Nil
  then show ?case
    by (intro exI [of _ s] exI [of _ q] exI [of _ "[]"], subst del_loop.simps)
      (auto simp: queue_rep_def same_outside_def)
next
  case (Cons nx vs)
  then have nx: "nd_next (nodes s el) = Some nx" by (auto simp: queue_rep_def)
  show ?case
  proof (cases "f (nd_data (nodes s nx))")
    case True
    let ?s' = "set_next s el (nd_next (nodes s nx))"
    have "contents ?s' (us @ el # vs) = contents s (us @ el # vs)"
      by (intro contents_cong) auto
    with True nx queue_rep_unlink [OF Cons.prems] show ?thesis
      by (intro exI [of _ ?s']
          exI [of _ "q\<lparr>q_tail := (if q_tail q = Some nx then Some el else q_tail q),
                         q_count := q_count q - 1\<rparr>"]
          exI [of _ vs], subst del_loop.simps)
        (simp add: same_outside_def)
  next
    case False
    with nx have "del_loop f s q el = del_loop f s q nx"
      by (subst del_loop.simps) simp
    with Cons.IH [of "us @ [el]" nx] Cons.prems False show ?thesis
      by (auto simp: same_outside_def intro!: exI [of _ "nx # _"])
  qed
qed

lemma del_fun_refines [refines]:
  assumes "queue_rep s q as"
  shows "\<exists>s' q' as'. del_fun f s q = Some (sq_find f (contents s as), s', q')
           \<and> queue_rep s' q' as' \<and> contents s' as' = sq_remove f (contents s as)
           \<and> q_insNeq q' = q_insNeq q \<and> same_outside (set as) s s'"
proof (cases as)
  case Nil
  then show ?thesis
    using assms by (auto simp: del_fun_def queue_rep_head same_outside_def intro!: exI [of _ "[]"])
next
  case (Cons a bs)
  then have h: "q_head q = Some a" using assms by (auto simp: queue_rep_def)
  show ?thesis
  proof (cases "f (nd_data (nodes s a))")
    case True
    with del_refines [OF assms] h Cons show ?thesis
      by (auto simp: del_fun_def sq_del_def same_outside_def Let_def)
  next
    case False
    obtain s' q' vs' where "del_loop f s q a = Some (sq_find f (contents s bs), s', q')"
      "queue_rep s' q' (a # vs')" "contents s' (a # vs') = contents s [a] @ sq_remove f (contents s bs)"
      "q_insNeq q' = q_insNeq q" "same_outside (set (a # bs)) s s'"
      using del_loop_refines [of s q "[]" a bs f] assms Cons by auto
    with False h Cons show ?thesis
      by (intro exI [of _ s'] exI [of _ q'] exI [of _ "a # vs'"]) (simp add: del_fun_def)
  qed
qed

lemma check_loop_refines:
  assumes "path s p as None"
  shows "check_loop f s p = Some (sq_find f (contents s as))"
  using assms by (induction as arbitrary: p) (subst check_loop.simps, auto)+

lemma check_fun_refines [refines]:
  "queue_rep s q as \<Longrightarrow> check_fun f s q = Some (sq_find f (contents s as))"
  by (simp add: check_fun_def check_loop_refines queue_rep_def)

lemma check_cmp_fun:
  "check_cmp d cmp s q
    = check_fun (\<lambda>x. (case cmp of None \<Rightarrow> cmp_stdQueue | Some f \<Rightarrow> f) x d \<noteq> 0) s q"
  by (simp add: check_cmp_def check_fun_def Let_def)

section \<open>Appending, copying\<close>

lemma same_outside_refl [simp]: "same_outside A s s"
  by (simp add: same_outside_def)

lemma same_outside_trans:
  assumes "same_outside A s s'" "same_outside B s' s''" "B \<subseteq> A \<union> {fresh s..}"
  shows "same_outside A s s''"
  using assms unfolding same_outside_def by (metis (no_types, lifting) UnE atLeast_iff leD
      less_le_trans order_trans subsetD)

lemma ins_at_max: "ins_at q max_integer64 s as = as @ [fresh s]"
  by (simp add: ins_at_def)

lemma sq_appends_simps [simp]:
  "sq_appends xs [] = xs"
  "sq_appends xs (e # es) = sq_appends (xs @ [(max_integer64, snd e)]) es"
  by (simp_all add: sq_appends_def)

lemma ins_all_refines:
  assumes "queue_rep s q as" "path s p bs None" "set bs \<inter> set as = {}" "\<forall>b \<in> set bs. b < fresh s"
  shows "\<exists>s' q' as'. ins_all s q p = Some (s', q') \<and> queue_rep s' q' as'
           \<and> contents s' as' = sq_appends (contents s as) (contents s bs)
           \<and> q_insNeq q' = q_insNeq q \<and> same_outside (set as) s s'"
  using assms
proof (induction bs arbitrary: s q as p)
  case Nil
  then show ?case by (auto simp: ins_all.simps)
next
  case (Cons b bs)
  then have p: "p = Some b" by simp
  obtain s1 q1 where i: "ins max_integer64 (nd_data (nodes s b)) s q = Some (s1, q1)"
    and ok: "ins_ok s q as max_integer64 (nd_data (nodes s b)) s1 q1"
    using ins_refines [OF Cons.prems(1)] by blast
  from ok have ok': "queue_rep s1 q1 (as @ [fresh s])" "same_outside (set as) s s1"
    "fresh s1 = Suc (fresh s)" "q_insNeq q1 = q_insNeq q"
    "contents s1 (as @ [fresh s]) = contents s as @ [(max_integer64, nd_data (nodes s b))]"
    by (auto simp: ins_ok_def ins_at_max sq_ins_def)
  have same: "nodes s1 c = nodes s c" if "c \<in> set (b # bs)" for c
    using ok'(2) Cons.prems(3,4) that by (auto simp: same_outside_def)
  then have "contents s1 bs = contents s bs" "path s1 r bs None = path s r bs None" for r
    by (auto intro!: contents_cong path_cong)
  moreover have "set bs \<inter> set (as @ [fresh s]) = {}" "\<forall>b \<in> set bs. b < fresh s1"
    using Cons.prems(3,4) ok'(3) by auto
  ultimately obtain s' q' as' where "ins_all s1 q1 (nd_next (nodes s1 b)) = Some (s', q')"
    "queue_rep s' q' as'" "q_insNeq q' = q_insNeq q" "same_outside (set (as @ [fresh s])) s1 s'"
    "contents s' as' = sq_appends (contents s as) (contents s (b # bs))"
    using Cons.IH [OF ok'(1), of "nd_next (nodes s1 b)"] ok'(4,5) Cons.prems(2) same by auto
  moreover from this(4) have "same_outside (set as) s s'"
    by (rule same_outside_trans [OF ok'(2)]) auto
  ultimately show ?case
    by (subst ins_all.simps) (auto simp: p i)
qed

lemma ins_queue_refines [refines]:
  assumes "queue_rep s q as" "queue_rep s src bs" "set bs \<inter> set as = {}"
  shows "\<exists>s' q' as'. ins_queue src s q = Some (s', q') \<and> queue_rep s' q' as'
           \<and> contents s' as' = sq_appends (contents s as) (contents s bs)
           \<and> q_insNeq q' = q_insNeq q \<and> same_outside (set as) s s'"
  using ins_all_refines [OF assms(1), of _ bs] assms(2,3)
  by (auto simp: ins_queue_def queue_rep_def)

lemma copy_queue_refines [refines]:
  assumes "queue_rep s src bs"
  shows "\<exists>s' q' as'. copy_queue src s = Some (s', q') \<and> queue_rep s' q' as'
           \<and> contents s' as' = sq_appends [] (contents s bs)
           \<and> q_insNeq q' = q_insNeq src \<and> same_outside {} s s'"
proof -
  have "queue_rep s (new_stdQueue\<lparr>q_insNeq := q_insNeq src\<rparr>) []"
    by (simp add: queue_rep_def new_stdQueue_def)
  from ins_all_refines [OF this, of "q_head src" bs] assms show ?thesis
    by (auto simp: copy_queue_def queue_rep_def new_stdQueue_def)
qed

section \<open>Tail recomputation and bulk removal\<close>

lemma set_tail_loop_path:
  assumes "path s (nd_next (nodes s a)) as None"
  shows "set_tail_loop s a c = Some (last (a # as), c + int (length as))"
  using assms
proof (induction as arbitrary: a c)
  case Nil
  then show ?case by (subst set_tail_loop.simps) auto
next
  case (Cons b as)
  then have "set_tail_loop s a c = set_tail_loop s b (c + 1)"
    by (subst set_tail_loop.simps) auto
  with Cons show ?case by auto
qed

definition chain :: "'a store \<Rightarrow> stdq \<Rightarrow> nat list \<Rightarrow> bool" where
  "chain s q as \<longleftrightarrow> path s (q_head q) as None \<and> distinct as \<and> (\<forall>a \<in> set as. a < fresh s)"

lemma queue_rep_chain: "queue_rep s q as \<Longrightarrow> chain s q as"
  by (simp add: queue_rep_def chain_def)

lemma set_tail_refines:
  assumes "chain s q as"
  shows "set_tail s q = Some (q\<lparr>q_count := int (length as), q_tail := last_opt as\<rparr>)"
proof (cases as)
  case Nil
  with assms show ?thesis by (simp add: set_tail_def chain_def)
next
  case (Cons a bs)
  with assms have "path s (nd_next (nodes s a)) bs None" "q_head q = Some a"
    by (auto simp: chain_def)
  with Cons show ?thesis by (simp add: set_tail_def set_tail_loop_path last_opt_def)
qed

lemma set_tail_rep:
  "chain s q as \<Longrightarrow> \<exists>q'. set_tail s q = Some q' \<and> queue_rep s q' as \<and> q_insNeq q' = q_insNeq q"
  by (auto simp: set_tail_refines chain_def queue_rep_def)

text \<open>The optional destination of \<open>move\<close>.\<close>

definition dest_ok :: "'a store \<Rightarrow> stdq option \<Rightarrow> nat list \<Rightarrow> bool" where
  "dest_ok s dest ds \<longleftrightarrow> (case dest of None \<Rightarrow> ds = [] | Some dq \<Rightarrow> queue_rep s dq ds)"

lemma dest_ins:
  assumes "dest_ok s dest ds"
  shows "\<exists>s1 dest1 ds1.
      (case dest of None \<Rightarrow> Some (s, None)
       | Some dq \<Rightarrow> map_option (\<lambda>(s', dq'). (s', Some dq')) (ins max_integer64 d s dq))
        = Some (s1, dest1)
      \<and> dest_ok s1 dest1 ds1 \<and> (dest1 = None \<longleftrightarrow> dest = None)
      \<and> (dest \<noteq> None \<longrightarrow> contents s1 ds1 = contents s ds @ [(max_integer64, d)])
      \<and> same_outside (set ds) s s1 \<and> set ds1 \<subseteq> set ds \<union> {fresh s..}"
proof (cases dest)
  case None
  with assms show ?thesis by (auto simp: dest_ok_def)
next
  case (Some dq)
  with assms have "queue_rep s dq ds" by (simp add: dest_ok_def)
  from ins_refines [OF this, of max_integer64 d] obtain s' dq'
    where "ins max_integer64 d s dq = Some (s', dq')" "ins_ok s dq ds max_integer64 d s' dq'"
    by blast
  with Some show ?thesis
    by (intro exI [of _ s'] exI [of _ "Some dq'"] exI [of _ "ds @ [fresh s]"])
      (auto simp: dest_ok_def ins_ok_def ins_at_max sq_ins_def)
qed

lemma chain_frame:
  assumes "chain s q as" "same_outside A s s'" "set as \<inter> A = {}"
  shows "chain s' q as \<and> contents s' as = contents s as"
proof -
  have same: "nodes s' a = nodes s a" if "a \<in> set as" for a
    using assms that by (auto simp: chain_def same_outside_def)
  then have "path s' p as r = path s p as r" for p r by (simp add: path_cong)
  with assms(1,2) same show ?thesis by (auto simp: chain_def same_outside_def contents_def)
qed

lemma dest_ok_frame:
  assumes "dest_ok s dest ds" "same_outside A s s'" "set ds \<inter> A = {}"
  shows "dest_ok s' dest ds \<and> contents s' ds = contents s ds"
  using assms queue_rep_frame [OF _ assms(2)] by (cases dest) (auto simp: dest_ok_def)

lemma chain_drop_link:
  assumes "chain s q (us @ a # vs)" "link_set s q (link_at us) (nd_next (nodes s a)) = (s', q')"
  shows "chain s' q' (us @ vs)" "contents s' (us @ vs) = contents s (us @ vs)"
    "same_outside (set us) s s'"
proof -
  have "path s (nd_next (nodes s a)) vs None" using assms(1) by (auto simp: chain_def)
  with assms have "path s' (q_head q') (us @ vs) None"
    by (intro link_set_at [OF _ _ _ _ assms(2), of "a # vs"]) (auto simp: chain_def)
  with assms(1) show "chain s' q' (us @ vs)"
    by (auto simp: chain_def link_set_fields [OF assms(2)])
  show "contents s' (us @ vs) = contents s (us @ vs)"
    by (intro contents_cong) (simp add: link_set_fields [OF assms(2)])
  show "same_outside (set us) s s'" by (rule link_set_outside [OF assms(2)])
qed

definition move_ok :: "('a sptr \<Rightarrow> int) \<Rightarrow> 'a store \<Rightarrow> nat list \<Rightarrow> nat list \<Rightarrow> nat list
    \<Rightarrow> stdq option \<Rightarrow> 'a store \<times> stdq \<times> stdq option \<times> int \<Rightarrow> int \<Rightarrow> bool" where
  "move_ok f s us vs ds dest r c \<longleftrightarrow>
     (case r of (s', q', dest', c') \<Rightarrow>
       c' = c + int (length (fst (sq_move f (contents s vs))))
       \<and> (\<exists>vs' ds'. chain s' q' (us @ vs') \<and> set ds' \<inter> set (us @ vs') = {}
            \<and> contents s' (us @ vs') = contents s us @ snd (sq_move f (contents s vs))
            \<and> dest_ok s' dest' ds' \<and> (dest' = None \<longleftrightarrow> dest = None)
            \<and> (dest \<noteq> None \<longrightarrow> contents s' ds'
                 = sq_appends (contents s ds) (fst (sq_move f (contents s vs))))))"

lemma move_loop_refines:
  assumes "chain s q (us @ vs)" "dest_ok s dest ds" "set ds \<inter> set (us @ vs) = {}"
  shows "\<exists>r. move_loop f s q dest (link_at us) c = Some r \<and> move_ok f s us vs ds dest r c"
  using assms
proof (induction vs arbitrary: us s q dest ds c)
  case Nil
  then have "link_get s q (link_at us) = None" using link_get_at [of s q us "[]"]
    by (simp add: chain_def)
  moreover have "move_ok f s us [] ds dest (s, q, dest, c) c"
    unfolding move_ok_def prod.case
    by (intro conjI, simp, rule exI [of _ "[]"], rule exI [of _ ds]) (use Nil in simp)
  ultimately show ?case
    by (subst move_loop.simps) simp
next
  case (Cons a vs)
  then have g: "link_get s q (link_at us) = Some a"
    using link_get_at [of s q us "a # vs"] by (simp add: chain_def)
  consider "f (nd_data (nodes s a)) > 0" | "f (nd_data (nodes s a)) < 0" | "f (nd_data (nodes s a)) = 0"
    by linarith
  then show ?case
  proof cases
    case 1
    obtain s1 dest1 ds1 where
      i: "(case dest of None \<Rightarrow> Some (s, None)
         | Some dq \<Rightarrow> map_option (\<lambda>(s', dq'). (s', Some dq')) (ins max_integer64 (nd_data (nodes s a)) s dq))
          = Some (s1, dest1)"
      and d1: "dest_ok s1 dest1 ds1" "dest1 = None \<longleftrightarrow> dest = None"
        "dest \<noteq> None \<longrightarrow> contents s1 ds1 = contents s ds @ [(max_integer64, nd_data (nodes s a))]"
        "same_outside (set ds) s s1" "set ds1 \<subseteq> set ds \<union> {fresh s..}"
      using dest_ins [OF Cons.prems(2), of "nd_data (nodes s a)"] by blast
    obtain s2 q2 where w: "link_set s1 q (link_at us) (nd_next (nodes s1 a)) = (s2, q2)"
      by (meson prod.exhaust)
    have c1: "chain s1 q (us @ a # vs)" "contents s1 (us @ a # vs) = contents s (us @ a # vs)"
      using chain_frame [OF Cons.prems(1) d1(4)] Cons.prems(3) by blast+
    note c2 = chain_drop_link [OF c1(1) w]
    have "\<forall>b \<in> set (us @ a # vs). b < fresh s"
      using Cons.prems(1) by (simp add: chain_def)
    then have dj: "set ds1 \<inter> set (us @ a # vs) = {}"
      using d1(5) Cons.prems(3) by fastforce
    have d2: "dest_ok s2 dest1 ds1" "contents s2 ds1 = contents s1 ds1"
      using dest_ok_frame [OF d1(1) c2(3)] dj by auto
    have dj2: "set ds1 \<inter> set (us @ vs) = {}" using dj by auto
    obtain r where r: "move_loop f s2 q2 dest1 (link_at us) (c + 1) = Some r"
      "move_ok f s2 us vs ds1 dest1 r (c + 1)"
      using Cons.IH [OF c2(1) d2(1) dj2] by blast
    have vs: "contents s2 vs = contents s vs" "contents s2 us = contents s us"
      using c2(2) c1(2) by auto
    have "move_ok f s us (a # vs) ds dest r c"
      using r(2) 1 d1(2,3) d2(2) vs
      by (cases "sq_move f (contents s vs)") (auto simp: move_ok_def Let_def split: prod.splits)
    with r(1) 1 show ?thesis
      by (subst move_loop.simps) (simp add: g i w Let_def)
  next
    case 2
    have "move_ok f s us (a # vs) ds dest (s, q, dest, c) c"
      unfolding move_ok_def prod.case
      by (intro conjI, use 2 in simp, rule exI [of _ "a # vs"], rule exI [of _ ds])
        (use 2 Cons.prems in simp)
    with 2 show ?thesis
      by (subst move_loop.simps) (simp add: g)
  next
    case 3
    then have "move_loop f s q dest (link_at us) c = move_loop f s q dest (link_at (us @ [a])) c"
      by (subst move_loop.simps) (simp add: g)
    moreover obtain r where "move_loop f s q dest (link_at (us @ [a])) c = Some r"
      "move_ok f s (us @ [a]) vs ds dest r c"
      using Cons.IH [of s q "us @ [a]" dest ds c] Cons.prems by auto
    moreover from this(2) 3 have "move_ok f s us (a # vs) ds dest r c"
      unfolding move_ok_def
      by (cases "sq_move f (contents s vs)") (force simp: Let_def split: prod.splits)
    ultimately show ?thesis by auto
  qed
qed

lemma move_refines [refines]:
  assumes "queue_rep s q as" "dest_ok s dest ds" "set ds \<inter> set as = {}"
    and "sq_move f (contents s as) = (out, stay)"
  shows "\<exists>s' q' dest' as' ds'. move dest f s q = Some (int (length out), s', q', dest')
           \<and> queue_rep s' q' as' \<and> contents s' as' = stay
           \<and> dest_ok s' dest' ds' \<and> (dest' = None \<longleftrightarrow> dest = None)
           \<and> (dest \<noteq> None \<longrightarrow> contents s' ds' = sq_appends (contents s ds) out)"
proof -
  obtain s' q' dest' as' ds' where
    l: "move_loop f s q dest Head 0 = Some (s', q', dest', int (length out))"
    and c: "chain s' q' as'" "contents s' as' = stay" "dest_ok s' dest' ds'"
      "dest' = None \<longleftrightarrow> dest = None"
      "dest \<noteq> None \<longrightarrow> contents s' ds' = sq_appends (contents s ds) out"
    using move_loop_refines [of s q "[]" as dest ds f 0] assms
    by (auto simp: move_ok_def queue_rep_chain)
  from set_tail_rep [OF c(1)] obtain q'' where "set_tail s' q' = Some q''" "queue_rep s' q'' as'"
    by blast
  with l c show ?thesis by (auto simp: move_def)
qed

section \<open>Appending a queue to itself\<close>

text \<open>
  \<open>ins(q)\<close> reads the source while it appends: when source and destination are one object, each
  round leaves one more node ahead of the cursor.
\<close>

lemma ins_all_self:
  assumes "ins_all s q p = Some r"
  shows "\<forall>as a. queue_rep s q as \<longrightarrow> p = Some a \<longrightarrow> a \<notin> set as"
proof (rule ins_all.raw_induct [where P = "\<lambda>s q p r. \<forall>as a. queue_rep s q as \<longrightarrow> p = Some a \<longrightarrow> a \<notin> set as",
      OF _ assms], intro allI impI notI)
  fix f s q p r as a
  assume IH: "\<And>s q p r. f s q p = Some r \<Longrightarrow> \<forall>as a. queue_rep s q as \<longrightarrow> p = Some a \<longrightarrow> a \<notin> set as"
    and eq: "(case p of None \<Rightarrow> Some (s, q)
       | Some a \<Rightarrow> Option.bind (ins max_integer64 (nd_data (nodes s a)) s q)
            (\<lambda>r. f (fst r) (snd r) (nd_next (nodes (fst r) a)))) = Some r"
    and rep: "queue_rep s q as" and p: "p = Some a" and a: "a \<in> set as"
  obtain s' q' where i: "ins max_integer64 (nd_data (nodes s a)) s q = Some (s', q')"
    and rep': "queue_rep s' q' (as @ [fresh s])"
    using ins_refines [OF rep, of max_integer64] unfolding ins_ok_def ins_at_max by blast
  from a obtain us vs where as: "as @ [fresh s] = us @ a # vs" "vs \<noteq> []"
    by (metis Cons_eq_appendI append.assoc append_is_Nil_conv list.distinct(1) split_list)
  with rep' obtain b where "nd_next (nodes s' a) = Some b" "b \<in> set (as @ [fresh s])"
    by (cases vs) (auto simp: queue_rep_def)
  moreover from eq p i have "f s' q' (nd_next (nodes s' a)) = Some r" by simp
  ultimately show False using IH rep' by blast
qed

lemma ins_queue_self_diverges:
  assumes "queue_rep s q as" "as \<noteq> []"
  shows "ins_queue q s q = None"
proof (rule ccontr)
  assume "ins_queue q s q \<noteq> None"
  then obtain r where "ins_all s q (q_head q) = Some r" by (auto simp: ins_queue_def)
  from ins_all_self [OF this] assms(1) have "\<forall>a. q_head q = Some a \<longrightarrow> a \<notin> set as" by blast
  with assms show False by (cases as) (auto simp: queue_rep_head)
qed

section \<open>Insertion next to a reference element\<close>

fun sq_ref_at :: "('a sptr \<Rightarrow> int) \<Rightarrow> 'a sptr \<Rightarrow> (int \<times> 'a sptr) list \<Rightarrow> (int \<times> 'a sptr) list option" where
  "sq_ref_at f d [] = None"
| "sq_ref_at f d (e # es) =
     (if f (snd e) = 0 then map_option ((#) e) (sq_ref_at f d es)
      else if f (snd e) > 0 then Some (e # (0, d) # es) else Some ((0, d) # e # es))"

definition sq_ins_ref :: "('a sptr \<Rightarrow> int) \<Rightarrow> 'a sptr \<Rightarrow> (int \<times> 'a sptr) list \<Rightarrow> (int \<times> 'a sptr) list" where
  "sq_ins_ref f d xs =
     (case sq_ref_at f d xs of
        Some ys \<Rightarrow> ys
      | None \<Rightarrow> if f None = 0 then xs else if f None > 0 then (0, d) # xs else xs @ [(0, d)])"

text \<open>The queue with a correct tail, whatever its count.\<close>

definition tailed :: "'a store \<Rightarrow> stdq \<Rightarrow> nat list \<Rightarrow> bool" where
  "tailed s q as \<longleftrightarrow> chain s q as \<and> q_tail q = last_opt as"

definition ref_ok :: "stdq \<Rightarrow> (int \<times> 'a sptr) list \<Rightarrow> 'a store \<times> stdq \<Rightarrow> bool" where
  "ref_ok q ys r \<longleftrightarrow> (case r of (s', q') \<Rightarrow>
     q_count q' = q_count q \<and> (\<exists>as'. tailed s' q' as' \<and> contents s' as' = ys))"

lemma tailed_before:
  assumes t: "tailed s q (us @ a # vs)"
    and l: "link_set (set_next (with_node s 0 d) (fresh s) (Some a)) q (link_at us) (Some (fresh s)) = (s3, q3)"
  shows "tailed s3 q3 (us @ fresh s # a # vs)"
    "contents s3 (us @ fresh s # a # vs) = contents s us @ (0, d) # contents s (a # vs)"
    "advance_tail s3 q3 = Some q3" "q_count q3 = q_count q"
proof -
  let ?s2 = "set_next (with_node s 0 d) (fresh s) (Some a)"
  have n: "fresh s \<notin> set (us @ a # vs)" and c: "chain s q (us @ a # vs)"
    using t by (auto simp: tailed_def chain_def)
  then have "path ?s2 p us r = path s p us r" "path ?s2 p vs r = path s p vs r" for p r
    by (auto intro!: path_cong)
  then have "path ?s2 (q_head q) (us @ a # vs) None" "path ?s2 (Some a) (a # vs) None"
    using c n by (auto simp: chain_def)
  then have p3: "path s3 (q_head q3) (us @ fresh s # a # vs) None"
    using link_set_at [of ?s2 q us "a # vs" "fresh s # a # vs", OF _ _ _ _ l] c n
    by (auto simp: chain_def)
  note fl = link_set_fields [OF l]
  from p3 c n show "tailed s3 q3 (us @ fresh s # a # vs)"
    using t by (auto simp: tailed_def chain_def fl last_opt_def less_Suc_eq)
  show "contents s3 (us @ fresh s # a # vs) = contents s us @ (0, d) # contents s (a # vs)"
    using n by (auto simp: contents_def fl)
  have "path s3 (Some (last (a # vs))) [last (a # vs)] None"
    using p3 by (cases vs rule: rev_cases) auto
  moreover have "q_tail q3 = Some (last (a # vs))"
    using t by (simp add: tailed_def fl last_opt_def)
  ultimately show "advance_tail s3 q3 = Some q3" by (simp add: advance_tail_def)
  show "q_count q3 = q_count q" by (rule fl)
qed

lemma tailed_after:
  fixes d :: "'a sptr"
  assumes t: "tailed s q (us @ a # vs)"
  defines "s3 \<equiv> set_next (set_next (with_node s 0 d) (fresh s) (nd_next (nodes s a))) a (Some (fresh s))"
  shows "\<exists>q'. advance_tail s3 q = Some q' \<and> tailed s3 q' (us @ a # fresh s # vs)
           \<and> contents s3 (us @ a # fresh s # vs) = contents s (us @ [a]) @ (0, d) # contents s vs
           \<and> q_count q' = q_count q"
proof -
  have c: "chain s q (us @ a # vs)" and n: "fresh s \<noteq> a" "fresh s \<notin> set us" "fresh s \<notin> set vs"
    using t by (auto simp: tailed_def chain_def)
  then have a: "a \<notin> set us" "a \<notin> set vs" by (auto simp: chain_def)
  have "path s3 p us r = path s p us r" "path s3 p vs r = path s p vs r" for p r
    using n a unfolding s3_def by (auto intro!: path_cong)
  then have c3: "chain s3 q (us @ a # fresh s # vs)"
    using c n by (auto simp: chain_def s3_def less_Suc_eq)
  have ct: "contents s3 (us @ a # fresh s # vs) = contents s (us @ [a]) @ (0, d) # contents s vs"
    using n a by (auto simp: contents_def s3_def)
  show ?thesis
  proof (cases vs rule: rev_cases)
    case Nil
    then have "advance_tail s3 q = Some (q\<lparr>q_tail := Some (fresh s)\<rparr>)"
      using t n by (simp add: advance_tail_def tailed_def s3_def)
    with Nil c3 ct show ?thesis by (auto simp: tailed_def chain_def last_opt_def)
  next
    case (snoc ws w)
    then have "nd_next (nodes s3 w) = None" using c3 by (auto simp: chain_def)
    then have "advance_tail s3 q = Some q"
      using t snoc by (simp add: advance_tail_def tailed_def last_opt_def)
    with snoc c3 ct t show ?thesis by (auto simp: tailed_def last_opt_def)
  qed
qed

lemma ins_ref_loop_refines:
  assumes "tailed s q (us @ vs)" and "sq_ref_at f d (contents s vs) = Some ys"
  shows "\<exists>r. ins_ref_loop f d s q (link_at us) = Some r \<and> ref_ok q (contents s us @ ys) r"
  using assms
proof (induction vs arbitrary: us ys)
  case Nil
  then show ?case by simp
next
  case (Cons a vs)
  then have g: "link_get s q (link_at us) = Some a"
    using link_get_at [of s q us "a # vs"] by (simp add: tailed_def chain_def)
  have alloc: "alloc s = (fresh s, snd (alloc s))" by (simp add: alloc_def)
  consider "f (nd_data (nodes s a)) = 0" | "f (nd_data (nodes s a)) > 0" | "f (nd_data (nodes s a)) < 0"
    by linarith
  then show ?case
  proof cases
    case 1
    with Cons.prems obtain zs where z: "sq_ref_at f d (contents s vs) = Some zs"
      "ys = (nd_key (nodes s a), nd_data (nodes s a)) # zs" by auto
    have "ins_ref_loop f d s q (link_at us) = ins_ref_loop f d s q (link_at (us @ [a]))"
      by (subst ins_ref_loop.simps) (simp add: g 1)
    with Cons.IH [of "us @ [a]" zs] Cons.prems(1) z show ?thesis by auto
  next
    case 2
    have n: "a \<noteq> fresh s" using Cons.prems(1) by (auto simp: tailed_def chain_def)
    from tailed_after [OF Cons.prems(1), of d] obtain q' where q':
      "advance_tail (set_next (set_next (with_node s 0 d) (fresh s) (nd_next (nodes s a))) a (Some (fresh s))) q = Some q'"
      "tailed (set_next (set_next (with_node s 0 d) (fresh s) (nd_next (nodes s a))) a (Some (fresh s))) q' (us @ a # fresh s # vs)"
      "contents (set_next (set_next (with_node s 0 d) (fresh s) (nd_next (nodes s a))) a (Some (fresh s))) (us @ a # fresh s # vs)
        = contents s (us @ [a]) @ (0, d) # contents s vs"
      "q_count q' = q_count q" by blast
    from 2 Cons.prems(2) q' n show ?thesis
      by (subst ins_ref_loop.simps, subst alloc)
        (auto simp: g Let_def with_node_def [symmetric] ref_ok_def)
  next
    case 3
    obtain s3 q3 where l: "link_set (set_next (with_node s 0 d) (fresh s) (Some a)) q (link_at us) (Some (fresh s)) = (s3, q3)"
      by (meson prod.exhaust)
    from 3 Cons.prems(2) tailed_before [OF Cons.prems(1) l] show ?thesis
      by (subst ins_ref_loop.simps, subst alloc)
        (auto simp: g l Let_def with_node_def [symmetric] ref_ok_def)
  qed
qed

lemma ins_ref_loop_end:
  assumes "chain s q (us @ vs)" and "sq_ref_at f d (contents s vs) = None"
  shows "ins_ref_loop f d s q (link_at us) = ins_ref_loop f d s q (link_at (us @ vs))"
  using assms
proof (induction vs arbitrary: us)
  case (Cons a vs)
  then have g: "link_get s q (link_at us) = Some a"
    using link_get_at [of s q us "a # vs"] by (simp add: chain_def)
  from Cons.prems(2) have z: "f (nd_data (nodes s a)) = 0" "sq_ref_at f d (contents s vs) = None"
    by (auto split: if_splits)
  have "ins_ref_loop f d s q (link_at us) = ins_ref_loop f d s q (link_at (us @ [a]))"
    by (subst ins_ref_loop.simps) (simp add: g z)
  with Cons.IH [of "us @ [a]"] Cons.prems(1) z show ?case by simp
qed simp

lemma ins_ref_not_found:
  assumes t: "tailed s q as" and none: "sq_ref_at f d (contents s as) = None"
  shows "\<exists>r. ins_ref_loop f d s q Head = Some r \<and> ref_ok q (sq_ins_ref f d (contents s as)) r"
proof -
  let ?l = "link_at as" and ?s1 = "with_node s 0 d" and ?n = "fresh s"
  have c: "chain s q as" "q_tail q = last_opt as" and n: "?n \<notin> set as"
    using t by (auto simp: tailed_def chain_def)
  have e: "ins_ref_loop f d s q Head = ins_ref_loop f d s q ?l" and g: "link_get s q ?l = None"
    using ins_ref_loop_end [of s q "[]" as f d] c(1) none link_get_at [of s q as "[]"]
    by (simp_all add: chain_def)
  have al: "alloc s = (?n, snd (alloc s))" by (simp add: alloc_def)
  consider "f None = 0" | "f None > 0" | "f None < 0" by linarith
  then show ?thesis
  proof cases
    case 1
    with none t show ?thesis
      by (subst e, subst ins_ref_loop.simps) (auto simp: g ref_ok_def sq_ins_ref_def)
  next
    case 2
    let ?s' = "set_next ?s1 ?n (q_head q)"
    let ?q' = "if q_tail q = None then q\<lparr>q_head := Some ?n, q_tail := Some ?n\<rparr>
               else q\<lparr>q_head := Some ?n\<rparr>"
    have "path ?s' p as r = path s p as r" for p r using n by (intro path_cong) auto
    then have "tailed ?s' ?q' (?n # as)"
      using c n by (auto simp: tailed_def chain_def last_opt_def)
    moreover have "contents ?s' (?n # as) = (0, d) # contents s as"
      using n by (auto simp: contents_def)
    ultimately show ?thesis using 2 none
      by (subst e, subst ins_ref_loop.simps, subst al)
        (auto simp: g Let_def with_node_def [symmetric] ref_ok_def sq_ins_ref_def)
  next
    case 3
    show ?thesis
    proof (cases as rule: rev_cases)
      case Nil
      then have "tailed ?s1 (q\<lparr>q_tail := Some ?n, q_head := Some ?n\<rparr>) [?n]"
        by (auto simp: tailed_def chain_def)
      moreover have "q_head q = None" using c Nil by (simp add: chain_def)
      ultimately show ?thesis using 3 none Nil c
        by (subst e, subst ins_ref_loop.simps, subst al)
          (auto simp: g Let_def with_node_def [symmetric] ref_ok_def sq_ins_ref_def
            intro!: exI [of _ "[fresh s]"])
    next
      case (snoc us t)
      let ?s' = "set_next ?s1 t (Some ?n)"
      have tn: "t \<notin> set us" "t \<noteq> ?n" using c(1) n snoc by (auto simp: chain_def)
      have "path ?s' p us r = path s p us r" for p r using n tn snoc by (intro path_cong) auto
      then have "tailed ?s' (q\<lparr>q_tail := Some ?n\<rparr>) (as @ [?n])"
        using c n tn snoc by (auto simp: tailed_def chain_def less_Suc_eq)
      moreover have "contents ?s' (as @ [?n]) = contents s as @ [(0, d)]"
        using n tn by (auto simp: contents_def)
      moreover have "q_tail q = Some t" using c(2) snoc by simp
      ultimately show ?thesis using 3 none
        by (subst e, subst ins_ref_loop.simps, subst al)
          (auto simp: g Let_def with_node_def [symmetric] ref_ok_def sq_ins_ref_def)
    qed
  qed
qed

lemma ins_ref_refines [refines]:
  assumes "tailed s q as"
  shows "\<exists>r. ins_ref ref d (Some f) s q = Some r
           \<and> ref_ok q (sq_ins_ref (\<lambda>x. f x ref) d (contents s as)) r"
proof (cases "sq_ref_at (\<lambda>x. f x ref) d (contents s as)")
  case None
  from ins_ref_not_found [OF assms None] show ?thesis by (simp add: ins_ref_def)
next
  case (Some ys)
  from ins_ref_loop_refines [of s q "[]" as, OF _ Some] assms Some show ?thesis
    by (simp add: ins_ref_def sq_ins_ref_def)
qed

section \<open>Properties\<close>

text \<open>A queue of two elements, for the witnesses.\<close>

definition two_store :: "nat store" where
  "two_store = \<lparr>nodes = (\<lambda>_. null_node)
      (0 := \<lparr>nd_next = Some 1, nd_data = Some 7, nd_key = 5\<rparr>,
       1 := \<lparr>nd_next = None, nd_data = Some 8, nd_key = 9\<rparr>), fresh = 2\<rparr>"

definition two_queue :: stdq where
  "two_queue = \<lparr>q_head = Some 0, q_tail = Some 1, q_count = 2, q_insNeq = True\<rparr>"

lemma two_queue_rep: "queue_rep two_store two_queue [0, 1]"
  by (simp add: queue_rep_def two_store_def two_queue_def last_opt_def)

lemma two_simps:
  "nodes two_store 0 = \<lparr>nd_next = Some 1, nd_data = Some 7, nd_key = 5\<rparr>"
  "nodes two_store (Suc 0) = \<lparr>nd_next = None, nd_data = Some 8, nd_key = 9\<rparr>"
  "q_insNeq two_queue = True"
  by (simp_all add: two_store_def two_queue_def)

text \<open>C26: \<open>ins(key,data)\<close> always returns, keeps head, tail and count consistent, leaves every node
  outside the queue alone, and inserts in front of the first element whose key is larger
  (\<open>insNeq\<close> set) or not smaller (\<open>insNeq\<close> clear), at the end for \<open>MAX_INTEGER64\<close>; a sorted queue
  stays sorted.\<close>

theorem queue_ins_correct:
  assumes "queue_rep s q as" "sorted (map fst (contents s as))"
    and "\<forall>e \<in> set (contents s as). fst e \<le> max_integer64"
  shows "\<exists>s' q' as'. ins key d s q = Some (s', q') \<and> queue_rep s' q' as'
           \<and> contents s' as' = sq_ins (q_insNeq q) key d (contents s as)
           \<and> sorted (map fst (contents s' as')) \<and> same_outside (set as) s s'"
proof -
  obtain s' q' where "ins key d s q = Some (s', q')" "ins_ok s q as key d s' q'"
    using ins_refines [OF assms(1)] by blast
  then show ?thesis
    using sorted_sq_ins [OF assms(2,3), of "q_insNeq q" key d]
    by (intro exI [of _ s'] exI [of _ q'] exI [of _ "ins_at q key s as"]) (simp add: ins_ok_def)
qed

theorem queue_ins_correct_witness:
  "\<exists>s' q' as'. ins 5 (Some 1) two_store two_queue = Some (s', q') \<and> queue_rep s' q' as'
     \<and> contents s' as' = [(5, Some 7), (5, Some 1), (9, Some 8)]"
proof -
  have "sorted (map fst (contents two_store [0, 1]))"
    "\<forall>e \<in> set (contents two_store [0, 1]). fst e \<le> max_integer64"
    by (simp_all add: two_simps max_integer64_def)
  from queue_ins_correct [OF two_queue_rep this, of 5 "Some 1"] show ?thesis
    by (auto simp: sq_ins_def key_passes_def max_integer64_def two_simps)
qed

text \<open>C27: \<open>del(cmp)\<close> and \<open>check(cmp)\<close> always return; both answer the first datum that passes the
  test, and \<open>del\<close> unlinks exactly that element, wherever it is, with tail and count kept right.\<close>

theorem queue_del_correct:
  assumes "queue_rep s q as"
  shows "check_fun f s q = Some (sq_find f (contents s as))
    \<and> (\<exists>s' q' as'. del_fun f s q = Some (sq_find f (contents s as), s', q')
         \<and> queue_rep s' q' as' \<and> contents s' as' = sq_remove f (contents s as)
         \<and> same_outside (set as) s s')"
  using del_fun_refines [OF assms, of f] check_fun_refines [OF assms, of f] by blast

theorem queue_del_correct_witness:
  "\<exists>s' q' as'. del_fun (\<lambda>d. d = Some 8) two_store two_queue = Some (Some 8, s', q')
     \<and> queue_rep s' q' as' \<and> contents s' as' = [(5, Some 7)]"
  using queue_del_correct [OF two_queue_rep, of "\<lambda>d. d = Some 8"]
  by (auto simp: two_simps)

text \<open>the copy constructor builds a separate queue with the same data in the same order and the
  same \<open>insNeq\<close>, and does not touch the source; the keys are not copied, every element of the copy
  is filed under \<open>MAX_INTEGER64\<close>.\<close>

theorem queue_copy_correct:
  assumes "queue_rep s src bs"
  shows "\<exists>s' q' as'. copy_queue src s = Some (s', q') \<and> queue_rep s' q' as'
           \<and> contents s' as' = map (\<lambda>e. (max_integer64, snd e)) (contents s bs)
           \<and> q_insNeq q' = q_insNeq src \<and> queue_rep s' src bs \<and> contents s' bs = contents s bs"
proof -
  obtain s' q' as' where *: "copy_queue src s = Some (s', q')" "queue_rep s' q' as'"
    "contents s' as' = sq_appends [] (contents s bs)" "q_insNeq q' = q_insNeq src"
    "same_outside {} s s'"
    using copy_queue_refines [OF assms] by blast
  with queue_rep_frame [OF assms *(5)] show ?thesis by (auto simp: sq_appends_def)
qed

theorem queue_copy_correct_witness:
  "\<exists>s' q' as'. copy_queue two_queue two_store = Some (s', q') \<and> queue_rep s' q' as'
     \<and> contents s' as' = [(max_integer64, Some 7), (max_integer64, Some 8)]"
  using queue_copy_correct [OF two_queue_rep] by (auto simp: two_simps)

text \<open>\<open>move(dest,cmp)\<close> takes out every element with \<open>cmp > 0\<close> up to the first with \<open>cmp < 0\<close>,
  appends them to \<open>dest\<close> in order, returns their number and leaves both queues well formed.\<close>

theorem queue_move_correct:
  assumes "queue_rep s q as" "queue_rep s dq ds" "set ds \<inter> set as = {}"
    and "sq_move f (contents s as) = (out, stay)"
  shows "\<exists>s' q' dq' as' ds'. move (Some dq) f s q = Some (int (length out), s', q', Some dq')
           \<and> queue_rep s' q' as' \<and> contents s' as' = stay
           \<and> queue_rep s' dq' ds' \<and> contents s' ds' = sq_appends (contents s ds) out"
proof -
  have "dest_ok s (Some dq) ds" using assms(2) by (simp add: dest_ok_def)
  from move_refines [OF assms(1) this assms(3,4)] show ?thesis
    by (auto simp: dest_ok_def split: option.splits)
qed

theorem queue_move_correct_witness:
  "\<exists>s' q' dq'. move (Some new_stdQueue) (\<lambda>d. if d = Some 7 then 1 else 0) two_store two_queue
     = Some (1, s', q', Some dq')"
  using queue_move_correct [OF two_queue_rep queue_rep_new,
      of "\<lambda>d. if d = Some 7 then 1 else 0" "[(5, Some 7)]" "[(9, Some 8)]"]
  by (auto simp: two_simps)

text \<open>appending a non-empty queue to itself with \<open>ins(q)\<close> never returns, while appending a
  disjoint queue always does and yields the two data lists one after the other.\<close>

theorem queue_append_correct:
  assumes "queue_rep s q as" "as \<noteq> []" "queue_rep s src bs" "set bs \<inter> set as = {}"
  shows "ins_queue q s q = None
    \<and> (\<exists>s' q' as'. ins_queue src s q = Some (s', q') \<and> queue_rep s' q' as'
         \<and> contents s' as' = sq_appends (contents s as) (contents s bs))"
  using ins_queue_self_diverges [OF assms(1,2)] ins_queue_refines [OF assms(1,3,4)] by blast

theorem queue_append_correct_witness:
  "ins_queue two_queue two_store two_queue = None"
  using queue_append_correct [OF two_queue_rep _ queue_rep_new] by simp

text \<open>\<open>ins(ref,d,cmp)\<close> places the element after or before the first one that \<open>cmp\<close> picks (else
  at the head or tail) and keeps the links and the tail right, but never counts it: after an
  insertion the count is one less than the number of elements.\<close>

theorem queue_ins_ref_count:
  assumes "queue_rep s q as" "sq_ref_at (\<lambda>x. f x ref) d (contents s as) = Some ys"
  shows "\<exists>s' q' as'. ins_ref ref d (Some f) s q = Some (s', q') \<and> tailed s' q' as'
           \<and> contents s' as' = ys \<and> q_count q' = int (length as) \<and> length as' = length as + 1"
proof -
  have t: "tailed s q as" using assms(1) by (auto simp: tailed_def queue_rep_chain queue_rep_def)
  have len: "sq_ref_at g d xs = Some ys \<Longrightarrow> length ys = Suc (length xs)" for g xs ys
    by (induction xs arbitrary: ys) (auto split: if_splits)
  obtain s' q' as' where "ins_ref ref d (Some f) s q = Some (s', q')"
    "q_count q' = q_count q" "tailed s' q' as'" "contents s' as' = ys"
    using ins_ref_refines [OF t, of ref d f] assms(2) by (auto simp: ref_ok_def sq_ins_ref_def)
  moreover from this(4) len [OF assms(2)] have "length as' = length as + 1"
    by (metis Suc_eq_plus1 contents_simps(4))
  ultimately show ?thesis using assms(1) by (auto simp: queue_rep_def)
qed

theorem queue_ins_ref_count_witness:
  "\<exists>s' q' as'. ins_ref (Some 7) (Some 1) (Some (\<lambda>x r. if x = r then 1 else 0)) two_store two_queue
     = Some (s', q') \<and> tailed s' q' as'
     \<and> contents s' as' = [(5, Some 7), (0, Some 1), (9, Some 8)] \<and> q_count q' = 2"
  using queue_ins_ref_count [OF two_queue_rep, of "\<lambda>x r. if x = r then 1 else 0" "Some 7"
      "Some 1" "[(5, Some 7), (0, Some 1), (9, Some 8)]"]
  by (auto simp: two_simps)

end
