(* ===== verification/StdQueueSort.thy ===== *)
theory StdQueueSort
  imports StdQueueRefine "HOL-Library.Multiset"
begin

text \<open>
  The merge sort of \<open>stdQueue<T>\<close> (\<open>_sort\<close>, \<open>_div\<close> and \<open>sort\<close> of \<open>src/src/h/ts2/c++/stdQueue.h\<close>).
  Both functions own the chain of nodes they relink, so a chain is the list of the data it
  carries.  \<open>sort\<close> works on a copy of the queue.
\<close>

section \<open>Definitions\<close>

text \<open>The merge loop of \<open>_sort\<close>: on a tie both heads are taken, the left one first.\<close>

fun merge_chains :: "('a sptr \<Rightarrow> 'a sptr \<Rightarrow> int) \<Rightarrow> 'a sptr list \<Rightarrow> 'a sptr list \<Rightarrow> 'a sptr list" where
  "merge_chains cmp [] b = b"
| "merge_chains cmp a [] = a"
| "merge_chains cmp (x # xs) (y # ys) =
     (if cmp x y < 0 then x # merge_chains cmp xs (y # ys)
      else if cmp x y > 0 then y # merge_chains cmp (x # xs) ys
      else x # y # merge_chains cmp xs ys)"

text \<open>The loop that looks for an adjacent pair out of order.\<close>

fun out_of_order :: "('a sptr \<Rightarrow> 'a sptr \<Rightarrow> int) \<Rightarrow> 'a sptr list \<Rightarrow> bool" where
  "out_of_order cmp (x # y # xs) = (cmp x y > 0 \<or> out_of_order cmp (y # xs))"
| "out_of_order cmp _ = False"

function sort_chain :: "('a sptr \<Rightarrow> 'a sptr \<Rightarrow> int) \<Rightarrow> 'a sptr list \<Rightarrow> 'a sptr list"
  and div_chain :: "('a sptr \<Rightarrow> 'a sptr \<Rightarrow> int) \<Rightarrow> 'a sptr list \<Rightarrow> 'a sptr list \<times> 'a sptr list"
where
  "sort_chain cmp inp =
     (if length inp \<le> 1 then inp
      else merge_chains cmp (fst (div_chain cmp inp)) (snd (div_chain cmp inp)))"
| "div_chain cmp inp =
     (if length inp \<le> 1 then (inp, [])
      else
        let a = take (length inp div 2) inp; b = drop (length inp div 2) inp in
        ((if out_of_order cmp a then sort_chain cmp a else a),
         (if out_of_order cmp b then sort_chain cmp b else b)))"
  by pat_completeness auto
termination
  by (relation "measure (case_sum (\<lambda>(_, xs). 2 * length xs + 1) (\<lambda>(_, xs). 2 * length xs))") (auto, arith+)

declare sort_chain.simps [simp del]
declare div_chain.simps [simp del]

text \<open>\<open>sort(cmp)\<close>: the copy holds every datum under \<open>MAX_INTEGER64\<close>, and so does its sorted chain.\<close>

definition sq_sort :: "('a sptr \<Rightarrow> 'a sptr \<Rightarrow> int) \<Rightarrow> (int \<times> 'a sptr) list \<Rightarrow> (int \<times> 'a sptr) list" where
  "sq_sort cmp xs =
     map (Pair max_integer64) (sort_chain cmp (map snd (sq_appends [] xs)))"

section \<open>Facts\<close>

text \<open>A comparison that orders: \<open>cmp x y \<le> 0\<close> is total and transitive.\<close>

definition cmp_order :: "('a sptr \<Rightarrow> 'a sptr \<Rightarrow> int) \<Rightarrow> bool" where
  "cmp_order cmp \<longleftrightarrow>
     (\<forall>x y. 0 \<le> cmp x y \<longrightarrow> cmp y x \<le> 0)
     \<and> (\<forall>x y z. cmp x y \<le> 0 \<longrightarrow> cmp y z \<le> 0 \<longrightarrow> cmp x z \<le> 0)"

lemma cmp_orderD:
  assumes "cmp_order cmp"
  shows "0 \<le> cmp x y \<Longrightarrow> cmp y x \<le> 0" "cmp x y \<le> 0 \<Longrightarrow> cmp y z \<le> 0 \<Longrightarrow> cmp x z \<le> 0"
  using assms unfolding cmp_order_def by blast+

lemma mset_merge_chains [simp]: "mset (merge_chains cmp a b) = mset a + mset b"
  by (induction cmp a b rule: merge_chains.induct) auto

lemma set_merge_chains [simp]: "set (merge_chains cmp a b) = set a \<union> set b"
  by (metis mset_merge_chains set_mset_mset set_mset_union)

lemma sorted_merge_chains:
  assumes "cmp_order cmp" "sorted_wrt (\<lambda>x y. cmp x y \<le> 0) a" "sorted_wrt (\<lambda>x y. cmp x y \<le> 0) b"
  shows "sorted_wrt (\<lambda>x y. cmp x y \<le> 0) (merge_chains cmp a b)"
  using assms
proof (induction cmp a b rule: merge_chains.induct)
  case (3 cmp x xs y ys)
  note o = cmp_orderD [OF "3.prems"(1)]
  consider "cmp x y < 0" | "cmp x y > 0" | "cmp x y = 0" by linarith
  then show ?case
  proof cases
    case 1
    then have "\<forall>z \<in> set ys. cmp x z \<le> 0"
      using "3.prems"(3) o(2) [of x y] by auto
    with 1 "3.IH"(1) "3.prems" show ?thesis by auto
  next
    case 2
    then have yx: "cmp y x \<le> 0" using o(1) by simp
    then have "\<forall>z \<in> set xs. cmp y z \<le> 0"
      using "3.prems"(2) o(2) [of y x] by auto
    with 2 yx "3.IH"(2) "3.prems" show ?thesis by auto
  next
    case 3
    then have yx: "cmp y x \<le> 0" using o(1) by simp
    have "\<forall>z \<in> set xs. cmp y z \<le> 0" "\<forall>z \<in> set ys. cmp x z \<le> 0"
      using "3.prems"(2,3) o(2) [of y x] o(2) [of x y] yx 3 by auto
    with 3 "3.IH"(3) "3.prems" show ?thesis by auto
  qed
qed auto

lemma in_order_sorted:
  assumes "cmp_order cmp" "\<not> out_of_order cmp xs"
  shows "sorted_wrt (\<lambda>x y. cmp x y \<le> 0) xs"
proof -
  have t: "transp (\<lambda>x y. cmp x y \<le> 0)"
    using cmp_orderD(2) [OF assms(1)] by (auto simp: transp_def)
  show ?thesis
    using assms(2) t
    by (induction cmp xs rule: out_of_order.induct) (auto simp: sorted_wrt2 sorted_wrt1 simp del: sorted_wrt.simps(2))
qed

lemma mset_sort_div:
  "mset (sort_chain cmp xs) = mset xs"
  "mset (fst (div_chain cmp ys)) + mset (snd (div_chain cmp ys)) = mset ys"
proof (induction cmp xs and cmp ys rule: sort_chain_div_chain.induct)
  case (1 cmp inp)
  then show ?case by (subst sort_chain.simps) simp
next
  case (2 cmp inp)
  have "mset (take n inp) + mset (drop n inp) = mset inp" for n
    by (metis append_take_drop_id mset_append)
  with 2 show ?case by (subst (1 2) div_chain.simps) (auto simp: Let_def)
qed

lemma sorted_sort_div:
  "cmp_order cmp \<Longrightarrow> sorted_wrt (\<lambda>x y. cmp x y \<le> 0) (sort_chain cmp xs)"
  "cmp_order cmp \<Longrightarrow> sorted_wrt (\<lambda>x y. cmp x y \<le> 0) (fst (div_chain cmp ys))
     \<and> sorted_wrt (\<lambda>x y. cmp x y \<le> 0) (snd (div_chain cmp ys))"
proof (induction cmp xs and cmp ys rule: sort_chain_div_chain.induct)
  case (1 cmp inp)
  show ?case
  proof (cases "length inp \<le> 1")
    case True
    then show ?thesis by (subst sort_chain.simps) (cases inp; auto)
  next
    case False
    with 1 show ?thesis by (subst sort_chain.simps) (auto intro: sorted_merge_chains)
  qed
next
  case (2 cmp inp)
  show ?case
  proof (cases "length inp \<le> 1")
    case True
    then show ?thesis by (subst (1 2) div_chain.simps) (cases inp; auto)
  next
    case False
    with 2 show ?thesis
      by (subst (1 2) div_chain.simps) (auto simp: Let_def intro: in_order_sorted)
  qed
qed

text \<open>Equal elements may change places: the tie branch of the merge takes one of each side.\<close>

lemma sort_chain_not_stable:
  "sort_chain (\<lambda>x y. the x div 10 - the y div 10) [Some (11 :: int), Some 12, Some 13, Some 14]
    = [Some 11, Some 13, Some 12, Some 14]"
  by code_simp

section \<open>Properties\<close>

text \<open>for a comparison that orders, \<open>sort(cmp)\<close> yields the same data in ascending order.\<close>

theorem queue_sort_correct:
  assumes "cmp_order cmp"
  shows "sorted_wrt (\<lambda>x y. cmp x y \<le> 0) (map snd (sq_sort cmp xs))
    \<and> mset (map snd (sq_sort cmp xs)) = mset (map snd xs)"
  using sorted_sort_div(1) [OF assms]
  by (simp add: sq_sort_def mset_sort_div(1) sq_appends_def comp_def)

theorem queue_sort_correct_witness:
  "mset (map snd (sq_sort (\<lambda>x y. the x - the y) [(1, Some (3 :: int)), (2, Some 1)]))
    = {#Some 3, Some 1#}"
proof -
  have "cmp_order (\<lambda>x y. the x - the y :: int)" by (simp add: cmp_order_def)
  from queue_sort_correct [OF this, of "[(1, Some 3), (2, Some 1)]"] show ?thesis by simp
qed

end
