(* ===== verification/HalfOrderQueue.thy ===== *)
theory HalfOrderQueue
  imports Prelude "HOL-Library.Multiset"
begin

text \<open>
  The half-ordered queue of \<open>src/src/classes/ts2/c++/stdHalfOrderQueue.cpp\<close>: a binary heap of
  nodes that hold a key, a datum and the size of their subtree.  Insertion goes to the smaller
  side and swaps upwards on the way back; deletion takes a leaf of the larger side to the top and
  lets it sink.  A \<open>panic\<close> is \<^term>\<open>None\<close>.  The queue is the priority queue of the garbage
  collector \<open>tsGC\<close>; the locale \<open>priority_queue\<close> is what that client relies on.
\<close>

section \<open>The interface\<close>

locale priority_queue =
  fixes invar :: "'q \<Rightarrow> bool"
    and items :: "'q \<Rightarrow> (int \<times> 'd) multiset"
    and empty :: "'q"
    and insert :: "int \<Rightarrow> 'd \<Rightarrow> 'q \<Rightarrow> 'q option"
    and delete :: "'q \<Rightarrow> ((int \<times> 'd) option \<times> 'q) option"
    and size_of :: "'q \<Rightarrow> int"
  assumes invar_empty: "invar empty" "items empty = {#}"
    and insert: "invar q \<Longrightarrow> \<exists>q'. insert k d q = Some q' \<and> invar q' \<and> items q' = add_mset (k, d) (items q)"
    and delete_empty: "invar q \<Longrightarrow> items q = {#} \<Longrightarrow> delete q = Some (None, q)"
    and delete: "invar q \<Longrightarrow> items q \<noteq> {#} \<Longrightarrow>
      \<exists>k d q'. delete q = Some (Some (k, d), q') \<and> invar q' \<and> items q = add_mset (k, d) (items q')
        \<and> (\<forall>e \<in># items q. k \<le> fst e)"
    and size_of: "invar q \<Longrightarrow> size_of q = int (size (items q))"
begin

text \<open>Taking everything out: fuel is the number of items plus one.\<close>

fun drain :: "nat \<Rightarrow> 'q \<Rightarrow> (int \<times> 'd) list option" where
  "drain 0 q = None"
| "drain (Suc n) q =
     (case delete q of
        None \<Rightarrow> None
      | Some (None, _) \<Rightarrow> Some []
      | Some (Some e, q') \<Rightarrow> map_option ((#) e) (drain n q'))"

lemma drain_sorted:
  assumes "invar q" "size (items q) < n"
  shows "\<exists>es. drain n q = Some es \<and> mset es = items q \<and> sorted (map fst es)"
  using assms
proof (induction n arbitrary: q)
  case (Suc n)
  show ?case
  proof (cases "items q = {#}")
    case True
    with Suc.prems delete_empty show ?thesis by simp
  next
    case False
    then obtain k d q' where d: "delete q = Some (Some (k, d), q')" "invar q'"
      "items q = add_mset (k, d) (items q')" "\<forall>e \<in># items q. k \<le> fst e"
      using delete Suc.prems(1) by blast
    then obtain es where es: "drain n q' = Some es" "mset es = items q'" "sorted (map fst es)"
      using Suc.IH [of q'] Suc.prems(2) by auto
    then have "\<forall>e \<in> set es. k \<le> fst e" using d(3,4) by (metis set_mset_mset union_single_eq_member add_mset_add_single UnCI set_mset_add_mset_insert insertI2)
    with d es show ?thesis by auto
  qed
qed simp

end

section \<open>Definitions\<close>

datatype 'a hoq =
  Null
| HNode (nkey: int) (ndata: 'a) (ncount: int) (n0: "'a hoq") (n1: "'a hoq")

text \<open>\<open>np->count\<close>, read only behind a null check in the code.\<close>

fun hcount :: "'a hoq \<Rightarrow> int" where
  "hcount Null = 0"
| "hcount (HNode _ _ c _ _) = c"

definition new_hnode :: "int \<Rightarrow> 'a \<Rightarrow> 'a hoq" where
  "new_hnode key data = HNode key data 1 Null Null"

text \<open>Exchange key and datum of a node with those of its child 0 or 1.\<close>

fun swap_child :: "bool \<Rightarrow> 'a hoq \<Rightarrow> 'a hoq" where
  "swap_child False (HNode k d c (HNode k0 d0 c0 l0 r0) r) = HNode k0 d0 c (HNode k d c0 l0 r0) r"
| "swap_child True (HNode k d c l (HNode k1 d1 c1 l1 r1)) = HNode k1 d1 c l (HNode k d c1 l1 r1)"
| "swap_child _ t = t"

text \<open>The end of \<open>_ins\<close>, for a node with two children: which child to swap with, if any.\<close>

fun fix_up :: "'a hoq \<Rightarrow> 'a hoq" where
  "fix_up (HNode k d c l r) =
     (if k \<le> nkey l \<and> k \<le> nkey r then HNode k d c l r
      else
        let swap = \<not> (nkey l < k \<and> nkey l < nkey r) in
        if k \<le> (if swap then nkey r else nkey l) then HNode k d c l r
        else swap_child swap (HNode k d c l r))"
| "fix_up Null = Null"

fun hoq_ins_at :: "'a hoq \<Rightarrow> int \<Rightarrow> 'a \<Rightarrow> 'a hoq option" where
  "hoq_ins_at Null key data = None"
| "hoq_ins_at (HNode k d c l r) key data =
     (case (l, r) of
        (Null, HNode _ _ _ _ _) \<Rightarrow> None
      | (Null, Null) \<Rightarrow>
          let t = HNode k d (c + 1) (new_hnode key data) r in
          Some (if key \<ge> k then t else swap_child False t)
      | (HNode _ _ _ _ _, Null) \<Rightarrow> Some (fix_up (HNode k d (c + 1) l (new_hnode key data)))
      | (HNode _ _ _ _ _, HNode _ _ _ _ _) \<Rightarrow>
          if hcount l \<le> hcount r
          then map_option (\<lambda>l'. fix_up (HNode k d (c + 1) l' r)) (hoq_ins_at l key data)
          else map_option (\<lambda>r'. fix_up (HNode k d (c + 1) l r')) (hoq_ins_at r key data))"

definition hoq_ins :: "int \<Rightarrow> 'a \<Rightarrow> 'a hoq \<Rightarrow> 'a hoq option" where
  "hoq_ins key data tp =
     (if tp = Null then Some (new_hnode key data) else hoq_ins_at tp key data)"

text \<open>
  The first loop of \<open>del\<close>: walk down the larger side, counting every node down, to a leaf; the
  leaf's key and datum go to the top, and its parent's second child takes the place of the first.
\<close>

fun take_leaf :: "'a hoq \<Rightarrow> (int \<times> 'a) option \<times> 'a hoq" where
  "take_leaf Null = (None, Null)"
| "take_leaf (HNode k d c l r) =
     (if l = Null then (Some (k, d), Null)
      else if r = Null \<or> hcount l \<ge> hcount r then
        (let (e, l') = take_leaf l in
         (e, if l' = Null then HNode k d (c - 1) r Null else HNode k d (c - 1) l' r))
      else
        (let (e, r') = take_leaf r in (e, HNode k d (c - 1) l r')))"

text \<open>The second loop of \<open>del\<close>.\<close>

fun sink :: "'a hoq \<Rightarrow> 'a hoq" where
  "sink (HNode k d c (HNode k0 d0 c0 l0 r0) Null) =
     (if k \<le> k0 then HNode k d c (HNode k0 d0 c0 l0 r0) Null
      else HNode k0 d0 c (sink (HNode k d c0 l0 r0)) Null)"
| "sink (HNode k d c (HNode k0 d0 c0 l0 r0) (HNode k1 d1 c1 l1 r1)) =
     (if k \<le> k0 \<and> k \<le> k1 then HNode k d c (HNode k0 d0 c0 l0 r0) (HNode k1 d1 c1 l1 r1)
      else if k0 \<le> k \<and> k0 \<le> k1
      then HNode k0 d0 c (sink (HNode k d c0 l0 r0)) (HNode k1 d1 c1 l1 r1)
      else HNode k1 d1 c (HNode k0 d0 c0 l0 r0) (sink (HNode k d c1 l1 r1)))"
| "sink t = t"

text \<open>
  \<open>del(kp)\<close>: the datum and the key at the top.  The \<open>del??\<close> panic is reached if the walk ends at
  the top itself, which has a first child at that point.
\<close>

definition hoq_del :: "'a hoq \<Rightarrow> ((int \<times> 'a) option \<times> 'a hoq) option" where
  "hoq_del tp =
     (case tp of
        Null \<Rightarrow> Some (None, Null)
      | HNode k d c l r \<Rightarrow>
          if l = Null then Some (Some (k, d), Null)
          else
            (case take_leaf tp of
               (Some (k', d'), HNode _ _ c' l' r') \<Rightarrow> Some (Some (k, d), sink (HNode k' d' c' l' r'))
             | _ \<Rightarrow> None))"

definition getTop :: "'a hoq \<Rightarrow> 'a option" where
  "getTop tp = (case tp of Null \<Rightarrow> None | HNode _ d _ _ _ \<Rightarrow> Some d)"

definition hoq_count :: "'a hoq \<Rightarrow> int" where
  "hoq_count tp = (case tp of Null \<Rightarrow> 0 | HNode _ _ c _ _ \<Rightarrow> c)"

section \<open>Invariant\<close>

fun hsize :: "'a hoq \<Rightarrow> nat" where
  "hsize Null = 0"
| "hsize (HNode _ _ _ l r) = Suc (hsize l + hsize r)"

fun hitems :: "'a hoq \<Rightarrow> (int \<times> 'a) multiset" where
  "hitems Null = {#}"
| "hitems (HNode k d _ l r) = add_mset (k, d) (hitems l + hitems r)"

fun hheight :: "'a hoq \<Rightarrow> nat" where
  "hheight Null = 0"
| "hheight (HNode _ _ _ l r) = Suc (max (hheight l) (hheight r))"

text \<open>Counts are subtree sizes, the sides differ by at most one, there is no second child alone.\<close>

fun hshape :: "'a hoq \<Rightarrow> bool" where
  "hshape Null = True"
| "hshape (HNode k d c l r) \<longleftrightarrow>
     c = int (Suc (hsize l + hsize r)) \<and> hsize l \<le> Suc (hsize r) \<and> hsize r \<le> Suc (hsize l)
     \<and> (l = Null \<longrightarrow> r = Null) \<and> hshape l \<and> hshape r"

text \<open>Every key of the items is at least \<open>k\<close>.\<close>

definition above :: "int \<Rightarrow> (int \<times> 'a) multiset \<Rightarrow> bool" where
  "above k A \<longleftrightarrow> (\<forall>e \<in># A. k \<le> fst e)"

lemma above_simps [simp]:
  "above k {#}" "above k (add_mset e A) \<longleftrightarrow> k \<le> fst e \<and> above k A"
  "above k (A + B) \<longleftrightarrow> above k A \<and> above k B"
  by (auto simp: above_def)

lemma above_trans: "above k A \<Longrightarrow> j \<le> k \<Longrightarrow> above j A"
  by (auto simp: above_def intro: order_trans)

lemma aboveD: "above k A \<Longrightarrow> e \<in># A \<Longrightarrow> k \<le> fst e"
  by (simp add: above_def)

lemma above_subset: "above k A \<Longrightarrow> set_mset B \<subseteq> set_mset A \<Longrightarrow> above k B"
  by (auto simp: above_def)

fun hheap :: "'a hoq \<Rightarrow> bool" where
  "hheap Null = True"
| "hheap (HNode k d c l r) \<longleftrightarrow> above k (hitems l + hitems r) \<and> hheap l \<and> hheap r"

definition hoq_inv :: "'a hoq \<Rightarrow> bool" where
  "hoq_inv t \<longleftrightarrow> hshape t \<and> hheap t"

lemma hsize_0 [simp]: "hsize t = 0 \<longleftrightarrow> t = Null"
  by (cases t) auto

lemma hcount_hsize: "hshape t \<Longrightarrow> hcount t = int (hsize t)"
  by (cases t) auto

lemma hsize_items: "size (hitems t) = hsize t"
  by (induction t) auto

lemma hitems_empty [simp]: "hitems t = {#} \<longleftrightarrow> t = Null"
  by (cases t) auto

section \<open>Insertion\<close>

lemma fix_up_items [simp]: "hitems (fix_up t) = hitems t"
  by (cases t rule: fix_up.cases; cases "n0 t"; cases "n1 t") (auto simp: Let_def)

lemma hsize_eq_items: "hitems t = hitems t' \<Longrightarrow> hsize t = hsize t'"
  by (metis hsize_items)

text \<open>A swap with a child changes neither sizes nor shape.\<close>

lemma swap_child_shape [simp]:
  "hsize (swap_child b t) = hsize t" "hshape (swap_child b t) = hshape t"
  by (induction b t rule: swap_child.induct) auto

lemma fix_up_shape [simp]: "hsize (fix_up t) = hsize t" "hshape (fix_up t) = hshape t"
  by (cases t; simp add: Let_def)+

text \<open>
  One child has just received an item: the node is below everything it held before, and below
  everything in the other child, so at most one exchange restores the order.
\<close>

lemma hheap_minimum: "hheap t \<Longrightarrow> e \<in># hitems t \<Longrightarrow> nkey t \<le> fst e"
  by (cases t) (auto dest: aboveD)

lemma root_item: "t \<noteq> Null \<Longrightarrow> above k (hitems t) \<Longrightarrow> k \<le> nkey t"
  by (cases t) auto

lemma fix_up_noop:
  assumes "hheap l" "hheap r" "l \<noteq> Null" "r \<noteq> Null" "above k (hitems l + hitems r)"
  shows "hheap (fix_up (HNode k d c l r))"
proof -
  have "k \<le> nkey l \<and> k \<le> nkey r" using assms by (simp add: root_item)
  with assms show ?thesis by simp
qed

text \<open>Where the new item is smaller than the node, it is its child's root.\<close>

lemma new_minimum:
  assumes "hheap (HNode k0 d0 c0 l0 r0)" "hitems (HNode k0 d0 c0 l0 r0) = add_mset x L"
    and "above k (L)" "fst x < k"
  shows "x = (k0, d0)" "above k (hitems l0 + hitems r0)"
proof -
  have "x \<in># hitems (HNode k0 d0 c0 l0 r0)" using assms(2) by simp
  then have "k0 \<le> fst x" using hheap_minimum [OF assms(1)] by simp
  then have "(k0, d0) \<notin># L" using assms(3,4) aboveD [of k L "(k0, d0)"] by auto
  then show x: "x = (k0, d0)"
    using assms(2) by (metis hitems.simps(2) insert_noteq_member)
  then show "above k (hitems l0 + hitems r0)" using assms(2,3) by simp
qed

lemma fix_up_heap0:
  assumes "hheap l" "hheap r" "l \<noteq> Null" "r \<noteq> Null"
    and "hitems l = add_mset x L" "above k (L + hitems r)"
  shows "hheap (fix_up (HNode k d c l r))"
proof (cases "k \<le> fst x")
  case True
  with assms show ?thesis by (intro fix_up_noop) auto
next
  case False
  obtain k0 d0 c0 l0 r0 where l: "l = HNode k0 d0 c0 l0 r0" using assms(3) by (cases l) auto
  have x: "x = (k0, d0)" "above k (hitems l0 + hitems r0)"
    using new_minimum [of k0 d0 c0 l0 r0 x L k] assms(1,5,6) False l by auto
  have "k \<le> nkey r" using assms(4,6) by (simp add: root_item)
  moreover have "above k0 (hitems r)" using False x(1) assms(6) by (auto intro: above_trans)
  ultimately show ?thesis using False x assms l by (auto simp: Let_def)
qed

lemma fix_up_heap1:
  assumes "hheap l" "hheap r" "l \<noteq> Null" "r \<noteq> Null"
    and "hitems r = add_mset x R" "above k (hitems l + R)"
  shows "hheap (fix_up (HNode k d c l r))"
proof (cases "k \<le> fst x")
  case True
  with assms show ?thesis by (intro fix_up_noop) auto
next
  case False
  obtain k1 d1 c1 l1 r1 where r: "r = HNode k1 d1 c1 l1 r1" using assms(4) by (cases r) auto
  have x: "x = (k1, d1)" "above k (hitems l1 + hitems r1)"
    using new_minimum [of k1 d1 c1 l1 r1 x R k] assms(2,5,6) False r by auto
  have "k \<le> nkey l" using assms(3,6) by (simp add: root_item)
  moreover have "above k1 (hitems l)" using False x(1) assms(6) by (auto intro: above_trans)
  ultimately show ?thesis using False x assms r by (auto simp: Let_def)
qed

definition ins_result :: "int \<Rightarrow> 'a \<Rightarrow> 'a hoq \<Rightarrow> 'a hoq \<Rightarrow> bool" where
  "ins_result key data t t' \<longleftrightarrow>
     t' \<noteq> Null \<and> hoq_inv t' \<and> hitems t' = add_mset (key, data) (hitems t)"

lemma ins_result_size: "ins_result key data t t' \<Longrightarrow> hsize t' = Suc (hsize t)"
  by (metis hsize_items ins_result_def size_add_mset)

lemma fix_up_not_Null [simp]: "fix_up t = Null \<longleftrightarrow> t = Null"
  by (cases t) (auto simp: Let_def elim!: swap_child.elims)

lemma hoq_ins_at_correct:
  assumes "hoq_inv t" "t \<noteq> Null"
  shows "\<exists>t'. hoq_ins_at t key data = Some t' \<and> ins_result key data t t'"
  using assms
proof (induction t)
  case (HNode k d c l r)
  let ?new = "new_hnode key data"
  have new: "?new \<noteq> Null" "hsize ?new = 1" "hshape ?new" "hheap ?new" "hitems ?new = {#(key, data)#}"
    by (simp_all add: new_hnode_def)
  from HNode.prems have hl: "hoq_inv l" "hoq_inv r" and k: "above k (hitems l + hitems r)"
    by (auto simp: hoq_inv_def)
  consider "l = Null" "r = Null" | "l \<noteq> Null" "r = Null" | "l \<noteq> Null" "r \<noteq> Null"
    using HNode.prems by (auto simp: hoq_inv_def)
  then show ?case
  proof cases
    case 1
    with HNode.prems show ?thesis
      by (auto simp: ins_result_def hoq_inv_def new_hnode_def Let_def)
  next
    case 2
    have "hheap (fix_up (HNode k d (c + 1) l ?new))"
      using 2 hl k new by (intro fix_up_heap1 [of _ _ "(key, data)" "{#}"]) (auto simp: hoq_inv_def)
    moreover have "hshape (HNode k d (c + 1) l ?new)"
      using HNode.prems 2 new by (auto simp: hoq_inv_def)
    ultimately show ?thesis
      using 2 new by (cases l) (auto simp: ins_result_def hoq_inv_def simp del: fix_up.simps)
  next
    case 3
    show ?thesis
    proof (cases "hcount l \<le> hcount r")
      case True
      obtain l' where l': "hoq_ins_at l key data = Some l'" "ins_result key data l l'"
        using HNode.IH(1) [OF hl(1)] 3 by blast
      then have "hheap (fix_up (HNode k d (c + 1) l' r))"
        using 3 hl k by (intro fix_up_heap0 [of _ _ "(key, data)" "hitems l"])
          (auto simp: ins_result_def hoq_inv_def)
      moreover have "hshape (HNode k d (c + 1) l' r)"
        using HNode.prems True l'(2) ins_result_size [OF l'(2)]
        by (auto simp: ins_result_def hoq_inv_def hcount_hsize)
      ultimately show ?thesis
        using 3 True l' by (cases l; cases r)
          (auto simp: ins_result_def hoq_inv_def simp del: fix_up.simps)
    next
      case False
      obtain r' where r': "hoq_ins_at r key data = Some r'" "ins_result key data r r'"
        using HNode.IH(2) [OF hl(2)] 3 by blast
      then have "hheap (fix_up (HNode k d (c + 1) l r'))"
        using 3 hl k by (intro fix_up_heap1 [of _ _ "(key, data)" "hitems r"])
          (auto simp: ins_result_def hoq_inv_def)
      moreover have "hshape (HNode k d (c + 1) l r')"
        using HNode.prems False r'(2) ins_result_size [OF r'(2)]
        by (auto simp: ins_result_def hoq_inv_def hcount_hsize)
      ultimately show ?thesis
        using 3 False r' by (cases l; cases r)
          (auto simp: ins_result_def hoq_inv_def simp del: fix_up.simps)
    qed
  qed
qed simp

lemma hoq_ins_correct [refines]:
  assumes "hoq_inv t"
  shows "\<exists>t'. hoq_ins key data t = Some t' \<and> hoq_inv t' \<and> hitems t' = add_mset (key, data) (hitems t)"
proof (cases "t = Null")
  case True
  then show ?thesis by (simp add: hoq_ins_def new_hnode_def hoq_inv_def)
next
  case False
  with hoq_ins_at_correct [OF assms, of key data] show ?thesis
    by (auto simp: hoq_ins_def ins_result_def)
qed

section \<open>Deletion\<close>

text \<open>Taking a leaf: one item leaves, the sides stay balanced and the order is kept.\<close>

lemma take_leaf_items:
  "hshape t \<Longrightarrow> t \<noteq> Null \<Longrightarrow>
   \<exists>e t'. take_leaf t = (Some e, t') \<and> hitems t = add_mset e (hitems t') \<and> (t' = Null \<longleftrightarrow> n0 t = Null)"
proof (induction t rule: take_leaf.induct)
  case (2 k d c l r)
  show ?case
  proof (cases "l = Null")
    case False
    with 2 show ?thesis
      by (cases "r = Null \<or> hcount r \<le> hcount l") (auto split: prod.splits)
  qed (use 2 in auto)
qed simp

lemma take_leaf_size:
  assumes "hshape t" "t \<noteq> Null" "take_leaf t = (e, t')"
  shows "hsize t = Suc (hsize t')"
  using take_leaf_items [OF assms(1,2)] assms(3) hsize_items
  by (metis prod.inject size_add_mset)

lemma take_leaf_shape:
  "hshape t \<Longrightarrow> hshape (snd (take_leaf t))"
proof (induction t rule: take_leaf.induct)
  case (2 k d c l r)
  obtain e l' e' r' where lr: "take_leaf l = (e, l')" "take_leaf r = (e', r')" by fastforce
  show ?case
  proof (cases "l = Null")
    case False
    then have l: "hsize l = Suc (hsize l')" using take_leaf_size [of l e l'] 2(3) lr by simp
    have r: "r \<noteq> Null \<Longrightarrow> hsize r = Suc (hsize r')"
      using take_leaf_size [of r e' r'] 2(3) lr by simp
    have c: "hcount l = int (hsize l)" "hcount r = int (hsize r)"
      using 2(3) by (simp_all add: hcount_hsize)
    show ?thesis using 2 False lr l r c by (auto simp: Let_def split: prod.splits)
  qed simp
qed simp

lemma take_leaf_heap: "hshape t \<Longrightarrow> hheap t \<Longrightarrow> hheap (snd (take_leaf t))"
proof (induction t rule: take_leaf.induct)
  case (2 k d c l r)
  have l: "l \<noteq> Null \<Longrightarrow> set_mset (hitems (snd (take_leaf l))) \<subseteq> set_mset (hitems l)"
    using take_leaf_items [of l] 2(3) by auto
  have r: "r \<noteq> Null \<Longrightarrow> set_mset (hitems (snd (take_leaf r))) \<subseteq> set_mset (hitems r)"
    using take_leaf_items [of r] 2(3) by auto
  have k: "above k (hitems l)" "above k (hitems r)" using 2(4) by auto
  have "l \<noteq> Null \<Longrightarrow> above k (hitems (snd (take_leaf l)))"
    using l k(1) by (blast intro: above_subset)
  moreover have "r \<noteq> Null \<Longrightarrow> above k (hitems (snd (take_leaf r)))"
    using r k(2) by (blast intro: above_subset)
  ultimately show ?case using 2 k by (auto simp: Let_def split: prod.splits)
qed simp

lemma take_leaf_root:
  "l \<noteq> Null \<Longrightarrow> \<exists>l' r'. snd (take_leaf (HNode k d c l r)) = HNode k d (c - 1) l' r'"
  by (auto split: prod.splits)

text \<open>Sinking keeps the items, the counts and the shape, and restores the order below the top.\<close>

lemma sink_items [simp]: "hitems (sink t) = hitems t"
  by (induction t rule: sink.induct) auto

lemma sink_Null [simp]: "sink t = Null \<longleftrightarrow> t = Null"
  by (cases t rule: sink.cases) auto

lemma sink_shape [simp]: "hsize (sink t) = hsize t" "hshape (sink t) = hshape t"
proof -
  show s: "hsize (sink t) = hsize t" for t :: "'a hoq" by (metis sink_items hsize_items)
  show "hshape (sink t) = hshape t"
    by (induction t rule: sink.induct) (auto simp: s)
qed

lemma sink_heap: "hshape t \<Longrightarrow> hheap (n0 t) \<Longrightarrow> hheap (n1 t) \<Longrightarrow> t \<noteq> Null \<Longrightarrow> hheap (sink t)"
proof (induction t rule: sink.induct)
  case (1 k d c k0 d0 c0 l0 r0)
  have "k \<le> k0 \<Longrightarrow> above k (hitems l0 + hitems r0)"
    using 1 by (auto intro: above_trans [of k0 _ k])
  with 1 show ?case by auto
next
  case (2 k d c k0 d0 c0 l0 r0 k1 d1 c1 l1 r1)
  have "above k0 (hitems l0 + hitems r0)" "above k1 (hitems l1 + hitems r1)"
    using 2 by auto
  from this [THEN above_trans, of k] this(1) [THEN above_trans, of k1] this(2) [THEN above_trans, of k0]
  show ?case using 2 by auto
qed auto

lemma hoq_del_correct [refines]:
  assumes "hoq_inv t" "t \<noteq> Null"
  shows "\<exists>k d t'. hoq_del t = Some (Some (k, d), t') \<and> hoq_inv t' \<and> hitems t = add_mset (k, d) (hitems t')
           \<and> (\<forall>e \<in># hitems t. k \<le> fst e)"
proof (cases t)
  case (HNode k d c l r)
  have min: "\<forall>e \<in># hitems t. k \<le> fst e"
    using hheap_minimum [of t] assms(1) HNode by (auto simp: hoq_inv_def)
  show ?thesis
  proof (cases "l = Null")
    case True
    with HNode assms(1) min show ?thesis by (auto simp: hoq_del_def hoq_inv_def)
  next
    case False
    obtain e t' where e: "take_leaf t = (Some e, t')" "hitems t = add_mset e (hitems t')"
      using take_leaf_items [of t] assms by (auto simp: hoq_inv_def)
    obtain l' r' where t': "t' = HNode k d (c - 1) l' r'"
      using take_leaf_root [OF False, of k d c r] e HNode by auto
    let ?s = "HNode (fst e) (snd e) (c - 1) l' r'"
    have inv: "hshape t'" "hheap t'"
      using take_leaf_shape [of t] take_leaf_heap [of t] assms e by (auto simp: hoq_inv_def)
    have "hoq_inv (sink ?s)"
      using inv sink_heap [of ?s] by (auto simp: hoq_inv_def t')
    moreover have "hoq_del t = Some (Some (k, d), sink ?s)"
      using False e t' HNode by (auto simp: hoq_del_def split: prod.splits)
    moreover have "hitems t = add_mset (k, d) (hitems (sink ?s))"
      using e(2) t' by (simp add: add_mset_commute)
    ultimately show ?thesis using min by blast
  qed
qed (use assms in simp)

lemma hoq_count_items: "hoq_inv t \<Longrightarrow> hoq_count t = int (size (hitems t))"
  by (cases t) (auto simp: hoq_count_def hoq_inv_def hsize_items)

text \<open>The two sides differ by at most one, so the recursion is logarithmic.\<close>

lemma hshape_height: "hshape t \<Longrightarrow> t \<noteq> Null \<Longrightarrow> 2 ^ hheight t \<le> 2 * hsize t"
proof (induction t)
  case (HNode k d c l r)
  show ?case
  proof (cases "l = Null")
    case False
    have "2 ^ hheight l \<le> 2 * hsize l" using HNode False by simp
    moreover have "2 ^ hheight r \<le> 2 * hsize r + 1"
      using HNode by (cases "r = Null") auto
    moreover have "hheight l > 0" using False by (cases l) auto
    moreover have "hheight r > 0 \<Longrightarrow> r \<noteq> Null" by auto
    ultimately show ?thesis using HNode.prems HNode.IH
      by (cases "r = Null") (auto simp: max_def)
  qed (use HNode in auto)
qed simp

interpretation hoq: priority_queue hoq_inv hitems Null hoq_ins hoq_del hoq_count
proof
  show "hoq_inv Null" "hitems Null = {#}" by (simp_all add: hoq_inv_def)
  show "hoq_inv q \<Longrightarrow> hitems q = {#} \<Longrightarrow> hoq_del q = Some (None, q)" for q :: "'a hoq"
    by (simp add: hoq_del_def)
qed (auto simp: hoq_ins_correct hoq_del_correct hoq_count_items)

section \<open>The queue of state machines with changing priorities\<close>

text \<open>
  \<open>stdHalfOrderQueueTS\<close>: \<open>prio caller d\<close> is \<open>d->priority(caller)\<close>, \<^term>\<open>None\<close> is \<open>thNULL\<close>.  \<open>del\<close>
  compares the recorded key of the top with its present priority; where they differ it rebuilds
  the whole queue with the constructor, whose loop calls \<open>del\<close> again.  The first argument is
  fuel.
\<close>

fun ts_del :: "nat \<Rightarrow> ('c option \<Rightarrow> 'a \<Rightarrow> int) \<Rightarrow> 'c option \<Rightarrow> 'a hoq \<Rightarrow> ('a option \<times> 'a hoq) option"
and ts_rebuild :: "nat \<Rightarrow> ('c option \<Rightarrow> 'a \<Rightarrow> int) \<Rightarrow> 'c option \<Rightarrow> 'a hoq \<Rightarrow> 'a hoq \<Rightarrow> 'a hoq option" where
  "ts_del 0 prio caller q = None"
| "ts_del (Suc n) prio caller q =
     (case hoq_del q of
        None \<Rightarrow> None
      | Some (None, q') \<Rightarrow> Some (None, q')
      | Some (Some (key, ret), q') \<Rightarrow>
          let key2 = prio caller ret in
          if caller = None \<or> key = key2 then Some (Some ret, q')
          else Option.bind (ts_rebuild n prio caller q' Null) (\<lambda>hoq.
               Option.bind (hoq_ins key2 ret hoq) (\<lambda>top'.
               map_option (\<lambda>(e, q''). (map_option snd e, q'')) (hoq_del top'))))"
| "ts_rebuild 0 prio caller q new = None"
| "ts_rebuild (Suc n) prio caller q new =
     (case ts_del n prio caller q of
        None \<Rightarrow> None
      | Some (None, _) \<Rightarrow> Some new
      | Some (Some ts, q') \<Rightarrow>
          Option.bind (hoq_ins (prio None ts) ts new) (ts_rebuild n prio caller q'))"

abbreviation hdata :: "'a hoq \<Rightarrow> 'a multiset" where
  "hdata t \<equiv> image_mset snd (hitems t)"

definition keyed_by :: "('a \<Rightarrow> int) \<Rightarrow> 'a hoq \<Rightarrow> bool" where
  "keyed_by p t \<longleftrightarrow> (\<forall>e \<in># hitems t. fst e = p (snd e))"

lemma keyed_by_add:
  "keyed_by p t' \<Longrightarrow> hitems t = add_mset (k, d) (hitems t') \<Longrightarrow> keyed_by p t \<longleftrightarrow> k = p d"
  by (auto simp: keyed_by_def)

text \<open>What one \<open>del\<close> and one rebuild do, by induction on the fuel.\<close>

lemma ts_del_rebuild:
  "hoq_inv q \<Longrightarrow> 2 * hsize q < n \<Longrightarrow>
    (q = Null \<and> ts_del n prio caller q = Some (None, Null)) \<or>
    (\<exists>d q'. ts_del n prio caller q = Some (Some d, q') \<and> hoq_inv q' \<and> hdata q = add_mset d (hdata q'))"
  "hoq_inv q \<Longrightarrow> 2 * hsize q + 1 < n \<Longrightarrow> hoq_inv new \<Longrightarrow> keyed_by (prio None) new \<Longrightarrow>
    \<exists>t. ts_rebuild n prio caller q new = Some t \<and> hoq_inv t \<and> keyed_by (prio None) t
      \<and> hdata t = hdata q + hdata new"
proof (induction n prio caller q and n prio caller q new rule: ts_del_ts_rebuild.induct)
  case (2 n prio caller q)
  show ?case
  proof (cases "q = Null")
    case False
    then obtain k d q' where d: "hoq_del q = Some (Some (k, d), q')" "hoq_inv q'"
      "hitems q = add_mset (k, d) (hitems q')"
      using hoq_del_correct [OF 2(2)] by blast
    have sz: "hsize q = Suc (hsize q')" using d(3) hsize_items by (metis size_add_mset)
    show ?thesis
    proof (cases "caller = None \<or> k = prio caller d")
      case True
      with d show ?thesis by simp
    next
      case new: False
      obtain t where t: "ts_rebuild n prio caller q' Null = Some t" "hoq_inv t" "hdata t = hdata q'"
        using 2(1) [OF d(1) refl refl refl refl new d(2)] 2(3) sz
        by (auto simp: hoq_inv_def keyed_by_def)
      obtain t' where t': "hoq_ins (prio caller d) d t = Some t'" "hoq_inv t'"
        "hitems t' = add_mset (prio caller d, d) (hitems t)"
        using hoq_ins_correct [OF t(2)] by blast
      then have "t' \<noteq> Null" by auto
      then obtain k2 d2 q2 where d2: "hoq_del t' = Some (Some (k2, d2), q2)" "hoq_inv q2"
        "hitems t' = add_mset (k2, d2) (hitems q2)"
        using hoq_del_correct [OF t'(2)] by blast
      have "hdata q = hdata t'" using d(3) t(3) t'(3) by simp
      then have "hdata q = add_mset d2 (hdata q2)" unfolding d2(3) by simp
      moreover have "ts_del (Suc n) prio caller q = Some (Some d2, q2)"
        using new d(1) t(1) t'(1) d2(1) by auto
      ultimately show ?thesis using d2(2) by blast
    qed
  qed (simp add: hoq_del_def)
next
  case (4 n prio caller q new)
  from 4(1) [OF 4(3)] 4(4) consider "q = Null" "ts_del n prio caller q = Some (None, Null)"
    | d q' where "ts_del n prio caller q = Some (Some d, q')" "hoq_inv q'"
        "hdata q = add_mset d (hdata q')"
    by auto
  then show ?case
  proof cases
    case 1
    with 4(5,6) show ?thesis by auto
  next
    case 2
    have sz: "hsize q = Suc (hsize q')" using 2(3) hsize_items by (metis size_add_mset size_image_mset)
    obtain new' where new': "hoq_ins (prio None d) d new = Some new'" "hoq_inv new'"
      "hitems new' = add_mset (prio None d, d) (hitems new)"
      using hoq_ins_correct [OF 4(5)] by blast
    have "keyed_by (prio None) new'" using keyed_by_add [OF 4(6) new'(3)] by simp
    with 4(2) [OF 2(1) refl refl new'(1) 2(2) _ new'(2)] 4(4) sz new' 2 show ?thesis by auto
  qed
qed auto

section \<open>Properties\<close>

text \<open>Insertion into the half-ordered queue never reaches the \<open>invalid node\<close> panic and keeps
  the invariant: counts are subtree sizes, the two sides of every node differ by at most one
  (so the height is logarithmic), keys are heap ordered; exactly the new item is added.\<close>

theorem hoq_ins_keeps_order:
  assumes "hoq_inv t"
  shows "\<exists>t'. hoq_ins key data t = Some t' \<and> hoq_inv t' \<and> hitems t' = add_mset (key, data) (hitems t)
           \<and> 2 ^ hheight t' \<le> 2 * hsize t'"
proof -
  obtain t' where t': "hoq_ins key data t = Some t'" "hoq_inv t'"
    "hitems t' = add_mset (key, data) (hitems t)"
    using hoq_ins_correct [OF assms] by blast
  then have "t' \<noteq> Null" by auto
  with t' show ?thesis using hshape_height by (auto simp: hoq_inv_def)
qed

theorem hoq_ins_keeps_order_witness:
  "hoq_inv (HNode 3 ''a'' 2 (HNode 5 ''b'' 1 Null Null) Null) \<and>
   (\<exists>t'. hoq_ins 1 ''c'' (HNode 3 ''a'' 2 (HNode 5 ''b'' 1 Null Null) Null) = Some t' \<and> hoq_inv t'
      \<and> 2 ^ hheight t' \<le> 2 * hsize t')"
proof -
  have "hoq_inv (HNode 3 ''a'' 2 (HNode 5 ''b'' 1 Null Null) Null)" by (simp add: hoq_inv_def)
  with hoq_ins_keeps_order [OF this, of 1 "''c''"] show ?thesis by blast
qed

text \<open>C28: Deletion never reaches the \<open>del??\<close> panic, returns an item of least key, removes exactly
  that item and keeps the invariant; on the empty queue it returns null.\<close>

theorem hoq_del_takes_minimum:
  assumes "hoq_inv t"
  shows "(t = Null \<and> hoq_del t = Some (None, Null)) \<or>
    (\<exists>k d t'. hoq_del t = Some (Some (k, d), t') \<and> getTop t = Some d \<and> hoq_inv t'
       \<and> hitems t = add_mset (k, d) (hitems t') \<and> (\<forall>e \<in># hitems t. k \<le> fst e)
       \<and> hoq_count t' = hoq_count t - 1)"
proof (cases "t = Null")
  case False
  then obtain k d t' where d: "hoq_del t = Some (Some (k, d), t')" "hoq_inv t'"
    "hitems t = add_mset (k, d) (hitems t')" "\<forall>e \<in># hitems t. k \<le> fst e"
    using hoq_del_correct [OF assms] by blast
  moreover have "getTop t = Some d" using d(1)
    by (auto simp: hoq_del_def getTop_def split: hoq.splits if_splits prod.splits option.splits)
  moreover have "hoq_count t' = hoq_count t - 1" using assms d by (simp add: hoq_count_items)
  ultimately show ?thesis by blast
qed (simp add: hoq_del_def)

theorem hoq_del_takes_minimum_witness:
  "hoq_inv (HNode 3 ''a'' 3 (HNode 5 ''b'' 1 Null Null) (HNode 4 ''c'' 1 Null Null)) \<and>
   (\<exists>d t'. hoq_del (HNode 3 ''a'' 3 (HNode 5 ''b'' 1 Null Null) (HNode 4 ''c'' 1 Null Null))
      = Some (Some (3, d), t') \<and> hoq_inv t' \<and> hoq_count t' = 2)"
proof -
  let ?t = "HNode 3 ''a'' 3 (HNode 5 ''b'' 1 Null Null) (HNode 4 ''c'' 1 Null Null)"
  have i: "hoq_inv ?t" by (simp add: hoq_inv_def)
  from hoq_del_takes_minimum [OF i] i show ?thesis
    by (auto simp: hoq_del_def hoq_count_def)
qed

fun hoq_ins_all :: "(int \<times> 'a) list \<Rightarrow> 'a hoq \<Rightarrow> 'a hoq option" where
  "hoq_ins_all [] t = Some t"
| "hoq_ins_all ((k, d) # es) t = Option.bind (hoq_ins k d t) (hoq_ins_all es)"

lemma hoq_ins_all_correct:
  "hoq_inv t \<Longrightarrow> \<exists>t'. hoq_ins_all es t = Some t' \<and> hoq_inv t' \<and> hitems t' = mset es + hitems t"
proof (induction es t rule: hoq_ins_all.induct)
  case (2 k d es t)
  then show ?case using hoq_ins_correct [OF 2(2), of k d] by fastforce
qed simp

text \<open>Deleting until null comes back yields every inserted item once, in ascending key order,
  whatever the order of insertion.\<close>

theorem hoq_drains_sorted:
  "\<exists>t ds. hoq_ins_all es Null = Some t \<and> hoq.drain (Suc (length es)) t = Some ds
     \<and> mset ds = mset es \<and> sorted (map fst ds)"
proof -
  obtain t where t: "hoq_ins_all es Null = Some t" "hoq_inv t" "hitems t = mset es"
    using hoq_ins_all_correct [of Null es] by (auto simp: hoq_inv_def)
  then show ?thesis using hoq.drain_sorted [of t "Suc (length es)"] by auto
qed

text \<open>With state machines whose priorities change while they are queued, \<open>del(caller)\<close> still
  always returns (recursion depth at most twice the number of items plus one), hands out exactly
  one of the queued items and keeps the heap.  When the top's recorded key is out of date and
  the present priority does not depend on the caller, the item handed out has the least present
  priority of all.\<close>

theorem ts_del_correct:
  assumes "hoq_inv q" "q \<noteq> Null" "2 * hsize q < n"
  shows "\<exists>d q'. ts_del n prio caller q = Some (Some d, q') \<and> hoq_inv q' \<and> hdata q = add_mset d (hdata q')
     \<and> (getTop q = Some d0 \<and> caller \<noteq> None \<and> nkey q \<noteq> prio caller d0 \<and> prio caller = prio None
        \<longrightarrow> (\<forall>e \<in># hdata q. prio None d \<le> prio None e))"
proof (cases "getTop q = Some d0 \<and> caller \<noteq> None \<and> nkey q \<noteq> prio caller d0 \<and> prio caller = prio None")
  case False
  then show ?thesis using ts_del_rebuild(1) [OF assms(1,3), of prio caller] assms(2) by blast
next
  case True
  obtain d q2 where res: "ts_del n prio caller q = Some (Some d, q2)" "hoq_inv q2"
    "hdata q = add_mset d (hdata q2)"
    using ts_del_rebuild(1) [OF assms(1,3)] assms(2) by blast
  obtain m where n: "n = Suc m" using assms(3) by (cases n) auto
  obtain k q' where d: "hoq_del q = Some (Some (k, d0), q')" "hoq_inv q'"
    "hitems q = add_mset (k, d0) (hitems q')" "k = nkey q"
    using hoq_del_correct [OF assms(1,2)] True
    by (auto simp: hoq_del_def getTop_def split: hoq.splits if_splits prod.splits option.splits)
  have sz: "hsize q = Suc (hsize q')" using d(3) hsize_items by (metis size_add_mset)
  obtain t where t: "ts_rebuild m prio caller q' Null = Some t" "hoq_inv t" "keyed_by (prio None) t"
    "hdata t = hdata q'"
    using ts_del_rebuild(2) [OF d(2), of m Null prio caller] assms(3) sz n
    by (auto simp: hoq_inv_def keyed_by_def)
  obtain t' where t': "hoq_ins (prio None d0) d0 t = Some t'" "hoq_inv t'"
    "hitems t' = add_mset (prio None d0, d0) (hitems t)"
    using hoq_ins_correct [OF t(2)] by blast
  have key: "keyed_by (prio None) t'" using keyed_by_add [OF t(3) t'(3)] by simp
  have "t' \<noteq> Null" using t'(3) by auto
  then obtain k2 d2 q2' where d2: "hoq_del t' = Some (Some (k2, d2), q2')"
    "hitems t' = add_mset (k2, d2) (hitems q2')" "\<forall>e \<in># hitems t'. k2 \<le> fst e"
    using hoq_del_correct [OF t'(2)] by blast
  then have "d2 = d" using res(1) d(1) t(1) t'(1) True n by (auto simp: Let_def d(4))
  moreover have "k2 = prio None d2" using key d2(2) by (auto simp: keyed_by_def)
  moreover have "hdata q = hdata t'" using d(3) t(4) t'(3) by simp
  moreover have "\<forall>e \<in># hitems t'. k2 \<le> prio None (snd e)" using d2(3) key unfolding keyed_by_def by metis
  ultimately show ?thesis using res by auto
qed

theorem ts_del_correct_witness:
  "\<exists>d q'. ts_del 7 (\<lambda>_ (x :: int). 10 - x) (Some ())
      (HNode 0 1 3 (HNode 5 3 1 Null Null) (HNode 4 2 1 Null Null)) = Some (Some d, q')
    \<and> 10 - d \<le> 7"
proof -
  let ?q = "HNode 0 (1 :: int) 3 (HNode 5 3 1 Null Null) (HNode 4 2 1 Null Null)"
  have "hoq_inv ?q" by (simp add: hoq_inv_def)
  from ts_del_correct [OF this, of 7 "\<lambda>_ x. 10 - x" "Some ()" 1] show ?thesis
    by (auto simp: getTop_def)
qed

end
