(* ===== verification/WaitQueue.thy ===== *)
theory WaitQueue
  imports StdQueueRefine
begin

text \<open>
  The interface between the semaphores and their queue of waiting state machines.  The laws of
  the locale \<open>wait_queue\<close> speak of the list of (priority, waiter) pairs; \<open>stdSemaphore\<close> and
  \<open>stdMutex\<close> use the linked \<open>stdQueue\<close>, interpreted here, and \<open>stdLimitSemaphore\<close> its own
  bucket structure, interpreted in \<open>LimitSemaphore\<close>.
\<close>

section \<open>The interface\<close>

definition waiters_ok :: "(int \<times> 't) list \<Rightarrow> bool" where
  "waiters_ok xs \<longleftrightarrow> sorted (map fst xs) \<and> distinct (map snd xs) \<and> (\<forall>e \<in> set xs. fst e \<le> max_integer64)"

text \<open>
  The loop \<open>for ( ; ; ) { obj = q->del(); if ( obj == thNULL ) break; obj->wakeup(); }\<close>: the
  state machines that are woken, in order.  It returns nothing if it does not end.
\<close>

partial_function (option) wake_all :: "('q \<Rightarrow> 't option \<times> 'q) \<Rightarrow> 'q \<Rightarrow> 't list option" where
  "wake_all deq q =
     (case fst (deq q) of
        None \<Rightarrow> Some []
      | Some obj \<Rightarrow> Option.bind (wake_all deq (snd (deq q))) (\<lambda>woken. Some (obj # woken)))"

text \<open>
  A client's view of a wait queue: a script of operations and the answers they give.  A waiter
  is filed only when \<open>has\<close> does not find it, as \<open>get\<close> of the semaphores does.
\<close>

datatype 't wop = WIns int 't | WDel | WHas 't | WNeq bool | WLen

datatype 't wans = ADel "'t option" | AHas bool | ALen int

fun wq_run ::
    "(bool \<Rightarrow> 'q \<Rightarrow> 'q) \<Rightarrow> (int \<Rightarrow> 't \<Rightarrow> 'q \<Rightarrow> 'q option) \<Rightarrow> ('t \<Rightarrow> 'q \<Rightarrow> bool option)
      \<Rightarrow> ('q \<Rightarrow> 't option \<times> 'q) \<Rightarrow> ('q \<Rightarrow> int) \<Rightarrow> 't wop list \<Rightarrow> 'q \<Rightarrow> 't wans list option" where
  "wq_run neq enq has deq len [] q = Some []"
| "wq_run neq enq has deq len (WIns k d # ops) q =
     Option.bind (has d q) (\<lambda>h.
       if h then wq_run neq enq has deq len ops q
       else Option.bind (enq k d q) (wq_run neq enq has deq len ops))"
| "wq_run neq enq has deq len (WDel # ops) q =
     map_option ((#) (ADel (fst (deq q)))) (wq_run neq enq has deq len ops (snd (deq q)))"
| "wq_run neq enq has deq len (WHas d # ops) q =
     Option.bind (has d q) (\<lambda>h. map_option ((#) (AHas h)) (wq_run neq enq has deq len ops q))"
| "wq_run neq enq has deq len (WNeq v # ops) q = wq_run neq enq has deq len ops (neq v q)"
| "wq_run neq enq has deq len (WLen # ops) q =
     map_option ((#) (ALen (len q))) (wq_run neq enq has deq len ops q)"

fun keys_ok :: "'t wop list \<Rightarrow> bool" where
  "keys_ok (WIns k d # ops) \<longleftrightarrow> k \<le> max_integer64 \<and> keys_ok ops"
| "keys_ok (_ # ops) \<longleftrightarrow> keys_ok ops"
| "keys_ok [] \<longleftrightarrow> True"

text \<open>The same script on the list of waiters.\<close>

fun abs_run :: "bool \<Rightarrow> (int \<times> 't) list \<Rightarrow> 't wop list \<Rightarrow> 't wans list" where
  "abs_run b xs [] = []"
| "abs_run b xs (WIns k d # ops) =
     abs_run b (if d \<in> snd ` set xs then xs else sq_ins b k d xs) ops"
| "abs_run b xs (WDel # ops) =
     ADel (case xs of [] \<Rightarrow> None | e # _ \<Rightarrow> Some (snd e)) # abs_run b (tl xs) ops"
| "abs_run b xs (WHas d # ops) = AHas (d \<in> snd ` set xs) # abs_run b xs ops"
| "abs_run b xs (WNeq v # ops) = abs_run v xs ops"
| "abs_run b xs (WLen # ops) = ALen (int (length xs)) # abs_run b xs ops"

locale wait_queue =
  fixes rep :: "'q \<Rightarrow> bool \<Rightarrow> (int \<times> 't) list \<Rightarrow> bool"
    and new :: "'q"
    and set_neq :: "bool \<Rightarrow> 'q \<Rightarrow> 'q"
    and neq_of :: "'q \<Rightarrow> bool"
    and enq :: "int \<Rightarrow> 't \<Rightarrow> 'q \<Rightarrow> 'q option"
    and has :: "'t \<Rightarrow> 'q \<Rightarrow> bool option"
    and deq :: "'q \<Rightarrow> 't option \<times> 'q"
    and len :: "'q \<Rightarrow> int"
  assumes rep_ok: "rep q b xs \<Longrightarrow> waiters_ok xs"
    and rep_new: "rep new False []"
    and rep_set_neq: "rep q b xs \<Longrightarrow> rep (set_neq c q) c xs"
    and rep_neq_of: "rep q b xs \<Longrightarrow> neq_of q = b"
    and rep_enq: "rep q b xs \<Longrightarrow> d \<notin> snd ` set xs \<Longrightarrow> k \<le> max_integer64
      \<Longrightarrow> \<exists>q'. enq k d q = Some q' \<and> rep q' b (sq_ins b k d xs)"
    and rep_has: "rep q b xs \<Longrightarrow> has d q = Some (d \<in> snd ` set xs)"
    and rep_deq_empty: "rep q b [] \<Longrightarrow> fst (deq q) = None \<and> rep (snd (deq q)) b []"
    and rep_deq: "rep q b ((k, d) # xs) \<Longrightarrow> fst (deq q) = Some d \<and> rep (snd (deq q)) b xs"
    and rep_len: "rep q b xs \<Longrightarrow> len q = int (length xs)"
begin

text \<open>Draining wakes everyone, lowest priority value first, and always ends.\<close>

lemma wake_all_list: "rep q b xs \<Longrightarrow> wake_all deq q = Some (map snd xs)"
proof (induction xs arbitrary: q)
  case Nil
  then show ?case using rep_deq_empty [OF Nil] by (subst wake_all.simps) simp
next
  case (Cons e xs)
  obtain k d where e: "e = (k, d)" by (cases e)
  from rep_deq Cons.prems e have "fst (deq q) = Some d" "rep (snd (deq q)) b xs" by auto
  with Cons.IH e show ?case by (subst wake_all.simps) simp
qed

lemma deq_cases:
  assumes "rep q b xs"
  shows "fst (deq q) = (case xs of [] \<Rightarrow> None | e # _ \<Rightarrow> Some (snd e)) \<and> rep (snd (deq q)) b (tl xs)"
  using assms rep_deq_empty rep_deq by (cases xs) auto

text \<open>Every provider answers a script as the list of waiters does.\<close>

lemma run_abs:
  "rep q b xs \<Longrightarrow> keys_ok ops \<Longrightarrow> wq_run set_neq enq has deq len ops q = Some (abs_run b xs ops)"
proof (induction b xs ops arbitrary: q rule: abs_run.induct)
  case (2 b xs k d ops)
  show ?case
  proof (cases "d \<in> snd ` set xs")
    case True
    with 2 show ?thesis by (simp add: rep_has)
  next
    case False
    then obtain q' where "enq k d q = Some q'" "rep q' b (sq_ins b k d xs)"
      using rep_enq 2(2,3) by fastforce
    with False 2 show ?thesis by (auto simp: rep_has)
  qed
next
  case (3 b xs ops)
  with deq_cases [OF 3(2)] show ?case by simp
qed (auto simp: rep_has rep_len rep_set_neq)

text \<open>Filing a waiter twice is never observed; filed once, it is found until it is taken out.\<close>

lemma has_after_enq:
  assumes "rep q b xs" "has d q = Some False" "k \<le> max_integer64"
  shows "\<exists>q'. enq k d q = Some q' \<and> has d q' = Some True \<and> (\<forall>e. e \<noteq> d \<longrightarrow> has e q' = has e q)
           \<and> len q' = len q + 1"
proof -
  have "d \<notin> snd ` set xs" using assms rep_has by auto
  then obtain q' where q': "enq k d q = Some q'" "rep q' b (sq_ins b k d xs)"
    using rep_enq assms by blast
  with assms(1) show ?thesis by (auto simp: rep_has rep_len)
qed

end

lemma waiters_ok_ins:
  assumes "waiters_ok xs" "d \<notin> snd ` set xs" "k \<le> max_integer64"
  shows "waiters_ok (sq_ins b k d xs)"
proof -
  have "distinct (map snd (sq_ins b k d xs))"
  proof (cases "k = max_integer64")
    case True
    then show ?thesis using assms by (simp add: sq_ins_def waiters_ok_def)
  next
    case False
    let ?P = "\<lambda>e. key_passes b k (fst e)"
    have "distinct (map snd (takeWhile ?P xs @ dropWhile ?P xs))"
      using assms(1) by (simp add: waiters_ok_def)
    moreover have "d \<notin> snd ` set (takeWhile ?P xs)" "d \<notin> snd ` set (dropWhile ?P xs)"
      using assms(2) by (auto dest: set_takeWhileD set_dropWhileD)
    ultimately show ?thesis
      using False by (simp add: sq_ins_def del: takeWhile_dropWhile_id)
  qed
  then show ?thesis using assms sorted_sq_ins by (auto simp: waiters_ok_def)
qed

lemma waiters_ok_tl: "waiters_ok (e # xs) \<Longrightarrow> waiters_ok xs"
  by (simp add: waiters_ok_def)

section \<open>What an acquiring call may do\<close>

text \<open>
  It returns, it throws an \<open>sException\<close> with a readiness predicate after the caller is queued
  (the caller waits), or it throws the error exception of a destroyed object.
\<close>

datatype outcome = Acquired | Waits | Throws_error

section \<open>The linked queue as a wait queue\<close>

type_synonym 't pq = "'t store \<times> stdq"

definition pq_new :: "'t pq" where
  "pq_new = (new_store, new_stdQueue)"

definition pq_set_neq :: "bool \<Rightarrow> 't pq \<Rightarrow> 't pq" where
  "pq_set_neq v sq = (fst sq, (snd sq)\<lparr>q_insNeq := v\<rparr>)"

definition pq_enq :: "int \<Rightarrow> 't \<Rightarrow> 't pq \<Rightarrow> 't pq option" where
  "pq_enq key obj sq = ins key (Some obj) (fst sq) (snd sq)"

text \<open>\<open>wait->check(me,0).is_notNull()\<close>.\<close>

definition pq_has :: "'t \<Rightarrow> 't pq \<Rightarrow> bool option" where
  "pq_has obj sq = map_option (\<lambda>r. r \<noteq> None) (check_cmp (Some obj) None (fst sq) (snd sq))"

definition pq_deq :: "'t pq \<Rightarrow> 't option \<times> 't pq" where
  "pq_deq sq = (let (obj, q') = del (fst sq) (snd sq) in (obj, (fst sq, q')))"

definition pq_len :: "'t pq \<Rightarrow> int" where
  "pq_len sq = q_count (snd sq)"

definition pq_neq :: "'t pq \<Rightarrow> bool" where
  "pq_neq sq = q_insNeq (snd sq)"

definition pq_rep :: "'t pq \<Rightarrow> bool \<Rightarrow> (int \<times> 't) list \<Rightarrow> bool" where
  "pq_rep sq b xs \<longleftrightarrow>
     waiters_ok xs \<and> q_insNeq (snd sq) = b
     \<and> (\<exists>as. queue_rep (fst sq) (snd sq) as \<and> contents (fst sq) as = map (apsnd Some) xs)"

lemma sq_ins_map_apsnd: "sq_ins b k (f d) (map (apsnd f) xs) = map (apsnd f) (sq_ins b k d xs)"
  by (simp add: sq_ins_def takeWhile_map dropWhile_map comp_def)

lemma sq_find_Some: "sq_find (\<lambda>x. x = Some d) (map (apsnd Some) xs) \<noteq> None \<longleftrightarrow> d \<in> snd ` set xs"
  by (induction xs) auto

lemma pq_rep_enq:
  assumes "pq_rep q b xs" "d \<notin> snd ` set xs" "k \<le> max_integer64"
  shows "\<exists>q'. pq_enq k d q = Some q' \<and> pq_rep q' b (sq_ins b k d xs)"
proof -
  from assms(1) obtain as where as: "queue_rep (fst q) (snd q) as"
    "contents (fst q) as = map (apsnd Some) xs" and b: "q_insNeq (snd q) = b" and ok: "waiters_ok xs"
    by (auto simp: pq_rep_def)
  obtain s' q' where "ins k (Some d) (fst q) (snd q) = Some (s', q')"
    "ins_ok (fst q) (snd q) as k (Some d) s' q'"
    using ins_refines [OF as(1)] by blast
  then show ?thesis
    using waiters_ok_ins [OF ok assms(2,3)] b as(2)
    by (auto simp: pq_enq_def pq_rep_def ins_ok_def sq_ins_map_apsnd)
qed

lemma pq_rep_deq:
  assumes "pq_rep q b xs"
  shows "fst (pq_deq q) = (case xs of [] \<Rightarrow> None | e # _ \<Rightarrow> Some (snd e))"
    and "pq_rep (snd (pq_deq q)) b (tl xs)"
proof -
  from assms obtain as where as: "queue_rep (fst q) (snd q) as"
    "contents (fst q) as = map (apsnd Some) xs" and b: "q_insNeq (snd q) = b" and ok: "waiters_ok xs"
    by (auto simp: pq_rep_def)
  obtain q' where q': "del (fst q) (snd q) = (fst (sq_del (contents (fst q) as)), q')"
    "queue_rep (fst q) q' (tl as)" "contents (fst q) (tl as) = snd (sq_del (contents (fst q) as))"
    "q_insNeq q' = q_insNeq (snd q)"
    using del_refines [OF as(1)] by blast
  show "fst (pq_deq q) = (case xs of [] \<Rightarrow> None | e # _ \<Rightarrow> Some (snd e))"
    using q'(1) as(2) by (cases xs) (auto simp: pq_deq_def sq_del_def)
  have "waiters_ok (tl xs)" using ok by (cases xs) (auto simp: waiters_ok_def)
  moreover have "contents (fst q) (tl as) = map (apsnd Some) (tl xs)"
    using q'(3) as(2) by (cases xs) (auto simp: sq_del_def)
  ultimately show "pq_rep (snd (pq_deq q)) b (tl xs)"
    using q' b by (auto simp: pq_deq_def pq_rep_def)
qed

lemma pq_rep_has: "pq_rep q b xs \<Longrightarrow> pq_has d q = Some (d \<in> snd ` set xs)"
  using sq_find_Some [of d xs]
  by (auto simp: pq_has_def pq_rep_def check_cmp_fun check_fun_refines cmp_stdQueue_def cong: if_cong)

lemma pq_rep_len: "pq_rep q b xs \<Longrightarrow> pq_len q = int (length xs)"
  unfolding pq_rep_def pq_len_def queue_rep_def by (metis contents_simps(4) length_map)

interpretation pq: wait_queue pq_rep pq_new pq_set_neq pq_neq pq_enq pq_has pq_deq pq_len
proof
  show "pq_rep pq_new False ([] :: (int \<times> 't) list)"
    using queue_rep_new [of new_store]
    by (auto simp: pq_rep_def pq_new_def waiters_ok_def intro!: exI [of _ "[]"])
      (simp add: new_stdQueue_def)
  show "pq_rep (pq_set_neq c q) c xs" if "pq_rep q b xs" for q :: "'t pq" and b c xs
    using that by (auto simp: pq_rep_def pq_set_neq_def queue_rep_def)
  show "fst (pq_deq q) = None \<and> pq_rep (snd (pq_deq q)) b []" if "pq_rep q b []" for q :: "'t pq" and b
    using pq_rep_deq [OF that] by simp
  show "fst (pq_deq q) = Some d \<and> pq_rep (snd (pq_deq q)) b xs" if "pq_rep q b ((k, d) # xs)"
    for q :: "'t pq" and b k d xs
    using pq_rep_deq [OF that] by simp
  show "\<exists>q'. pq_enq k d q = Some q' \<and> pq_rep q' b (sq_ins b k d xs)"
    if "pq_rep q b xs" "d \<notin> snd ` set xs" "k \<le> max_integer64" for q :: "'t pq" and b xs d k
    using pq_rep_enq [OF that] .
  show "waiters_ok xs" "pq_neq q = b" if "pq_rep q b xs" for q :: "'t pq" and b xs
    using that by (simp_all add: pq_rep_def pq_neq_def)
qed (simp_all add: pq_rep_has pq_rep_len)

end
