(* ===== verification/LimitSemaphore.thy ===== *)
theory LimitSemaphore
  imports WaitQueue
begin

text \<open>
  \<open>stdLimitSemaphore\<close> of \<open>src/src/classes/ts2/c++/stdLimitSemaphore.cpp\<close>.  Its wait queue
  \<open>stdLimitSemaphoreWait\<close> keeps a \<open>std::map\<close> from priority to the waiters of that priority, as
  an association list in key order, and the set of waiters as an index.  It satisfies the same
  interface as the linked queue it replaced.  The semaphore's operations follow; a \<open>panic\<close> or a
  dereference of the null wait queue is \<^term>\<open>None\<close>.
\<close>

section \<open>The bucket queue\<close>

record 't bq =
  bucket :: "(int \<times> 't list) list"
  idx :: "'t set"
  bq_count :: int
  bq_insNeq :: bool

definition bq_new :: "'t bq" where
  "bq_new = \<lparr>bucket = [], idx = {}, bq_count = 0, bq_insNeq = False\<rparr>"

definition bq_set_neq :: "bool \<Rightarrow> 't bq \<Rightarrow> 't bq" where
  "bq_set_neq v q = q\<lparr>bq_insNeq := v\<rparr>"

text \<open>\<open>f\<close> applied to \<open>bucket[key]\<close>, which is created empty where the map does not have it.\<close>

fun map_at :: "int \<Rightarrow> ('t list \<Rightarrow> 't list) \<Rightarrow> (int \<times> 't list) list \<Rightarrow> (int \<times> 't list) list" where
  "map_at key f [] = [(key, f [])]"
| "map_at key f ((k, b) # m) =
     (if key < k then (key, f []) # (k, b) # m
      else if key = k then (k, f b) # m
      else (k, b) # map_at key f m)"

definition w_ins :: "int \<Rightarrow> 't \<Rightarrow> 't bq \<Rightarrow> 't bq option" where
  "w_ins key obj q =
     Some (q\<lparr>bucket := map_at key (if bq_insNeq q \<or> key = max_integer64
                                    then (\<lambda>b. b @ [obj]) else (\<lambda>b. obj # b)) (bucket q),
             idx := insert obj (idx q), bq_count := bq_count q + 1\<rparr>)"

definition w_has :: "'t \<Rightarrow> 't bq \<Rightarrow> bool option" where
  "w_has obj q = Some (obj \<in> idx q)"

text \<open>\<open>front()\<close> of an empty list is undefined in C++; no bucket is empty.\<close>

definition w_del :: "'t bq \<Rightarrow> 't option \<times> 't bq" where
  "w_del q =
     (case bucket q of
        [] \<Rightarrow> (None, q)
      | (k, b) # m \<Rightarrow>
          let ret = hd b; b' = tl b in
          (Some ret, q\<lparr>bucket := (if b' = [] then m else (k, b') # m), idx := idx q - {ret},
                       bq_count := bq_count q - 1\<rparr>))"

subsection \<open>Representation\<close>

fun flatten :: "(int \<times> 't list) list \<Rightarrow> (int \<times> 't) list" where
  "flatten [] = []"
| "flatten ((k, b) # m) = map (Pair k) b @ flatten m"

definition bq_rep :: "'t bq \<Rightarrow> bool \<Rightarrow> (int \<times> 't) list \<Rightarrow> bool" where
  "bq_rep q b xs \<longleftrightarrow>
     flatten (bucket q) = xs \<and> sorted_wrt (<) (map fst (bucket q)) \<and> [] \<notin> snd ` set (bucket q)
     \<and> idx q = snd ` set xs \<and> bq_count q = int (length xs) \<and> bq_insNeq q = b \<and> waiters_ok xs"

lemma takeWhile_append_split:
  "\<forall>x \<in> set xs. P x \<Longrightarrow> takeWhile P (xs @ ys) = xs @ takeWhile P ys"
  "\<forall>x \<in> set xs. P x \<Longrightarrow> dropWhile P (xs @ ys) = dropWhile P ys"
  by (induction xs) auto

lemma flatten_keys: "e \<in> set (flatten m) \<Longrightarrow> fst e \<in> fst ` set m"
  by (induction m rule: flatten.induct) auto

lemma takeWhile_flatten_none:
  "\<forall>e \<in> set (flatten m). \<not> P e \<Longrightarrow> takeWhile P (flatten m) = [] \<and> dropWhile P (flatten m) = flatten m"
  by (cases "flatten m") auto

lemma flatten_map_at:
  assumes "sorted_wrt (<) (map fst m)" and "\<forall>e. P e \<longleftrightarrow> fst e < key \<or> (neq \<and> fst e = key)"
  shows "flatten (map_at key (if neq then (\<lambda>b. b @ [obj]) else (\<lambda>b. obj # b)) m)
    = takeWhile P (flatten m) @ (key, obj) # dropWhile P (flatten m)"
  using assms(1)
proof (induction m rule: flatten.induct)
  case (2 k b m)
  have later: "\<forall>e \<in> set (flatten m). k < fst e" using 2(2) flatten_keys by fastforce
  consider "key < k" | "key = k" | "k < key" by linarith
  then show ?case
  proof cases
    case 1
    then have "\<forall>e \<in> set (flatten ((k, b) # m)). \<not> P e" using later assms(2) by force
    from takeWhile_flatten_none [OF this] 1 show ?thesis by (simp add: takeWhile_flatten_none)
  next
    case 2
    then have n: "\<forall>e \<in> set (flatten m). \<not> P e" using later assms(2) by force
    show ?thesis
    proof (cases neq)
      case True
      then have "\<forall>e \<in> set (map (Pair k) b). P e" using 2 assms(2) by auto
      with takeWhile_flatten_none [OF n] True 2 show ?thesis by (simp add: takeWhile_append_split)
    next
      case False
      then have "\<forall>e \<in> set (flatten ((k, b) # m)). \<not> P e" using 2 n assms(2) by auto
      from takeWhile_flatten_none [OF this] False 2 show ?thesis by simp
    qed
  next
    case 3
    then have "\<forall>e \<in> set (map (Pair k) b). P e" using assms(2) by auto
    with 3 2 show ?thesis by (auto simp: takeWhile_append_split)
  qed
qed simp

lemma map_at_keys:
  fixes m :: "(int \<times> 'a list) list"
  shows "fst ` set (map_at key f m) = insert key (fst ` set m)"
  "sorted_wrt (<) (map fst m) \<Longrightarrow> sorted_wrt (<) (map fst (map_at key f m))"
proof -
  show k: "fst ` set (map_at key f m) = insert key (fst ` set m)"
    for key :: int and f and m :: "(int \<times> 'a list) list"
    by (induction key f m rule: map_at.induct) auto
  show "sorted_wrt (<) (map fst m) \<Longrightarrow> sorted_wrt (<) (map fst (map_at key f m))"
  proof (induction key f m rule: map_at.induct)
    case (2 key f k b m)
    have "fst ` set (map_at key f m) = insert key (fst ` set m)" by (rule k)
    with 2 show ?case by (auto simp flip: set_map)
  qed simp
qed

lemma map_at_nonempty:
  "[] \<notin> snd ` set m \<Longrightarrow> \<forall>b. [] \<noteq> f b \<Longrightarrow> [] \<notin> snd ` set (map_at key f m)"
  by (induction key f m rule: map_at.induct) auto

lemma w_ins_rep:
  assumes "bq_rep q b xs" "d \<notin> snd ` set xs" "k \<le> max_integer64"
  shows "\<exists>q'. w_ins k d q = Some q' \<and> bq_rep q' b (sq_ins b k d xs)"
proof -
  let ?neq = "b \<or> k = max_integer64"
  let ?f = "if ?neq then (\<lambda>b. b @ [d]) else (\<lambda>b. d # b)"
  let ?P = "\<lambda>e. if ?neq then fst e \<le> k else fst e < k"
  have P: "\<forall>e. ?P e \<longleftrightarrow> fst e < k \<or> (?neq \<and> fst e = k)" by auto
  from assms(1) have ok: "waiters_ok xs" and m: "sorted_wrt (<) (map fst (bucket q))"
    "[] \<notin> snd ` set (bucket q)" "flatten (bucket q) = xs" "bq_insNeq q = b" "idx q = snd ` set xs"
    "bq_count q = int (length xs)"
    by (auto simp: bq_rep_def)
  have "flatten (map_at k ?f (bucket q)) = takeWhile ?P xs @ (k, d) # dropWhile ?P xs"
    using flatten_map_at [OF m(1) P, of d] m(3) by simp
  also have "\<dots> = sq_ins b k d xs"
    using ok by (auto simp: sq_ins_def key_passes_def waiters_ok_def)
  finally have fl: "flatten (map_at k ?f (bucket q)) = sq_ins b k d xs" .
  have "\<forall>b. [] \<noteq> ?f b" by auto
  then have "[] \<notin> snd ` set (map_at k ?f (bucket q))"
    using map_at_nonempty [OF m(2)] by blast
  with fl show ?thesis
    using map_at_keys(2) [OF m(1)] waiters_ok_ins [OF ok assms(2,3)] m(4-6)
    by (auto simp: w_ins_def bq_rep_def)
qed

lemma w_del_rep:
  assumes "bq_rep q b xs"
  shows "fst (w_del q) = (case xs of [] \<Rightarrow> None | e # _ \<Rightarrow> Some (snd e)) \<and> bq_rep (snd (w_del q)) b (tl xs)"
proof (cases "bucket q")
  case Nil
  with assms show ?thesis by (auto simp: w_del_def bq_rep_def)
next
  case (Cons e m)
  obtain k c where e: "e = (k, c)" by (cases e)
  with assms Cons have "c \<noteq> []" by (auto simp: bq_rep_def)
  then obtain d ds where c: "c = d # ds" by (cases c) auto
  have xs: "xs = (k, d) # map (Pair k) ds @ flatten m"
    using assms Cons e c by (auto simp: bq_rep_def)
  have ok: "waiters_ok (tl xs)" "d \<notin> snd ` set (tl xs)"
    using assms xs by (auto simp: bq_rep_def waiters_ok_def)
  then have "idx q - {d} = snd ` set (tl xs)" using assms xs by (auto simp: bq_rep_def)
  with ok assms Cons e c xs show ?thesis by (auto simp: w_del_def bq_rep_def Let_def)
qed

interpretation bq: wait_queue bq_rep bq_new bq_set_neq bq_insNeq w_ins w_has w_del bq_count
proof
  show "bq_rep bq_new False ([] :: (int \<times> 't) list)"
    by (simp add: bq_rep_def bq_new_def waiters_ok_def)
  show "bq_rep (bq_set_neq c q) c xs" if "bq_rep q b xs" for q :: "'t bq" and b c xs
    using that by (simp add: bq_rep_def bq_set_neq_def)
  show "\<exists>q'. w_ins k d q = Some q' \<and> bq_rep q' b (sq_ins b k d xs)"
    if "bq_rep q b xs" "d \<notin> snd ` set xs" "k \<le> max_integer64" for q :: "'t bq" and b xs d k
    using w_ins_rep [OF that] .
  show "fst (w_del q) = None \<and> bq_rep (snd (w_del q)) b []" if "bq_rep q b []" for q :: "'t bq" and b
    using w_del_rep [OF that] by simp
  show "fst (w_del q) = Some d \<and> bq_rep (snd (w_del q)) b xs" if "bq_rep q b ((k, d) # xs)"
    for q :: "'t bq" and b k d xs
    using w_del_rep [OF that] by simp
qed (simp_all add: bq_rep_def w_has_def)

section \<open>The semaphore\<close>

record 't lim =
  lm_count :: int
  v_limit :: int
  lm_wait :: "'t bq option"
  lm_prio :: bool

text \<open>The constructor; \<open>insNeq\<close> is set to 1.\<close>

definition lim_new :: "int \<Rightarrow> bool \<Rightarrow> 't lim" where
  "lim_new lim prio =
     \<lparr>lm_count = 0, v_limit = lim, lm_wait = Some (bq_set_neq True bq_new), lm_prio = prio\<rparr>"

text \<open>The destructor: \<open>wait\<close> is null before the waiters are woken.\<close>

definition lim_destroy :: "'t lim \<Rightarrow> ('t list \<times> 't lim) option" where
  "lim_destroy s =
     (case lm_wait s of
        None \<Rightarrow> None
      | Some q \<Rightarrow> map_option (\<lambda>woken. (woken, s\<lparr>lm_wait := None\<rparr>)) (wake_all w_del q))"

text \<open>\<open>get\<close> called by \<open>me\<close>, whose \<open>priority(thNULL)\<close> is \<open>p\<close>.\<close>

definition lim_get :: "'t \<Rightarrow> int \<Rightarrow> 't lim \<Rightarrow> (outcome \<times> 't lim) option" where
  "lim_get me p s =
     (case lm_wait s of
        None \<Rightarrow> Some (Throws_error, s)
      | Some q \<Rightarrow>
          if lm_count s < v_limit s then Some (Acquired, s\<lparr>lm_count := lm_count s + 1\<rparr>)
          else Option.bind (w_has me q) (\<lambda>h.
            if h then Some (Waits, s)
            else map_option (\<lambda>q'. (Waits, s\<lparr>lm_wait := Some q'\<rparr>))
                   (w_ins (if lm_prio s then p else max_integer64) me q)))"

text \<open>The predicate \<open>get\<close> throws: may the caller try again?\<close>

definition lim_ready :: "'t lim \<Rightarrow> 't \<Rightarrow> bool option" where
  "lim_ready s caller =
     (case lm_wait s of None \<Rightarrow> Some True | Some q \<Rightarrow> map_option Not (w_has caller q))"

text \<open>\<open>release\<close>: the state machine that is woken, if any; releasing too often panics.\<close>

definition lim_release :: "'t lim \<Rightarrow> ('t option \<times> 't lim) option" where
  "lim_release s =
     (case lm_wait s of
        None \<Rightarrow> Some (None, s)
      | Some q \<Rightarrow>
          if lm_count s \<le> 0 then None
          else
            let s1 = s\<lparr>lm_count := lm_count s - 1\<rparr> in
            if lm_count s1 \<ge> v_limit s1 then Some (None, s1)
            else Some (fst (w_del q), s1\<lparr>lm_wait := Some (snd (w_del q))\<rparr>))"

definition lim_set_neq :: "bool \<Rightarrow> 't lim \<Rightarrow> 't lim" where
  "lim_set_neq v s = (case lm_wait s of None \<Rightarrow> s | Some q \<Rightarrow> s\<lparr>lm_wait := Some (bq_set_neq v q)\<rparr>)"

definition lim_get_neq :: "'t lim \<Rightarrow> bool" where
  "lim_get_neq s = (case lm_wait s of None \<Rightarrow> True | Some q \<Rightarrow> bq_insNeq q)"

text \<open>The loop of \<open>limit(lim)\<close>: at most \<open>n\<close> waiters.\<close>

fun wake_up_to :: "nat \<Rightarrow> 't bq \<Rightarrow> 't list \<times> 't bq" where
  "wake_up_to 0 q = ([], q)"
| "wake_up_to (Suc n) q =
     (case fst (w_del q) of
        None \<Rightarrow> ([], snd (w_del q))
      | Some obj \<Rightarrow> apfst ((#) obj) (wake_up_to n (snd (w_del q))))"

text \<open>
  \<open>limit(lim)\<close>.  Raising the limit of a destroyed semaphore dereferences the null wait queue.
\<close>

definition set_limit :: "int \<Rightarrow> 't lim \<Rightarrow> ('t list \<times> 't lim) option" where
  "set_limit lim s =
     (if lim < 1 \<or> v_limit s = lim then Some ([], s)
      else if v_limit s > lim then Some ([], s\<lparr>v_limit := lim\<rparr>)
      else
        case lm_wait s of
          None \<Rightarrow> None
        | Some q \<Rightarrow>
            let (woken, q') = wake_up_to (nat (lim - v_limit s)) q
            in Some (woken, s\<lparr>v_limit := lim, lm_wait := Some q'\<rparr>))"

lemma wake_up_to_rep:
  "bq_rep q b xs \<Longrightarrow>
   fst (wake_up_to n q) = map snd (take n xs) \<and> bq_rep (snd (wake_up_to n q)) b (drop n xs)"
proof (induction n arbitrary: q xs)
  case (Suc n)
  show ?case
  proof (cases xs)
    case Nil
    with bq.deq_cases [OF Suc.prems] show ?thesis by simp
  next
    case (Cons e es)
    with bq.deq_cases [OF Suc.prems] Suc.IH [of "snd (w_del q)" es] show ?thesis by simp
  qed
qed simp

section \<open>State machines that share a semaphore\<close>

text \<open>
  A step of the system of all callers.  The second component is the set of state machines that
  were woken and have not retried yet.  A caller enters \<open>get\<close> only when the predicate of its
  last exception holds for it: that is how the machine that catches the exception retries.
\<close>

inductive lim_step :: "'t lim \<times> 't set \<Rightarrow> 't lim \<times> 't set \<Rightarrow> bool" where
  get: "lim_ready s me = Some True \<Longrightarrow> p \<le> max_integer64 \<Longrightarrow> lim_get me p s = Some (out, s')
    \<Longrightarrow> lim_step (s, W) (s', W - {me})"
| release: "lim_release s = Some (obj, s') \<Longrightarrow> lim_step (s, W) (s', W \<union> set_option obj)"
| limit: "set_limit lim s = Some (woken, s') \<Longrightarrow> lim_step (s, W) (s', W \<union> set woken)"
| neq: "lim_step (s, W) (lim_set_neq v s, W)"

inductive_cases lim_stepE: "lim_step (s, W) sw"

text \<open>
  The invariant: nobody is queued while a slot is free, except for as many slots as there are
  woken callers on their way back.
\<close>

definition lim_inv :: "'t lim \<times> 't set \<Rightarrow> bool" where
  "lim_inv sw \<longleftrightarrow>
     (\<exists>q b xs. lm_wait (fst sw) = Some q \<and> bq_rep q b xs \<and> finite (snd sw)
        \<and> snd sw \<inter> snd ` set xs = {} \<and> 0 \<le> lm_count (fst sw)
        \<and> (xs \<noteq> [] \<longrightarrow> v_limit (fst sw) - lm_count (fst sw) \<le> int (card (snd sw))))"

lemma lim_invI:
  "lm_wait s = Some q \<Longrightarrow> bq_rep q b xs \<Longrightarrow> finite W \<Longrightarrow> W \<inter> snd ` set xs = {} \<Longrightarrow> 0 \<le> lm_count s
   \<Longrightarrow> (xs \<noteq> [] \<Longrightarrow> v_limit s - lm_count s \<le> int (card W)) \<Longrightarrow> lim_inv (s, W)"
  by (auto simp: lim_inv_def)

lemma lim_inv_new [preserves]: "lim_inv (lim_new lim prio, {})"
  using bq.rep_set_neq [OF bq.rep_new, of True] by (auto simp: lim_inv_def lim_new_def)

lemma card_remove_le: "finite W \<Longrightarrow> int (card W) \<le> int (card (W - {x})) + 1"
  by (metis card_Diff1_le card_Suc_Diff1 Diff_empty Diff_insert0 Suc_eq_plus1 dual_order.refl le_add1 of_nat_1 of_nat_add of_nat_le_iff)

lemma lim_inv_get [preserves]:
  assumes "lim_inv (s, W)" "lim_ready s me = Some True" "p \<le> max_integer64"
    "lim_get me p s = Some (out, s')"
  shows "lim_inv (s', W - {me})"
proof -
  from assms(1) obtain q b xs where q: "lm_wait s = Some q" "bq_rep q b xs" "finite W"
    "W \<inter> snd ` set xs = {}" "0 \<le> lm_count s"
    "xs \<noteq> [] \<longrightarrow> v_limit s - lm_count s \<le> int (card W)"
    by (auto simp: lim_inv_def)
  have me: "me \<notin> snd ` set xs" using assms(2) q bq.rep_has [OF q(2), of me] by (auto simp: lim_ready_def)
  show ?thesis
  proof (cases "lm_count s < v_limit s")
    case True
    with assms(4) q have "s' = s\<lparr>lm_count := lm_count s + 1\<rparr>" by (auto simp: lim_get_def)
    with q card_remove_le [OF q(3), of me] show ?thesis by (intro lim_invI [OF _ q(2)]) auto
  next
    case False
    let ?k = "if lm_prio s then p else max_integer64"
    have "?k \<le> max_integer64" using assms(3) by simp
    then obtain q' where "w_ins ?k me q = Some q'" and r: "bq_rep q' b (sq_ins b ?k me xs)"
      using bq.rep_enq [OF q(2) me] by blast
    with False assms(4) q me bq.rep_has [OF q(2), of me]
    have "s' = s\<lparr>lm_wait := Some q'\<rparr>" by (auto simp: lim_get_def)
    with q False show ?thesis by (intro lim_invI [OF _ r]) auto
  qed
qed

lemma lim_inv_release [preserves]:
  assumes "lim_inv (s, W)" "lim_release s = Some (obj, s')"
  shows "lim_inv (s', W \<union> set_option obj)"
proof -
  from assms(1) obtain q b xs where q: "lm_wait s = Some q" "bq_rep q b xs" "finite W"
    "W \<inter> snd ` set xs = {}" "0 \<le> lm_count s"
    "xs \<noteq> [] \<longrightarrow> v_limit s - lm_count s \<le> int (card W)"
    by (auto simp: lim_inv_def)
  have d: "fst (w_del q) = (case xs of [] \<Rightarrow> None | e # _ \<Rightarrow> Some (snd e))" "bq_rep (snd (w_del q)) b (tl xs)"
    using bq.deq_cases [OF q(2)] by auto
  have c: "0 < lm_count s" using assms(2) q by (auto simp: lim_release_def split: if_splits)
  show ?thesis
  proof (cases "lm_count s - 1 \<ge> v_limit s")
    case True
    with assms(2) q c have "s' = s\<lparr>lm_count := lm_count s - 1\<rparr>" "obj = None"
      by (auto simp: lim_release_def Let_def)
    with q c True show ?thesis by (intro lim_invI [OF _ q(2)]) auto
  next
    case False
    with assms(2) q c have s': "s' = s\<lparr>lm_count := lm_count s - 1, lm_wait := Some (snd (w_del q))\<rparr>"
      "obj = fst (w_del q)"
      by (auto simp: lim_release_def Let_def)
    show ?thesis
    proof (cases xs)
      case Nil
      with s' q c d show ?thesis by (intro lim_invI [OF _ d(2)]) auto
    next
      case (Cons e es)
      have "snd e \<notin> W" "snd e \<notin> snd ` set es"
        using q(2,4) Cons by (auto simp: bq_rep_def waiters_ok_def)
      with s' q c d Cons show ?thesis by (intro lim_invI [OF _ d(2)]) auto
    qed
  qed
qed

lemma card_add_disjoint:
  "finite W \<Longrightarrow> set ys \<inter> W = {} \<Longrightarrow> distinct ys \<Longrightarrow> card (W \<union> set ys) = card W + length ys"
  by (subst card_Un_disjoint) (auto simp: distinct_card)

lemma lim_inv_limit [preserves]:
  assumes "lim_inv (s, W)" "set_limit lim s = Some (woken, s')"
  shows "lim_inv (s', W \<union> set woken)"
proof -
  from assms(1) obtain q b xs where q: "lm_wait s = Some q" "bq_rep q b xs" "finite W"
    "W \<inter> snd ` set xs = {}" "0 \<le> lm_count s"
    "xs \<noteq> [] \<longrightarrow> v_limit s - lm_count s \<le> int (card W)"
    by (auto simp: lim_inv_def)
  consider "lim < 1 \<or> v_limit s = lim" | "\<not> lim < 1" "v_limit s > lim" | "\<not> lim < 1" "v_limit s < lim"
    by linarith
  then show ?thesis
  proof cases
    case 3
    let ?n = "nat (lim - v_limit s)"
    have w: "woken = map snd (take ?n xs)" "bq_rep (snd (wake_up_to ?n q)) b (drop ?n xs)"
      "s' = s\<lparr>v_limit := lim, lm_wait := Some (snd (wake_up_to ?n q))\<rparr>"
      using wake_up_to_rep [OF q(2), of ?n] assms(2) 3 q(1)
      by (auto simp: set_limit_def split: prod.splits)
    have dist: "distinct (map snd xs)" using q(2) by (simp add: bq_rep_def waiters_ok_def)
    have "distinct woken" using dist by (simp add: w(1) flip: take_map)
    moreover have "set woken \<inter> snd ` set (drop ?n xs) = {}"
      using set_take_disj_set_drop_if_distinct [OF dist, of ?n ?n]
      by (simp add: w(1) take_map drop_map flip: set_map)
    moreover have "set woken \<inter> W = {}" "W \<inter> snd ` set (drop ?n xs) = {}"
      using q(4) w(1) by (auto dest: in_set_takeD in_set_dropD)
    moreover have "card (W \<union> set woken) = card W + length woken"
      using calculation q(3) by (intro card_add_disjoint) auto
    moreover have "drop ?n xs \<noteq> [] \<Longrightarrow> length woken = ?n" using w(1) by auto
    ultimately show ?thesis using w(2,3) q 3 by (intro lim_invI [OF _ w(2)]) auto
  qed (use assms(2) q in \<open>auto simp: set_limit_def intro!: lim_invI\<close>)
qed

lemma lim_inv_neq [preserves]: "lim_inv (s, W) \<Longrightarrow> lim_inv (lim_set_neq v s, W)"
  using bq.rep_set_neq by (fastforce simp: lim_inv_def lim_set_neq_def)

lemma lim_inv_step: "lim_step sw sw' \<Longrightarrow> lim_inv sw \<Longrightarrow> lim_inv sw'"
  by (induction rule: lim_step.induct) (auto intro: preserves)

lemma lim_inv_reachable: "lim_step\<^sup>*\<^sup>* (lim_new lim prio, {}) sw \<Longrightarrow> lim_inv sw"
  by (induction rule: rtranclp_induct) (auto intro: lim_inv_step lim_inv_new)

section \<open>Properties\<close>

text \<open>The bucket structure \<open>stdLimitSemaphoreWait\<close> answers every script of operations exactly
  as the linked \<open>stdQueue\<close> it replaced does: same dequeue order, same membership answers, same
  lengths, whatever the priorities and however \<open>insNeq\<close> is switched.\<close>

theorem bucket_queue_equivalent:
  assumes "keys_ok ops"
  shows "wq_run bq_set_neq w_ins w_has w_del bq_count ops bq_new
       = wq_run pq_set_neq pq_enq pq_has pq_deq pq_len ops pq_new
    \<and> (\<exists>answers. wq_run bq_set_neq w_ins w_has w_del bq_count ops bq_new = Some answers)"
  using bq.run_abs [OF bq.rep_new assms] pq.run_abs [OF pq.rep_new assms] by auto

theorem bucket_queue_equivalent_witness:
  "wq_run bq_set_neq w_ins w_has w_del bq_count [WIns 5 ''a'', WIns 3 ''b'', WIns 5 ''c'', WDel, WDel] bq_new
     = wq_run pq_set_neq pq_enq pq_has pq_deq pq_len
         [WIns 5 ''a'', WIns 3 ''b'', WIns 5 ''c'', WDel, WDel] pq_new
   \<and> wq_run bq_set_neq w_ins w_has w_del bq_count [WIns 5 ''a'', WIns 3 ''b'', WIns 5 ''c'', WDel, WDel] bq_new
     = Some [ADel (Some ''b''), ADel (Some ''c'')]"
proof -
  have "keys_ok [WIns 5 ''a'', WIns 3 ''b'', WIns 5 ''c'', WDel, WDel]"
    by (simp add: max_integer64_def)
  note eq = bucket_queue_equivalent [OF this]
  have "wq_run bq_set_neq w_ins w_has w_del bq_count [WIns 5 ''a'', WIns 3 ''b'', WIns 5 ''c'', WDel, WDel] bq_new
     = Some [ADel (Some ''b''), ADel (Some ''c'')]"
    by (simp add: w_ins_def w_has_def w_del_def bq_new_def max_integer64_def Let_def)
  with eq show ?thesis by metis
qed

text \<open>In every reachable state of the callers of a limit semaphore, whatever mixture of \<open>get\<close>,
  \<open>release\<close>, \<open>limit\<close> and \<open>insNeq\<close> calls led there, no waiter is left queued while a slot is free:
  the number of free slots is at most the number of woken callers that have yet to retry.\<close>

theorem lim_no_idle_slot:
  assumes "lim_step\<^sup>*\<^sup>* (lim_new lim prio, {}) (s, W)"
  shows "\<exists>q. lm_wait s = Some q \<and> finite W \<and> (\<forall>w \<in> W. w_has w q = Some False)
    \<and> (0 < bq_count q \<longrightarrow> v_limit s - lm_count s \<le> int (card W))"
proof -
  from lim_inv_reachable [OF assms] obtain q b xs where q: "lm_wait s = Some q" "bq_rep q b xs"
    "finite W" "W \<inter> snd ` set xs = {}" "xs \<noteq> [] \<longrightarrow> v_limit s - lm_count s \<le> int (card W)"
    by (auto simp: lim_inv_def)
  then show ?thesis using bq.rep_len [OF q(2)] bq.rep_has [OF q(2)] by auto
qed

theorem lim_no_idle_slot_witness:
  "\<exists>s W q. lim_step\<^sup>*\<^sup>* (lim_new 1 False, {}) (s, W) \<and> lm_wait s = Some q \<and> W = {''b''}
     \<and> v_limit s - lm_count s \<le> int (card W) \<and> bq_count q = 1"
proof -
  let ?s = "\<lambda>c b n. \<lparr>lm_count = c, v_limit = 1,
     lm_wait = Some \<lparr>bucket = b, idx = snd ` set (flatten b), bq_count = n, bq_insNeq = True\<rparr>, lm_prio = False\<rparr>"
  let ?M = max_integer64
  have "lim_step (lim_new 1 False, {}) (?s 1 [] 0, {} - {''a''})"
    by (rule lim_step.get [where p = 0])
      (simp_all add: lim_new_def lim_get_def lim_ready_def w_has_def bq_set_neq_def bq_new_def max_integer64_def)
  moreover have "lim_step (?s 1 [] 0, {} - {''a''}) (?s 1 [(?M, [''b''])] 1, {} - {''a''} - {''b''})"
    by (rule lim_step.get [where p = 0])
      (simp_all add: lim_get_def lim_ready_def w_has_def w_ins_def max_integer64_def)
  moreover have "lim_step (?s 1 [(?M, [''b''])] 1, {} - {''a''} - {''b''})
      (?s 1 [(?M, [''b'', ''c''])] 2, {} - {''a''} - {''b''} - {''c''})"
    by (rule lim_step.get [where p = 0])
      (auto simp: lim_get_def lim_ready_def w_has_def w_ins_def max_integer64_def)
  moreover have "lim_step (?s 1 [(?M, [''b'', ''c''])] 2, {} - {''a''} - {''b''} - {''c''})
      (?s 0 [(?M, [''c''])] 1, ({} - {''a''} - {''b''} - {''c''}) \<union> set_option (Some ''b''))"
    by (rule lim_step.release) (auto simp: lim_release_def w_del_def Let_def)
  ultimately have reach: "lim_step\<^sup>*\<^sup>* (lim_new 1 False, {}) (?s 0 [(?M, [''c''])] 1, {''b''})"
    by (auto intro: converse_rtranclp_into_rtranclp)
  show ?thesis using reach lim_no_idle_slot [OF reach]
    by (intro exI [of _ "?s 0 [(?M, [''c''])] 1"] exI [of _ "{''b''}"] exI) auto
qed

text \<open>In every reachable state the holders are counted between 0 and what \<open>get\<close> admits: a
  ready caller gets a slot exactly when fewer than \<open>v_limit\<close> are held, otherwise it is queued, so
  that it is not ready and is found again; \<open>release\<close> panics exactly when nothing is held.\<close>

theorem lim_get_release:
  assumes "lim_step\<^sup>*\<^sup>* (lim_new lim prio, {}) (s, W)" "lim_ready s me = Some True" "p \<le> max_integer64"
  shows "0 \<le> lm_count s \<and> (lim_release s = None \<longleftrightarrow> lm_count s = 0)
    \<and> (lm_count s < v_limit s \<longrightarrow>
        lim_get me p s = Some (Acquired, s\<lparr>lm_count := lm_count s + 1\<rparr>))
    \<and> (v_limit s \<le> lm_count s \<longrightarrow>
        (\<exists>s'. lim_get me p s = Some (Waits, s') \<and> lim_ready s' me = Some False
          \<and> lim_get me p s' = Some (Waits, s') \<and> lm_count s' = lm_count s))"
proof (intro conjI impI)
  from lim_inv_reachable [OF assms(1)] obtain q b xs where q: "lm_wait s = Some q" "bq_rep q b xs"
    "0 \<le> lm_count s"
    by (auto simp: lim_inv_def)
  then show "0 \<le> lm_count s" by simp
  from q show "lim_release s = None \<longleftrightarrow> lm_count s = 0" by (auto simp: lim_release_def Let_def)
  from q show "lim_get me p s = Some (Acquired, s\<lparr>lm_count := lm_count s + 1\<rparr>)"
    if "lm_count s < v_limit s" using that by (simp add: lim_get_def)
  let ?k = "if lm_prio s then p else max_integer64"
  have "w_has me q = Some False" using assms(2) q by (auto simp: lim_ready_def w_has_def)
  moreover have "?k \<le> max_integer64" using assms(3) by simp
  ultimately obtain q' where "w_ins ?k me q = Some q'" "w_has me q' = Some True"
    using bq.has_after_enq [OF q(2)] by blast
  with q \<open>w_has me q = Some False\<close>
  show "\<exists>s'. lim_get me p s = Some (Waits, s') \<and> lim_ready s' me = Some False
        \<and> lim_get me p s' = Some (Waits, s') \<and> lm_count s' = lm_count s" if "v_limit s \<le> lm_count s"
    using that by (auto simp: lim_get_def lim_ready_def)
qed

theorem lim_get_release_witness:
  "lim_release (lim_new 1 True :: string lim) = None
   \<and> lim_get ''a'' 5 (lim_new 1 True) = Some (Acquired, (lim_new 1 True)\<lparr>lm_count := 1\<rparr>)
   \<and> (\<exists>s'. lim_get ''a'' 5 (lim_new 0 True) = Some (Waits, s') \<and> lim_ready s' ''a'' = Some False)"
proof -
  have r: "lim_ready (lim_new n True) ''a'' = Some True" for n
    by (simp add: lim_ready_def lim_new_def bq_new_def bq_set_neq_def w_has_def)
  have p: "(5 :: int) \<le> max_integer64" by (simp add: max_integer64_def)
  have "lim_release (lim_new 1 True :: string lim) = None"
    using lim_get_release [OF rtranclp.rtrancl_refl r p, of 1] by (simp add: lim_new_def)
  moreover have "lim_get ''a'' 5 (lim_new 1 True) = Some (Acquired, (lim_new 1 True)\<lparr>lm_count := 1\<rparr>)"
    using lim_get_release [OF rtranclp.rtrancl_refl r p, of 1] by (simp add: lim_new_def)
  moreover have "\<exists>s'. lim_get ''a'' 5 (lim_new 0 True) = Some (Waits, s') \<and> lim_ready s' ''a'' = Some False"
    using lim_get_release [OF rtranclp.rtrancl_refl r p, of 0] by (auto simp: lim_new_def)
  ultimately show ?thesis by blast
qed

end
