(* ===== verification/Semaphore.thy ===== *)
theory Semaphore
  imports WaitQueue "HOL-Library.Multiset"
begin

text \<open>
  \<open>stdSemaphore\<close> and the reader-writer lock \<open>stdMutex\<close> of \<open>src/src/classes/ts2/c++/\<close>, over the
  linked wait queue.  Each call runs under the application's mutex, so one call is one step.
  A call returns the state machines it wakes.  \<^term>\<open>None\<close> is a null dereference.
\<close>

section \<open>The counting semaphore\<close>

record 't sem =
  sm_count :: int
  sm_wait :: "'t pq option"
  sm_prio :: bool

definition sem_new :: "int \<Rightarrow> bool \<Rightarrow> 't sem" where
  "sem_new n prio = \<lparr>sm_count = n, sm_wait = Some (pq_set_neq True pq_new), sm_prio = prio\<rparr>"

definition sem_destroy :: "'t sem \<Rightarrow> ('t list \<times> 't sem) option" where
  "sem_destroy s =
     (case sm_wait s of
        None \<Rightarrow> None
      | Some q \<Rightarrow> map_option (\<lambda>woken. (woken, s\<lparr>sm_wait := None\<rparr>)) (wake_all pq_deq q))"

definition sem_get :: "'t \<Rightarrow> int \<Rightarrow> 't sem \<Rightarrow> (outcome \<times> 't sem) option" where
  "sem_get me p s =
     (case sm_wait s of
        None \<Rightarrow> Some (Throws_error, s)
      | Some q \<Rightarrow>
          if sm_count s > 0 then Some (Acquired, s\<lparr>sm_count := sm_count s - 1\<rparr>)
          else Option.bind (pq_has me q) (\<lambda>h.
            if h then Some (Waits, s)
            else map_option (\<lambda>q'. (Waits, s\<lparr>sm_wait := Some q'\<rparr>))
                   (pq_enq (if sm_prio s then p else max_integer64) me q)))"

text \<open>The predicate both exceptions of \<open>get\<close> carry; it does not look whether \<open>wait\<close> is null.\<close>

definition sem_ready :: "'t sem \<Rightarrow> 't \<Rightarrow> bool option" where
  "sem_ready s caller = (case sm_wait s of None \<Rightarrow> None | Some q \<Rightarrow> map_option Not (pq_has caller q))"

definition sem_release :: "'t sem \<Rightarrow> 't option \<times> 't sem" where
  "sem_release s =
     (case sm_wait s of
        None \<Rightarrow> (None, s)
      | Some q \<Rightarrow>
          (fst (pq_deq q), s\<lparr>sm_count := sm_count s + 1, sm_wait := Some (snd (pq_deq q))\<rparr>))"

definition sem_set_neq :: "bool \<Rightarrow> 't sem \<Rightarrow> 't sem" where
  "sem_set_neq v s = (case sm_wait s of None \<Rightarrow> s | Some q \<Rightarrow> s\<lparr>sm_wait := Some (pq_set_neq v q)\<rparr>)"

definition sem_get_neq :: "'t sem \<Rightarrow> bool" where
  "sem_get_neq s = (case sm_wait s of None \<Rightarrow> True | Some q \<Rightarrow> pq_neq q)"

definition sem_waitCount :: "'t sem \<Rightarrow> int" where
  "sem_waitCount s = (case sm_wait s of None \<Rightarrow> -1 | Some q \<Rightarrow> pq_len q)"

subsection \<open>The system of its callers\<close>

text \<open>
  The second component holds the state machines that were woken and have not retried, the third
  the acquisitions minus the releases.
\<close>

inductive sem_step :: "'t sem \<times> 't set \<times> int \<Rightarrow> 't sem \<times> 't set \<times> int \<Rightarrow> bool" where
  get: "sem_ready s me = Some True \<Longrightarrow> p \<le> max_integer64 \<Longrightarrow> sem_get me p s = Some (out, s')
    \<Longrightarrow> sem_step (s, W, h) (s', W - {me}, if out = Acquired then h + 1 else h)"
| release: "sem_release s = (obj, s') \<Longrightarrow> sem_step (s, W, h) (s', W \<union> set_option obj, h - 1)"
| neq: "sem_step (s, W, h) (sem_set_neq v s, W, h)"

definition sem_inv :: "int \<Rightarrow> 't sem \<times> 't set \<times> int \<Rightarrow> bool" where
  "sem_inv n = (\<lambda>(s, W, h).
     (\<exists>q b xs. sm_wait s = Some q \<and> pq_rep q b xs \<and> finite W \<and> W \<inter> snd ` set xs = {}
        \<and> 0 \<le> sm_count s \<and> sm_count s + h = n
        \<and> (xs \<noteq> [] \<longrightarrow> sm_count s \<le> int (card W))))"

lemma sem_invI:
  "sm_wait s = Some q \<Longrightarrow> pq_rep q b xs \<Longrightarrow> finite W \<Longrightarrow> W \<inter> snd ` set xs = {} \<Longrightarrow> 0 \<le> sm_count s
   \<Longrightarrow> sm_count s + h = n \<Longrightarrow> (xs \<noteq> [] \<Longrightarrow> sm_count s \<le> int (card W)) \<Longrightarrow> sem_inv n (s, W, h)"
  unfolding sem_inv_def prod.case by blast

lemma sem_inv_new [preserves]: "0 \<le> n \<Longrightarrow> sem_inv n (sem_new n prio, {}, 0)"
  using pq.rep_set_neq [OF pq.rep_new, of True] by (auto simp: sem_new_def intro!: sem_invI)

lemma sem_card_remove_le: "finite W \<Longrightarrow> int (card W) \<le> int (card (W - {x})) + 1"
  by (metis card_Diff1_le card_Suc_Diff1 Diff_empty Diff_insert0 Suc_eq_plus1 dual_order.refl le_add1 of_nat_1 of_nat_add of_nat_le_iff)

lemma sem_inv_get [preserves]:
  assumes "sem_inv n (s, W, h)" "sem_ready s me = Some True" "p \<le> max_integer64"
    "sem_get me p s = Some (out, s')"
  shows "sem_inv n (s', W - {me}, if out = Acquired then h + 1 else h)"
proof -
  from assms(1) obtain q b xs where q: "sm_wait s = Some q" "pq_rep q b xs" "finite W"
    "W \<inter> snd ` set xs = {}" "0 \<le> sm_count s" "sm_count s + h = n"
    "xs \<noteq> [] \<longrightarrow> sm_count s \<le> int (card W)"
    by (auto simp: sem_inv_def)
  have me: "me \<notin> snd ` set xs" using assms(2) q pq.rep_has [OF q(2), of me] by (auto simp: sem_ready_def)
  show ?thesis
  proof (cases "sm_count s > 0")
    case True
    with assms(4) q have "s' = s\<lparr>sm_count := sm_count s - 1\<rparr>" "out = Acquired"
      by (auto simp: sem_get_def)
    with q True sem_card_remove_le [OF q(3), of me] show ?thesis by (intro sem_invI [OF _ q(2)]) auto
  next
    case False
    let ?k = "if sm_prio s then p else max_integer64"
    have "?k \<le> max_integer64" using assms(3) by simp
    then obtain q' where "pq_enq ?k me q = Some q'" and r: "pq_rep q' b (sq_ins b ?k me xs)"
      using pq.rep_enq [OF q(2) me] by blast
    with False assms(4) q me pq.rep_has [OF q(2), of me]
    have "s' = s\<lparr>sm_wait := Some q'\<rparr>" "out = Waits" by (auto simp: sem_get_def)
    with q False show ?thesis by (intro sem_invI [OF _ r]) auto
  qed
qed

lemma sem_inv_release [preserves]:
  assumes "sem_inv n (s, W, h)" "sem_release s = (obj, s')"
  shows "sem_inv n (s', W \<union> set_option obj, h - 1)"
proof -
  from assms(1) obtain q b xs where q: "sm_wait s = Some q" "pq_rep q b xs" "finite W"
    "W \<inter> snd ` set xs = {}" "0 \<le> sm_count s" "sm_count s + h = n"
    "xs \<noteq> [] \<longrightarrow> sm_count s \<le> int (card W)"
    by (auto simp: sem_inv_def)
  have d: "fst (pq_deq q) = (case xs of [] \<Rightarrow> None | e # _ \<Rightarrow> Some (snd e))" "pq_rep (snd (pq_deq q)) b (tl xs)"
    using pq.deq_cases [OF q(2)] by auto
  have s': "s' = s\<lparr>sm_count := sm_count s + 1, sm_wait := Some (snd (pq_deq q))\<rparr>" "obj = fst (pq_deq q)"
    using assms(2) q(1) by (auto simp: sem_release_def)
  show ?thesis
  proof (cases xs)
    case Nil
    with s' q d show ?thesis by (intro sem_invI [OF _ d(2)]) auto
  next
    case (Cons e es)
    have "snd e \<notin> W" "snd e \<notin> snd ` set es"
      using q(2,4) Cons by (auto simp: pq_rep_def waiters_ok_def)
    with s' q d Cons show ?thesis by (intro sem_invI [OF _ d(2)]) auto
  qed
qed

lemma sem_inv_neq [preserves]:
  assumes "sem_inv n (s, W, h)"
  shows "sem_inv n (sem_set_neq v s, W, h)"
proof -
  from assms obtain q b xs where q: "sm_wait s = Some q" "pq_rep q b xs" "finite W"
    "W \<inter> snd ` set xs = {}" "0 \<le> sm_count s" "sm_count s + h = n"
    "xs \<noteq> [] \<longrightarrow> sm_count s \<le> int (card W)"
    by (auto simp: sem_inv_def)
  from q show ?thesis
    by (intro sem_invI [OF _ pq.rep_set_neq [OF q(2), of v]]) (auto simp: sem_set_neq_def)
qed

lemma sem_inv_step: "sem_step x y \<Longrightarrow> sem_inv n x \<Longrightarrow> sem_inv n y"
  by (induction rule: sem_step.induct) (blast intro: preserves)+

lemma sem_inv_reachable:
  "sem_step\<^sup>*\<^sup>* (sem_new n prio, {}, 0) x \<Longrightarrow> 0 \<le> n \<Longrightarrow> sem_inv n x"
  by (induction rule: rtranclp_induct) (auto intro: sem_inv_step sem_inv_new)

section \<open>The reader-writer lock\<close>

record 't mutex =
  mx_count :: int
  mx_wait :: "'t pq option"

definition mutex_new :: "'t mutex" where
  "mutex_new = \<lparr>mx_count = 0, mx_wait = Some pq_new\<rparr>"

definition mutex_destroy :: "'t mutex \<Rightarrow> ('t list \<times> 't mutex) option" where
  "mutex_destroy s =
     (case mx_wait s of
        None \<Rightarrow> None
      | Some q \<Rightarrow> map_option (\<lambda>woken. (woken, s\<lparr>mx_wait := None\<rparr>)) (wake_all pq_deq q))"

text \<open>The common end of both lock calls: queue the caller unless it is queued, and throw.\<close>

definition mutex_wait :: "'t \<Rightarrow> 't pq \<Rightarrow> 't mutex \<Rightarrow> (outcome \<times> 't mutex) option" where
  "mutex_wait me q s =
     Option.bind (pq_has me q) (\<lambda>h.
       if h then Some (Waits, s)
       else map_option (\<lambda>q'. (Waits, s\<lparr>mx_wait := Some q'\<rparr>)) (pq_enq max_integer64 me q))"

definition read_lock :: "'t \<Rightarrow> 't mutex \<Rightarrow> (outcome \<times> 't mutex) option" where
  "read_lock me s =
     (case mx_wait s of
        None \<Rightarrow> Some (Throws_error, s)
      | Some q \<Rightarrow>
          if mx_count s \<ge> 0 then Some (Acquired, s\<lparr>mx_count := mx_count s + 1\<rparr>)
          else mutex_wait me q s)"

definition write_lock :: "'t \<Rightarrow> 't mutex \<Rightarrow> (outcome \<times> 't mutex) option" where
  "write_lock me s =
     (case mx_wait s of
        None \<Rightarrow> Some (Throws_error, s)
      | Some q \<Rightarrow>
          if mx_count s = 0 then Some (Acquired, s\<lparr>mx_count := -1\<rparr>)
          else mutex_wait me q s)"

definition mutex_ready :: "'t mutex \<Rightarrow> 't \<Rightarrow> bool option" where
  "mutex_ready s caller = (case mx_wait s of None \<Rightarrow> None | Some q \<Rightarrow> map_option Not (pq_has caller q))"

text \<open>\<open>release\<close>: once the lock is free, a fresh queue takes the place of the old one, and
  everyone in the old one is woken.\<close>

definition mutex_release :: "'t mutex \<Rightarrow> ('t list \<times> 't mutex) option" where
  "mutex_release s =
     (case mx_wait s of
        None \<Rightarrow> Some ([], s)
      | Some que \<Rightarrow>
          if mx_count s = 0 then Some ([], s)
          else
            let s1 = s\<lparr>mx_count := (if mx_count s < 0 then 0 else mx_count s - 1)\<rparr> in
            if mx_count s1 \<noteq> 0 then Some ([], s1)
            else map_option (\<lambda>woken. (woken, s1\<lparr>mx_wait := Some pq_new\<rparr>)) (wake_all pq_deq que))"

definition wait_count :: "'t mutex \<Rightarrow> int" where
  "wait_count s = (case mx_wait s of None \<Rightarrow> 0 | Some q \<Rightarrow> pq_len q)"

definition flag_count :: "'t mutex \<Rightarrow> int" where
  "flag_count s = mx_count s"

subsection \<open>The system of its callers\<close>

text \<open>
  The multisets of readers and of writers that hold the lock; a caller releases what it holds.
\<close>

inductive mutex_step :: "'t mutex \<times> 't multiset \<times> 't multiset \<Rightarrow> 't mutex \<times> 't multiset \<times> 't multiset \<Rightarrow> bool"
where
  read: "mutex_ready s me = Some True \<Longrightarrow> read_lock me s = Some (out, s')
    \<Longrightarrow> mutex_step (s, R, W) (s', if out = Acquired then add_mset me R else R, W)"
| writ: "mutex_ready s me = Some True \<Longrightarrow> write_lock me s = Some (out, s')
    \<Longrightarrow> mutex_step (s, R, W) (s', R, if out = Acquired then add_mset me W else W)"
| release_r: "me \<in># R \<Longrightarrow> mutex_release s = Some (woken, s') \<Longrightarrow> mutex_step (s, R, W) (s', R - {#me#}, W)"
| release_w: "me \<in># W \<Longrightarrow> mutex_release s = Some (woken, s') \<Longrightarrow> mutex_step (s, R, W) (s', R, W - {#me#})"

definition mutex_inv :: "'t mutex \<times> 't multiset \<times> 't multiset \<Rightarrow> bool" where
  "mutex_inv = (\<lambda>(s, R, W).
     (\<exists>q xs. mx_wait s = Some q \<and> pq_rep q False xs \<and> (xs \<noteq> [] \<longrightarrow> mx_count s \<noteq> 0)
        \<and> ((W = {#} \<and> mx_count s = int (size R)) \<or> (size W = 1 \<and> R = {#} \<and> mx_count s = -1))))"

lemma mutex_invI:
  "mx_wait s = Some q \<Longrightarrow> pq_rep q False xs \<Longrightarrow> (xs \<noteq> [] \<Longrightarrow> mx_count s \<noteq> 0)
   \<Longrightarrow> (W = {#} \<and> mx_count s = int (size R)) \<or> (size W = 1 \<and> R = {#} \<and> mx_count s = -1)
   \<Longrightarrow> mutex_inv (s, R, W)"
  unfolding mutex_inv_def prod.case by blast

lemma mutex_invE:
  assumes "mutex_inv (s, R, W)"
  obtains q xs where "mx_wait s = Some q" "pq_rep q False xs" "xs \<noteq> [] \<longrightarrow> mx_count s \<noteq> 0"
    "(W = {#} \<and> mx_count s = int (size R)) \<or> (size W = 1 \<and> R = {#} \<and> mx_count s = -1)"
  using assms by (auto simp: mutex_inv_def)

lemma mutex_inv_new [preserves]: "mutex_inv (mutex_new, {#}, {#})"
  using pq.rep_new by (auto simp: mutex_new_def intro!: mutex_invI)

lemma mutex_wait_result:
  assumes "pq_rep q False xs"
  shows "\<exists>q' xs'. mutex_wait me q s = Some (Waits, if me \<in> snd ` set xs then s else s\<lparr>mx_wait := Some q'\<rparr>)
           \<and> pq_rep q' False xs' \<and> me \<in> snd ` set xs' \<and> set (map snd xs) \<subseteq> set (map snd xs')"
proof (cases "me \<in> snd ` set xs")
  case True
  then show ?thesis
    using assms pq.rep_has [OF assms, of me]
    by (intro exI [of _ q] exI [of _ xs]) (simp add: mutex_wait_def)
next
  case False
  from pq.rep_enq [OF assms False, of max_integer64] show ?thesis
    using False assms by (fastforce simp: mutex_wait_def pq.rep_has image_iff)
qed

lemma mutex_inv_wait:
  assumes "mutex_inv (s, R, W)" "mx_wait s = Some q" "mutex_wait me q s = Some (out, s')" "mx_count s \<noteq> 0"
  shows "out = Waits \<and> mutex_inv (s', R, W)"
proof -
  obtain xs where q: "pq_rep q False xs"
    "(W = {#} \<and> mx_count s = int (size R)) \<or> (size W = 1 \<and> R = {#} \<and> mx_count s = -1)"
    using mutex_invE [OF assms(1)] assms(2) by (metis option.inject)
  obtain q' xs' where w: "mutex_wait me q s = Some (Waits, if me \<in> snd ` set xs then s else s\<lparr>mx_wait := Some q'\<rparr>)"
    "pq_rep q' False xs'"
    using mutex_wait_result [OF q(1), of me s] by blast
  show ?thesis
  proof (cases "me \<in> snd ` set xs")
    case True
    with w(1) assms show ?thesis by simp
  next
    case False
    with w(1) assms have "out = Waits" "s' = s\<lparr>mx_wait := Some q'\<rparr>" by auto
    with q assms(4) show ?thesis by (auto intro!: mutex_invI [OF _ w(2)])
  qed
qed

lemma mutex_inv_read [preserves]:
  assumes "mutex_inv (s, R, W)" "read_lock me s = Some (out, s')"
  shows "mutex_inv (s', if out = Acquired then add_mset me R else R, W)"
proof -
  obtain q xs where q: "mx_wait s = Some q" "pq_rep q False xs"
    "(W = {#} \<and> mx_count s = int (size R)) \<or> (size W = 1 \<and> R = {#} \<and> mx_count s = -1)"
    using mutex_invE [OF assms(1)] by metis
  show ?thesis
  proof (cases "mx_count s \<ge> 0")
    case True
    with assms(2) q have "out = Acquired" "s' = s\<lparr>mx_count := mx_count s + 1\<rparr>" by (auto simp: read_lock_def)
    with q True show ?thesis by (intro mutex_invI [OF _ q(2)]) auto
  next
    case False
    with assms(2) q have "mutex_wait me q s = Some (out, s')" by (simp add: read_lock_def)
    from mutex_inv_wait [OF assms(1) q(1) this] False show ?thesis by auto
  qed
qed

lemma mutex_inv_write [preserves]:
  assumes "mutex_inv (s, R, W)" "write_lock me s = Some (out, s')"
  shows "mutex_inv (s', R, if out = Acquired then add_mset me W else W)"
proof -
  obtain q xs where q: "mx_wait s = Some q" "pq_rep q False xs"
    "(W = {#} \<and> mx_count s = int (size R)) \<or> (size W = 1 \<and> R = {#} \<and> mx_count s = -1)"
    using mutex_invE [OF assms(1)] by metis
  show ?thesis
  proof (cases "mx_count s = 0")
    case True
    with assms(2) q have "out = Acquired" "s' = s\<lparr>mx_count := -1\<rparr>" by (auto simp: write_lock_def)
    with q True show ?thesis by (intro mutex_invI [OF _ q(2)]) auto
  next
    case False
    with assms(2) q have "mutex_wait me q s = Some (out, s')" by (simp add: write_lock_def)
    from mutex_inv_wait [OF assms(1) q(1) this] False show ?thesis by auto
  qed
qed

text \<open>What \<open>release\<close> does in a state where the lock is held.\<close>

lemma mutex_release_result:
  assumes "mx_wait s = Some q" "pq_rep q False xs" "mx_count s \<noteq> 0"
  shows "mutex_release s =
    (if mx_count s > 1 then Some ([], s\<lparr>mx_count := mx_count s - 1\<rparr>)
     else Some (map snd xs, s\<lparr>mx_count := 0, mx_wait := Some pq_new\<rparr>))"
  using assms by (auto simp: mutex_release_def Let_def pq.wake_all_list)

lemma mutex_inv_release [preserves]:
  assumes "mutex_inv (s, R, W)" "mutex_release s = Some (woken, s')"
  shows "me \<in># R \<Longrightarrow> mutex_inv (s', R - {#me#}, W)" "me \<in># W \<Longrightarrow> mutex_inv (s', R, W - {#me#})"
proof -
  obtain q xs where q: "mx_wait s = Some q" "pq_rep q False xs"
    "(W = {#} \<and> mx_count s = int (size R)) \<or> (size W = 1 \<and> R = {#} \<and> mx_count s = -1)"
    using mutex_invE [OF assms(1)] by metis
  show "mutex_inv (s', R - {#me#}, W)" if "me \<in># R"
  proof -
    have "R \<noteq> {#}" using that by auto
    then have c: "mx_count s = int (size R)" "size R > 0" "W = {#}"
      using q(3) by (auto simp: nonempty_has_size)
    then have sz: "int (size (R - {#me#})) = mx_count s - 1" using that by (simp add: size_Diff_singleton)
    show ?thesis
    proof (cases "mx_count s > 1")
      case True
      then have "mx_count s \<noteq> 0" by linarith
      with True mutex_release_result [OF q(1,2)] assms(2) have "s' = s\<lparr>mx_count := mx_count s - 1\<rparr>" by auto
      with q True c sz show ?thesis by (intro mutex_invI [OF _ q(2)]) auto
    next
      case False
      have "mx_count s \<noteq> 0" using c by linarith
      with False mutex_release_result [OF q(1,2)] assms(2)
      have "s' = s\<lparr>mx_count := 0, mx_wait := Some pq_new\<rparr>" by auto
      with False c sz show ?thesis by (intro mutex_invI [OF _ pq.rep_new]) auto
    qed
  qed
  show "mutex_inv (s', R, W - {#me#})" if "me \<in># W"
  proof -
    have "size W = 1" "mx_count s = -1" "R = {#}" using q(3) that by auto
    moreover from this(1) obtain x where "W = {#x#}" using size_1_singleton_mset by blast
    ultimately have c: "mx_count s = -1" "W = {#me#}" "R = {#}" using that by auto
    with mutex_release_result [OF q(1,2)] assms(2)
    have "s' = s\<lparr>mx_count := 0, mx_wait := Some pq_new\<rparr>" by auto
    with c show ?thesis by (intro mutex_invI [OF _ pq.rep_new]) auto
  qed
qed

lemma mutex_inv_step: "mutex_step x y \<Longrightarrow> mutex_inv x \<Longrightarrow> mutex_inv y"
  by (induction rule: mutex_step.induct) (blast intro: preserves)+

lemma mutex_inv_reachable: "mutex_step\<^sup>*\<^sup>* (mutex_new, {#}, {#}) x \<Longrightarrow> mutex_inv x"
  by (induction rule: rtranclp_induct) (auto intro: mutex_inv_step mutex_inv_new)

section \<open>The order of service\<close>

text \<open>Insertion behind the waiters of equal priority is one step of a stable sort.\<close>

lemma sq_ins_filter:
  assumes "key \<noteq> max_integer64 \<or> (\<forall>e \<in> set xs. fst e \<le> key)" "sorted (map fst xs)"
  shows "filter (\<lambda>e. fst e = k) (sq_ins True key d xs) = filter (\<lambda>e. fst e = k) (xs @ [(key, d)])"
proof (cases "key = max_integer64")
  case False
  let ?P = "\<lambda>e. key_passes True key (fst e)"
  have "\<forall>e \<in> set (dropWhile ?P xs). key < fst e"
    using dropWhile_sorted_less [OF assms(2)] by (auto simp: key_passes_def)
  then have "k = key \<Longrightarrow> filter (\<lambda>e. fst e = k) (dropWhile ?P xs) = []"
    by (fastforce simp: filter_empty_conv)
  moreover have "filter (\<lambda>e. fst e = k) xs
      = filter (\<lambda>e. fst e = k) (takeWhile ?P xs) @ filter (\<lambda>e. fst e = k) (dropWhile ?P xs)"
    by (metis filter_append takeWhile_dropWhile_id)
  ultimately show ?thesis using False by (cases "k = key") (auto simp: sq_ins_def)
qed (simp add: sq_ins_def)

lemma mset_sq_ins: "mset (sq_ins neq key d xs) = add_mset (key, d) (mset xs)"
proof -
  have "mset (takeWhile P xs) + mset (dropWhile P xs) = mset xs" for P :: "int \<times> 'a \<Rightarrow> bool"
    by (metis mset_append takeWhile_dropWhile_id)
  then show ?thesis by (simp add: sq_ins_def)
qed

lemma sq_ins_sort_key:
  assumes "\<forall>e \<in> set es. fst e \<le> max_integer64" "key \<le> max_integer64"
  shows "sq_ins True key d (sort_key fst es) = sort_key fst (es @ [(key, d)])"
proof -
  have "sort_key fst (es @ [(key, d)]) = sq_ins True key d (sort_key fst es)"
  proof (rule properties_for_sort_key)
    show "mset (sq_ins True key d (sort_key fst es)) = mset (es @ [(key, d)])"
      by (simp add: mset_sq_ins)
    show "sorted (map fst (sq_ins True key d (sort_key fst es)))"
      using assms(1) by (intro sorted_sq_ins) simp_all
    show "filter (\<lambda>x. fst k = fst x) (sq_ins True key d (sort_key fst es))
        = filter (\<lambda>x. fst k = fst x) (es @ [(key, d)])"
      if "k \<in> set (sq_ins True key d (sort_key fst es))" for k
    proof -
      have "key \<noteq> max_integer64 \<or> (\<forall>e \<in> set (sort_key fst es). fst e \<le> key)" using assms by auto
      from sq_ins_filter [OF this, of "fst k" d] show ?thesis
        by (simp add: eq_commute [of "fst k"] sort_key_stable)
    qed
  qed
  then show ?thesis by simp
qed

text \<open>Callers that find no permit, one after the other.\<close>

fun sem_arrivals :: "(int \<times> 't) list \<Rightarrow> 't sem \<Rightarrow> 't sem option" where
  "sem_arrivals [] s = Some s"
| "sem_arrivals ((p, me) # es) s = Option.bind (sem_get me p s) (\<lambda>r. sem_arrivals es (snd r))"

text \<open>As many releases, each of whose woken callers takes its permit: who is served, in order.\<close>

fun sem_served :: "nat \<Rightarrow> 't sem \<Rightarrow> 't list" where
  "sem_served 0 s = []"
| "sem_served (Suc n) s =
     (case sem_release s of
        (None, _) \<Rightarrow> []
      | (Some obj, s') \<Rightarrow> obj # sem_served n (s'\<lparr>sm_count := sm_count s' - 1\<rparr>))"

lemma sem_arrivals_queue:
  assumes "sm_wait s = Some q" "pq_rep q True (sort_key fst ds)" "sm_count s = 0"
    "distinct (map snd (ds @ es))" "\<forall>e \<in> set (ds @ es). fst e \<le> max_integer64" "sm_prio s"
  shows "\<exists>s' q'. sem_arrivals es s = Some s' \<and> sm_wait s' = Some q' \<and> sm_count s' = 0
           \<and> pq_rep q' True (sort_key fst (ds @ es))"
  using assms
proof (induction es arbitrary: s q ds)
  case (Cons e es)
  obtain p me where e: "e = (p, me)" by (cases e)
  have me: "me \<notin> snd ` set (sort_key fst ds)" using Cons.prems(4) e by auto
  have ok: "\<forall>e \<in> set ds. fst e \<le> max_integer64" "p \<le> max_integer64" using Cons.prems(5) e by auto
  obtain q1 where q1: "pq_enq p me q = Some q1" "pq_rep q1 True (sort_key fst (ds @ [(p, me)]))"
    using pq.rep_enq [OF Cons.prems(2) me ok(2)] sq_ins_sort_key [OF ok] by auto
  then have "sem_get me p s = Some (Waits, s\<lparr>sm_wait := Some q1\<rparr>)"
    using Cons.prems(1,3,6) me pq.rep_has [OF Cons.prems(2), of me] by (simp add: sem_get_def)
  moreover have "\<exists>s' q'. sem_arrivals es (s\<lparr>sm_wait := Some q1\<rparr>) = Some s' \<and> sm_wait s' = Some q'
      \<and> sm_count s' = 0 \<and> pq_rep q' True (sort_key fst ((ds @ [(p, me)]) @ es))"
    by (rule Cons.IH [OF _ q1(2)]) (use Cons.prems e in auto)
  ultimately show ?case using e by simp
qed auto

lemma sem_served_queue:
  assumes "sm_wait s = Some q" "pq_rep q b xs" "length xs = n"
  shows "sem_served n s = map snd xs"
  using assms
proof (induction n arbitrary: s q xs)
  case (Suc n)
  then obtain e es where xs: "xs = e # es" by (cases xs) auto
  let ?s = "s\<lparr>sm_count := sm_count s, sm_wait := Some (snd (pq_deq q))\<rparr>"
  from pq.deq_cases [OF Suc.prems(2)] xs
  have d: "fst (pq_deq q) = Some (snd e)" "pq_rep (snd (pq_deq q)) b es" by auto
  have "sem_served n ?s = map snd es" by (rule Suc.IH [OF _ d(2)]) (use Suc.prems xs in auto)
  with d Suc.prems(1) xs show ?case by (simp add: sem_release_def)
qed simp

section \<open>Properties\<close>

text \<open>A semaphore with \<open>enablePriority\<close> set serves the callers that find no permit by ascending
  priority value, and callers of equal priority in order of arrival: the order of service is the
  stable sort of the order of arrival.  Nobody is overtaken by a later caller of equal priority.\<close>

theorem sem_serves_in_order:
  assumes "distinct (map snd es)" "\<forall>e \<in> set es. fst e \<le> max_integer64"
  shows "\<exists>s. sem_arrivals es (sem_new 0 True) = Some s
    \<and> sem_served (length es) s = map snd (sort_key fst es)"
proof -
  have "pq_rep (pq_set_neq True pq_new) True (sort_key fst [])"
    using pq.rep_set_neq [OF pq.rep_new] by simp
  from sem_arrivals_queue [OF _ this, of "sem_new 0 True" es] assms
  obtain s q where s: "sem_arrivals es (sem_new 0 True) = Some s" "sm_wait s = Some q"
    "pq_rep q True (sort_key fst es)"
    by (auto simp: sem_new_def)
  from s(1) sem_served_queue [OF s(2,3)] show ?thesis by simp
qed

theorem sem_serves_in_order_witness:
  "\<exists>s. sem_arrivals [(10000, ''a''), (3, ''b''), (10000, ''c''), (3, ''d'')] (sem_new 0 True) = Some s
    \<and> sem_served 4 s = [''b'', ''d'', ''a'', ''c'']"
  using sem_serves_in_order [of "[(10000, ''a''), (3, ''b''), (10000, ''c''), (3, ''d'')]"]
  by (simp add: max_integer64_def eval_nat_numeral del: sem_served.simps sem_arrivals.simps)

text \<open>C29: In every reachable state of the callers of a semaphore, permits are neither created nor
  lost (count plus acquisitions minus releases is the initial count, and count is not negative),
  and no waiter is left queued while a permit is free that no woken caller is on its way to take.\<close>

theorem sem_no_idle_permit:
  assumes "sem_step\<^sup>*\<^sup>* (sem_new n prio, {}, 0) (s, W, h)" "0 \<le> n"
  shows "sm_count s + h = n \<and> 0 \<le> sm_count s
    \<and> (0 < sem_waitCount s \<longrightarrow> sm_count s \<le> int (card W))
    \<and> (\<forall>w \<in> W. sem_ready s w = Some True)"
proof (intro conjI impI ballI)
  from sem_inv_reachable [OF assms] obtain q b xs where q: "sm_wait s = Some q" "pq_rep q b xs"
    "W \<inter> snd ` set xs = {}" "0 \<le> sm_count s" "sm_count s + h = n"
    "xs \<noteq> [] \<longrightarrow> sm_count s \<le> int (card W)"
    by (auto simp: sem_inv_def)
  show "sm_count s + h = n" "0 \<le> sm_count s" by (fact q)+
  show "sm_count s \<le> int (card W)" if "0 < sem_waitCount s"
    using that q pq.rep_len [OF q(2)] by (auto simp: sem_waitCount_def)
  show "sem_ready s w = Some True" if "w \<in> W" for w
    using that q pq.rep_has [OF q(2), of w] by (auto simp: sem_ready_def)
qed

theorem sem_no_idle_permit_witness:
  "\<exists>s W. sem_step\<^sup>*\<^sup>* (sem_new 0 False, {}, 0) (s, W, -1) \<and> sm_count s + -1 = 0
     \<and> W = {''a''} \<and> sem_ready s ''a'' = Some True"
proof -
  let ?q0 = "pq_set_neq True (pq_new :: string pq)"
  have r0: "pq_rep ?q0 True []" by (rule pq.rep_set_neq [OF pq.rep_new])
  obtain q1 where q1: "pq_enq max_integer64 ''a'' ?q0 = Some q1" "pq_rep q1 True [(max_integer64, ''a'')]"
    using pq.rep_enq [OF r0, of "''a''" max_integer64] by (auto simp: sq_ins_def)
  let ?s0 = "sem_new 0 False :: string sem" and ?s1 = "(sem_new 0 False)\<lparr>sm_wait := Some q1\<rparr>"
  let ?s2 = "(sem_new 0 False)\<lparr>sm_count := 1, sm_wait := Some (snd (pq_deq q1))\<rparr>"
  have h: "pq_has ''a'' ?q0 = Some False" using pq.rep_has [OF r0] by simp
  have "sem_step (?s0, {}, 0) (?s1, {} - {''a''}, if Waits = Acquired then 0 + 1 else 0)"
    by (rule sem_step.get [where p = 0])
      (use h q1(1) in \<open>simp_all add: sem_new_def sem_get_def sem_ready_def max_integer64_def\<close>)
  moreover have "sem_step (?s1, {}, 0) (?s2, {} \<union> set_option (Some ''a''), 0 - 1)"
    by (rule sem_step.release) (use pq.rep_deq [OF q1(2)] in \<open>simp add: sem_new_def sem_release_def\<close>)
  ultimately have reach: "sem_step\<^sup>*\<^sup>* (sem_new 0 False, {}, 0) (?s2, {''a''}, -1)"
    by (auto intro: converse_rtranclp_into_rtranclp)
  show ?thesis
    using reach sem_no_idle_permit [OF reach]
    by (intro exI [of _ ?s2] exI [of _ "{''a''}"]) auto
qed

text \<open>C30: In every reachable state of the callers of a \<open>stdMutex\<close>: there is at most one writer and
  then no reader, \<open>flag_count\<close> is the number of readers or -1 for the writer, and nobody is queued
  while the lock is free, so every waiter of a lock that became free was woken.\<close>

theorem mutex_exclusion:
  assumes "mutex_step\<^sup>*\<^sup>* (mutex_new, {#}, {#}) (s, R, W)"
  shows "size W \<le> 1 \<and> (W \<noteq> {#} \<longrightarrow> R = {#})
    \<and> flag_count s = (if W = {#} then int (size R) else -1)
    \<and> (R = {#} \<and> W = {#} \<longrightarrow> wait_count s = 0)"
proof -
  obtain q xs where q: "mx_wait s = Some q" "pq_rep q False xs" "xs \<noteq> [] \<longrightarrow> mx_count s \<noteq> 0"
    "(W = {#} \<and> mx_count s = int (size R)) \<or> (size W = 1 \<and> R = {#} \<and> mx_count s = -1)"
    using mutex_invE [OF mutex_inv_reachable [OF assms]] by metis
  then have "size W \<le> 1" "W \<noteq> {#} \<longrightarrow> R = {#}" "flag_count s = (if W = {#} then int (size R) else -1)"
    by (auto simp: flag_count_def)
  moreover have "R = {#} \<and> W = {#} \<longrightarrow> wait_count s = 0"
    using q pq.rep_len [OF q(2)] by (auto simp: wait_count_def)
  ultimately show ?thesis by blast
qed

theorem mutex_exclusion_witness:
  "\<exists>s. mutex_step\<^sup>*\<^sup>* (mutex_new, {#}, {#}) (s, {#}, {#''a''#}) \<and> flag_count s = -1"
proof -
  have r: "mutex_ready mutex_new ''a'' = Some True"
    using pq.rep_has [OF pq.rep_new, of "''a''"] by (simp add: mutex_ready_def mutex_new_def)
  have "mutex_step (mutex_new, {#}, {#})
     (mutex_new\<lparr>mx_count := -1\<rparr>, {#}, if Acquired = Acquired then add_mset ''a'' {#} else {#})"
    by (rule mutex_step.writ [OF r]) (simp add: write_lock_def mutex_new_def)
  then have reach: "mutex_step\<^sup>*\<^sup>* (mutex_new, {#}, {#}) (mutex_new\<lparr>mx_count := -1\<rparr>, {#}, {#''a''#})"
    by auto
  from reach mutex_exclusion [OF reach] show ?thesis by auto
qed

text \<open>Destroying a semaphore wakes every waiter, in queue order, and from then on \<open>get\<close> throws the
  error exception.  But the predicate the waiters threw before dereferences \<open>wait\<close>, which is null
  by then: asking a woken waiter whether it may retry has no defined answer, unlike
  \<open>stdLimitSemaphore\<close>.\<close>

theorem sem_destroy_wakes_all:
  assumes "sem_step\<^sup>*\<^sup>* (sem_new n prio, {}, 0) (s, W, h)" "0 \<le> n"
  shows "\<exists>woken s'. sem_destroy s = Some (woken, s') \<and> int (length woken) = sem_waitCount s
    \<and> (\<forall>w. w \<in> set woken \<longleftrightarrow> sem_ready s w = Some False)
    \<and> sem_get me p s' = Some (Throws_error, s') \<and> (\<forall>w. sem_ready s' w = None)"
proof -
  from sem_inv_reachable [OF assms] obtain q b xs where q: "sm_wait s = Some q" "pq_rep q b xs"
    by (auto simp: sem_inv_def)
  then show ?thesis
    using pq.wake_all_list [OF q(2)] pq.rep_len [OF q(2)] pq.rep_has [OF q(2)]
    by (auto simp: sem_destroy_def sem_waitCount_def sem_ready_def sem_get_def)
qed

theorem sem_destroy_wakes_all_witness:
  "\<exists>woken s'. sem_destroy (sem_new 0 True :: string sem) = Some (woken, s') \<and> sem_ready s' ''a'' = None"
  using sem_destroy_wakes_all [OF rtranclp.rtrancl_refl, of 0 True "''a''" 0] by auto

end
