(* ===== verification/BalancedTree.thy ===== *)
theory BalancedTree
  imports Prelude "HOL-Library.Monad_Syntax"
begin

text \<open>
  The search tree \<open>stdBalancedTree_\<close> of \<open>src/src/classes/ts2/c++/stdBalancedTree.cpp\<close>.  An element
  holds the chain of objects of one key (the \<open>next\<close> links), the level it remembers and its two
  subtrees; a chain that became empty is a null \<open>obj\<close>, whose dereference is \<^term>\<open>None\<close>.  A null
  result of an operation is the empty chain.
\<close>

section \<open>Definitions\<close>

text \<open>\<open>sBalancedTreeCondition\<close>: the two infinite conditions and a subclass's keys.\<close>

datatype 'k cond = MinusInf | PlusInf | Key 'k

fun is_infty :: "'k cond \<Rightarrow> int" where
  "is_infty MinusInf = -1"
| "is_infty PlusInf = 1"
| "is_infty (Key _) = 0"

text \<open>
  \<open>cmp\<close>: the base class decides when one side is infinite, the subclass's override compares keys;
  it is a linear order.
\<close>

definition cond_cmp :: "'k :: linorder cond \<Rightarrow> 'k cond \<Rightarrow> int" where
  "cond_cmp c d =
     (if is_infty c \<noteq> 0 \<or> is_infty d \<noteq> 0
      then (if is_infty c < is_infty d then -1 else if is_infty c > is_infty d then 1 else 0)
      else
        case (c, d) of
          (Key k, Key j) \<Rightarrow> if k < j then -1 else if j < k then 1 else 0
        | _ \<Rightarrow> 0)"

type_synonym ('k, 'o) bobj = "'k cond \<times> 'o sptr"

datatype ('k, 'o) btree =
  BNull
| BNode (small: "('k, 'o) btree") (chain: "('k, 'o) bobj list") (blevel: int) (large: "('k, 'o) btree")

text \<open>\<open>levelSmall\<close> and \<open>levelLarge\<close> of the parent.\<close>

fun level_of :: "('k, 'o) btree \<Rightarrow> int" where
  "level_of BNull = 0"
| "level_of (BNode _ _ lv _) = lv"

definition leveled :: "('k, 'o) btree \<Rightarrow> ('k, 'o) bobj list \<Rightarrow> ('k, 'o) btree \<Rightarrow> ('k, 'o) btree" where
  "leveled s ch l = BNode s ch (if level_of s < level_of l then level_of l + 1 else level_of s + 1) l"

text \<open>
  \<open>balanced\<close> of an element with these fields: at most one single rotation.  The objects are
  exchanged rather than the elements, so the element stays where it is.
\<close>

fun balanced :: "('k, 'o) btree \<Rightarrow> ('k, 'o) bobj list \<Rightarrow> ('k, 'o) btree \<Rightarrow> ('k, 'o) btree" where
  "balanced s ch l =
     (if level_of s + 2 \<le> level_of l then
        case l of
          BNode z_small z_ch _ z_large \<Rightarrow> leveled (leveled s ch z_small) z_ch z_large
        | BNull \<Rightarrow> leveled s ch l
      else if level_of s \<ge> level_of l + 2 then
        case s of
          BNode z_small z_ch _ z_large \<Rightarrow> leveled z_small z_ch (leveled z_large ch l)
        | BNull \<Rightarrow> leveled s ch l
      else leveled s ch l)"

definition new_element :: "('k, 'o) bobj \<Rightarrow> ('k, 'o) btree" where
  "new_element inp = BNode BNull [inp] 1 BNull"

fun ins_el ::
    "('k :: linorder, 'o) bobj \<Rightarrow> bool \<Rightarrow> ('k, 'o) btree
      \<Rightarrow> (('k, 'o) bobj list \<times> ('k, 'o) btree) option" where
  "ins_el inp equ BNull = None"
| "ins_el inp equ (BNode s ch lv l) =
     (case ch of
        [] \<Rightarrow> None
      | (c, _) # _ \<Rightarrow>
          let r = cond_cmp c (fst inp) in
          if r < 0 then
            if l = BNull then Some ([], balanced s ch (new_element inp))
            else Option.bind (ins_el inp equ l) (\<lambda>(ret, l').
                   Some (if ret \<noteq> [] then (ret, BNode s ch lv l') else ([], balanced s ch l')))
          else if r > 0 then
            if s = BNull then Some ([], balanced (new_element inp) ch l)
            else Option.bind (ins_el inp equ s) (\<lambda>(ret, s').
                   Some (if ret \<noteq> [] then (ret, BNode s' ch lv l) else ([], balanced s' ch l)))
          else if \<not> equ then Some (ch, BNode s ch lv l)
          else Some ([], balanced s (inp # ch) l))"

text \<open>
  \<open>del\<close>.  \<open>equ_proc\<close> stands for the label \<open>equProc\<close>; the recursive deletions of the nearest
  object on the taller side are passed in as its last two arguments.
\<close>

definition equ_proc ::
    "('k, 'o) bobj \<Rightarrow> ('k, 'o) btree \<Rightarrow> ('k, 'o) bobj list \<Rightarrow> int \<Rightarrow> ('k, 'o) btree
      \<Rightarrow> (('k, 'o) bobj list \<times> ('k, 'o) btree) option
      \<Rightarrow> (('k, 'o) bobj list \<times> ('k, 'o) btree) option
      \<Rightarrow> (('k, 'o) bobj list \<times> ('k, 'o) btree) option" where
  "equ_proc inp s ch lv l del_small del_large =
     (if snd inp \<noteq> None then
        Some (if list_ex (\<lambda>o'. snd o' = snd inp) ch
              then ([inp], BNode s (remove_first (\<lambda>o'. snd o' = snd inp) ch) lv l)
              else ([], BNode s ch lv l))
      else if level_of s < level_of l then
        Option.bind del_large (\<lambda>(obj, l'). Some (ch, BNode s obj lv l'))
      else if level_of s \<noteq> 0 then
        Option.bind del_small (\<lambda>(obj, s'). Some (ch, BNode s' obj lv l))
      else Some (ch, BNull))"

fun del_el ::
    "('k :: linorder, 'o) bobj \<Rightarrow> ('k, 'o) btree \<Rightarrow> (('k, 'o) bobj list \<times> ('k, 'o) btree) option"
where
  "del_el inp BNull = None"
| "del_el inp (BNode s ch lv l) =
     (case ch of
        [] \<Rightarrow> None
      | (c, _) # _ \<Rightarrow>
          let r = cond_cmp c (fst inp);
              equ = equ_proc inp s ch lv l (del_el (PlusInf, None) s) (del_el (MinusInf, None) l) in
          if r < 0 then
            if l = BNull then
              if is_infty (fst inp) > 0 then equ else Some ([], BNode s ch lv l)
            else Option.bind (del_el inp l) (\<lambda>(ret, l').
                   Some (if ret = [] then ([], BNode s ch lv l') else (ret, balanced s ch l')))
          else if r > 0 then
            if s = BNull then
              if is_infty (fst inp) < 0 then equ else Some ([], BNode s ch lv l)
            else Option.bind (del_el inp s) (\<lambda>(ret, s').
                   Some (if ret = [] then ([], BNode s' ch lv l) else (ret, balanced s' ch l)))
          else equ)"

text \<open>
  \<open>walk\<close>: the objects the callback sees, in order, from the condition \<open>c1\<close> up.  A callback that
  answers non-zero ends the walk of its element only: the walk of the parent goes on.
\<close>

fun call_chain :: "(('k, 'o) bobj \<Rightarrow> bool) \<Rightarrow> ('k, 'o) bobj list \<Rightarrow> ('k, 'o) bobj list \<times> bool" where
  "call_chain cb [] = ([], False)"
| "call_chain cb (e # ch) = (if cb e then ([e], True) else apfst ((#) e) (call_chain cb ch))"

fun walk_el ::
    "'k :: linorder cond \<Rightarrow> (('k, 'o) bobj \<Rightarrow> bool) \<Rightarrow> ('k, 'o) btree \<Rightarrow> ('k, 'o) bobj list option" where
  "walk_el c1 cb BNull = Some []"
| "walk_el c1 cb (BNode s ch lv l) =
     (case ch of
        [] \<Rightarrow> None
      | (c, _) # _ \<Rightarrow>
          let r = cond_cmp c c1 in
          do {
            before \<leftarrow> (if r > 0 then walk_el c1 cb s else Some []);
            let (here, stop) = (if r \<ge> 0 then call_chain cb ch else ([], False));
            after \<leftarrow> (if stop then Some [] else walk_el c1 cb l);
            Some (before @ here @ after)
          })"

fun search_el :: "'k :: linorder cond \<Rightarrow> ('k, 'o) btree \<Rightarrow> ('k, 'o) bobj list option" where
  "search_el c BNull = Some []"
| "search_el c (BNode s ch lv l) =
     (case ch of
        [] \<Rightarrow> None
      | (d, _) # _ \<Rightarrow>
          let r = cond_cmp d c in
          if r = 0 then Some ch else if r < 0 then search_el c l else search_el c s)"

record ('k, 'o) btop =
  bt_top :: "('k, 'o) btree"
  bt_count :: int
  enabledEqu :: bool

definition bt_new :: "bool \<Rightarrow> ('k, 'o) btop" where
  "bt_new equ = \<lparr>bt_top = BNull, bt_count = 0, enabledEqu = equ\<rparr>"

definition bt_search :: "'k :: linorder cond \<Rightarrow> ('k, 'o) btop \<Rightarrow> ('k, 'o) bobj list option" where
  "bt_search c t = search_el c (bt_top t)"

definition bt_ins ::
    "('k :: linorder, 'o) bobj \<Rightarrow> ('k, 'o) btop \<Rightarrow> (('k, 'o) bobj list \<times> ('k, 'o) btop) option" where
  "bt_ins inp t =
     Option.bind
       (if bt_top t = BNull then Some ([inp], new_element inp) else ins_el inp (enabledEqu t) (bt_top t))
       (\<lambda>(ret, e). Some (ret, t\<lparr>bt_top := e, bt_count := (if ret \<noteq> [] then bt_count t + 1 else bt_count t)\<rparr>))"

definition bt_del ::
    "('k :: linorder, 'o) bobj \<Rightarrow> ('k, 'o) btop \<Rightarrow> (('k, 'o) bobj list \<times> ('k, 'o) btop) option" where
  "bt_del inp t =
     (if bt_top t = BNull then Some ([], t)
      else Option.bind (del_el inp (bt_top t))
        (\<lambda>(ret, e). Some (ret, t\<lparr>bt_top := e, bt_count := bt_count t - int (length ret)\<rparr>)))"

definition bt_walk ::
    "'k :: linorder cond \<Rightarrow> (('k, 'o) bobj \<Rightarrow> bool) \<Rightarrow> ('k, 'o) btop \<Rightarrow> ('k, 'o) bobj list option" where
  "bt_walk c1 cb t = walk_el c1 cb (bt_top t)"

text \<open>
  The typed wrappers \<open>stdBalancedTree<K,T,false>\<close> and \<open>stdBalancedTree<K,T,true>\<close>: the object
  \<open>stdBalancedTreeObject\<close> they create has a condition of its own, built by the default
  constructor (\<open>dflt\<close>), and the condition passed by the caller is not stored in it.
\<close>

definition tb_search :: "'k :: linorder cond \<Rightarrow> ('k, 'o) btop \<Rightarrow> 'o sptr option" where
  "tb_search inp t =
     map_option (\<lambda>ret. case ret of [] \<Rightarrow> None | e # _ \<Rightarrow> snd e) (bt_search inp t)"

definition tb_ins ::
    "'k \<Rightarrow> 'k :: linorder cond \<Rightarrow> 'o sptr \<Rightarrow> ('k, 'o) btop \<Rightarrow> ('o sptr \<times> ('k, 'o) btop) option" where
  "tb_ins dflt cond obj t =
     map_option (\<lambda>(ret, t'). (case ret of [] \<Rightarrow> None | e # _ \<Rightarrow> snd e, t')) (bt_ins (Key dflt, obj) t)"

definition tb_del ::
    "'k \<Rightarrow> 'k :: linorder cond \<Rightarrow> 'o sptr \<Rightarrow> ('k, 'o) btop \<Rightarrow> ('o sptr \<times> ('k, 'o) btop) option" where
  "tb_del dflt cond obj t =
     map_option (\<lambda>(ret, t'). (case ret of [] \<Rightarrow> None | e # _ \<Rightarrow> snd e, t')) (bt_del (Key dflt, obj) t)"

text \<open>With equal keys the answers are queues: the data of the chain in order, null for an empty chain.\<close>

definition tbq_search :: "'k :: linorder cond \<Rightarrow> ('k, 'o) btop \<Rightarrow> 'o sptr list option option" where
  "tbq_search inp t =
     map_option (\<lambda>ret. if ret = [] then None else Some (map snd ret)) (bt_search inp t)"

definition tbq_del ::
    "'k \<Rightarrow> 'k :: linorder cond \<Rightarrow> 'o sptr \<Rightarrow> ('k, 'o) btop \<Rightarrow> ('o sptr list option \<times> ('k, 'o) btop) option" where
  "tbq_del dflt cond obj t =
     map_option (\<lambda>(ret, t'). (if ret = [] then None else Some (map snd ret), t')) (bt_del (Key dflt, obj) t)"

definition tb_get_stdQueue :: "('k :: linorder, 'o) btop \<Rightarrow> 'o sptr list option" where
  "tb_get_stdQueue t = map_option (map snd) (bt_walk MinusInf (\<lambda>_. False) t)"

section \<open>Invariant\<close>

text \<open>The chains in key order.\<close>

fun chains :: "('k, 'o) btree \<Rightarrow> ('k, 'o) bobj list list" where
  "chains BNull = []"
| "chains (BNode s ch lv l) = chains s @ ch # chains l"

text \<open>The key of a chain; a well-formed chain holds objects of one finite key.\<close>

definition chain_ok :: "('k, 'o) bobj list \<Rightarrow> bool" where
  "chain_ok ch \<longleftrightarrow> ch \<noteq> [] \<and> (\<exists>k. \<forall>e \<in> set ch. fst e = Key k)"

fun ckey :: "('k, 'o) bobj list \<Rightarrow> 'k" where
  "ckey ((Key k, _) # _) = k"
| "ckey _ = undefined"

definition bst :: "('k :: linorder, 'o) btree \<Rightarrow> bool" where
  "bst t \<longleftrightarrow> (\<forall>ch \<in> set (chains t). chain_ok ch) \<and> sorted_wrt (<) (map ckey (chains t))"

text \<open>Remembered levels are positive, so an empty subtree is the only one of level 0.\<close>

fun levels_pos :: "('k, 'o) btree \<Rightarrow> bool" where
  "levels_pos BNull = True"
| "levels_pos (BNode s ch lv l) \<longleftrightarrow> 0 < lv \<and> levels_pos s \<and> levels_pos l"

lemma level_of_pos: "levels_pos t \<Longrightarrow> 0 \<le> level_of t \<and> (level_of t = 0 \<longleftrightarrow> t = BNull)"
  by (cases t) auto

lemma chain_okE:
  assumes "chain_ok ch"
  obtains k o' os where "ch = (Key k, o') # os" "ckey ch = k" "\<forall>e \<in> set ch. fst e = Key k"
proof -
  from assms obtain k where k: "ch \<noteq> []" "\<forall>e \<in> set ch. fst e = Key k" by (auto simp: chain_ok_def)
  then obtain o' os where "ch = (Key k, o') # os" by (cases ch) force+
  with k that show ?thesis by auto
qed

lemma cond_cmp_Key:
  "cond_cmp (Key k) (Key j) = (if k < j then -1 else if j < k then 1 else 0)"
  "cond_cmp (Key k) MinusInf = 1" "cond_cmp (Key k) PlusInf = -1"
  by (simp_all add: cond_cmp_def)

section \<open>Balancing\<close>

lemma leveled_chains [simp]: "chains (leveled s ch l) = chains s @ ch # chains l"
  by (simp add: leveled_def)

lemma balanced_chains [simp]: "chains (balanced s ch l) = chains s @ ch # chains l"
  by (cases s; cases l) auto

lemma leveled_pos: "levels_pos s \<Longrightarrow> levels_pos l \<Longrightarrow> levels_pos (leveled s ch l)"
  using level_of_pos [of s] level_of_pos [of l] by (auto simp: leveled_def)

lemma balanced_pos: "levels_pos s \<Longrightarrow> levels_pos l \<Longrightarrow> levels_pos (balanced s ch l)"
  by (cases s; cases l) (auto intro!: leveled_pos)

lemma balanced_not_null [simp]: "balanced s ch l \<noteq> BNull"
  by (cases s; cases l) (auto simp: leveled_def)

declare balanced.simps [simp del]

section \<open>The finite map a tree stands for\<close>

definition keys :: "('k, 'o) btree \<Rightarrow> 'k set" where
  "keys t = ckey ` set (chains t)"

text \<open>The chain of a key, empty where there is none.\<close>

definition lookup :: "'k \<Rightarrow> ('k, 'o) btree \<Rightarrow> ('k, 'o) bobj list" where
  "lookup k t = concat (filter (\<lambda>ch. ckey ch = k) (chains t))"

lemma keys_simps [simp]:
  "keys BNull = {}" "keys (BNode s ch lv l) = insert (ckey ch) (keys s \<union> keys l)"
  "keys (balanced s ch l) = insert (ckey ch) (keys s \<union> keys l)"
  by (auto simp: keys_def)

lemma bst_BNull [simp]: "bst BNull"
  by (simp add: bst_def)

definition node_ok :: "('k :: linorder, 'o) btree \<Rightarrow> ('k, 'o) bobj list \<Rightarrow> ('k, 'o) btree \<Rightarrow> bool" where
  "node_ok s ch l \<longleftrightarrow> bst s \<and> bst l \<and> chain_ok ch \<and> (\<forall>j \<in> keys s. j < ckey ch) \<and> (\<forall>j \<in> keys l. ckey ch < j)"

lemma bst_node [simp]:
  "bst (BNode s ch lv l) \<longleftrightarrow> node_ok s ch l" "bst (balanced s ch l) \<longleftrightarrow> node_ok s ch l"
  by (fastforce simp: bst_def node_ok_def keys_def sorted_wrt_append)+

lemma lookup_absent: "k \<notin> keys t \<Longrightarrow> lookup k t = []"
  by (induction t) (auto simp: lookup_def keys_def)

lemma lookup_simps [simp]:
  "lookup k BNull = []"
  "lookup k (BNode s ch lv l) = lookup k s @ (if ckey ch = k then ch else []) @ lookup k l"
  "lookup k (balanced s ch l) = lookup k s @ (if ckey ch = k then ch else []) @ lookup k l"
  by (simp_all add: lookup_def)

lemma lookup_keys: "bst t \<Longrightarrow> k \<in> keys t \<longleftrightarrow> lookup k t \<noteq> []"
  by (auto simp: bst_def keys_def lookup_def chain_ok_def filter_empty_conv)

text \<open>At a well-formed node only one of the three parts can hold the key.\<close>

lemma lookup_node:
  assumes "node_ok s ch l"
  shows "k < ckey ch \<Longrightarrow> lookup k l = []" "ckey ch < k \<Longrightarrow> lookup k s = []"
    "k = ckey ch \<Longrightarrow> lookup k s = [] \<and> lookup k l = []"
  using assms by (auto simp: node_ok_def intro!: lookup_absent dest: order.strict_trans order.asym)

lemma search_lookup [refines]: "bst t \<Longrightarrow> search_el (Key k) t = Some (lookup k t)"
proof (induction t)
  case (BNode s ch lv l)
  then have ok: "node_ok s ch l" by simp
  obtain j o' os where ch: "ch = (Key j, o') # os" "ckey ch = j"
    using ok chain_okE unfolding node_ok_def by metis
  show ?case using BNode ok lookup_node [OF ok, of k] ch
    by (cases k j rule: linorder_cases) (auto simp: cond_cmp_Key Let_def node_ok_def)
qed simp

section \<open>Insertion\<close>

definition ins_spec ::
    "('k :: linorder, 'o) bobj \<Rightarrow> bool \<Rightarrow> ('k, 'o) btree \<Rightarrow> ('k, 'o) bobj list \<Rightarrow> ('k, 'o) btree \<Rightarrow> bool" where
  "ins_spec inp equ t ret t' \<longleftrightarrow>
     bst t' \<and> levels_pos t' \<and> t' \<noteq> BNull \<and> keys t' = insert (ckey [inp]) (keys t)
     \<and> ret = (if equ then [] else lookup (ckey [inp]) t)
     \<and> (\<forall>j. lookup j t' =
          (if j = ckey [inp] \<and> (equ \<or> lookup j t = []) then inp # lookup j t else lookup j t))"

lemma new_element_simps [simp]:
  "bst (new_element (Key k, o'))" "levels_pos (new_element e)" "new_element e \<noteq> BNull"
  "keys (new_element e) = {ckey [e]}" "lookup j (new_element e) = (if ckey [e] = j then [e] else [])"
  by (auto simp: new_element_def node_ok_def chain_ok_def)

text \<open>How the parts fit together when one side has changed.\<close>

lemma node_ok_small:
  "node_ok s ch l \<Longrightarrow> bst s' \<Longrightarrow> keys s' = insert k (keys s) \<Longrightarrow> k < ckey ch \<Longrightarrow> node_ok s' ch l"
  by (auto simp: node_ok_def)

lemma node_ok_large:
  "node_ok s ch l \<Longrightarrow> bst l' \<Longrightarrow> keys l' = insert k (keys l) \<Longrightarrow> ckey ch < k \<Longrightarrow> node_ok s ch l'"
  by (auto simp: node_ok_def)

lemma ins_el_correct [refines]:
  assumes "bst t" "levels_pos t" "t \<noteq> BNull" "fst inp = Key k"
  shows "\<exists>ret t'. ins_el inp equ t = Some (ret, t') \<and> ins_spec inp equ t ret t'"
  using assms(1-3)
proof (induction t)
  case (BNode s ch lv l)
  from assms(4) obtain d where inp: "inp = (Key k, d)" by (cases inp) auto
  have ok: "node_ok s ch l" using BNode.prems by simp
  obtain j o' os where ch: "ch = (Key j, o') # os" "ckey ch = j" "\<forall>e \<in> set ch. fst e = Key j"
    using ok chain_okE unfolding node_ok_def by metis
  have pos: "levels_pos s" "levels_pos l" using BNode.prems by auto
  have sub: "bst s" "bst l" using ok by (auto simp: node_ok_def)
  consider "j < k" | "k < j" | "j = k" by (cases j k rule: linorder_cases) auto
  then show ?case
  proof cases
    case 1
    show ?thesis
    proof (cases "l = BNull")
      case True
      have "node_ok s ch (new_element inp)" using ok 1 ch inp True by (auto simp: node_ok_def)
      with True 1 ch inp pos lookup_node(2) [OF ok, of k] show ?thesis
        by (auto simp: Let_def cond_cmp_Key ins_spec_def balanced_pos)
    next
      case False
      obtain ret l' where l': "ins_el inp equ l = Some (ret, l')" "ins_spec inp equ l ret l'"
        using BNode.IH(2) [OF sub(2) pos(2) False] by blast
      then have "node_ok s ch l'" using 1 ch inp by (intro node_ok_large [OF ok]) (auto simp: ins_spec_def)
      with False 1 ch inp pos l' lookup_node(2) [OF ok, of k] BNode.prems show ?thesis
        by (auto simp: Let_def cond_cmp_Key ins_spec_def balanced_pos)
    qed
  next
    case 2
    show ?thesis
    proof (cases "s = BNull")
      case True
      have "node_ok (new_element inp) ch l" using ok 2 ch inp True by (auto simp: node_ok_def)
      with True 2 ch inp pos lookup_node(1) [OF ok, of k] show ?thesis
        by (auto simp: Let_def cond_cmp_Key ins_spec_def balanced_pos)
    next
      case False
      obtain ret s' where s': "ins_el inp equ s = Some (ret, s')" "ins_spec inp equ s ret s'"
        using BNode.IH(1) [OF sub(1) pos(1) False] by blast
      then have "node_ok s' ch l" using 2 ch inp by (intro node_ok_small [OF ok]) (auto simp: ins_spec_def)
      with False 2 ch inp pos s' lookup_node(1) [OF ok, of k] BNode.prems show ?thesis
        by (auto simp: Let_def cond_cmp_Key ins_spec_def balanced_pos)
    qed
  next
    case 3
    have "node_ok s (inp # ch) l" using ok 3 ch inp by (auto simp: node_ok_def chain_ok_def)
    with 3 ch inp pos lookup_node(3) [OF ok, of k] BNode.prems show ?thesis
      by (auto simp: Let_def cond_cmp_Key ins_spec_def balanced_pos)
  qed
qed simp

section \<open>Deletion\<close>

lemma chains_empty [simp]: "chains t = [] \<longleftrightarrow> t = BNull"
  by (cases t) auto

text \<open>The greatest and the least chain, taken out with an infinite condition.\<close>

lemma del_el_extreme:
  assumes "bst t" "levels_pos t" "t \<noteq> BNull"
  shows "(\<exists>t'. del_el (PlusInf, None) t = Some (last (chains t), t')
            \<and> chains t' = butlast (chains t) \<and> levels_pos t')
       \<and> (\<exists>t'. del_el (MinusInf, None) t = Some (hd (chains t), t')
            \<and> chains t' = tl (chains t) \<and> levels_pos t')"
  using assms
proof (induction t)
  case (BNode s ch lv l)
  have ok: "node_ok s ch l" using BNode.prems by simp
  obtain k o' os where ch: "ch = (Key k, o') # os"
    using ok chain_okE unfolding node_ok_def by metis
  have pos: "levels_pos s" "levels_pos l" "0 < lv" using BNode.prems by auto
  have sub: "bst s" "bst l" using ok by (auto simp: node_ok_def)
  note IHs = BNode.IH(1) [OF sub(1) pos(1)] and IHl = BNode.IH(2) [OF sub(2) pos(2)]
  have lev: "level_of s = 0 \<longleftrightarrow> s = BNull" "level_of l = 0 \<longleftrightarrow> l = BNull" "0 \<le> level_of s" "0 \<le> level_of l"
    using level_of_pos pos by auto
  have nonempty: "last (chains l) \<noteq> []" if "l \<noteq> BNull"
    using that sub(2) last_in_set [of "chains l"] by (auto simp: bst_def chain_ok_def)
  have nonempty': "hd (chains s) \<noteq> []" if "s \<noteq> BNull"
    using that sub(1) list.set_sel(1) [of "chains s"] by (auto simp: bst_def chain_ok_def)
  have "\<exists>t'. del_el (PlusInf, None) (BNode s ch lv l) = Some (last (chains (BNode s ch lv l)), t')
            \<and> chains t' = butlast (chains (BNode s ch lv l)) \<and> levels_pos t'"
  proof (cases "l = BNull")
    case True
    then show ?thesis
      using ch lev pos IHs by (cases "s = BNull") (auto simp: Let_def cond_cmp_Key equ_proc_def butlast_append)
  next
    case False
    with ch pos IHl nonempty show ?thesis
      by (auto simp: Let_def cond_cmp_Key butlast_append balanced_pos)
  qed
  moreover have "\<exists>t'. del_el (MinusInf, None) (BNode s ch lv l) = Some (hd (chains (BNode s ch lv l)), t')
            \<and> chains t' = tl (chains (BNode s ch lv l)) \<and> levels_pos t'"
  proof (cases "s = BNull")
    case True
    then show ?thesis
      using ch lev pos IHl by (cases "l = BNull") (auto simp: Let_def cond_cmp_Key equ_proc_def)
  next
    case False
    with ch pos IHs nonempty' show ?thesis
      by (auto simp: Let_def cond_cmp_Key balanced_pos)
  qed
  ultimately show ?case by blast
qed simp

lemma filter_other:
  assumes "node_ok s ch l"
  shows "k \<le> ckey ch \<Longrightarrow> filter (\<lambda>c. ckey c \<noteq> k) (chains l) = chains l"
    "ckey ch \<le> k \<Longrightarrow> filter (\<lambda>c. ckey c \<noteq> k) (chains s) = chains s"
  using assms by (fastforce simp: node_ok_def keys_def intro!: filter_True)+

lemma del_el_key:
  assumes "bst t" "levels_pos t" "t \<noteq> BNull"
  shows "\<exists>t'. del_el (Key k, None) t = Some (lookup k t, t')
           \<and> chains t' = filter (\<lambda>c. ckey c \<noteq> k) (chains t) \<and> levels_pos t'"
  using assms
proof (induction t)
  case (BNode s ch lv l)
  have ok: "node_ok s ch l" using BNode.prems by simp
  obtain j o' os where ch: "ch = (Key j, o') # os" "ckey ch = j"
    using ok chain_okE unfolding node_ok_def by metis
  have pos: "levels_pos s" "levels_pos l" "0 < lv" using BNode.prems by auto
  have sub: "bst s" "bst l" using ok by (auto simp: node_ok_def)
  note IHs = BNode.IH(1) [OF sub(1) pos(1)] and IHl = BNode.IH(2) [OF sub(2) pos(2)]
  have lev: "level_of s = 0 \<longleftrightarrow> s = BNull" "level_of l = 0 \<longleftrightarrow> l = BNull" "0 \<le> level_of s" "0 \<le> level_of l"
    using level_of_pos pos by auto
  have filt: "filter (\<lambda>c. ckey c \<noteq> k) (chains t) = chains t" if "lookup k t = []" "bst t"
    for t :: "('a, 'b) btree"
    using that lookup_keys [OF that(2), of k] by (auto simp: keys_def intro!: filter_True)
  consider "j < k" | "k < j" | "j = k" by (cases j k rule: linorder_cases) auto
  then show ?case
  proof cases
    case 1
    with filter_other(2) [OF ok, of k] lookup_node(2) [OF ok, of k] ch pos IHl filt [OF _ sub(2)]
    show ?thesis by (cases "l = BNull"; cases "lookup k l = []")
      (auto simp: Let_def cond_cmp_Key balanced_pos)
  next
    case 2
    with filter_other(1) [OF ok, of k] lookup_node(1) [OF ok, of k] ch pos IHs filt [OF _ sub(1)]
    show ?thesis by (cases "s = BNull"; cases "lookup k s = []")
      (auto simp: Let_def cond_cmp_Key balanced_pos)
  next
    case 3
    note fo = filter_other(1) [OF ok, of k] filter_other(2) [OF ok, of k]
    consider "level_of s < level_of l" | "level_of l \<le> level_of s" "s \<noteq> BNull" | "s = BNull" "l = BNull"
      using lev by linarith
    then show ?thesis
    proof cases
      case 1
      then have "l \<noteq> BNull" using lev by auto
      with del_el_extreme [OF sub(2) pos(2)] 1 3 fo ch pos lookup_node(3) [OF ok, of k] show ?thesis
        by (auto simp: Let_def cond_cmp_Key equ_proc_def)
    next
      case 2
      with del_el_extreme [OF sub(1) pos(1)] 3 fo ch pos lev lookup_node(3) [OF ok, of k] show ?thesis
        by (auto simp: Let_def cond_cmp_Key equ_proc_def)
    next
      case 4: 3
      with 3 fo ch show ?thesis by (auto simp: Let_def cond_cmp_Key equ_proc_def)
    qed
  qed
qed simp

lemma bst_filter: "bst t \<Longrightarrow> chains t' = filter P (chains t) \<Longrightarrow> bst t'"
  by (auto simp: bst_def sorted_wrt_filter sorted_wrt_map)

lemma lookup_filter:
  "chains t' = filter (\<lambda>c. ckey c \<noteq> k) (chains t) \<Longrightarrow> lookup j t' = (if j = k then [] else lookup j t)"
  by (auto simp: lookup_def intro!: arg_cong [of _ _ concat] filter_cong)

text \<open>Deletion of one object of a key: the chain loses it, the tree keeps its shape.\<close>

definition drop_obj :: "'o \<Rightarrow> ('k, 'o) bobj list \<Rightarrow> ('k, 'o) bobj list" where
  "drop_obj d ch = remove_first (\<lambda>e. snd e = Some d) ch"

lemma del_el_object:
  assumes "bst t" "levels_pos t" "t \<noteq> BNull"
  shows "\<exists>t'. del_el (Key k, Some d) t =
              Some (if list_ex (\<lambda>e. snd e = Some d) (lookup k t) then [(Key k, Some d)] else [], t')
           \<and> chains t' = map (\<lambda>c. if ckey c = k then drop_obj d c else c) (chains t) \<and> levels_pos t'"
  using assms
proof (induction t)
  case (BNode s ch lv l)
  have ok: "node_ok s ch l" using BNode.prems by simp
  obtain j o' os where ch: "ch = (Key j, o') # os" "ckey ch = j"
    using ok chain_okE unfolding node_ok_def by metis
  have pos: "levels_pos s" "levels_pos l" "0 < lv" using BNode.prems by auto
  have sub: "bst s" "bst l" using ok by (auto simp: node_ok_def)
  note IHs = BNode.IH(1) [OF sub(1) pos(1)] and IHl = BNode.IH(2) [OF sub(2) pos(2)]
  let ?f = "\<lambda>c. if ckey c = k then drop_obj d c else c"
  have same: "map ?f (chains t) = chains t" if "k \<notin> keys t" for t :: "('a, 'b) btree"
    using that by (auto simp: keys_def intro!: map_idI)
  have no: "\<not> list_ex (\<lambda>e. snd e = Some d) c \<Longrightarrow> drop_obj d c = c" for c :: "('a, 'b) bobj list"
    unfolding drop_obj_def by (rule remove_first_none) (simp add: list_ex_iff)
  consider "j < k" | "k < j" | "j = k" by (cases j k rule: linorder_cases) auto
  then show ?case
  proof cases
    case 1
    then have "k \<notin> keys s" using ok ch by (auto simp: node_ok_def)
    with 1 same lookup_node(2) [OF ok, of k] ch pos IHl show ?thesis
      by (cases "l = BNull") (auto simp: Let_def cond_cmp_Key balanced_pos)
  next
    case 2
    then have "k \<notin> keys l" using ok ch by (auto simp: node_ok_def)
    with 2 same lookup_node(1) [OF ok, of k] ch pos IHs show ?thesis
      by (cases "s = BNull") (auto simp: Let_def cond_cmp_Key balanced_pos)
  next
    case 3
    then have "k \<notin> keys s" "k \<notin> keys l" using ok ch by (auto simp: node_ok_def)
    with 3 same lookup_node(3) [OF ok, of k] ch pos no [of ch] show ?thesis
      by (auto simp: Let_def cond_cmp_Key equ_proc_def drop_obj_def)
  qed
qed simp

section \<open>Walking\<close>

lemma call_chain_all: "call_chain (\<lambda>_. False) ch = (ch, False)"
  by (induction ch) auto

lemma walk_el_correct [refines]:
  "bst t \<Longrightarrow> walk_el (Key k) (\<lambda>_. False) t = Some (concat (filter (\<lambda>c. k \<le> ckey c) (chains t)))"
  "bst t \<Longrightarrow> walk_el MinusInf (\<lambda>_. False) t = Some (concat (chains t))"
proof (induction t)
  case (BNode s ch lv l)
  { case 1
    then have ok: "node_ok s ch l" by simp
    obtain j o' os where ch: "ch = (Key j, o') # os" "ckey ch = j"
      using ok chain_okE unfolding node_ok_def by metis
    have "j \<le> k \<Longrightarrow> filter (\<lambda>c. k \<le> ckey c) (chains s) = []"
      using ok ch by (fastforce simp: node_ok_def keys_def filter_empty_conv)
    then show ?case using BNode.IH(1,3) ok ch
      by (cases k j rule: linorder_cases) (auto simp: Let_def cond_cmp_Key call_chain_all node_ok_def)
  next
    case 2
    then have ok: "node_ok s ch l" by simp
    obtain j o' os where ch: "ch = (Key j, o') # os" "ckey ch = j"
      using ok chain_okE unfolding node_ok_def by metis
    then show ?case using BNode.IH(2,4) ok by (auto simp: Let_def cond_cmp_Key call_chain_all node_ok_def) }
qed simp_all

section \<open>Properties\<close>

definition bt_ok :: "('k :: linorder, 'o) btop \<Rightarrow> bool" where
  "bt_ok t \<longleftrightarrow> bst (bt_top t) \<and> levels_pos (bt_top t)"

text \<open>C31: \<open>ins\<close> of an object with a finite key keeps the search-tree invariant through the rotations
  and implements the finite map: a new key gets the object; an existing key gets it in front of
  its chain when equal keys are enabled, and is left alone, the old chain being returned, when
  they are not.  \<open>search\<close> finds exactly that.\<close>

theorem bt_ins_correct:
  assumes "bt_ok t"
  shows "\<exists>ret t'. bt_ins (Key k, d) t = Some (ret, t') \<and> bt_ok t'
    \<and> (\<forall>j. bt_search (Key j) t' =
         (if j = k \<and> (enabledEqu t \<or> lookup k (bt_top t) = [])
          then map_option ((#) (Key k, d)) (bt_search (Key j) t) else bt_search (Key j) t))"
proof (cases "bt_top t = BNull")
  case True
  then show ?thesis
    using assms search_lookup [of "new_element (Key k, d)"]
    by (auto simp: bt_ins_def bt_ok_def bt_search_def)
next
  case False
  with assms ins_el_correct [of "bt_top t" "(Key k, d)" k "enabledEqu t"]
  obtain ret e where e: "ins_el (Key k, d) (enabledEqu t) (bt_top t) = Some (ret, e)"
    "ins_spec (Key k, d) (enabledEqu t) (bt_top t) ret e"
    by (auto simp: bt_ok_def)
  then have "bst e" by (simp add: ins_spec_def)
  then have srch: "search_el (Key j) e = Some (lookup j e)" "search_el (Key j) (bt_top t) = Some (lookup j (bt_top t))" for j
    using assms by (simp_all add: bt_ok_def search_lookup)
  have "bt_ins (Key k, d) t = Some (ret, t\<lparr>bt_top := e, bt_count := (if ret \<noteq> [] then bt_count t + 1 else bt_count t)\<rparr>)"
    using e False by (simp add: bt_ins_def)
  then show ?thesis using e(2) assms
    by (intro exI conjI) (assumption, auto simp: bt_ok_def bt_search_def ins_spec_def srch)
qed

theorem bt_ins_correct_witness:
  "bt_ok (bt_new True :: (int, string) btop)
   \<and> (\<exists>ret t'. bt_ins (Key (3 :: int), Some ''a'') (bt_new True) = Some (ret, t')
        \<and> bt_search (Key 3) t' = Some [(Key 3, Some ''a'')])"
proof -
  have ok: "bt_ok (bt_new True :: (int, string) btop)" by (simp add: bt_ok_def bt_new_def)
  from bt_ins_correct [OF ok, of 3 "Some ''a''"] ok show ?thesis
    by (auto simp: bt_new_def bt_search_def)
qed

text \<open>C32: \<open>del\<close> of a key without an object returns the key's whole chain (null if there is none) and
  removes exactly that key; the replacement of an inner element by its nearest neighbour and the
  rotations keep the search-tree invariant, and the count goes down by the length of the chain.\<close>

theorem bt_del_correct:
  assumes "bt_ok t"
  shows "\<exists>t'. bt_del (Key k, None) t = Some (lookup k (bt_top t), t') \<and> bt_ok t'
    \<and> (\<forall>j. bt_search (Key j) t' = (if j = k then Some [] else bt_search (Key j) t))
    \<and> bt_count t' = bt_count t - int (length (lookup k (bt_top t)))"
proof (cases "bt_top t = BNull")
  case True
  with assms show ?thesis by (auto simp: bt_del_def bt_search_def)
next
  case False
  with assms del_el_key [of "bt_top t" k] obtain e where
    e: "del_el (Key k, None) (bt_top t) = Some (lookup k (bt_top t), e)"
      "chains e = filter (\<lambda>c. ckey c \<noteq> k) (chains (bt_top t))" "levels_pos e"
    by (auto simp: bt_ok_def)
  have "bst e" using assms e(2) by (auto simp: bt_ok_def intro: bst_filter)
  then have srch: "search_el (Key j) e = Some (lookup j e)" "search_el (Key j) (bt_top t) = Some (lookup j (bt_top t))" for j
    using assms by (auto simp: bt_ok_def intro!: search_lookup)
  with e \<open>bst e\<close> False lookup_filter [OF e(2)] show ?thesis
    by (auto simp: bt_del_def bt_ok_def bt_search_def srch)
qed

theorem bt_del_correct_witness:
  "\<exists>t'. bt_del (Key (3 :: int), None)
      \<lparr>bt_top = BNode (new_element (Key 1, Some ''a'')) [(Key 3, Some ''b'')] 2 BNull, bt_count = 2, enabledEqu = False\<rparr>
      = Some ([(Key 3, Some ''b'')], t') \<and> bt_count t' = 1 \<and> bt_search (Key 3) t' = Some []"
proof -
  have ok: "bt_ok \<lparr>bt_top = BNode (new_element (Key (1 :: int), Some ''a'')) [(Key 3, Some ''b'')] 2 BNull,
      bt_count = 2, enabledEqu = False\<rparr>"
    by (simp add: bt_ok_def node_ok_def chain_ok_def)
  from bt_del_correct [OF ok, of 3] show ?thesis by auto
qed

text \<open>After one object of a chain is dropped.\<close>

lemma chain_ok_drop:
  assumes "chain_ok ch" "1 < length ch"
  shows "chain_ok (drop_obj d ch) \<and> ckey (drop_obj d ch) = ckey ch"
proof -
  obtain k o' os where ch: "ch = (Key k, o') # os" "ckey ch = k" "\<forall>e \<in> set ch. fst e = Key k"
    using chain_okE [OF assms(1)] by metis
  have ne: "drop_obj d ch \<noteq> []" using assms(2) ch(1) by (auto simp: drop_obj_def)
  have all: "\<forall>e \<in> set (drop_obj d ch). fst e = Key k"
    using ch(3) set_remove_first unfolding drop_obj_def by fastforce
  with ne obtain e es where "drop_obj d ch = (Key k, e) # es"
    by (cases "drop_obj d ch") force+
  with ne all ch(2) show ?thesis by (auto simp: chain_ok_def)
qed

lemma filter_lookup:
  "bst t \<Longrightarrow> filter (\<lambda>c. ckey c = k) (chains t) = (if lookup k t = [] then [] else [lookup k t])"
proof (induction t)
  case (BNode s ch lv l)
  then have ok: "node_ok s ch l" by simp
  then have "ch \<noteq> []" by (auto simp: node_ok_def chain_ok_def)
  with BNode ok lookup_node [OF ok, of k] show ?case
    by (cases k "ckey ch" rule: linorder_cases) (auto simp: node_ok_def)
qed simp

lemma bst_drop:
  assumes "bst t" "1 < length (lookup k t)"
    and "chains e = map (\<lambda>c. if ckey c = k then drop_obj d c else c) (chains t)"
  shows "bst e" "lookup j e = (if j = k then drop_obj d (lookup k t) else lookup j t)"
proof -
  let ?f = "\<lambda>c. if ckey c = k then drop_obj d c else c"
  have only: "c = lookup k t" if "c \<in> set (chains t)" "ckey c = k" for c
  proof -
    have "c \<in> set (filter (\<lambda>c. ckey c = k) (chains t))" using that by simp
    then show ?thesis by (simp add: filter_lookup [OF assms(1)] split: if_splits)
  qed
  have f: "chain_ok (?f c) \<and> ckey (?f c) = ckey c" if "c \<in> set (chains t)" for c
    using that assms(1,2) only [OF that] chain_ok_drop [of c d] by (auto simp: bst_def)
  then have "\<forall>c \<in> set (chains e). chain_ok c" unfolding assms(3) set_map by blast
  moreover have "map ckey (chains e) = map ckey (chains t)"
    unfolding assms(3) map_map using f by (intro map_cong refl) (simp only: comp_apply)
  ultimately have "\<forall>c \<in> set (chains e). chain_ok c" "map ckey (chains e) = map ckey (chains t)" by auto
  with assms(1) show "bst e" unfolding bst_def by simp
  have "filter (\<lambda>c. ckey c = j) (chains e) = map ?f (filter (\<lambda>c. ckey c = j) (chains t))"
    unfolding assms(3) filter_map comp_def
    by (rule arg_cong [of _ _ "map ?f"], rule filter_cong [OF refl]) (simp only: f)
  moreover have "map ?f (filter (\<lambda>c. ckey c = j) (chains t)) = filter (\<lambda>c. ckey c = j) (chains t)" if "j \<noteq> k"
    using that by (intro map_idI) auto
  moreover have "map ?f (filter (\<lambda>c. ckey c = k) (chains t)) = [drop_obj d (lookup k t)]"
  proof -
    have "lookup k t \<noteq> []" using assms(2) by auto
    moreover from this filter_lookup [OF assms(1), of k] have "lookup k t \<in> set (filter (\<lambda>c. ckey c = k) (chains t))"
      by simp
    then have "ckey (lookup k t) = k" by simp
    ultimately show ?thesis using filter_lookup [OF assms(1), of k] by simp
  qed
  ultimately show "lookup j e = (if j = k then drop_obj d (lookup k t) else lookup j t)"
    by (auto simp: lookup_def)
qed

text \<open>
  An element whose chain became empty: the search for its key arrives there, also after the
  rotations above it.
\<close>

lemma search_balanced_large:
  assumes "search_el (Key k) l = None" "chain_ok ch" "ckey ch < k" "bst s" "\<forall>j \<in> keys s. j < ckey ch"
  shows "search_el (Key k) (balanced s ch l) = None"
proof -
  obtain j o' os where ch: "ch = (Key j, o') # os" "ckey ch = j" using chain_okE [OF assms(2)] by metis
  show ?thesis
  proof (cases "level_of s + 2 \<le> level_of l")
    case True
    with assms(1) obtain zs zch lv zl where "l = BNode zs zch lv zl" by (cases l) auto
    with True assms(1,3) ch show ?thesis
      by (auto simp: balanced.simps leveled_def Let_def cond_cmp_Key split: list.splits prod.splits if_splits)
  next
    case False
    show ?thesis
    proof (cases s)
      case BNull
      with False assms(1,3) ch show ?thesis
        by (auto simp: balanced.simps leveled_def Let_def cond_cmp_Key)
    next
      case (BNode zs zch lv zl)
      with assms(4) have "chain_ok zch" by (simp add: node_ok_def)
      then obtain i o1 os1 where z: "zch = (Key i, o1) # os1" "ckey zch = i" using chain_okE by metis
      with BNode assms(3,5) ch have "i < k" by auto
      with False BNode assms(1,3) ch z show ?thesis
        by (auto simp: balanced.simps leveled_def Let_def cond_cmp_Key)
    qed
  qed
qed

lemma search_balanced_small:
  assumes "search_el (Key k) s = None" "chain_ok ch" "k < ckey ch" "bst l" "\<forall>j \<in> keys l. ckey ch < j"
  shows "search_el (Key k) (balanced s ch l) = None"
proof -
  obtain j o' os where ch: "ch = (Key j, o') # os" "ckey ch = j" using chain_okE [OF assms(2)] by metis
  have nj: "\<not> j < k" "j \<noteq> k" using assms(3) ch by auto
  show ?thesis
  proof (cases "level_of s + 2 \<le> level_of l")
    case True
    show ?thesis
    proof (cases l)
      case BNull
      with True assms(1) nj ch show ?thesis
        by (auto simp: balanced.simps leveled_def Let_def cond_cmp_Key)
    next
      case (BNode zs zch lv zl)
      with assms(4) have "chain_ok zch" by (simp add: node_ok_def)
      then obtain i o1 os1 where z: "zch = (Key i, o1) # os1" "ckey zch = i" using chain_okE by metis
      with BNode assms(3,5) ch have "k < i" by auto
      then have "\<not> i < k" "i \<noteq> k" by auto
      with True BNode assms(1) nj ch z show ?thesis
        by (auto simp: balanced.simps leveled_def Let_def cond_cmp_Key)
    qed
  next
    case False
    with assms(1) nj ch show ?thesis
      by (cases s) (auto simp: balanced.simps leveled_def Let_def cond_cmp_Key
          split: list.splits prod.splits if_splits)
  qed
qed

lemma search_el_null:
  assumes "bst t" "lookup k t = [e]" "snd e = Some d" "levels_pos t"
    "del_el (Key k, Some d) t = Some (ret, t')"
  shows "search_el (Key k) t' = None"
  using assms
proof (induction t arbitrary: ret t')
  case (BNode s ch lv l)
  have ok: "node_ok s ch l" using BNode.prems by simp
  obtain j o' os where ch: "ch = (Key j, o') # os" "ckey ch = j"
    using ok chain_okE unfolding node_ok_def by metis
  have pos: "levels_pos s" "levels_pos l" using BNode.prems by auto
  have sub: "bst s" "bst l" using ok by (auto simp: node_ok_def)
  consider "j < k" | "k < j" | "j = k" by (cases j k rule: linorder_cases) auto
  then show ?case
  proof cases
    case 1
    then have "j \<noteq> k" by simp
    with 1 have l: "lookup k l = [e]" using BNode.prems(2) lookup_node(2) [OF ok, of k] ch by simp
    then have "l \<noteq> BNull" by auto
    moreover from this l BNode.prems(3) obtain l' where l': "del_el (Key k, Some d) l = Some ([(Key k, Some d)], l')"
      using del_el_object [OF sub(2) pos(2), of k d] by auto
    ultimately have "t' = balanced s ch l'" using BNode.prems(5) 1 ch by (simp add: Let_def cond_cmp_Key)
    moreover have "search_el (Key k) l' = None"
      by (rule BNode.IH(2) [OF sub(2) l BNode.prems(3) pos(2) l'])
    ultimately show ?thesis using ok 1 ch by (auto simp: node_ok_def intro!: search_balanced_large)
  next
    case 2
    then have nj: "j \<noteq> k" "\<not> j < k" by auto
    with 2 have s: "lookup k s = [e]" using BNode.prems(2) lookup_node(1) [OF ok, of k] ch by simp
    then have "s \<noteq> BNull" by auto
    moreover from this s BNode.prems(3) obtain s' where s': "del_el (Key k, Some d) s = Some ([(Key k, Some d)], s')"
      using del_el_object [OF sub(1) pos(1), of k d] by auto
    ultimately have "t' = balanced s' ch l" using BNode.prems(5) 2 nj ch by (simp add: Let_def cond_cmp_Key)
    moreover have "search_el (Key k) s' = None"
      by (rule BNode.IH(1) [OF sub(1) s BNode.prems(3) pos(1) s'])
    ultimately show ?thesis using ok 2 ch by (auto simp: node_ok_def intro!: search_balanced_small)
  next
    case 3
    then have "ch = [e]" using BNode.prems(2) lookup_node(3) [OF ok, of k] ch by auto
    with 3 ch BNode.prems(3,5) show ?thesis by (auto simp: Let_def cond_cmp_Key equ_proc_def)
  qed
qed simp

text \<open>\<open>del\<close> of one object of a key takes it out of a chain of several; but when it is the only
  object of its key, the element stays in the tree with a null object, and the next search for
  that key dereferences null.\<close>

theorem bt_del_object:
  assumes "bt_ok t" "list_ex (\<lambda>e. snd e = Some d) (lookup k (bt_top t))"
  shows "\<exists>t'. bt_del (Key k, Some d) t = Some ([(Key k, Some d)], t')
    \<and> bt_count t' = bt_count t - 1
    \<and> (if length (lookup k (bt_top t)) = 1 then bt_search (Key k) t' = None
       else bt_ok t' \<and> (\<forall>j. bt_search (Key j) t' =
         Some (if j = k then drop_obj d (lookup k (bt_top t)) else lookup j (bt_top t))))"
proof -
  let ?ch = "lookup k (bt_top t)"
  have ne: "bt_top t \<noteq> BNull" using assms(2) by auto
  obtain e where
    e: "del_el (Key k, Some d) (bt_top t) = Some ([(Key k, Some d)], e)"
      "chains e = map (\<lambda>c. if ckey c = k then drop_obj d c else c) (chains (bt_top t))" "levels_pos e"
    using assms ne del_el_object [of "bt_top t" k d] by (auto simp: bt_ok_def)
  have del: "bt_del (Key k, Some d) t = Some ([(Key k, Some d)], t\<lparr>bt_top := e, bt_count := bt_count t - 1\<rparr>)"
    using e(1) ne by (simp add: bt_del_def)
  show ?thesis
  proof (cases "length ?ch = 1")
    case True
    then obtain x where x: "?ch = [x]" by (auto simp: length_Suc_conv)
    with assms(2) have "snd x = Some d" by simp
    then have "search_el (Key k) e = None"
      using search_el_null [OF _ x _ _ e(1)] assms(1) by (auto simp: bt_ok_def)
    with del True show ?thesis by (auto simp: bt_search_def)
  next
    case False
    moreover have "?ch \<noteq> []" using assms(2) by auto
    ultimately have "1 < length ?ch" by (cases ?ch) auto
    from bst_drop [OF _ this e(2)] assms(1)
    have "bst e" "lookup j e = (if j = k then drop_obj d ?ch else lookup j (bt_top t))" for j
      by (auto simp: bt_ok_def)
    with del False e(3) show ?thesis by (auto simp: bt_search_def bt_ok_def search_lookup)
  qed
qed

theorem bt_del_object_witness:
  "\<exists>t'. bt_del (Key (3 :: int), Some ''b'')
      \<lparr>bt_top = new_element (Key 3, Some ''b''), bt_count = 1, enabledEqu = True\<rparr>
      = Some ([(Key 3, Some ''b'')], t') \<and> bt_search (Key 3) t' = None"
proof -
  have ok: "bt_ok \<lparr>bt_top = new_element (Key (3 :: int), Some ''b''), bt_count = 1, enabledEqu = True\<rparr>"
    by (simp add: bt_ok_def)
  from bt_del_object [OF ok, of "''b''" 3] show ?thesis by auto
qed

text \<open>\<open>walk\<close> with a callback that never stops visits every object once, in ascending key order,
  starting at the given key (at the least key for \<open>minusInfty\<close>).\<close>

theorem bt_walk_correct:
  assumes "bt_ok t"
  shows "bt_walk MinusInf (\<lambda>_. False) t = Some (concat (chains (bt_top t)))
    \<and> bt_walk (Key k) (\<lambda>_. False) t = Some (filter (\<lambda>e. case fst e of Key j \<Rightarrow> k \<le> j | _ \<Rightarrow> False)
           (concat (chains (bt_top t))))
    \<and> sorted (map ckey (chains (bt_top t)))"
proof (intro conjI)
  show "bt_walk MinusInf (\<lambda>_. False) t = Some (concat (chains (bt_top t)))"
    using assms by (simp add: bt_walk_def bt_ok_def walk_el_correct)
  have "concat (filter (\<lambda>c. k \<le> ckey c) cs) = filter (\<lambda>e. case fst e of Key j \<Rightarrow> k \<le> j | _ \<Rightarrow> False) (concat cs)"
    if "\<forall>c \<in> set cs. chain_ok c" for cs :: "('a, 'b) bobj list list"
    using that
  proof (induction cs)
    case (Cons c cs)
    then obtain j where "ckey c = j" "\<forall>e \<in> set c. fst e = Key j" using chain_okE by (metis list.set_intros(1))
    then have "filter (\<lambda>e. case fst e of Key j \<Rightarrow> k \<le> j | _ \<Rightarrow> False) c = (if k \<le> ckey c then c else [])"
      by (auto intro!: filter_True simp: filter_empty_conv)
    with Cons show ?case by auto
  qed simp
  then show "bt_walk (Key k) (\<lambda>_. False) t = Some (filter (\<lambda>e. case fst e of Key j \<Rightarrow> k \<le> j | _ \<Rightarrow> False)
           (concat (chains (bt_top t))))"
    using assms by (simp add: bt_walk_def bt_ok_def walk_el_correct bst_def)
  show "sorted (map ckey (chains (bt_top t)))"
    using assms unfolding bt_ok_def bst_def by (blast intro: strict_sorted_imp_sorted)
qed

theorem bt_walk_correct_witness:
  "bt_walk (Key (2 :: int)) (\<lambda>_. False)
     \<lparr>bt_top = BNode (new_element (Key 1, Some ''a'')) [(Key 3, Some ''b'')] 2 BNull, bt_count = 2, enabledEqu = False\<rparr>
   = Some [(Key 3, Some ''b'')]"
proof -
  have ok: "bt_ok \<lparr>bt_top = BNode (new_element (Key (1 :: int), Some ''a'')) [(Key 3, Some ''b'')] 2 BNull,
      bt_count = 2, enabledEqu = False\<rparr>"
    by (simp add: bt_ok_def node_ok_def chain_ok_def)
  from bt_walk_correct [OF ok, of 2] show ?thesis by (simp add: new_element_def)
qed

text \<open>
  A callback that asks to stop ends the walk of its element, but the elements above go on: here
  the callback answers non-zero at once and is still called again.
\<close>

lemma walk_does_not_stop:
  "walk_el MinusInf (\<lambda>_. True) (BNode (new_element (Key (1 :: int), Some ''a'')) [(Key 3, Some ''b'')] 2 BNull)
    = Some [(Key 1, Some ''a''), (Key 3, Some ''b'')]"
  by (simp add: new_element_def cond_cmp_Key Let_def)

text \<open>One rotation is not always enough: after inserting 1, 3, 2 the sides differ by two levels.\<close>

lemma single_rotation_only:
  "let r = (\<lambda>k t. snd (the (bt_ins (Key (k :: int), Some ()) t)));
       t = bt_top (r 2 (r 3 (r 1 (bt_new False))))
   in level_of (small t) = 2 \<and> level_of (large t) = 0"
  by (simp add: bt_ins_def bt_new_def new_element_def balanced.simps leveled_def cond_cmp_Key Let_def)

fun bt_ins_all :: "('k :: linorder \<times> 'o) list \<Rightarrow> ('k, 'o) btop \<Rightarrow> ('k, 'o) btop option" where
  "bt_ins_all [] t = Some t"
| "bt_ins_all ((k, d) # es) t = Option.bind (bt_ins (Key k, Some d) t) (\<lambda>r. bt_ins_all es (snd r))"

lemma bt_ins_all_count:
  "bt_ok t \<Longrightarrow> bt_top t \<noteq> BNull \<Longrightarrow> distinct (map fst es) \<Longrightarrow> set (map fst es) \<inter> keys (bt_top t) = {}
   \<Longrightarrow> \<exists>t'. bt_ins_all es t = Some t' \<and> bt_count t' = bt_count t
          \<and> keys (bt_top t') = set (map fst es) \<union> keys (bt_top t)"
proof (induction es t rule: bt_ins_all.induct)
  case (2 k d es t)
  obtain ret e where e: "ins_el (Key k, Some d) (enabledEqu t) (bt_top t) = Some (ret, e)"
    "ins_spec (Key k, Some d) (enabledEqu t) (bt_top t) ret e"
    using ins_el_correct [of "bt_top t" "(Key k, Some d)" k "enabledEqu t"] 2(2,3) by (auto simp: bt_ok_def)
  have "lookup k (bt_top t) = []" using 2(5) by (auto intro: lookup_absent)
  with e(2) have "ret = []" by (auto simp: ins_spec_def)
  with e 2(3) have "bt_ins (Key k, Some d) t = Some ([], t\<lparr>bt_top := e\<rparr>)" by (simp add: bt_ins_def)
  with 2(1) [OF this] 2(4,5) e(2) show ?case by (auto simp: ins_spec_def bt_ok_def)
qed simp

text \<open>The count does not count: inserting any number of objects under distinct keys into an empty
  tree leaves it at 1, because \<open>ins\<close> of a new key into a non-empty tree answers null.\<close>

theorem bt_count_wrong:
  assumes "distinct (map fst es)" "es \<noteq> []"
  shows "\<exists>t. bt_ins_all es (bt_new equ) = Some t \<and> bt_count t = 1 \<and> keys (bt_top t) = set (map fst es)"
proof -
  obtain k d fs where es: "es = (k, d) # fs" using assms(2) by (cases es) auto
  have "bt_ins (Key k, Some d) (bt_new equ)
      = Some ([(Key k, Some d)], \<lparr>bt_top = new_element (Key k, Some d), bt_count = 1, enabledEqu = equ\<rparr>)"
    by (simp add: bt_ins_def bt_new_def)
  with bt_ins_all_count [of "\<lparr>bt_top = new_element (Key k, Some d), bt_count = 1, enabledEqu = equ\<rparr>" fs]
    assms(1) es show ?thesis by (auto simp: bt_ok_def)
qed

theorem bt_count_wrong_witness:
  "\<exists>t. bt_ins_all [(1 :: int, ''a''), (2, ''b''), (3, ''c'')] (bt_new False) = Some t \<and> bt_count t = 1"
  using bt_count_wrong [of "[(1 :: int, ''a''), (2, ''b''), (3, ''c'')]" False]
  by (auto simp del: bt_ins_all.simps)

text \<open>The typed wrapper loses the caller's key: in a tree without equal keys, the second insertion,
  under whatever key, is answered with the first object and refused, and searching for a key
  finds the first object only if the key is the default-constructed one.\<close>

theorem tb_ins_ignores_key:
  "\<exists>t. tb_ins dflt c1 (Some x) (bt_new False) = Some (Some x, t)
     \<and> tb_ins dflt c2 (Some y) t = Some (Some x, t\<lparr>bt_count := 2\<rparr>)
     \<and> tb_search (Key k) t = Some (if k = dflt then Some x else None)"
  by (auto simp: tb_ins_def tb_search_def bt_ins_def bt_search_def bt_new_def new_element_def cond_cmp_Key
      Let_def split: list.splits)

end
