(* ===== verification/TinyState.thy ===== *)
theory TinyState
  imports Prelude "HOL-Library.Word"
begin

text \<open>
  The state machine object \<open>tinyState_\<close> of \<open>src/src/classes/ts2/c++/tinyState.cpp\<close>: its event
  queue with the events that are kept at most once, and \<open>eventHandler\<close>, which any number of
  threads call at the same time.  The sections of \<open>eventHandler\<close> that run under the object's
  mutex \<open>lm\<close> are functions on the object's record; a thread between two sections is described by
  its program counter.  A dereference of a null queue is \<^term>\<open>None\<close>.

  State functions of subclasses are not source of this file: a state \<open>User n\<close> has the class bits
  and the function (if any) that the parameters give it, and its function may return anything.
\<close>

unbundle bit_operations_syntax

section \<open>Events\<close>

definition TSE_INIT :: nat where "TSE_INIT = 0"
definition TSE_INVOKE :: nat where "TSE_INVOKE = 1"
definition TSE_STATE :: nat where "TSE_STATE = 5"
definition TSE_DESTROY :: nat where "TSE_DESTROY = 6"
definition TSE_RETURN :: nat where "TSE_RETURN = 7"
definition TSE_WAKEUP :: nat where "TSE_WAKEUP = 15"
definition TSE_THREAD :: nat where "TSE_THREAD = 17"
definition TSE_PRIORITY :: nat where "TSE_PRIORITY = 20"
definition TSE_MAX :: nat where "TSE_MAX = 21"

definition TSE_EVM :: "nat \<Rightarrow> int" where
  "TSE_EVM x = push_bit x 1"

lemmas tse_defs = TSE_INIT_def TSE_INVOKE_def TSE_STATE_def TSE_DESTROY_def TSE_RETURN_def
  TSE_WAKEUP_def TSE_THREAD_def TSE_PRIORITY_def TSE_MAX_def

record event =
  ev_type :: nat
  ev_msg :: int

section \<open>States\<close>

datatype tname =
  INI_START | INI_TINYSTATE_FINISH
| ACT_START | ACT_TINYSTATE_CHECK1 | ACT_TINYSTATE_CHECK2 | ACT_TINYSTATE_START
| FIN_START | FIN_TINYSTATE_START
| ZOM_START | ZOM_TINYSTATE_LAST | ZOM_TINYSTATE_LAST2 | ZOM
| ERR_START
| User nat

definition C_INI :: int where "C_INI = 1"
definition C_ACT :: int where "C_ACT = 2"
definition C_FIN :: int where "C_FIN = 4"
definition C_ZOM :: int where "C_ZOM = 8"
definition C_ERR :: int where "C_ERR = 16"
definition C_THR :: int where "C_THR = 64"

lemmas c_defs = C_INI_def C_ACT_def C_FIN_def C_ZOM_def C_ERR_def C_THR_def

text \<open>The first byte of a state's name; \<open>u n\<close> is that of the user state \<open>n\<close>.\<close>

fun name0 :: "(nat \<Rightarrow> int) \<Rightarrow> tname \<Rightarrow> int" where
  "name0 u INI_START = C_INI"
| "name0 u INI_TINYSTATE_FINISH = C_INI"
| "name0 u ACT_START = C_ACT"
| "name0 u ACT_TINYSTATE_CHECK1 = C_ACT"
| "name0 u ACT_TINYSTATE_CHECK2 = C_ACT"
| "name0 u ACT_TINYSTATE_START = C_ACT"
| "name0 u FIN_START = C_FIN"
| "name0 u FIN_TINYSTATE_START = C_FIN"
| "name0 u ZOM_START = C_ZOM"
| "name0 u ZOM_TINYSTATE_LAST = C_ZOM"
| "name0 u ZOM_TINYSTATE_LAST2 = C_ZOM"
| "name0 u ZOM = C_ZOM"
| "name0 u ERR_START = C_ERR"
| "name0 u (User n) = u n"

text \<open>\<open>C_TEST\<close>; the null state counts as an INI state.\<close>

definition C_TEST :: "(nat \<Rightarrow> int) \<Rightarrow> tname option \<Rightarrow> int \<Rightarrow> bool" where
  "C_TEST u x y = (case x of None \<Rightarrow> C_INI AND y \<noteq> 0 | Some s \<Rightarrow> name0 u s AND y \<noteq> 0)"

section \<open>The object\<close>

record obj =
  o_state :: tname
  state_lock :: bool
  que :: "event list option"
  onlyOneEvent_mask :: int
  onlyOneEvent_occur :: int
  thrInfo :: "nat option"
  thrQueueing_flag :: bool
  invoke_state_flag :: bool
  enter_zom :: bool
  destroy_flag :: bool
  destroy_stop :: bool
  ref_destroy_flag :: bool
  filter_lock :: bool
  mtxLock_flag :: bool
  has_application :: bool

text \<open>
  \<open>inherit\<close> up to the first event: \<open>flt\<close> tells whether the object has a filter of its own (the
  default \<open>filter\<close> throws on null).
\<close>

definition inherit :: "bool \<Rightarrow> obj" where
  "inherit flt =
     \<lparr>o_state = INI_START, state_lock = False, que = Some [],
      onlyOneEvent_mask = TSE_EVM TSE_WAKEUP OR TSE_EVM TSE_STATE OR TSE_EVM TSE_DESTROY OR TSE_EVM TSE_PRIORITY,
      onlyOneEvent_occur = 0, thrInfo = None, thrQueueing_flag = False,
      invoke_state_flag = False, enter_zom = False, destroy_flag = False, destroy_stop = False,
      ref_destroy_flag = False, filter_lock = flt, mtxLock_flag = False, has_application = True\<rparr>"

text \<open>\<open>getSeq\<close>: the counter is a 32-bit \<open>int\<close> that starts at 0 and wraps.\<close>

definition getSeq :: "32 word \<Rightarrow> 32 word \<times> 32 word" where
  "getSeq seqNo = (if sint seqNo \<le> 0 then (1, 2) else (seqNo, seqNo + 1))"

subsection \<open>The event queue\<close>

definition delEvent :: "obj \<Rightarrow> (event option \<times> obj) option" where
  "delEvent x =
     (case que x of
        None \<Rightarrow> None
      | Some [] \<Rightarrow> Some (None, x)
      | Some (ev # evs) \<Rightarrow>
          Some (Some ev, x\<lparr>que := Some evs,
                  onlyOneEvent_occur := onlyOneEvent_occur x AND NOT (TSE_EVM (ev_type ev))\<rparr>))"

text \<open>
  \<open>_insEvent\<close>: the queue is filed under \<open>MAX_INTEGER64\<close>, so at its end.  The result says whether
  the thread that runs a \<open>TS_THREAD\<close> state is signalled.
\<close>

definition signals :: "(nat \<Rightarrow> int) \<Rightarrow> obj \<Rightarrow> bool" where
  "signals u x \<longleftrightarrow> thrInfo x \<noteq> None \<and> C_TEST u (Some (o_state x)) C_THR"

definition insEvent :: "(nat \<Rightarrow> int) \<Rightarrow> event \<Rightarrow> obj \<Rightarrow> (bool \<times> obj) option" where
  "insEvent u ev x =
     (let evm = TSE_EVM (ev_type ev) in
      if evm AND onlyOneEvent_mask x = 0 then
        map_option (\<lambda>q. (signals u x, x\<lparr>que := Some (q @ [ev])\<rparr>)) (que x)
      else if onlyOneEvent_occur x AND evm = 0 then
        map_option (\<lambda>q. (signals u x,
          x\<lparr>onlyOneEvent_occur := onlyOneEvent_occur x OR evm, que := Some (q @ [ev])\<rparr>)) (que x)
      else Some (False, x))"

subsection \<open>State changes\<close>

text \<open>\<open>invoke_check\<close>; \<^term>\<open>None\<close> is the state 0.\<close>

definition invoke_check :: "(nat \<Rightarrow> int) \<Rightarrow> tname option \<Rightarrow> obj \<Rightarrow> obj" where
  "invoke_check u s x =
     (case s of
        None \<Rightarrow> x
      | Some st \<Rightarrow>
          if o_state x = st then x
          else
            x\<lparr>enter_zom := (enter_zom x \<or> (\<not> C_TEST u (Some (o_state x)) C_ZOM \<and> C_TEST u s C_ZOM)),
              o_state := st, invoke_state_flag := True\<rparr>)"

text \<open>\<open>invoke_state\<close>: the types of the events sent to the listeners.\<close>

definition invoke_state :: "obj \<Rightarrow> nat list \<times> obj" where
  "invoke_state x =
     (if \<not> invoke_state_flag x then ([], x)
      else (if enter_zom x then [TSE_STATE, TSE_DESTROY] else [TSE_STATE], x\<lparr>invoke_state_flag := False\<rparr>))"

text \<open>The application mutex as this object counts it.\<close>

definition appMtxLock :: "obj \<Rightarrow> obj" where
  "appMtxLock x = x\<lparr>mtxLock_flag := True\<rparr>"

definition appMtxUnlock :: "obj \<Rightarrow> obj" where
  "appMtxUnlock x = x\<lparr>mtxLock_flag := False\<rparr>"

text \<open>\<open>destroy\<close>, its section under \<open>lm\<close>: \<^term>\<open>None\<close> is the panic; the flag says whether the object
  is then invoked (and its worker killed).\<close>

definition destroy :: "(nat \<Rightarrow> int) \<Rightarrow> obj \<Rightarrow> (bool \<times> obj) option" where
  "destroy u x =
     (if destroy_stop x then None
      else if C_TEST u (Some (o_state x)) C_ZOM \<or> destroy_flag x then Some (False, x)
      else Some (True, x\<lparr>destroy_flag := True\<rparr>))"

definition destroyStop :: "obj \<Rightarrow> obj" where
  "destroyStop x = x\<lparr>destroy_stop := True\<rparr>"

definition is_destroyed :: "(nat \<Rightarrow> int) \<Rightarrow> obj \<Rightarrow> bool" where
  "is_destroyed u x \<longleftrightarrow> C_TEST u (Some (o_state x)) C_ZOM \<or> destroy_flag x \<or> ref_destroy_flag x"

text \<open>\<open>refEvent\<close>: \<open>n\<close> is the reference count of the interface; the flag says whether the object is invoked.\<close>

definition refEvent :: "int \<Rightarrow> obj \<Rightarrow> bool \<times> obj" where
  "refEvent n x = (if n = 1 then (True, x\<lparr>ref_destroy_flag := True\<rparr>) else (False, x))"

section \<open>The state functions of the base class\<close>

datatype fun_result =
  Ret bool "tname option"   \<comment> \<open>the returned state: \<open>rDO\<close>, and the state (0 is \<^term>\<open>None\<close>)\<close>
| Ex_stay                   \<comment> \<open>an \<open>sException\<close> of type \<open>EX_STAY\<close>\<close>
| Ex_error                  \<comment> \<open>any other \<open>sException\<close>\<close>

definition zom_last2 :: "obj \<Rightarrow> obj" where
  "zom_last2 x = (snd (invoke_state (x\<lparr>invoke_state_flag := True\<rparr>)))\<lparr>que := None\<rparr>"

fun base_fun :: "tname \<Rightarrow> obj \<Rightarrow> (obj \<times> fun_result) option" where
  "base_fun INI_START x = Some (x, Ret True (Some INI_TINYSTATE_FINISH))"
| "base_fun INI_TINYSTATE_FINISH x = Some (x, Ret True (Some ACT_START))"
| "base_fun ACT_START x = Some (x, Ret True (Some ACT_TINYSTATE_CHECK1))"
| "base_fun ACT_TINYSTATE_CHECK1 x =
     Some (x, Ret True (Some (if ref_destroy_flag x then FIN_START else ACT_TINYSTATE_CHECK2)))"
| "base_fun ACT_TINYSTATE_CHECK2 x =
     Some (x, Ret True (Some (if destroy_flag x then FIN_START else ACT_TINYSTATE_START)))"
| "base_fun ACT_TINYSTATE_START x = Some (x, Ret False (Some ACT_START))"
| "base_fun FIN_START x = Some (x, Ret True (Some FIN_TINYSTATE_START))"
| "base_fun FIN_TINYSTATE_START x = Some (x, Ret True (Some ZOM_START))"
| "base_fun ZOM_START x = Some (x, Ret True (Some ZOM_TINYSTATE_LAST))"
| "base_fun ZOM_TINYSTATE_LAST x = Some (x, Ret True (Some ZOM_TINYSTATE_LAST2))"
| "base_fun ZOM_TINYSTATE_LAST2 x = Some (zom_last2 x, Ret False (Some ZOM))"
| "base_fun ZOM x = Some (x, Ret False None)"
| "base_fun ERR_START x = Some (x, Ret False None)"
| "base_fun (User n) x = None"

section \<open>The sections of \<open>eventHandler\<close>\<close>

text \<open>
  Where a thread is: fetching the next event, filtering one, about to evaluate the state for one,
  running the state function (\<open>lm\<close> released), or past the section with \<open>lm\<close>, where it notifies
  the listeners and, if asked to, gives the object to the thread pool.
\<close>

datatype pc = Fetch | Filter event | Eval event | Run event | Tail

datatype entry = Ignored | Queued | Owner

text \<open>The entry: \<open>thr\<close> is the worker when the pool dispatches the object.\<close>

definition enter :: "(nat \<Rightarrow> int) \<Rightarrow> event \<Rightarrow> nat option \<Rightarrow> obj \<Rightarrow> (entry \<times> obj) option" where
  "enter u ev thr x =
     (if C_TEST u (Some (o_state x)) C_ZOM then Some (Ignored, x)
      else
        case insEvent u ev x of
          None \<Rightarrow> None
        | Some (_, x1) \<Rightarrow>
            Some (if state_lock x1
                  then (Queued, if thr \<noteq> None then x1\<lparr>thrQueueing_flag := False\<rparr> else x1)
                  else (Owner, x1\<lparr>state_lock := True, thrInfo := thr\<rparr>)))"

text \<open>The end of the loop: leave if the queue is gone or empty, otherwise fetch again.\<close>

definition leave :: "obj \<Rightarrow> obj" where
  "leave x =
     (let x1 = (appMtxUnlock x)\<lparr>thrInfo := None, state_lock := False\<rparr>
      in if o_state x1 = ZOM then x1\<lparr>has_application := False\<rparr> else x1)"

definition loop_test :: "obj \<Rightarrow> pc \<times> obj" where
  "loop_test x = (if que x = None \<or> que x = Some [] then (Tail, leave x) else (Fetch, x))"

definition fetch :: "obj \<Rightarrow> (pc \<times> obj) option" where
  "fetch x =
     map_option (\<lambda>(r, x1).
       case r of
         None \<Rightarrow> loop_test x1
       | Some ev \<Rightarrow> (if filter_lock x1 then Filter ev else Eval ev, x1)) (delEvent x)"

definition filtered :: "event option \<Rightarrow> obj \<Rightarrow> pc \<times> obj" where
  "filtered r x = (case r of None \<Rightarrow> loop_test x | Some ev \<Rightarrow> (Eval ev, x))"

text \<open>After a state function: \<open>state\<close> is the value it returned, with \<open>rDO\<close> set or not.\<close>

definition after_state :: "(nat \<Rightarrow> int) \<Rightarrow> bool \<Rightarrow> tname option \<Rightarrow> event \<Rightarrow> obj \<Rightarrow> pc \<times> obj" where
  "after_state u rdo st ev x =
     (if \<not> rdo \<and> st = Some ZOM then loop_test (invoke_check u st x)
      else (if rdo then Eval ev else Fetch, invoke_check u st x))"

text \<open>
  One evaluation of the current state: a null function is the error state; a \<open>TS_STATE\<close> function
  runs under the application mutex; a \<open>TS_THREAD\<close> function runs without it on a worker, and
  where there is no worker the object is to be given to the pool (the last component).
\<close>

definition eval :: "(nat \<Rightarrow> int) \<Rightarrow> (nat \<Rightarrow> bool) \<Rightarrow> event \<Rightarrow> obj \<Rightarrow> pc \<times> obj \<times> bool" where
  "eval u hasfun ev x =
     (if (case o_state x of User n \<Rightarrow> \<not> hasfun n | _ \<Rightarrow> False) then
        let (p, x1) = after_state u True (Some ERR_START) ev x in (p, x1, False)
      else if \<not> C_TEST u (Some (o_state x)) C_THR then
        (Run ev, appMtxLock (x\<lparr>thrQueueing_flag := False\<rparr>), False)
      else if thrInfo x = None then
        let (p, x1) = after_state u False None ev (x\<lparr>thrQueueing_flag := True\<rparr>)
        in (p, x1, \<not> thrQueueing_flag x)
      else (Run ev, appMtxUnlock (x\<lparr>thrQueueing_flag := False\<rparr>), False))"

definition returned :: "(nat \<Rightarrow> int) \<Rightarrow> fun_result \<Rightarrow> event \<Rightarrow> obj \<Rightarrow> pc \<times> obj" where
  "returned u out ev x =
     (case out of
        Ret rdo st \<Rightarrow> after_state u rdo st ev x
      | Ex_stay \<Rightarrow> after_state u False None ev x
      | Ex_error \<Rightarrow> after_state u True (Some ERR_START) ev x)"

text \<open>
  The gate before the section: may this entry be handed to the collector instead?  \<open>thr\<close> tells
  whether the pool dispatches, \<open>depth\<close> is the nesting, \<open>evh_depth\<close> the application's own limit
  (None: no application), \<open>auto\<close> the automatic one, \<open>gc\<close> whether there is a collector and it is not
  this object.
\<close>

definition escapes ::
    "(nat \<Rightarrow> int) \<Rightarrow> bool \<Rightarrow> int \<Rightarrow> int option \<Rightarrow> int \<Rightarrow> bool \<Rightarrow> tname option \<Rightarrow> bool" where
  "escapes u thr depth evh_depth auto gc st_now =
     (\<not> thr \<and> depth > 1 \<and>
      (let limit0 = (case evh_depth of None \<Rightarrow> 0 | Some d \<Rightarrow> d);
           limit = (if limit0 \<le> 0 then auto else limit0)
       in if depth > limit \<and> C_TEST u st_now C_INI then False
          else depth > limit \<and> gc))"

section \<open>All activations of one object\<close>

text \<open>
  An activation is one call of \<open>eventHandler\<close> that got past the entry (with the local flag
  \<open>do_ins\<close>), or a worker of the pool that has taken the object off the ready queue and is about
  to call.  \<open>in_pool\<close>: the object is in the ready queue; \<open>has_pool\<close>: the pool still exists.
\<close>

datatype act = In pc bool | Popped nat

record sys =
  s_obj :: obj
  acts :: "nat \<Rightarrow> act option"
  in_pool :: bool
  has_pool :: bool

definition sys_init :: "bool \<Rightarrow> sys" where
  "sys_init flt = \<lparr>s_obj = inherit flt, acts = (\<lambda>_. None), in_pool = False, has_pool = True\<rparr>"

definition set_act :: "nat \<Rightarrow> act option \<Rightarrow> obj \<Rightarrow> sys \<Rightarrow> sys" where
  "set_act a v x s = s\<lparr>s_obj := x, acts := (acts s)(a := v)\<rparr>"

text \<open>
  \<open>ovr st\<close>: the function of \<open>st\<close> is a subclass's, and returns anything.  \<open>filter\<close> may drop or
  replace an event.  The steps between two of which \<open>lm\<close> is not released are finer than in the
  code wherever that adds behaviours; the test at the end of the loop and the release of
  \<open>state_lock\<close> are one step, as they are under one hold of \<open>lm\<close>.
\<close>

inductive sys_step :: "(nat \<Rightarrow> int) \<Rightarrow> (nat \<Rightarrow> bool) \<Rightarrow> (tname \<Rightarrow> bool) \<Rightarrow> sys \<Rightarrow> sys \<Rightarrow> bool"
  for u hasfun ovr where
  enter_owner: "acts s a = None \<Longrightarrow> enter u ev None (s_obj s) = Some (Owner, x)
    \<Longrightarrow> sys_step u hasfun ovr s (set_act a (Some (In Fetch False)) x s)"
| enter_other: "acts s a = None \<Longrightarrow> enter u ev None (s_obj s) = Some (r, x) \<Longrightarrow> r \<noteq> Owner
    \<Longrightarrow> sys_step u hasfun ovr s (set_act a None x s)"
| pop: "acts s a = None \<Longrightarrow> in_pool s
    \<Longrightarrow> sys_step u hasfun ovr s (set_act a (Some (Popped w)) (s_obj s) s\<lparr>in_pool := False\<rparr>)"
| dispatch: "acts s a = Some (Popped w) \<Longrightarrow> ev_type ev = TSE_THREAD
    \<Longrightarrow> enter u ev (Some w) (s_obj s) = Some (r, x)
    \<Longrightarrow> sys_step u hasfun ovr s (set_act a (if r = Owner then Some (In Fetch False) else None) x s)"
| fetch: "acts s a = Some (In Fetch d) \<Longrightarrow> fetch (s_obj s) = Some (p, x)
    \<Longrightarrow> sys_step u hasfun ovr s (set_act a (Some (In p d)) x s)"
| filter: "acts s a = Some (In (Filter ev) d) \<Longrightarrow> filtered r (s_obj s) = (p, x)
    \<Longrightarrow> sys_step u hasfun ovr s (set_act a (Some (In p d)) x s)"
| eval: "acts s a = Some (In (Eval ev) d) \<Longrightarrow> eval u hasfun ev (s_obj s) = (p, x, i)
    \<Longrightarrow> sys_step u hasfun ovr s (set_act a (Some (In p (d \<or> i))) x s)"
| run_base: "acts s a = Some (In (Run ev) d) \<Longrightarrow> \<not> ovr (o_state (s_obj s))
    \<Longrightarrow> base_fun (o_state (s_obj s)) (s_obj s) = Some (x, out) \<Longrightarrow> returned u out ev x = (p, x')
    \<Longrightarrow> sys_step u hasfun ovr s (set_act a (Some (In p d)) x' s)"
| run_ovr: "acts s a = Some (In (Run ev) d) \<Longrightarrow> ovr (o_state (s_obj s))
    \<Longrightarrow> returned u out ev (s_obj s) = (p, x)
    \<Longrightarrow> sys_step u hasfun ovr s (set_act a (Some (In p d)) x s)"
| tail: "acts s a = Some (In Tail d) \<Longrightarrow> invoke_state (s_obj s) = (sent, x)
    \<Longrightarrow> sys_step u hasfun ovr s
          ((set_act a None x s)\<lparr>in_pool := in_pool s \<or> (d \<and> has_application x \<and> has_pool s)\<rparr>)"
| destroy: "destroy u (s_obj s) = Some (called, x) \<Longrightarrow> sys_step u hasfun ovr s (s\<lparr>s_obj := x\<rparr>)"
| ref_event: "refEvent n (s_obj s) = (called, x) \<Longrightarrow> sys_step u hasfun ovr s (s\<lparr>s_obj := x\<rparr>)"
| fold_pool: "sys_step u hasfun ovr s (s\<lparr>has_pool := False\<rparr>)"

definition owner_pc :: "pc \<Rightarrow> bool" where
  "owner_pc p \<longleftrightarrow> p \<noteq> Tail"

definition owns :: "sys \<Rightarrow> nat \<Rightarrow> bool" where
  "owns s a \<longleftrightarrow> (\<exists>p d. acts s a = Some (In p d) \<and> p \<noteq> Tail)"

section \<open>The invariant\<close>

text \<open>Types kept at most once.\<close>

definition masked :: "nat \<Rightarrow> bool" where
  "masked t \<longleftrightarrow> t \<in> {TSE_WAKEUP, TSE_STATE, TSE_DESTROY, TSE_PRIORITY}"

text \<open>The queue of an object and its mask of pending types.\<close>

definition que_is :: "obj \<Rightarrow> event list \<Rightarrow> bool" where
  "que_is x q \<longleftrightarrow>
     que x = Some q \<and> (\<forall>t. bit (onlyOneEvent_mask x) t \<longleftrightarrow> masked t)
     \<and> (\<forall>t. masked t \<longrightarrow> (bit (onlyOneEvent_occur x) t \<longleftrightarrow> t \<in> ev_type ` set q))
     \<and> distinct (filter masked (map ev_type q))"

definition que_ok :: "obj \<Rightarrow> bool" where
  "que_ok x \<longleftrightarrow>
     (que x = None \<and> o_state x = ZOM \<and> \<not> state_lock x)
     \<or> (\<exists>q. que_is x q \<and> (\<not> state_lock x \<longrightarrow> q = []))"

definition flags_ok :: "(nat \<Rightarrow> int) \<Rightarrow> obj \<Rightarrow> bool" where
  "flags_ok u x \<longleftrightarrow>
     (mtxLock_flag x \<longrightarrow> state_lock x) \<and> (thrInfo x \<noteq> None \<longrightarrow> state_lock x)
     \<and> (C_TEST u (Some (o_state x)) C_ZOM \<longrightarrow> enter_zom x)"

text \<open>What holds of the object while the owner is at a program counter.\<close>

definition pc_ok :: "(nat \<Rightarrow> int) \<Rightarrow> pc \<Rightarrow> obj \<Rightarrow> bool" where
  "pc_ok u p x \<longleftrightarrow>
     (case p of
        Run ev \<Rightarrow> mtxLock_flag x \<longleftrightarrow> \<not> C_TEST u (Some (o_state x)) C_THR
      | _ \<Rightarrow> True)"

lemma bit_evm [simp]: "bit (TSE_EVM t) n \<longleftrightarrow> n = t"
  by (auto simp: TSE_EVM_def bit_simps)

lemma evm_and_zero [simp]: "TSE_EVM t AND m = 0 \<longleftrightarrow> \<not> bit m t" "m AND TSE_EVM t = 0 \<longleftrightarrow> \<not> bit m t"
  by (auto simp: bit_eq_iff [where 'a = int] bit_and_iff)

lemma c_zom_test [simp]: "C_TEST u (Some ZOM) C_ZOM"
  by (simp add: C_TEST_def c_defs)

section \<open>The sections keep the queue invariant\<close>

lemma que_is_cong:
  "que x' = que x \<Longrightarrow> onlyOneEvent_mask x' = onlyOneEvent_mask x
   \<Longrightarrow> onlyOneEvent_occur x' = onlyOneEvent_occur x \<Longrightarrow> que_is x' q = que_is x q"
  by (simp add: que_is_def)

lemma que_is_del:
  assumes "que_is x (ev # q)"
  shows "\<exists>o'. delEvent x = Some (Some ev, x\<lparr>que := Some q, onlyOneEvent_occur := o'\<rparr>)
    \<and> que_is (x\<lparr>que := Some q, onlyOneEvent_occur := o'\<rparr>) q"
  using assms
  by (intro exI [of _ "onlyOneEvent_occur x AND NOT (TSE_EVM (ev_type ev))"])
    (auto simp: delEvent_def que_is_def bit_simps split: if_splits, metis imageI)

text \<open>An event is appended, or it is of a kind that is pending already.\<close>

lemma que_is_ins:
  assumes "que_is x q"
  shows "\<exists>sig o' q'. insEvent u ev x = Some (sig, x\<lparr>que := Some q', onlyOneEvent_occur := o'\<rparr>)
    \<and> que_is (x\<lparr>que := Some q', onlyOneEvent_occur := o'\<rparr>) q'
    \<and> (if masked (ev_type ev) \<and> ev_type ev \<in> ev_type ` set q then q' = q else q' = q @ [ev])"
proof (cases "masked (ev_type ev)")
  case False
  with assms show ?thesis
    by (intro exI [of _ "signals u x"] exI [of _ "onlyOneEvent_occur x"] exI [of _ "q @ [ev]"])
      (auto simp: insEvent_def que_is_def)
next
  case True
  show ?thesis
  proof (cases "ev_type ev \<in> ev_type ` set q")
    case pending: True
    with True assms show ?thesis
      by (intro exI [of _ False] exI [of _ "onlyOneEvent_occur x"] exI [of _ q])
        (auto simp: insEvent_def que_is_def)
  next
    case new: False
    with True assms show ?thesis
      by (intro exI [of _ "signals u x"] exI [of _ "onlyOneEvent_occur x OR TSE_EVM (ev_type ev)"]
          exI [of _ "q @ [ev]"])
        (auto simp: insEvent_def que_is_def bit_simps)
  qed
qed

lemma que_ok_cases:
  assumes "que_ok x"
  obtains (gone) "que x = None" "o_state x = ZOM" "\<not> state_lock x"
    | (queue) q where "que_is x q" "\<not> state_lock x \<Longrightarrow> q = []"
  using assms by (auto simp: que_ok_def)

lemma que_is_owner: "que_ok x \<Longrightarrow> state_lock x \<Longrightarrow> \<exists>q. que_is x q"
  by (auto simp: que_ok_def)

section \<open>Each section keeps the object's invariant\<close>

text \<open>The frame of the fields \<open>flags_ok\<close> looks at.\<close>

definition obj_ok :: "(nat \<Rightarrow> int) \<Rightarrow> obj \<Rightarrow> bool" where
  "obj_ok u x \<longleftrightarrow> que_ok x \<and> flags_ok u x"

lemma enter_ok [preserves]:
  assumes "obj_ok u x"
  shows "\<exists>r x'. enter u ev thr x = Some (r, x') \<and> obj_ok u x'
    \<and> (r = Ignored \<longleftrightarrow> C_TEST u (Some (o_state x)) C_ZOM)
    \<and> (r = Ignored \<longrightarrow> x' = x) \<and> o_state x' = o_state x
    \<and> (r = Queued \<longrightarrow> state_lock x \<and> state_lock x' \<and> thrInfo x' = thrInfo x \<and> mtxLock_flag x' = mtxLock_flag x
          \<and> thrQueueing_flag x' = (thr = None \<and> thrQueueing_flag x))
    \<and> (r = Owner \<longrightarrow> \<not> state_lock x \<and> state_lock x' \<and> thrInfo x' = thr \<and> que x' = Some [ev]
          \<and> thrQueueing_flag x' = thrQueueing_flag x)
    \<and> (r \<noteq> Ignored \<longrightarrow> que x' \<noteq> Some [])
    \<and> filter_lock x' = filter_lock x \<and> has_application x' = has_application x"
proof (cases "C_TEST u (Some (o_state x)) C_ZOM")
  case True
  with assms show ?thesis by (simp add: enter_def)
next
  case False
  then have "o_state x \<noteq> ZOM" by auto
  with assms obtain q where q: "que_is x q" "\<not> state_lock x \<Longrightarrow> q = []"
    by (auto simp: obj_ok_def elim: que_ok_cases)
  obtain sig o' q' where i: "insEvent u ev x = Some (sig, x\<lparr>que := Some q', onlyOneEvent_occur := o'\<rparr>)"
    "que_is (x\<lparr>que := Some q', onlyOneEvent_occur := o'\<rparr>) q'"
    "if masked (ev_type ev) \<and> ev_type ev \<in> ev_type ` set q then q' = q else q' = q @ [ev]"
    using que_is_ins [OF q(1)] by blast
  let ?x1 = "x\<lparr>que := Some q', onlyOneEvent_occur := o'\<rparr>"
  have same: "que_is y q'" if "que y = Some q'" "onlyOneEvent_mask y = onlyOneEvent_mask x"
    "onlyOneEvent_occur y = o'" for y
    using i(2) that by (simp add: que_is_def)
  have same': "Ex (que_is y)" if "que y = Some q'" "onlyOneEvent_mask y = onlyOneEvent_mask x"
    "onlyOneEvent_occur y = o'" for y
    using same [OF that] by blast
  show ?thesis
  proof (cases "state_lock x")
    case True
    have "q' \<noteq> []" using i(3) by (auto split: if_splits)
    with True False i(1) assms same' show ?thesis
      by (auto simp: enter_def obj_ok_def que_ok_def flags_ok_def)
  next
    case nolock: False
    then have "q' = [ev]" using q(2) i(3) by auto
    with nolock False i(1) assms same' show ?thesis
      by (auto simp: enter_def obj_ok_def que_ok_def flags_ok_def)
  qed
qed

lemma invoke_check_simps [simp]:
  "que (invoke_check u s x) = que x" "state_lock (invoke_check u s x) = state_lock x"
  "onlyOneEvent_mask (invoke_check u s x) = onlyOneEvent_mask x"
  "onlyOneEvent_occur (invoke_check u s x) = onlyOneEvent_occur x"
  "thrInfo (invoke_check u s x) = thrInfo x" "mtxLock_flag (invoke_check u s x) = mtxLock_flag x"
  "thrQueueing_flag (invoke_check u s x) = thrQueueing_flag x"
  "filter_lock (invoke_check u s x) = filter_lock x" "has_application (invoke_check u s x) = has_application x"
  "o_state (invoke_check u s x) = (case s of None \<Rightarrow> o_state x | Some st \<Rightarrow> st)"
  by (auto simp: invoke_check_def split: option.splits)

lemma invoke_check_ok [preserves]:
  "flags_ok u x \<Longrightarrow> flags_ok u (invoke_check u s x)"
  by (auto simp: flags_ok_def) (auto simp: invoke_check_def split: option.splits if_splits)

text \<open>
  The owner's obligations at the end of a section: it still owns the object, whose queue is there,
  or it has left it behind in order.
\<close>

definition section_ok :: "(nat \<Rightarrow> int) \<Rightarrow> obj \<Rightarrow> pc \<times> obj \<Rightarrow> bool" where
  "section_ok u x = (\<lambda>(p, x').
     obj_ok u x' \<and> (state_lock x' \<longleftrightarrow> p \<noteq> Tail) \<and> pc_ok u p x'
     \<and> filter_lock x' = filter_lock x \<and> (has_application x' \<longrightarrow> has_application x)
     \<and> (p = Tail \<longrightarrow> que x' = None \<or> que x' = Some []))"

lemma loop_test_ok [preserves]:
  assumes "flags_ok u x" "state_lock x" "que_ok x \<or> (que x = None \<and> o_state x = ZOM)"
  shows "section_ok u x (loop_test x)"
proof (cases "que x = None \<or> que x = Some []")
  case True
  have "que_ok (leave x)"
    using assms(3)
  proof (elim disjE)
    assume "que_ok x"
    with assms(2) obtain q where "que_is x q" using que_is_owner by blast
    with True show ?thesis by (auto simp: que_ok_def que_is_def leave_def appMtxUnlock_def Let_def)
  qed (auto simp: que_ok_def leave_def appMtxUnlock_def Let_def)
  with True assms(1) show ?thesis
    by (auto simp: section_ok_def obj_ok_def loop_test_def pc_ok_def flags_ok_def leave_def
        appMtxUnlock_def Let_def)
next
  case False
  then show ?thesis using assms
    by (auto simp: section_ok_def obj_ok_def loop_test_def pc_ok_def)
qed

lemma fetch_ok [preserves]:
  assumes "obj_ok u x" "state_lock x"
  shows "\<exists>p x'. fetch x = Some (p, x') \<and> section_ok u x (p, x')
     \<and> thrQueueing_flag x' = thrQueueing_flag x
     \<and> (que x \<noteq> Some [] \<longrightarrow> p \<noteq> Tail \<and> thrInfo x' = thrInfo x \<and> (\<exists>ev. p = Filter ev \<or> p = Eval ev)
           \<and> (\<not> filter_lock x \<longrightarrow> (\<exists>ev. p = Eval ev)))"
proof -
  obtain q where q: "que_is x q" using assms que_is_owner by (auto simp: obj_ok_def)
  show ?thesis
  proof (cases q)
    case Nil
    with q have "delEvent x = Some (None, x)" "que x = Some []" by (auto simp: delEvent_def que_is_def)
    moreover have "section_ok u x (loop_test x)" using assms by (intro loop_test_ok) (auto simp: obj_ok_def)
    moreover have "thrQueueing_flag (snd (loop_test x)) = thrQueueing_flag x"
      by (auto simp: loop_test_def leave_def appMtxUnlock_def Let_def)
    ultimately show ?thesis by (cases "loop_test x") (auto simp: fetch_def)
  next
    case (Cons ev evs)
    with que_is_del q obtain o' where d: "delEvent x = Some (Some ev, x\<lparr>que := Some evs, onlyOneEvent_occur := o'\<rparr>)"
      "que_is (x\<lparr>que := Some evs, onlyOneEvent_occur := o'\<rparr>) evs" by blast
    with assms show ?thesis
      by (auto simp: fetch_def section_ok_def obj_ok_def que_ok_def flags_ok_def pc_ok_def)
  qed
qed

lemma after_state_ok [preserves]:
  assumes "flags_ok u x" "state_lock x" "que_ok x \<or> (que x = None \<and> \<not> rdo \<and> st = Some ZOM)"
  shows "section_ok u x (after_state u rdo st ev x)"
proof (cases "\<not> rdo \<and> st = Some ZOM")
  case True
  have "flags_ok u (invoke_check u st x)" using assms(1) by (rule invoke_check_ok)
  moreover have "que_ok (invoke_check u st x) \<or> (que (invoke_check u st x) = None \<and> o_state (invoke_check u st x) = ZOM)"
    using assms(2,3) True by (auto simp: que_ok_def que_is_cong [of "invoke_check u (Some ZOM) x" x])
  ultimately have "section_ok u (invoke_check u st x) (loop_test (invoke_check u st x))"
    using assms(2) by (intro loop_test_ok) auto
  with True show ?thesis by (auto simp: after_state_def section_ok_def)
next
  case False
  with assms(3) have "que_ok x" by auto
  with assms(2) have "que_ok (invoke_check u st x)"
    by (auto simp: que_ok_def que_is_cong [of "invoke_check u st x" x])
  with False assms show ?thesis
    by (auto simp: after_state_def section_ok_def obj_ok_def pc_ok_def invoke_check_ok)
qed



lemma eval_ok [preserves]:
  assumes "obj_ok u x" "state_lock x"
  shows "section_ok u x (fst (eval u hasfun ev x), fst (snd (eval u hasfun ev x)))"
proof -
  have ok: "section_ok u x (after_state u rdo st ev y)"
    if "y = x \<or> y = x\<lparr>thrQueueing_flag := True\<rparr>" "st \<noteq> Some ZOM" for y rdo st
  proof -
    from that(1) assms have "flags_ok u y" "state_lock y" "que_ok y"
      by (auto simp: obj_ok_def flags_ok_def que_ok_def que_is_def)
    then have "section_ok u y (after_state u rdo st ev y)" by (intro after_state_ok) auto
    with that show ?thesis by (auto simp: section_ok_def)
  qed
  obtain p1 y1 where e1: "after_state u True (Some ERR_START) ev x = (p1, y1)" by fastforce
  obtain p2 y2 where e2: "after_state u False None ev (x\<lparr>thrQueueing_flag := True\<rparr>) = (p2, y2)" by fastforce
  have run: "section_ok u x (Run ev, y)"
    if "y = appMtxLock (x\<lparr>thrQueueing_flag := False\<rparr>) \<and> \<not> C_TEST u (Some (o_state x)) C_THR
      \<or> y = appMtxUnlock (x\<lparr>thrQueueing_flag := False\<rparr>) \<and> C_TEST u (Some (o_state x)) C_THR" for y
    using that assms
    by (auto simp: section_ok_def obj_ok_def flags_ok_def que_ok_def que_is_def pc_ok_def
        appMtxLock_def appMtxUnlock_def)
  show ?thesis
    using ok [of x "Some ERR_START" True] ok [of "x\<lparr>thrQueueing_flag := True\<rparr>" None False] run e1 e2
    by (simp add: eval_def)
qed


lemma returned_ok [preserves]:
  assumes "obj_ok u x" "state_lock x"
  shows "section_ok u x (returned u out ev x)"
  using assms by (auto simp: returned_def obj_ok_def split: fun_result.splits intro!: after_state_ok)

lemma base_fun_ok [preserves]:
  assumes "obj_ok u x" "state_lock x" "base_fun (o_state x) x = Some (x', out)"
  shows "section_ok u x (returned u out ev x')"
proof (cases "o_state x = ZOM_TINYSTATE_LAST2")
  case True
  with assms have x': "x' = zom_last2 x" "out = Ret False (Some ZOM)" by auto
  have z: "enter_zom x" using assms True by (auto simp: obj_ok_def flags_ok_def C_TEST_def c_defs)
  have "section_ok u x' (after_state u False (Some ZOM) ev x')"
    using assms x' z by (intro after_state_ok)
      (auto simp: zom_last2_def invoke_state_def obj_ok_def flags_ok_def)
  moreover have "filter_lock x' = filter_lock x" "has_application x' = has_application x"
    by (simp_all add: x' zom_last2_def invoke_state_def)
  ultimately show ?thesis by (simp add: x' returned_def section_ok_def)
next
  case False
  then have "x' = x" using assms(3) by (cases "o_state x") auto
  with returned_ok [OF assms(1,2)] show ?thesis by simp
qed

section \<open>The invariant of the system\<close>

definition sys_inv :: "(nat \<Rightarrow> int) \<Rightarrow> sys \<Rightarrow> bool" where
  "sys_inv u s \<longleftrightarrow>
     obj_ok u (s_obj s)
     \<and> (state_lock (s_obj s) \<longleftrightarrow> (\<exists>a. owns s a))
     \<and> (\<forall>a b. owns s a \<longrightarrow> owns s b \<longrightarrow> a = b)
     \<and> (\<forall>a p d. acts s a = Some (In p d) \<longrightarrow> p \<noteq> Tail \<longrightarrow> pc_ok u p (s_obj s))"

lemma set_act_simps [simp]:
  "s_obj (set_act a v x s) = x" "acts (set_act a v x s) b = (if b = a then v else acts s b)"
  "in_pool (set_act a v x s) = in_pool s" "has_pool (set_act a v x s) = has_pool s"
  by (simp_all add: set_act_def)

lemma owns_set [simp]:
  "owns (set_act a v x s) b \<longleftrightarrow> (if b = a then (\<exists>p d. v = Some (In p d) \<and> p \<noteq> Tail) else owns s b)"
  "owns (s\<lparr>in_pool := i\<rparr>) b = owns s b" "owns (s\<lparr>has_pool := h\<rparr>) b = owns s b"
  "owns (s\<lparr>s_obj := x\<rparr>) b = owns s b"
  by (auto simp: owns_def)

lemma sys_inv_cong: "s_obj s' = s_obj s \<Longrightarrow> acts s' = acts s \<Longrightarrow> sys_inv u s' = sys_inv u s"
  by (simp only: sys_inv_def owns_def)

lemma sys_inv_init: "sys_inv u (sys_init flt)"
proof -
  have "bit (onlyOneEvent_mask (inherit flt)) t = masked t" for t
    by (auto simp: inherit_def masked_def bit_simps)
  then have "que_is (inherit flt) []" by (simp add: que_is_def) (simp add: inherit_def bit_simps)
  then show ?thesis
    by (auto simp: sys_inv_def sys_init_def obj_ok_def que_ok_def flags_ok_def owns_def)
      (auto simp: inherit_def C_TEST_def c_defs)
qed

text \<open>A section of the owner.\<close>

lemma sys_inv_section:
  assumes "sys_inv u s" "owns s a" "section_ok u (s_obj s) (p, x)"
  shows "sys_inv u (set_act a (Some (In p d)) x s)"
proof -
  have only: "\<not> owns s b" if "b \<noteq> a" for b using assms(1,2) that by (auto simp: sys_inv_def)
  with assms(3) show ?thesis by (auto simp: sys_inv_def section_ok_def owns_def)
qed

text \<open>A step that leaves the activations alone.\<close>

lemma sys_inv_env:
  assumes "sys_inv u s" "obj_ok u x" "state_lock x = state_lock (s_obj s)"
    "mtxLock_flag x = mtxLock_flag (s_obj s)" "o_state x = o_state (s_obj s)"
  shows "sys_inv u (s\<lparr>s_obj := x\<rparr>)"
proof -
  have "pc_ok u p x = pc_ok u p (s_obj s)" for p using assms(4,5) by (cases p) (simp_all add: pc_ok_def)
  with assms show ?thesis by (simp add: sys_inv_def)
qed

lemma sys_inv_drop:
  assumes "sys_inv u s" "\<not> owns s a" "\<not> (\<exists>p d. v = Some (In p d) \<and> p \<noteq> Tail)"
  shows "sys_inv u (set_act a v (s_obj s) s)"
  using assms by (auto simp: sys_inv_def)

lemma sys_inv_enter:
  assumes "sys_inv u s" "\<not> owns s a" "enter u ev thr (s_obj s) = Some (r, x)"
  shows "sys_inv u (set_act a (if r = Owner then Some (In Fetch False) else None) x s)"
proof -
  let ?y = "s_obj s"
  have ok: "obj_ok u ?y" using assms(1) by (simp add: sys_inv_def)
  from enter_ok [OF ok, of ev thr] assms(3) have e: "obj_ok u x" "o_state x = o_state ?y"
    "r = Ignored \<Longrightarrow> x = ?y" "r = Queued \<Longrightarrow> state_lock ?y \<and> state_lock x \<and> mtxLock_flag x = mtxLock_flag ?y"
    "r = Owner \<Longrightarrow> \<not> state_lock ?y \<and> state_lock x"
    by auto
  show ?thesis
  proof (cases r)
    case Ignored
    with e assms show ?thesis using sys_inv_drop [of u s a None] by simp
  next
    case Queued
    have "sys_inv u (s\<lparr>s_obj := x\<rparr>)" using sys_inv_env [OF assms(1) e(1)] e Queued by blast
    moreover have "\<not> owns (s\<lparr>s_obj := x\<rparr>) a" using assms(2) by simp
    ultimately show ?thesis
      using sys_inv_drop [of u "s\<lparr>s_obj := x\<rparr>" a None] Queued by (simp add: set_act_def)
  next
    case Owner
    then have "\<not> owns s b" for b using assms(1) e(5) by (auto simp: sys_inv_def)
    with e Owner show ?thesis by (auto simp: sys_inv_def pc_ok_def owns_def split: if_splits)
  qed
qed

lemma obj_ok_flag_updates:
  "obj_ok u (x\<lparr>destroy_flag := b\<rparr>) = obj_ok u x" "obj_ok u (x\<lparr>ref_destroy_flag := b\<rparr>) = obj_ok u x"
  "obj_ok u (x\<lparr>invoke_state_flag := b\<rparr>) = obj_ok u x"
  by (simp_all add: obj_ok_def que_ok_def que_is_def flags_ok_def)

lemma sys_inv_step:
  assumes "sys_step u hasfun ovr s s'" "sys_inv u s"
  shows "sys_inv u s'"
  using assms
proof (induction rule: sys_step.induct)
  case (enter_owner s a ev x)
  then show ?case using sys_inv_enter [of u s a ev None Owner x] by (auto simp: owns_def)
next
  case (enter_other s a ev r x)
  then show ?case using sys_inv_enter [of u s a ev None r x] by (auto simp: owns_def)
next
  case (pop s a w)
  then have "sys_inv u (set_act a (Some (Popped w)) (s_obj s) s)"
    by (intro sys_inv_drop) (auto simp: owns_def)
  then show ?case by (rule iffD2 [OF sys_inv_cong, rotated 2]) simp_all
next
  case (dispatch s a w ev r x)
  then show ?case using sys_inv_enter [of u s a ev "Some w" r x] by (auto simp: owns_def)
next
  case (fetch s a d p x)
  have o: "owns s a" using fetch(1) by (auto simp: owns_def)
  then have "obj_ok u (s_obj s)" "state_lock (s_obj s)" using fetch.prems by (auto simp: sys_inv_def)
  from fetch_ok [OF this] fetch(2) o fetch.prems show ?case by (auto intro: sys_inv_section)
next
  case (filter s a ev d r p x)
  have o: "owns s a" using filter(1) by (auto simp: owns_def)
  then have ok: "obj_ok u (s_obj s)" "state_lock (s_obj s)" using filter.prems by (auto simp: sys_inv_def)
  have "section_ok u (s_obj s) (p, x)"
  proof (cases r)
    case None
    with filter(2) loop_test_ok [of u "s_obj s"] ok show ?thesis by (auto simp: filtered_def obj_ok_def)
  next
    case (Some ev')
    with filter(2) ok show ?thesis by (auto simp: filtered_def section_ok_def pc_ok_def)
  qed
  with o filter.prems show ?case by (auto intro: sys_inv_section)
next
  case (eval s a ev d p x i)
  have o: "owns s a" using eval(1) by (auto simp: owns_def)
  then have "obj_ok u (s_obj s)" "state_lock (s_obj s)" using eval.prems by (auto simp: sys_inv_def)
  from eval_ok [OF this, of hasfun ev] eval(2) o eval.prems show ?case by (auto intro: sys_inv_section)
next
  case (run_base s a ev d x out p x')
  have o: "owns s a" using run_base(1) by (auto simp: owns_def)
  then have "obj_ok u (s_obj s)" "state_lock (s_obj s)" using run_base.prems by (auto simp: sys_inv_def)
  from base_fun_ok [OF this run_base(3), of ev] run_base(4) o run_base.prems show ?case
    by (auto intro: sys_inv_section)
next
  case (run_ovr s a ev d out p x)
  have o: "owns s a" using run_ovr(1) by (auto simp: owns_def)
  then have "obj_ok u (s_obj s)" "state_lock (s_obj s)" using run_ovr.prems by (auto simp: sys_inv_def)
  from returned_ok [OF this, of out ev] run_ovr(3) o run_ovr.prems show ?case
    by (auto intro: sys_inv_section)
next
  case (tail s a d sent x)
  have x: "obj_ok u x" "state_lock x = state_lock (s_obj s)" "mtxLock_flag x = mtxLock_flag (s_obj s)"
    "o_state x = o_state (s_obj s)"
    using tail by (auto simp: invoke_state_def sys_inv_def obj_ok_flag_updates split: if_splits)
  have "sys_inv u (s\<lparr>s_obj := x\<rparr>)" by (rule sys_inv_env [OF tail.prems x])
  moreover have "\<not> owns (s\<lparr>s_obj := x\<rparr>) a" using tail(1) by (auto simp: owns_def)
  ultimately have "sys_inv u (set_act a None x (s\<lparr>s_obj := x\<rparr>))"
    using sys_inv_drop [of u "s\<lparr>s_obj := x\<rparr>" a None] by simp
  then show ?case by (rule iffD2 [OF sys_inv_cong, rotated 2]) (simp_all add: set_act_def)
next
  case (destroy s called x)
  then have "x = s_obj s \<or> x = (s_obj s)\<lparr>destroy_flag := True\<rparr>" by (auto simp: destroy_def split: if_splits)
  with destroy.prems show ?case
    by (intro sys_inv_env) (auto simp: sys_inv_def obj_ok_flag_updates)
next
  case (ref_event n s called x)
  then have "x = s_obj s \<or> x = (s_obj s)\<lparr>ref_destroy_flag := True\<rparr>" by (auto simp: refEvent_def split: if_splits)
  with ref_event.prems show ?case
    by (intro sys_inv_env) (auto simp: sys_inv_def obj_ok_flag_updates)
next
  case (fold_pool s)
  then show ?case by (rule iffD2 [OF sys_inv_cong, rotated 2]) simp_all
qed

lemma sys_inv_reachable: "(sys_step u hasfun ovr)\<^sup>*\<^sup>* (sys_init flt) s \<Longrightarrow> sys_inv u s"
  by (induction rule: rtranclp_induct) (auto intro: sys_inv_step sys_inv_init)

section \<open>The claim on the thread pool\<close>










lemma leave_simps [simp]:
  "thrQueueing_flag (leave x) = thrQueueing_flag x" "o_state (leave x) = o_state x"
  by (simp_all add: leave_def appMtxUnlock_def Let_def)











section \<open>One activation of a base object, alone\<close>

text \<open>
  Without other threads and without subclass states the sections follow each other; the fuel of
  40 steps covers the longest chain, from \<open>ACT_START\<close> to \<open>ZOM\<close>.
\<close>

fun own_step :: "(nat \<Rightarrow> int) \<Rightarrow> (nat \<Rightarrow> bool) \<Rightarrow> pc \<Rightarrow> obj \<Rightarrow> (pc \<times> obj) option" where
  "own_step u hasfun Fetch x = fetch x"
| "own_step u hasfun (Filter ev) x = Some (filtered (Some ev) x)"
| "own_step u hasfun (Eval ev) x = (let (p, y, _) = eval u hasfun ev x in Some (p, y))"
| "own_step u hasfun (Run ev) x =
     map_option (\<lambda>(y, out). returned u out ev y) (base_fun (o_state x) x)"
| "own_step u hasfun Tail x = None"

fun own_run :: "nat \<Rightarrow> (nat \<Rightarrow> int) \<Rightarrow> (nat \<Rightarrow> bool) \<Rightarrow> pc \<Rightarrow> obj \<Rightarrow> obj option" where
  "own_run 0 u hasfun p x = None"
| "own_run (Suc n) u hasfun p x =
     (if p = Tail then Some x
      else Option.bind (own_step u hasfun p x) (\<lambda>(p', x'). own_run n u hasfun p' x'))"

definition eventHandler :: "nat \<Rightarrow> (nat \<Rightarrow> int) \<Rightarrow> (nat \<Rightarrow> bool) \<Rightarrow> event \<Rightarrow> obj \<Rightarrow> (nat list \<times> obj) option" where
  "eventHandler n u hasfun ev x =
     (case enter u ev None x of
        None \<Rightarrow> None
      | Some (r, x1) \<Rightarrow>
          if r = Owner then map_option invoke_state (own_run n u hasfun Fetch x1) else Some ([], x1))"

lemmas run_defs = numeral_eq_Suc fetch_def delEvent_def eval_def after_state_def returned_def
  invoke_check_def appMtxLock_def appMtxUnlock_def loop_test_def leave_def invoke_state_def zom_last2_def

lemma run_alive:
  assumes "o_state x = ACT_START" "que x = Some [ev]" "\<not> filter_lock x" "\<not> destroy_flag x" "\<not> ref_destroy_flag x"
    "\<not> enter_zom x"
  shows "\<exists>y. own_run 40 u hasfun Fetch x = Some y \<and> o_state y = ACT_START \<and> \<not> state_lock y \<and> que y = Some []
    \<and> \<not> mtxLock_flag y \<and> fst (invoke_state y) = [TSE_STATE]"
  using assms by (simp add: run_defs C_TEST_def c_defs Let_def)

lemma run_dying:
  assumes "o_state x = ACT_START" "que x = Some [ev]" "\<not> filter_lock x" "destroy_flag x \<or> ref_destroy_flag x"
  shows "\<exists>y. own_run 40 u hasfun Fetch x = Some y \<and> o_state y = ZOM \<and> \<not> state_lock y \<and> que y = None
    \<and> \<not> mtxLock_flag y \<and> \<not> has_application y \<and> enter_zom y"
proof (cases "ref_destroy_flag x")
  case True
  with assms show ?thesis by (simp add: run_defs C_TEST_def c_defs Let_def)
next
  case False
  with assms show ?thesis by (simp add: run_defs C_TEST_def c_defs Let_def)
qed

text \<open>
  A \<open>TS_THREAD\<close> state of ZOM class is never dispatched: the entry turns the worker away.
\<close>

lemma zom_thread_not_dispatched:
  "C_TEST u (Some (o_state x)) C_ZOM \<Longrightarrow> enter u ev (Some w) x = Some (Ignored, x)"
  by (simp add: enter_def)

section \<open>Properties\<close>

text \<open>A reachable state for the witnesses: one activation has entered a new object.\<close>

definition entered :: "event \<Rightarrow> sys" where
  "entered ev =
     set_act 0 (Some (In Fetch False))
       ((inherit False)\<lparr>state_lock := True, que := Some [ev],
          onlyOneEvent_occur := (if masked (ev_type ev) then TSE_EVM (ev_type ev) else 0)\<rparr>)
       (sys_init False)"

lemma masked_mask: "TSE_EVM t AND onlyOneEvent_mask (inherit flt) = 0 \<longleftrightarrow> \<not> masked t"
  by (auto simp: inherit_def masked_def bit_simps)

lemma entered_reachable: "(sys_step u hasfun ovr)\<^sup>*\<^sup>* (sys_init False) (entered ev)"
proof -
  have "enter u ev None (s_obj (sys_init False)) = Some (Owner, s_obj (entered ev))"
  proof (cases "masked (ev_type ev)")
    case True
    with masked_mask [of "ev_type ev" False] show ?thesis
      by (simp add: enter_def insEvent_def entered_def sys_init_def Let_def C_TEST_def c_defs
          del: evm_and_zero) (simp add: inherit_def c_defs)
  next
    case False
    with masked_mask [of "ev_type ev" False] show ?thesis
      by (simp add: enter_def insEvent_def entered_def sys_init_def Let_def C_TEST_def c_defs
          del: evm_and_zero) (simp add: inherit_def c_defs)
  qed
  then have "sys_step u hasfun ovr (sys_init False) (set_act 0 (Some (In Fetch False)) (s_obj (entered ev)) (sys_init False))"
    by (intro sys_step.enter_owner) (simp add: sys_init_def)
  then show ?thesis by (simp add: entered_def)
qed

text \<open>C2: In every reachable state, with any number of threads delivering events to one object and any
  behaviour of its state functions: at most one of them is inside the state machine, and
  \<open>state_lock\<close> tells whether one is; a \<open>TS_STATE\<close> function runs with the application mutex held
  and a \<open>TS_THREAD\<close> function without it, and when nobody is inside it is released.\<close>

theorem handler_exclusion:
  assumes "(sys_step u hasfun ovr)\<^sup>*\<^sup>* (sys_init flt) s"
  shows "(owns s a \<and> owns s b \<longrightarrow> a = b) \<and> (state_lock (s_obj s) \<longleftrightarrow> (\<exists>c. owns s c))
    \<and> (acts s a = Some (In (Run ev) d) \<longrightarrow>
         (mtxLock_flag (s_obj s) \<longleftrightarrow> \<not> C_TEST u (Some (o_state (s_obj s))) C_THR))
    \<and> (\<not> state_lock (s_obj s) \<longrightarrow> \<not> mtxLock_flag (s_obj s))"
proof (intro conjI impI)
  note inv = sys_inv_reachable [OF assms, unfolded sys_inv_def]
  show "a = b" if "owns s a \<and> owns s b" using inv that by blast
  from inv show "state_lock (s_obj s) \<longleftrightarrow> (\<exists>c. owns s c)" by blast
  show "\<not> mtxLock_flag (s_obj s)" if "\<not> state_lock (s_obj s)" using inv that
    by (auto simp: obj_ok_def flags_ok_def)
  assume "acts s a = Some (In (Run ev) d)"
  with inv have "pc_ok u (Run ev) (s_obj s)" by blast
  then show "mtxLock_flag (s_obj s) \<longleftrightarrow> \<not> C_TEST u (Some (o_state (s_obj s))) C_THR" by (simp add: pc_ok_def)
qed

theorem handler_exclusion_witness:
  "state_lock (s_obj (entered \<lparr>ev_type = TSE_INIT, ev_msg = 0\<rparr>))
   \<and> (\<exists>c. owns (entered \<lparr>ev_type = TSE_INIT, ev_msg = 0\<rparr>) c)"
proof -
  have "state_lock (s_obj (entered \<lparr>ev_type = TSE_INIT, ev_msg = 0\<rparr>))" by (simp add: entered_def)
  with handler_exclusion [OF entered_reachable [of "\<lambda>_. 2" "\<lambda>_. True" "\<lambda>_. False" "\<lparr>ev_type = TSE_INIT, ev_msg = 0\<rparr>"]]
  show ?thesis by blast
qed



text \<open>Wakeups, state, destroy and priority notifications do not pile up: in every reachable state each
  of these types occurs at most once in the queue, and the mask \<open>onlyOneEvent_occur\<close> has exactly
  the bits of those that do.\<close>

theorem only_one_event:
  assumes "(sys_step u hasfun ovr)\<^sup>*\<^sup>* (sys_init flt) s" "que (s_obj s) = Some q"
    and "t \<in> {TSE_WAKEUP, TSE_STATE, TSE_DESTROY, TSE_PRIORITY}"
  shows "length (filter (\<lambda>e. ev_type e = t) q) \<le> 1
    \<and> (bit (onlyOneEvent_occur (s_obj s)) t \<longleftrightarrow> t \<in> ev_type ` set q)"
proof
  have "que_ok (s_obj s)" using sys_inv_reachable [OF assms(1)] by (simp add: sys_inv_def obj_ok_def)
  then have q: "que_is (s_obj s) q" using assms(2) by (auto simp: que_ok_def que_is_def)
  have m: "masked t" using assms(3) by (simp add: masked_def)
  with q show "bit (onlyOneEvent_occur (s_obj s)) t \<longleftrightarrow> t \<in> ev_type ` set q" by (simp add: que_is_def)
  have "distinct (filter masked (map ev_type q)) \<Longrightarrow> length (filter (\<lambda>e. ev_type e = t) q) \<le> 1" for q
  proof (induction q)
    case (Cons e q)
    show ?case
    proof (cases "ev_type e = t")
      case True
      with Cons.prems m have "t \<notin> ev_type ` set q" by auto
      then have "filter (\<lambda>e. ev_type e = t) q = []" by (auto simp: filter_empty_conv)
      then show ?thesis by simp
    qed (use Cons in \<open>auto split: if_splits\<close>)
  qed simp
  with q show "length (filter (\<lambda>e. ev_type e = t) q) \<le> 1" unfolding que_is_def by blast
qed

theorem only_one_event_witness:
  "length (filter (\<lambda>e. ev_type e = TSE_WAKEUP) [\<lparr>ev_type = TSE_WAKEUP, ev_msg = 0\<rparr>]) \<le> 1
   \<and> bit (onlyOneEvent_occur (s_obj (entered \<lparr>ev_type = TSE_WAKEUP, ev_msg = 0\<rparr>))) TSE_WAKEUP"
proof -
  have q: "que (s_obj (entered \<lparr>ev_type = TSE_WAKEUP, ev_msg = 0\<rparr>)) = Some [\<lparr>ev_type = TSE_WAKEUP, ev_msg = 0\<rparr>]"
    by (simp add: entered_def)
  from only_one_event [OF entered_reachable [of "\<lambda>_. 2" "\<lambda>_. True" "\<lambda>_. False"] q, of TSE_WAKEUP]
  show ?thesis by simp
qed



lemma enter_frame:
  assumes "enter u ev thr x = Some (r, x')"
  shows "destroy_flag x' = destroy_flag x" "ref_destroy_flag x' = ref_destroy_flag x" "enter_zom x' = enter_zom x"
  using assms by (auto simp: enter_def insEvent_def Let_def split: if_splits option.splits)

text \<open>Any event that finds an idle object in \<open>ACT_START\<close> starts an activation.\<close>

lemma enter_idle:
  assumes "obj_ok u x" "o_state x = ACT_START" "\<not> state_lock x" "\<not> filter_lock x"
  shows "\<exists>x1. enter u ev None x = Some (Owner, x1) \<and> o_state x1 = ACT_START \<and> que x1 = Some [ev] \<and> \<not> filter_lock x1
    \<and> destroy_flag x1 = destroy_flag x \<and> ref_destroy_flag x1 = ref_destroy_flag x \<and> enter_zom x1 = enter_zom x"
proof -
  have nz: "\<not> C_TEST u (Some (o_state x)) C_ZOM" using assms(2) by (simp add: C_TEST_def c_defs)
  from enter_ok [OF assms(1), of ev None] obtain r x1 where e: "enter u ev None x = Some (r, x1)" "o_state x1 = o_state x"
    "r = Ignored \<longleftrightarrow> C_TEST u (Some (o_state x)) C_ZOM" "r = Queued \<Longrightarrow> state_lock x"
    "r = Owner \<Longrightarrow> que x1 = Some [ev]" "filter_lock x1 = filter_lock x"
    by blast
  with nz assms(3) have "r = Owner" by (cases r) auto
  with e assms(2,4) enter_frame [OF e(1)] show ?thesis by auto
qed

text \<open>C8: The life of an object of the base class: the dispatch of \<open>TSE_INIT\<close> in the constructor runs the
  machine from \<open>INI_START\<close> to \<open>ACT_START\<close> and reports the state change; every later event leaves it
  there while it is not being destroyed; once \<open>destroy\<close> or the loss of the last reference has set
  its flag, the next event takes it to \<open>ZOM\<close>, with the queue gone, the application let go, the
  mutex released and the destroy notification due.  All of this within the fuel of 40 steps.\<close>

theorem base_lifecycle:
  assumes "obj_ok u x" "o_state x = ACT_START" "\<not> state_lock x" "\<not> filter_lock x"
  shows "(\<exists>x. eventHandler 40 u hasfun \<lparr>ev_type = TSE_INIT, ev_msg = 0\<rparr> (inherit False) = Some ([TSE_STATE], x)
      \<and> o_state x = ACT_START \<and> \<not> state_lock x \<and> que x = Some [])
    \<and> (\<not> is_destroyed u x \<and> \<not> enter_zom x \<longrightarrow>
      (\<exists>y. eventHandler 40 u hasfun ev x = Some ([TSE_STATE], y) \<and> o_state y = ACT_START \<and> \<not> state_lock y \<and> que y = Some []))
    \<and> (is_destroyed u x \<longrightarrow>
      (\<exists>n y. eventHandler 40 u hasfun ev x = Some (n, y) \<and> o_state y = ZOM \<and> \<not> state_lock y \<and> que y = None
        \<and> \<not> mtxLock_flag y \<and> \<not> has_application y \<and> enter_zom y))"
proof (intro conjI impI)
  show "\<exists>x. eventHandler 40 u hasfun \<lparr>ev_type = TSE_INIT, ev_msg = 0\<rparr> (inherit False) = Some ([TSE_STATE], x)
      \<and> o_state x = ACT_START \<and> \<not> state_lock x \<and> que x = Some []"
    by (simp add: eventHandler_def enter_def insEvent_def inherit_def C_TEST_def c_defs Let_def tse_defs
        TSE_EVM_def signals_def run_defs)
  note x = assms
  then obtain x1 where x1: "enter u ev None x = Some (Owner, x1)" "o_state x1 = ACT_START" "que x1 = Some [ev]"
    "\<not> filter_lock x1" "destroy_flag x1 = destroy_flag x" "ref_destroy_flag x1 = ref_destroy_flag x"
    "enter_zom x1 = enter_zom x"
    using enter_idle by blast
  have d: "is_destroyed u x \<longleftrightarrow> destroy_flag x \<or> ref_destroy_flag x"
    using x(2) by (simp add: is_destroyed_def C_TEST_def c_defs)
  { assume "\<not> is_destroyed u x \<and> \<not> enter_zom x"
    with d x1 obtain y where y: "own_run 40 u hasfun Fetch x1 = Some y" "o_state y = ACT_START" "\<not> state_lock y"
      "que y = Some []" "fst (invoke_state y) = [TSE_STATE]"
      using run_alive [of x1 ev u hasfun] by auto
    with x1(1) show "\<exists>y. eventHandler 40 u hasfun ev x = Some ([TSE_STATE], y) \<and> o_state y = ACT_START
        \<and> \<not> state_lock y \<and> que y = Some []"
      by (auto simp: eventHandler_def invoke_state_def split: if_splits) }
  { assume "is_destroyed u x"
    with d x1 obtain y where y: "own_run 40 u hasfun Fetch x1 = Some y" "o_state y = ZOM" "\<not> state_lock y"
      "que y = None" "\<not> mtxLock_flag y" "\<not> has_application y" "enter_zom y"
      using run_dying [of x1 ev u hasfun] by auto
    with x1(1) show "\<exists>n y. eventHandler 40 u hasfun ev x = Some (n, y) \<and> o_state y = ZOM \<and> \<not> state_lock y \<and> que y = None
        \<and> \<not> mtxLock_flag y \<and> \<not> has_application y \<and> enter_zom y"
      by (auto simp: eventHandler_def invoke_state_def split: if_splits) }
qed

theorem base_lifecycle_witness:
  "\<exists>n y. eventHandler 40 (\<lambda>_. 2) (\<lambda>_. True) \<lparr>ev_type = TSE_INVOKE, ev_msg = 0\<rparr>
       ((inherit False)\<lparr>o_state := ACT_START, destroy_flag := True\<rparr>) = Some (n, y) \<and> o_state y = ZOM \<and> que y = None"
proof -
  let ?x = "(inherit False)\<lparr>o_state := ACT_START, destroy_flag := True\<rparr>"
  have "bit (onlyOneEvent_mask ?x) t = masked t" for t
    by (auto simp: inherit_def masked_def bit_simps)
  then have "que_is ?x []" by (simp add: que_is_def) (simp add: inherit_def bit_simps)
  then have "obj_ok (\<lambda>_. 2) ?x"
    by (auto simp: obj_ok_def que_ok_def flags_ok_def) (auto simp: inherit_def C_TEST_def c_defs)
  from base_lifecycle [OF this, of "\<lambda>_. True" "\<lparr>ev_type = TSE_INVOKE, ev_msg = 0\<rparr>"]
  show ?thesis by (simp add: inherit_def is_destroyed_def) blast
qed

text \<open>An object that has reached a ZOM state in any run has its destroy notification due (\<open>enter_zom\<close>),
  and from then on every delivery to it, from a caller or from the pool, leaves it unchanged; only
  an object in \<open>ZOM\<close> that nobody is in has lost its queue, so the queue is never dereferenced
  when it is null.\<close>

theorem zom_is_final:
  assumes "(sys_step u hasfun ovr)\<^sup>*\<^sup>* (sys_init flt) s"
  shows "(C_TEST u (Some (o_state (s_obj s))) C_ZOM \<longrightarrow>
      enter_zom (s_obj s) \<and> enter u ev thr (s_obj s) = Some (Ignored, s_obj s))
    \<and> (que (s_obj s) = None \<longrightarrow> o_state (s_obj s) = ZOM \<and> (\<forall>a. \<not> owns s a))
    \<and> (acts s a = Some (In Fetch d) \<longrightarrow> (\<exists>r. fetch (s_obj s) = Some r))"
proof -
  note inv = sys_inv_reachable [OF assms, unfolded sys_inv_def]
  have "C_TEST u (Some (o_state (s_obj s))) C_ZOM \<longrightarrow>
      enter_zom (s_obj s) \<and> enter u ev thr (s_obj s) = Some (Ignored, s_obj s)"
    using inv by (auto simp: obj_ok_def flags_ok_def enter_def)
  moreover have "que (s_obj s) = None \<longrightarrow> o_state (s_obj s) = ZOM \<and> (\<forall>a. \<not> owns s a)"
    using inv by (auto simp: obj_ok_def que_ok_def que_is_def)
  moreover have "\<exists>r. fetch (s_obj s) = Some r" if "acts s a = Some (In Fetch d)"
  proof -
    from that have "owns s a" by (auto simp: owns_def)
    with inv have "state_lock (s_obj s)" "obj_ok u (s_obj s)" by blast+
    from fetch_ok [OF this(2,1)] show ?thesis by blast
  qed
  ultimately show ?thesis by blast
qed

theorem zom_is_final_witness:
  "\<exists>r. fetch (s_obj (entered \<lparr>ev_type = TSE_INIT, ev_msg = 0\<rparr>)) = Some r"
proof -
  have "acts (entered \<lparr>ev_type = TSE_INIT, ev_msg = 0\<rparr>) 0 = Some (In Fetch False)" by (simp add: entered_def)
  with zom_is_final [OF entered_reachable [of "\<lambda>_. 2" "\<lambda>_. True" "\<lambda>_. False"],
      of "\<lparr>ev_type = TSE_INIT, ev_msg = 0\<rparr>" _ None 0 False]
  show ?thesis by blast
qed

text \<open>The gate for deep nesting: an outermost call, a dispatch by the pool, an object that is still
  in an INI state (or has no state yet), and the collector itself are never handed to the
  collector; any other call is, exactly when it is deeper than the application's limit, or the
  automatic one where the application sets none.\<close>

theorem escape_gate:
  assumes "0 < auto"
  shows "(escapes u thr depth evh auto gc st \<longleftrightarrow>
    \<not> thr \<and> gc \<and> \<not> C_TEST u st C_INI \<and> 1 < depth
    \<and> depth > (case evh of Some d \<Rightarrow> if 0 < d then d else auto | None \<Rightarrow> auto))
    \<and> \<not> escapes u thr depth evh auto gc None \<and> \<not> escapes u thr 1 evh auto gc st"
  using assms by (auto simp: escapes_def Let_def C_TEST_def c_defs split: option.splits)

theorem escape_gate_witness:
  "escapes (\<lambda>_. 2) False 1501 (Some 0) 1500 True (Some ACT_START)"
  using escape_gate [of 1500 "\<lambda>_. 2" False 1501 "Some 0" True "Some ACT_START"]
  by (simp add: C_TEST_def c_defs)

end
