(* ===== verification/StringTree.thy ===== *)
theory StringTree
  imports Prelude "HOL-Library.Sublist"
begin

text \<open>
  \<open>stdStringTree<T>\<close> (\<open>classes/ts2/c++/stdStringTree.cpp\<close>): a compressed trie from strings to
  objects.  A node holds the piece of the key that leads to it (\<open>str\<close>, null in the root), an
  object (\<open>obj\<close>, null in a node that only branches), the flag that lets the object answer for longer
  keys (\<open>partial_flag\<close>) and its children, linked through \<open>next\<close>, as a list.

  A key is passed as a pointer and a length; every public entry passes \<open>strlen\<close> of the string, so the
  two end tests \<open>len == 0\<close> and \<open>key[0] == 0\<close> coincide and the pair is the list of the characters that
  are left.  A loop over the children that stops at the first one with a common first character is a
  function of its own over the child list (\<open>ins_kids\<close>, \<open>search_kids\<close>, \dots), called by the node's.

  \<open>tree_map\<close> reads a tree as the finite map it stands for; the lemmas show that \<open>ins\<close>, \<open>del\<close>,
  \<open>search\<close> and \<open>count\<close> are update, removal, lookup and size of this map, and that
  the search with a match length finds the longest admissible prefix.  \<open>dump\<close> only prints and is
  left out.
\<close>

section \<open>The tree\<close>

datatype 'o tree = Tree (nstr: "string sptr") (nobj: "'o sptr") (partial_flag: bool) (kids: "'o tree list")

text \<open>\<open>stdStringTreeBase()\<close>: the empty root.\<close>

definition tree_new :: "'o tree" where
  "tree_new = Tree None None False []"

text \<open>\<open>stdStringTreeBase(str,obj,partial_flag,list)\<close>.\<close>

definition tree_node :: "string \<Rightarrow> 'o sptr \<Rightarrow> bool \<Rightarrow> 'o tree list \<Rightarrow> 'o tree" where
  "tree_node s ob pf ts = Tree (Some s) ob pf ts"

text \<open>\<open>reset\<close>: the string is cut in place, the other members are replaced.\<close>

definition tree_reset :: "nat \<Rightarrow> 'o sptr \<Rightarrow> bool \<Rightarrow> 'o tree list \<Rightarrow> 'o tree \<Rightarrow> 'o tree" where
  "tree_reset len ob pf ts t = Tree (map_option (take len) (nstr t)) ob pf ts"

fun tree_count :: "nat \<Rightarrow> 'o tree \<Rightarrow> nat" where
  "tree_count acc (Tree s ob pf ts) = fold (\<lambda>t a. tree_count a t) ts (if ob \<noteq> None then acc + 1 else acc)"

text \<open>The loop of \<open>match\<close>: how many characters two strings share at their start.\<close>

fun common :: "string \<Rightarrow> string \<Rightarrow> nat" where
  "common (x # xs) (y # ys) = (if x = y then Suc (common xs ys) else 0)"
| "common _ _ = 0"

definition tree_match :: "'o tree \<Rightarrow> string \<Rightarrow> nat \<times> nat" where
  "tree_match t ix = (common (the (nstr t)) ix, length (the (nstr t)))"

section \<open>Insertion\<close>

fun tree_ins :: "string \<Rightarrow> 'o sptr \<Rightarrow> bool \<Rightarrow> 'o tree \<Rightarrow> 'o tree"
  and ins_kids :: "string \<Rightarrow> 'o sptr \<Rightarrow> bool \<Rightarrow> 'o tree list \<Rightarrow> 'o tree list option"
where
  "tree_ins ix ob pf (Tree s ob0 pf0 ts) =
    (if ix = [] then Tree s ob pf ts
     else case ins_kids ix ob pf ts of
       Some ts' \<Rightarrow> Tree s ob0 pf0 ts'
     | None \<Rightarrow> Tree s ob0 pf0 (tree_node ix ob pf [] # ts))"
| "ins_kids ix ob pf [] = None"
| "ins_kids ix ob pf (e # es) =
    (let (clen, xlen) = tree_match e ix in
     if clen = 0 then map_option ((#) e) (ins_kids ix ob pf es)
     else if clen = xlen then Some (tree_ins (drop clen ix) ob pf e # es)
     else if clen = length ix then
       let t = tree_node (drop clen (the (nstr e))) (nobj e) (partial_flag e) (kids e)
       in Some (tree_reset clen ob pf [t] e # es)
     else
       let t1 = tree_node (drop clen (the (nstr e))) (nobj e) (partial_flag e) (kids e);
           t2 = tree_node (drop clen ix) ob pf []
       in Some (tree_reset clen None False [t1, t2] e # es))"

section \<open>Search\<close>

fun tree_search :: "string \<Rightarrow> 'o tree \<Rightarrow> 'o sptr"
  and search_kids :: "string \<Rightarrow> 'o tree list \<Rightarrow> 'o sptr"
where
  "tree_search key (Tree s ob pf ts) = (if key = [] then ob else search_kids key ts)"
| "search_kids key [] = None"
| "search_kids key (e # es) =
    (let (clen, xlen) = tree_match e key in
     if clen = 0 then search_kids key es
     else if clen = xlen then tree_search (drop clen key) e
     else None)"

text \<open>The search that remembers in \<open>olast\<close> the last object with \<open>partial_flag\<close> on the way, and in
  \<open>m_ptr\<close> where in the key it was met; \<open>pos\<close> is how far \<open>key\<close> has advanced.\<close>

fun longest :: "nat \<Rightarrow> string \<Rightarrow> 'o sptr \<Rightarrow> nat option \<Rightarrow> 'o tree \<Rightarrow> 'o sptr \<times> nat option"
  and longest_kids :: "nat \<Rightarrow> string \<Rightarrow> 'o sptr \<Rightarrow> nat option \<Rightarrow> 'o tree list \<Rightarrow> 'o sptr \<times> nat option"
where
  "longest pos key olast m (Tree s ob pf ts) =
    (if ob \<noteq> None \<and> key = [] then (ob, Some pos)
     else
       let olast' = (if ob \<noteq> None \<and> pf then ob else olast);
           m' = (if ob \<noteq> None \<and> pf then Some pos else m)
       in if key = [] then (olast', m') else longest_kids pos key olast' m' ts)"
| "longest_kids pos key olast m [] = (olast, m)"
| "longest_kids pos key olast m (e # es) =
    (let (clen, xlen) = tree_match e key in
     if clen = 0 then longest_kids pos key olast m es
     else if clen = xlen then longest (pos + clen) (drop clen key) olast m e
     else (olast, m))"

text \<open>\<open>search(int *match_len,key)\<close>.\<close>

definition search_len :: "string \<Rightarrow> 'o tree \<Rightarrow> 'o sptr \<times> nat" where
  "search_len key t =
    (case longest 0 key None None t of
       (None, m) \<Rightarrow> (None, 0)
     | (Some ob, m) \<Rightarrow> (Some ob, the m))"

text \<open>\<open>search(obj)\<close>: the key an object stands under.\<close>

fun tree_path :: "'o sptr \<Rightarrow> 'o tree \<Rightarrow> string sptr"
  and path_kids :: "'o sptr \<Rightarrow> 'o tree list \<Rightarrow> string sptr"
where
  "tree_path ob (Tree s ob0 pf ts) =
    (if ob0 = ob then s
     else case path_kids ob ts of
       None \<Rightarrow> None
     | Some r \<Rightarrow> (case s of Some s' \<Rightarrow> Some (s' @ r) | None \<Rightarrow> Some r))"
| "path_kids ob [] = None"
| "path_kids ob (e # es) = (case tree_path ob e of None \<Rightarrow> path_kids ob es | Some r \<Rightarrow> Some r)"

text \<open>\<open>search(msg,cmp)\<close>: the first object the comparison accepts.\<close>

fun tree_find :: "('o \<Rightarrow> bool) \<Rightarrow> 'o tree \<Rightarrow> 'o sptr"
  and find_kids :: "('o \<Rightarrow> bool) \<Rightarrow> 'o tree list \<Rightarrow> 'o sptr"
where
  "tree_find cmp (Tree s ob pf ts) =
    (case ob of Some x \<Rightarrow> if cmp x then ob else find_kids cmp ts | None \<Rightarrow> find_kids cmp ts)"
| "find_kids cmp [] = None"
| "find_kids cmp (e # es) = (case tree_find cmp e of None \<Rightarrow> find_kids cmp es | Some r \<Rightarrow> Some r)"

section \<open>Removal\<close>

text \<open>What \<open>del\<close> does to the child \<open>e\<close> it went into: an empty node is unlinked, a node with no object
  and one child takes the child's place.\<close>

definition tidy :: "'o tree \<Rightarrow> 'o tree list" where
  "tidy e =
    (if nobj e \<noteq> None then [e]
     else case kids e of
       [] \<Rightarrow> []
     | [c] \<Rightarrow> [Tree (Some (the (nstr e) @ the (nstr c))) (nobj c) (partial_flag c) (kids c)]
     | _ \<Rightarrow> [e])"

fun tree_del :: "string \<Rightarrow> 'o tree \<Rightarrow> 'o sptr \<times> 'o tree"
  and del_kids :: "string \<Rightarrow> 'o tree list \<Rightarrow> 'o sptr \<times> 'o tree list"
where
  "tree_del key (Tree s ob pf ts) =
    (if key = [] then (ob, Tree s None False ts)
     else let (ret, ts') = del_kids key ts in (ret, Tree s ob pf ts'))"
| "del_kids key [] = (None, [])"
| "del_kids key (e # es) =
    (let (clen, xlen) = tree_match e key in
     if clen = 0 then let (ret, es') = del_kids key es in (ret, e # es')
     else if clen = xlen then let (ret, e') = tree_del (drop clen key) e in (ret, tidy e' @ es)
     else (None, e # es))"

text \<open>\<open>del(obj)\<close>.\<close>

definition tree_del_obj :: "'o sptr \<Rightarrow> 'o tree \<Rightarrow> 'o sptr \<times> 'o tree" where
  "tree_del_obj ob t = (case tree_path ob t of None \<Rightarrow> (None, t) | Some p \<Rightarrow> tree_del p t)"

section \<open>The map a tree stands for\<close>

fun entries :: "'o tree \<Rightarrow> (string \<times> 'o \<times> bool) list" where
  "entries (Tree s ob pf ts) =
    (case ob of None \<Rightarrow> [] | Some x \<Rightarrow> [([], x, pf)])
    @ concat (map (\<lambda>t. map (apfst ((@) (the (nstr t)))) (entries t)) ts)"

definition kids_entries :: "'o tree list \<Rightarrow> (string \<times> 'o \<times> bool) list" where
  "kids_entries ts = concat (map (\<lambda>t. map (apfst ((@) (the (nstr t)))) (entries t)) ts)"

definition tree_map :: "'o tree \<Rightarrow> string \<rightharpoonup> 'o \<times> bool" where
  "tree_map t = map_of (entries t)"

definition kids_map :: "'o tree list \<Rightarrow> string \<rightharpoonup> 'o \<times> bool" where
  "kids_map ts = map_of (kids_entries ts)"

text \<open>Well-formed: below the root every node has a non-empty piece of key, siblings start with
  different characters, and a node without an object branches.\<close>

definition first :: "'o tree \<Rightarrow> char" where
  "first t = hd (the (nstr t))"

fun node_wf :: "'o tree \<Rightarrow> bool" where
  "node_wf (Tree s ob pf ts) \<longleftrightarrow>
    s \<noteq> None \<and> s \<noteq> Some [] \<and> (ob = None \<longrightarrow> 2 \<le> length ts) \<and> distinct (map first ts) \<and> (\<forall>t \<in> set ts. node_wf t)"

definition kids_wf :: "'o tree list \<Rightarrow> bool" where
  "kids_wf ts \<longleftrightarrow> distinct (map first ts) \<and> (\<forall>t \<in> set ts. node_wf t)"

definition tree_wf :: "'o tree \<Rightarrow> bool" where
  "tree_wf t \<longleftrightarrow> nstr t = None \<and> kids_wf (kids t)"

section \<open>Lemmas on the pieces of keys\<close>

lemma common_le: "common s k \<le> length s" "common s k \<le> length k"
  by (induction s k rule: common.induct) auto

lemma common_take: "take (common s k) s = take (common s k) k"
  by (induction s k rule: common.induct) auto

lemma common_full: "common s k = length s \<longleftrightarrow> prefix s k"
  by (induction s k rule: common.induct) auto

lemma common_zero: "common s k = 0 \<longleftrightarrow> s = [] \<or> k = [] \<or> hd s \<noteq> hd k"
  by (cases "(s, k)" rule: common.cases) auto

lemma common_split:
  assumes "common s k = n"
  shows "s = take n k @ drop n s"
  using common_take [of s k] assms by (metis append_take_drop_id)

lemma common_next:
  assumes "common s k = n" "n < length s" "n < length k"
  shows "s ! n \<noteq> k ! n"
  using assms by (induction s k arbitrary: n rule: common.induct) (auto split: if_splits)

section \<open>The map, node by node\<close>

lemma map_of_piece:
  "map_of (map (apfst ((@) s)) xs) k = (if prefix s k then map_of xs (drop (length s) k) else None)"
  by (induction xs) (auto simp: prefix_def)

lemma kids_map_Nil [simp]: "kids_map [] = Map.empty"
  by (simp add: kids_map_def kids_entries_def)

lemma kids_map_Cons0:
  "kids_map (e # es) k =
    (case (if prefix (the (nstr e)) k then tree_map e (drop (length (the (nstr e))) k) else None) of
       Some v \<Rightarrow> Some v | None \<Rightarrow> kids_map es k)"
  by (auto simp: kids_map_def kids_entries_def tree_map_def map_add_def map_of_piece split: option.splits)

lemma kids_wf_simps [simp]:
  "kids_wf []"
  "kids_wf (e # es) \<longleftrightarrow> node_wf e \<and> first e \<notin> first ` set es \<and> kids_wf es"
  by (auto simp: kids_wf_def)

lemma node_wf_iff:
  "node_wf e \<longleftrightarrow> (\<exists>c s. nstr e = Some (c # s) \<and> first e = c)
     \<and> (nobj e = None \<longrightarrow> 2 \<le> length (kids e)) \<and> kids_wf (kids e)"
  by (cases e) (auto simp: kids_wf_def first_def neq_Nil_conv)

declare node_wf.simps [simp del]

lemma node_wfE:
  assumes "node_wf e"
  obtains c s where "nstr e = Some (c # s)" "first e = c" "kids_wf (kids e)" "nobj e = None \<Longrightarrow> 2 \<le> length (kids e)"
  using assms by (auto simp: node_wf_iff)

lemma kids_map_first:
  assumes "kids_wf ts" "kids_map ts k \<noteq> None"
  shows "k \<noteq> [] \<and> hd k \<in> first ` set ts"
  using assms
proof (induction ts)
  case (Cons e es)
  then obtain c s where e: "nstr e = Some (c # s)" "first e = c" by (auto elim: node_wfE)
  show ?case
  proof (cases "kids_map es k = None")
    case True
    with Cons.prems e show ?thesis by (auto simp: kids_map_Cons0 prefix_def split: if_splits)
  qed (use Cons in auto)
qed simp

lemma kids_map_Nil_key: "kids_wf ts \<Longrightarrow> kids_map ts [] = None"
  using kids_map_first by blast

lemma kids_map_Cons:
  assumes "kids_wf (e # es)"
  shows "kids_map (e # es) k =
    (if prefix (the (nstr e)) k then tree_map e (drop (length (the (nstr e))) k) else kids_map es k)"
proof (cases "prefix (the (nstr e)) k")
  case True
  from assms obtain c s where e: "nstr e = Some (c # s)" "first e = c" by (auto elim: node_wfE)
  with True have "hd k = first e" by (auto simp: prefix_def)
  with assms have "kids_map es k = None" using kids_map_first [of es k] by auto
  with True show ?thesis by (simp add: kids_map_Cons0 split: option.split)
qed (simp add: kids_map_Cons0)

lemma tree_map_Tree:
  assumes "kids_wf ts"
  shows "tree_map (Tree s ob pf ts) k = (if k = [] then map_option (\<lambda>x. (x, pf)) ob else kids_map ts k)"
proof -
  have "tree_map (Tree s ob pf ts) k =
      (case ob of None \<Rightarrow> kids_map ts k | Some x \<Rightarrow> if k = [] then Some (x, pf) else kids_map ts k)"
    by (simp add: tree_map_def kids_map_def kids_entries_def split: option.split)
  with kids_map_Nil_key [OF assms] show ?thesis by (simp split: option.split)
qed

lemma tree_map_sel:
  "kids_wf (kids t) \<Longrightarrow>
    tree_map t k = (if k = [] then map_option (\<lambda>x. (x, partial_flag t)) (nobj t) else kids_map (kids t) k)"
  by (cases t) (simp add: tree_map_Tree)

lemma kids_map_skip:
  assumes "kids_wf (e # es)" "common (the (nstr e)) k = 0" "k \<noteq> []"
  shows "kids_map (e # es) k = kids_map es k"
proof -
  from assms obtain c s where e: "nstr e = Some (c # s)" by (auto elim: node_wfE)
  with assms show ?thesis by (auto simp: kids_map_Cons common_zero prefix_def)
qed

text \<open>How the loop over the children meets a child: it passes it, goes into it, or stops at it.\<close>

lemma match_cases:
  assumes "kids_wf (e # es)" "key \<noteq> []"
  obtains
    (skip) "common (the (nstr e)) key = 0" "kids_map (e # es) key = kids_map es key" "hd key \<noteq> first e"
  | (into) "common (the (nstr e)) key \<noteq> 0" "common (the (nstr e)) key = length (the (nstr e))"
      "kids_map (e # es) key = tree_map e (drop (length (the (nstr e))) key)" "hd key = first e"
      "prefix (the (nstr e)) key" "kids_map es key = None"
  | (stop) "common (the (nstr e)) key \<noteq> 0" "common (the (nstr e)) key \<noteq> length (the (nstr e))"
      "kids_map (e # es) key = None" "kids_map es key = None" "hd key = first e" "\<not> prefix (the (nstr e)) key"
proof -
  obtain c s where e: "nstr e = Some (c # s)" "first e = c" using assms by (auto elim: node_wfE)
  have none: "kids_map es key = None" if "hd key = first e"
    using that assms kids_map_first [of es key] by auto
  consider "common (the (nstr e)) key = 0"
    | "common (the (nstr e)) key \<noteq> 0" "prefix (the (nstr e)) key"
    | "common (the (nstr e)) key \<noteq> 0" "\<not> prefix (the (nstr e)) key" by blast
  then show thesis
  proof cases
    case 1
    with assms e show thesis by (intro skip kids_map_skip) (auto simp: common_zero)
  next
    case 2
    with assms e none common_full [of "the (nstr e)" key] show thesis
      by (intro into) (auto simp: kids_map_Cons common_zero simp del: kids_wf_simps)
  next
    case 3
    with assms e none common_full [of "the (nstr e)" key] show thesis
      by (intro stop) (auto simp: kids_map_Cons common_zero simp del: kids_wf_simps)
  qed
qed

section \<open>Lookup\<close>

lemma search_correct:
  fixes t :: "'o tree" and ts :: "'o tree list"
  shows "kids_wf (kids t) \<Longrightarrow> tree_search key t = map_option fst (tree_map t key)"
    and "kids_wf ts \<Longrightarrow> key \<noteq> [] \<Longrightarrow> search_kids key ts = map_option fst (kids_map ts key)"
proof (induction key t and key ts rule: tree_search_search_kids.induct)
  case (1 key s ob pf ts)
  then show ?case by (cases ob) (auto simp: tree_map_Tree)
next
  case (3 key e es)
  have wf: "kids_wf (kids e)" "kids_wf es" using 3 by (auto elim: node_wfE)
  from "3.prems" show ?case
    by (cases rule: match_cases) (use 3 wf in \<open>simp_all add: tree_match_def del: kids_wf_simps\<close>)
qed simp

section \<open>Insertion\<close>

lemma node_sels [simp]:
  "nstr (tree_node s ob pf ts) = Some s" "nobj (tree_node s ob pf ts) = ob"
  "partial_flag (tree_node s ob pf ts) = pf" "kids (tree_node s ob pf ts) = ts"
  "nstr (tree_reset n ob pf ts t) = map_option (take n) (nstr t)" "nobj (tree_reset n ob pf ts t) = ob"
  "partial_flag (tree_reset n ob pf ts t) = pf" "kids (tree_reset n ob pf ts t) = ts"
  by (simp_all add: tree_node_def tree_reset_def)

lemma first_node [simp]: "first (tree_node s ob pf ts) = hd s"
  by (simp add: first_def)

text \<open>Splitting a node: its lower half, a node with the rest \<open>r\<close> of its string, has its map.\<close>

lemma half_map:
  assumes "node_wf e" "r \<noteq> []"
  shows "node_wf (tree_node r (nobj e) (partial_flag e) (kids e))"
    and "tree_map (tree_node r (nobj e) (partial_flag e) (kids e)) = tree_map e"
  using assms by (auto elim!: node_wfE simp: node_wf_iff[of "tree_node _ _ _ _"] first_def neq_Nil_conv
      tree_map_sel fun_eq_iff)

lemma ins_stop:
  assumes wf: "kids_wf (e # es)" "ix \<noteq> []" and s: "the (nstr e) = p @ r" "p \<noteq> []" "r \<noteq> []"
    and n: "n = length p" and ts: "kids_wf ts" "ob = None \<Longrightarrow> 2 \<le> length ts"
  shows "kids_wf (tree_reset n ob pf ts e # es)" and "first (tree_reset n ob pf ts e) = first e"
    and "kids_map (tree_reset n ob pf ts e # es) k =
      (if prefix p k then tree_map (tree_reset n ob pf ts e) (drop n k) else kids_map es k)"
proof -
  from wf obtain c q where e: "nstr e = Some (c # q)" "first e = c" by (auto elim: node_wfE)
  with s n obtain p' where p: "p = c # p'" "nstr (tree_reset n ob pf ts e) = Some p" by (auto simp: neq_Nil_conv)
  then show f: "first (tree_reset n ob pf ts e) = first e" using e by (simp add: first_def)
  show wf': "kids_wf (tree_reset n ob pf ts e # es)"
    using wf f p ts e by (auto simp: node_wf_iff [of "tree_reset _ _ _ _ _"])
  have "the (nstr (tree_reset n ob pf ts e)) = p" using p(2) by (metis option.sel)
  from kids_map_Cons [OF wf', of k, unfolded this]
  show "kids_map (tree_reset n ob pf ts e # es) k =
      (if prefix p k then tree_map (tree_reset n ob pf ts e) (drop n k) else kids_map es k)"
    unfolding n .
qed

lemma ins_prefix:
  fixes e :: "'o tree" and ob :: 'o and pf :: bool
  assumes wf: "kids_wf (e # es)" "ix \<noteq> []" and s: "the (nstr e) = ix @ r" "r \<noteq> []"
  defines "e' \<equiv> tree_reset (length ix) (Some ob) pf [tree_node r (nobj e) (partial_flag e) (kids e)] e"
  shows "kids_wf (e' # es) \<and> first e' = first e \<and> kids_map (e' # es) = (kids_map (e # es))(ix \<mapsto> (ob, pf))"
proof -
  let ?t = "tree_node r (nobj e) (partial_flag e) (kids e)"
  have e: "node_wf e" using wf by simp
  note t = half_map [OF e s(2)]
  then have kt: "kids_wf [?t]" by simp
  note stop = ins_stop [OF wf s(1) wf(2) s(2) refl kt, of "Some ob" pf, folded e'_def]
  have m: "tree_map e' k = (if k = [] then Some (ob, pf) else if prefix r k then tree_map e (drop (length r) k) else None)" for k
    using t by (simp add: e'_def tree_map_sel kids_map_Cons0 split: option.split)
  have none: "kids_map es k = None" if "prefix ix k" for k
  proof -
    from e obtain c q where "nstr e = Some (c # q)" "first e = c" by (auto elim: node_wfE)
    with that wf s have "hd k = first e" by (cases ix) (auto simp: prefix_def)
    with wf show ?thesis using kids_map_first [of es k] by auto
  qed
  have "kids_map (e' # es) k = ((kids_map (e # es))(ix \<mapsto> (ob, pf))) k" for k
    using stop(3) [of k] none [of k] m [of "drop (length ix) k"] kids_map_Cons [OF wf(1), of k] s
    by (auto simp: prefix_def)
  with stop show ?thesis by auto
qed

lemma ins_fork:
  fixes e :: "'o tree" and ob :: 'o and pf :: bool
  assumes wf: "kids_wf (e # es)" and p: "p \<noteq> []" and s: "the (nstr e) = p @ r" "r \<noteq> []"
    and ix: "ix = p @ r2" "r2 \<noteq> []" "hd r \<noteq> hd r2"
  defines "e' \<equiv> tree_reset (length p) None False
     [tree_node r (nobj e) (partial_flag e) (kids e), tree_node r2 (Some ob) pf []] e"
  shows "kids_wf (e' # es) \<and> first e' = first e \<and> kids_map (e' # es) = (kids_map (e # es))(ix \<mapsto> (ob, pf))"
proof -
  let ?t1 = "tree_node r (nobj e) (partial_flag e) (kids e)" and ?t2 = "tree_node r2 (Some ob) pf []"
  have e: "node_wf e" using wf by simp
  note t1 = half_map [OF e s(2)]
  have t2: "node_wf ?t2" using ix(2) by (auto simp: node_wf_iff first_def neq_Nil_conv)
  from t1 t2 ix(3) have kt: "kids_wf [?t1, ?t2]" by simp
  have "ix \<noteq> []" using p ix by simp
  note stop = ins_stop [OF wf this s(1) p s(2) refl kt, of None False, folded e'_def, simplified]
  have m: "tree_map e' k = (if k = [] then None else if prefix r k then tree_map e (drop (length r) k)
      else if k = r2 then Some (ob, pf) else None)" for k
    using t1 kt by (auto simp: e'_def tree_map_sel kids_map_Cons prefix_def)
  have none: "kids_map es k = None" if "prefix p k" for k
  proof -
    from e obtain c q where "nstr e = Some (c # q)" "first e = c" by (auto elim: node_wfE)
    with that p s have "hd k = first e" by (cases p) (auto simp: prefix_def)
    with wf show ?thesis using kids_map_first [of es k] by auto
  qed
  have neq: "\<not> prefix r r2" using ix(2,3) s(2) by (auto simp: prefix_def neq_Nil_conv)
  have "kids_map (e' # es) k = ((kids_map (e # es))(ix \<mapsto> (ob, pf))) k" for k
  proof (cases "prefix p k")
    case True
    then obtain k' where k: "k = p @ k'" by (auto simp: prefix_def)
    then show ?thesis
      using stop(3) [of k] none [of k] m [of k'] kids_map_Cons [OF wf, of k] s ix neq by (auto simp: prefix_def)
  next
    case False
    then have "k \<noteq> ix" "\<not> prefix (p @ r) k" using ix by (auto simp: prefix_def)
    with False show ?thesis using stop(3) [of k] kids_map_Cons [OF wf, of k] s by auto
  qed
  with stop show ?thesis by auto
qed

lemma kids_map_new:
  assumes "kids_wf ts" "ix \<noteq> []" "hd ix \<notin> first ` set ts"
  shows "kids_wf (tree_node ix (Some ob) pf [] # ts)"
    and "kids_map (tree_node ix (Some ob) pf [] # ts) = (kids_map ts)(ix \<mapsto> (ob, pf))"
proof -
  show wf: "kids_wf (tree_node ix (Some ob) pf [] # ts)"
    using assms by (auto simp: node_wf_iff [of "tree_node _ _ _ _"] first_def neq_Nil_conv)
  have "kids_map ts k = None" if "prefix ix k" for k
    using that assms kids_map_first [OF assms(1), of k] by (cases "kids_map ts k") (auto simp: prefix_def)
  with kids_map_Cons [OF wf] show "kids_map (tree_node ix (Some ob) pf [] # ts) = (kids_map ts)(ix \<mapsto> (ob, pf))"
    by (auto simp: fun_eq_iff tree_map_sel prefix_def)
qed

lemma ins_correct:
  fixes t :: "'o tree" and ts :: "'o tree list"
  shows "kids_wf (kids t) \<Longrightarrow> oo = Some ob \<Longrightarrow> kids_wf (kids (tree_ins ix oo pf t))
      \<and> nstr (tree_ins ix oo pf t) = nstr t \<and> length (kids t) \<le> length (kids (tree_ins ix oo pf t))
      \<and> (nobj t \<noteq> None \<longrightarrow> nobj (tree_ins ix oo pf t) \<noteq> None)
      \<and> tree_map (tree_ins ix oo pf t) = (tree_map t)(ix \<mapsto> (ob, pf))"
    and "kids_wf ts \<Longrightarrow> oo = Some ob \<Longrightarrow> ix \<noteq> [] \<Longrightarrow>
      (case ins_kids ix oo pf ts of
         None \<Rightarrow> hd ix \<notin> first ` set ts
       | Some ts' \<Rightarrow> kids_wf ts' \<and> map first ts' = map first ts \<and> kids_map ts' = (kids_map ts)(ix \<mapsto> (ob, pf)))"
proof (induction ix oo pf t and ix oo pf ts rule: tree_ins_ins_kids.induct)
  case (1 ix oo pf s ob0 pf0 ts)
  show ?case
  proof (cases "ix = []")
    case False
    show ?thesis
    proof (cases "ins_kids ix oo pf ts")
      case None
      with 1 False have *: "kids_wf ts" "hd ix \<notin> first ` set ts" by simp_all
      from None kids_map_new [OF *(1) False *(2), of ob pf] False 1(3) * show ?thesis
        by (simp add: tree_map_Tree fun_eq_iff del: kids_wf_simps)
    next
      case (Some ts')
      with 1 False have *: "kids_wf ts" "kids_wf ts'" "map first ts' = map first ts"
        "kids_map ts' = (kids_map ts)(ix \<mapsto> (ob, pf))" by auto
      from *(3) have "length ts' = length ts" by (metis length_map)
      with Some False * show ?thesis by (simp add: tree_map_Tree fun_eq_iff)
    qed
  qed (use 1 in \<open>simp add: tree_map_Tree fun_eq_iff\<close>)
next
  case (3 ix oo pf e es)
  let ?s = "the (nstr e)" let ?c = "common ?s ix"
  have e: "node_wf e" "kids_wf (kids e)" using "3.prems" by (auto elim: node_wfE)
  have split: "?s = take ?c ix @ drop ?c ?s" "take ?c ix @ drop ?c ix = ix" using common_split by auto
  consider "?c = 0" | "?c \<noteq> 0" "?c = length ?s" | "?c \<noteq> 0" "?c \<noteq> length ?s" "?c = length ix"
    | "?c \<noteq> 0" "?c \<noteq> length ?s" "?c \<noteq> length ix" by blast
  then show ?case
  proof cases
    case 1
    then have "hd ix \<noteq> first e" using "3.prems" e by (auto simp: common_zero elim!: node_wfE)
    moreover from 1 "3.prems" have "kids_map (e # es) k = (if prefix ?s k then tree_map e (drop (length ?s) k) else kids_map es k)" for k
      by (simp add: kids_map_Cons)
    moreover have "\<not> prefix ?s ix" using 1 "3.prems" e by (auto simp: common_full [symmetric] elim!: node_wfE)
    moreover from 1 "3.prems" have IH: "case ins_kids ix oo pf es of
        None \<Rightarrow> hd ix \<notin> first ` set es
      | Some ts' \<Rightarrow> kids_wf ts' \<and> map first ts' = map first es \<and> kids_map ts' = (kids_map es)(ix \<mapsto> (ob, pf))"
      using "3.IH"(1) [OF _ _ 1] by (simp add: tree_match_def)
    ultimately show ?thesis
    proof (cases "ins_kids ix oo pf es")
      case (Some ts')
      with IH have ts': "kids_wf ts'" "map first ts' = map first es" "kids_map ts' = (kids_map es)(ix \<mapsto> (ob, pf))"
        by simp_all
      then have "kids_wf (e # ts')" using "3.prems"(1) by (metis kids_wf_simps(2) set_map)
      with ts' Some 1 \<open>\<not> prefix ?s ix\<close> show ?thesis
        using kids_map_Cons [OF "3.prems"(1)] kids_map_Cons [OF \<open>kids_wf (e # ts')\<close>]
        by (auto simp: tree_match_def fun_eq_iff)
    qed (use 1 IH in \<open>simp add: tree_match_def\<close>)
  next
    case 2
    let ?e = "tree_ins (drop ?c ix) oo pf e"
    from 2 "3.IH"(2) [OF _ _ 2] "3.prems" e
    have IH: "kids_wf (kids ?e)" "nstr ?e = nstr e" "length (kids e) \<le> length (kids ?e)"
      "nobj e \<noteq> None \<longrightarrow> nobj ?e \<noteq> None" "tree_map ?e = (tree_map e)(drop ?c ix \<mapsto> (ob, pf))"
      by (simp_all add: tree_match_def fun_eq_iff)
    then have "node_wf ?e" "first ?e = first e" using e(1) by (auto simp: node_wf_iff first_def)
    moreover have "prefix ?s ix" using 2 by (simp add: common_full)
    ultimately show ?thesis using 2 IH "3.prems"
      by (auto simp: tree_match_def kids_map_Cons fun_eq_iff prefix_def)
  next
    case 3
    then have "?s = ix @ drop (length ix) ?s" using split(1) by simp
    moreover from 3 have "drop (length ix) ?s \<noteq> []" using common_le(1) [of ?s ix] by auto
    ultimately show ?thesis using ins_prefix [OF "3.prems"(1,3), of "drop (length ix) ?s" ob pf] 3 "3.prems"(2)
      by (simp add: tree_match_def Let_def del: kids_wf_simps)
  next
    case 4
    let ?p = "take ?c ix"
    from 4 have l: "?c < length ?s" "?c < length ix" "length ?p = ?c"
      using common_le [of ?s ix] by auto
    moreover from l have "hd (drop ?c ?s) \<noteq> hd (drop ?c ix)" using common_next [of ?s ix ?c] by (simp add: hd_drop_conv_nth)
    ultimately have "kids_wf (tree_reset ?c None False [tree_node (drop ?c ?s) (nobj e) (partial_flag e) (kids e),
          tree_node (drop ?c ix) (Some ob) pf []] e # es)
      \<and> first (tree_reset ?c None False [tree_node (drop ?c ?s) (nobj e) (partial_flag e) (kids e),
          tree_node (drop ?c ix) (Some ob) pf []] e) = first e
      \<and> kids_map (tree_reset ?c None False [tree_node (drop ?c ?s) (nobj e) (partial_flag e) (kids e),
          tree_node (drop ?c ix) (Some ob) pf []] e # es) = (kids_map (e # es))(ix \<mapsto> (ob, pf))"
      using ins_fork [OF "3.prems"(1), of ?p "drop ?c ?s" ix "drop ?c ix" ob pf] 4 "3.prems"(3) split by (simp del: kids_wf_simps)
    with 4 "3.prems"(2) show ?thesis by (simp add: tree_match_def Let_def del: kids_wf_simps)
  qed
qed simp

section \<open>Removal\<close>

lemma tree_map_cong:
  assumes "kids t = kids t'" "nobj t = nobj t'" "partial_flag t = partial_flag t'"
  shows "tree_map t = tree_map t'"
  using assms by (cases t; cases t') (simp add: tree_map_def)

lemma tidy_correct:
  assumes e: "nstr e = Some (c # s)" "kids_wf (kids e)" and es: "kids_wf es" "c \<notin> first ` set es"
  shows "kids_wf (tidy e @ es) \<and> first ` set (tidy e) \<subseteq> {c}
    \<and> kids_map (tidy e @ es) k = (if prefix (c # s) k then tree_map e (drop (length (c # s)) k) else kids_map es k)"
proof -
  have fe: "first e = c" using e by (simp add: first_def)
  have none: "kids_map es k = None" if "prefix (c # s) k"
    using that es kids_map_first [OF es(1), of k] by (cases "kids_map es k") (auto simp: prefix_def)
  show ?thesis
  proof (cases "nobj e = None \<and> length (kids e) < 2")
    case False
    then have "tidy e = [e]" by (auto simp: tidy_def split: list.split)
    moreover have "kids_wf (e # es)" using False e es fe by (auto simp: node_wf_iff)
    ultimately show ?thesis using fe e kids_map_Cons [of e es k] by auto
  next
    case True
    then consider "kids e = []" | d where "kids e = [d]" by (cases "kids e"; cases "tl (kids e)") auto
    then show ?thesis
    proof cases
      case 1
      then have "tidy e = []" using True by (simp add: tidy_def)
      moreover have "tree_map e k' = None" for k' using 1 True by (simp add: tree_map_sel)
      ultimately show ?thesis using es none by auto
    next
      case (2 d)
      let ?m = "Tree (Some (the (nstr e) @ the (nstr d))) (nobj d) (partial_flag d) (kids d)"
      have t: "tidy e = [?m]" using True 2 by (simp add: tidy_def)
      have d: "node_wf d" "kids_wf (kids d)" using e(2) 2 by (auto elim: node_wfE)
      have m: "node_wf ?m" "first ?m = c" using d e by (auto simp: node_wf_iff first_def)
      then have wf: "kids_wf (?m # es)" using es by auto
      have "kids_map (?m # es) k =
          (if prefix (c # s @ the (nstr d)) k then tree_map d (drop (length (c # s @ the (nstr d))) k) else kids_map es k)"
        using kids_map_Cons [OF wf, of k] tree_map_cong [of ?m d] e by simp
      moreover have "tree_map e k' = (if prefix (the (nstr d)) k' then tree_map d (drop (length (the (nstr d))) k') else None)" for k'
        using True 2 e(2) d by (auto simp: tree_map_sel kids_map_Cons elim!: node_wfE)
      ultimately have "kids_map (?m # es) k =
          (if prefix (c # s) k then tree_map e (drop (length (c # s)) k) else kids_map es k)"
        using none by (auto simp: prefix_def)
      with t m wf show ?thesis by auto
    qed
  qed
qed

lemma del_correct:
  fixes t :: "'o tree" and ts :: "'o tree list"
  shows "kids_wf (kids t) \<Longrightarrow> fst (tree_del key t) = map_option fst (tree_map t key)
      \<and> kids_wf (kids (snd (tree_del key t))) \<and> nstr (snd (tree_del key t)) = nstr t
      \<and> tree_map (snd (tree_del key t)) = (tree_map t)(key := None)"
    and "kids_wf ts \<Longrightarrow> key \<noteq> [] \<Longrightarrow> fst (del_kids key ts) = map_option fst (kids_map ts key)
      \<and> kids_wf (snd (del_kids key ts)) \<and> first ` set (snd (del_kids key ts)) \<subseteq> first ` set ts
      \<and> kids_map (snd (del_kids key ts)) = (kids_map ts)(key := None)"
proof (induction key t and key ts rule: tree_del_del_kids.induct)
  case (1 key s ob pf ts)
  show ?case
  proof (cases "key = []")
    case True
    with 1(2) show ?thesis by (cases ob) (auto simp: tree_map_Tree fun_eq_iff)
  next
    case False
    then show ?thesis using 1 by (cases "del_kids key ts") (auto simp: tree_map_Tree fun_eq_iff)
  qed
next
  case (3 key e es)
  let ?s = "the (nstr e)"
  from "3.prems" obtain c q where e: "nstr e = Some (c # q)" "first e = c" "kids_wf (kids e)" "c \<notin> first ` set es" "kids_wf es"
    by (auto elim: node_wfE)
  from "3.prems" show ?case
  proof (cases rule: match_cases)
    case skip
    then have np: "\<not> prefix ?s key" using e by (auto simp: prefix_def)
    obtain r es' where d: "del_kids key es = (r, es')" by fastforce
    with skip "3.IH"(1) "3.prems" have IH: "r = map_option fst (kids_map es key)" "kids_wf es'"
      "first ` set es' \<subseteq> first ` set es" "kids_map es' = (kids_map es)(key := None)"
      by (simp_all add: tree_match_def fun_eq_iff)
    then have wf: "kids_wf (e # es')" using "3.prems" e by auto
    have "kids_map (e # es') = (kids_map (e # es))(key := None)"
      using kids_map_Cons [OF wf] kids_map_Cons [OF "3.prems"(1)] IH np by (auto simp: fun_eq_iff)
    with skip d wf IH show ?thesis by (auto simp: tree_match_def)
  next
    case into
    obtain r e' where d: "tree_del (drop (length ?s) key) e = (r, e')" by fastforce
    with into "3.IH"(2) e have IH: "r = map_option fst (tree_map e (drop (length ?s) key))" "kids_wf (kids e')"
      "nstr e' = nstr e" "tree_map e' = (tree_map e)(drop (length ?s) key := None)"
      by (simp_all add: tree_match_def fun_eq_iff)
    note tidy = tidy_correct [OF IH(3) [unfolded e(1)] IH(2) e(5,4)]
    from into e obtain kr where kr: "key = (c # q) @ kr" by (auto simp: prefix_def)
    have "kids_map (tidy e' @ es) k = ((kids_map (e # es))(key := None)) k" for k
    proof (cases "prefix (c # q) k")
      case True
      then obtain k' where "k = (c # q) @ k'" by (auto simp: prefix_def)
      then show ?thesis using tidy [of k] kids_map_Cons [OF "3.prems"(1), of k] e IH(4) kr by simp
    next
      case False
      then have "k \<noteq> key" using kr by auto
      then show ?thesis using False tidy [of k] kids_map_Cons [OF "3.prems"(1), of k] e by simp
    qed
    then have "kids_map (tidy e' @ es) = (kids_map (e # es))(key := None)" by (rule ext)
    with into d IH(1) tidy e show ?thesis by (auto simp: tree_match_def)
  next
    case stop
    then show ?thesis using "3.prems" by (auto simp: tree_match_def)
  qed
qed simp

section \<open>The longest admissible prefix\<close>

text \<open>A prefix of \<open>n\<close> characters may answer for a key: an object stands there, and it is the whole key
  or the object's \<open>partial_flag\<close> is set.\<close>

definition hits :: "(string \<rightharpoonup> 'o \<times> bool) \<Rightarrow> string \<Rightarrow> nat \<Rightarrow> bool" where
  "hits M key n \<longleftrightarrow> n \<le> length key \<and> (case M (take n key) of Some (x, pf) \<Rightarrow> pf \<or> n = length key | None \<Rightarrow> False)"

definition best :: "(string \<rightharpoonup> 'o \<times> bool) \<Rightarrow> string \<Rightarrow> nat \<Rightarrow> 'o sptr \<times> nat option \<Rightarrow> 'o sptr \<times> nat option \<Rightarrow> bool" where
  "best M key pos dflt res \<longleftrightarrow>
     (\<exists>n x pf. hits M key n \<and> (\<forall>j > n. \<not> hits M key j) \<and> M (take n key) = Some (x, pf) \<and> res = (Some x, Some (pos + n)))
     \<or> (\<forall>n. \<not> hits M key n) \<and> res = dflt"

lemma best_hit:
  assumes "hits M key n" "\<And>j. n < j \<Longrightarrow> \<not> hits M key j" "M (take n key) = Some (x, pf)" "res = (Some x, Some (pos + n))"
  shows "best M key pos dflt res"
  using assms unfolding best_def by blast

lemma best_cong: "(\<And>n. M (take n key) = M' (take n key)) \<Longrightarrow> best M key pos = best M' key pos"
  by (simp add: best_def hits_def fun_eq_iff)

lemma best_shift:
  assumes "prefix s key"
    and "\<And>n. M (take n key) = (if length s \<le> n then M' (take (n - length s) (drop (length s) key)) else None)"
  shows "best M' (drop (length s) key) (pos + length s) dflt res \<Longrightarrow> best M key pos dflt res"
proof -
  have ls: "length s \<le> length key" using assms(1) by (rule prefix_length_le)
  have h: "hits M key n \<longleftrightarrow> length s \<le> n \<and> hits M' (drop (length s) key) (n - length s)" for n
    using ls by (auto simp: hits_def assms(2) split: option.splits)
  assume b: "best M' (drop (length s) key) (pos + length s) dflt res"
  show "best M key pos dflt res"
  proof (cases "\<exists>n. hits M' (drop (length s) key) n")
    case False
    with b h show ?thesis by (auto simp: best_def)
  next
    case True
    with b obtain n x pf where n: "hits M' (drop (length s) key) n" "\<forall>j > n. \<not> hits M' (drop (length s) key) j"
      "M' (take n (drop (length s) key)) = Some (x, pf)" "res = (Some x, Some (pos + length s + n))"
      by (auto simp: best_def)
    show ?thesis
      by (rule best_hit [of M key "length s + n" x pf]) (use n h assms(2) in \<open>auto simp: less_diff_conv\<close>)
  qed
qed

lemma best_down:
  assumes "key \<noteq> []" "M' [] = None" "\<And>k. k \<noteq> [] \<Longrightarrow> M k = M' k"
    and b: "best M' key pos (case M [] of Some (x, True) \<Rightarrow> (Some x, Some pos) | _ \<Rightarrow> dflt) res"
  shows "best M key pos dflt res"
proof -
  have h0: "hits M key 0 \<longleftrightarrow> (\<exists>x. M [] = Some (x, True))" "\<not> hits M' key 0"
    using assms(1,2) by (auto simp: hits_def split: option.splits)
  have h: "hits M key n = hits M' key n" "M (take n key) = M' (take n key)" if "n \<noteq> 0" for n
    using assms(1,3) that by (auto simp: hits_def)
  show ?thesis
  proof (cases "\<exists>n. hits M' key n")
    case True
    with b obtain n x pf where n: "hits M' key n" "\<forall>j > n. \<not> hits M' key j" "M' (take n key) = Some (x, pf)"
      "res = (Some x, Some (pos + n))" by (auto simp: best_def)
    have "n \<noteq> 0" using n(1) h0(2) by metis
    with n h show ?thesis by (intro best_hit [of M key n x pf]) auto
  next
    case False
    with b have res: "res = (case M [] of Some (x, True) \<Rightarrow> (Some x, Some pos) | _ \<Rightarrow> dflt)" by (auto simp: best_def)
    show ?thesis
    proof (cases "\<exists>x. M [] = Some (x, True)")
      case True
      then obtain x where "M [] = Some (x, True)" by blast
      with False h0 h res show ?thesis by (intro best_hit [of M key 0 x True]) auto
    next
      case no: False
      then have "res = dflt" using res by (auto split: option.splits bool.splits)
      moreover have "\<not> hits M key n" for n using no False h0 h by (cases "n = 0") auto
      ultimately show ?thesis by (simp add: best_def)
    qed
  qed
qed

lemma longest_correct:
  fixes t :: "'o tree" and ts :: "'o tree list"
  shows "kids_wf (kids t) \<Longrightarrow> best (tree_map t) key pos (olast, m) (longest pos key olast m t)"
    and "kids_wf ts \<Longrightarrow> key \<noteq> [] \<Longrightarrow> best (kids_map ts) key pos (olast, m) (longest_kids pos key olast m ts)"
proof (induction pos key olast m t and pos key olast m ts rule: longest_longest_kids.induct)
  case (1 pos key olast m s ob pf ts)
  have M: "tree_map (Tree s ob pf ts) k = (if k = [] then map_option (\<lambda>x. (x, pf)) ob else kids_map ts k)" for k
    using 1 by (simp add: tree_map_Tree)
  show ?case
  proof (cases "key = []")
    case True
    with M [of "[]"] show ?thesis by (cases ob; cases pf) (auto simp: best_def hits_def)
  next
    case False
    have "best (kids_map ts) key pos (case tree_map (Tree s ob pf ts) [] of Some (x, True) \<Rightarrow> (Some x, Some pos)
        | _ \<Rightarrow> (olast, m)) (longest pos key olast m (Tree s ob pf ts))"
      using 1 False M [of "[]"] by (cases ob; cases pf) auto
    moreover have "kids_map ts [] = None" using 1 by (simp add: kids_map_Nil_key)
    moreover have "tree_map (Tree s ob pf ts) k = kids_map ts k" if "k \<noteq> []" for k using that by (simp add: M)
    ultimately show ?thesis using best_down [of key "kids_map ts" "tree_map (Tree s ob pf ts)"] False by blast
  qed
next
  case (2 pos key olast m)
  then show ?case by (simp add: best_def hits_def)
next
  case (3 pos key olast m e es)
  have key: "take n key = [] \<or> hd (take n key) = hd key" for n by (cases key; cases n) auto
  from "3.prems" obtain c q where e: "nstr e = Some (c # q)" "first e = c" "kids_wf (kids e)" "kids_wf es"
    by (auto elim: node_wfE)
  have nil: "kids_map es [] = None" "kids_map (e # es) [] = None" using kids_map_Nil_key [OF e(4)] kids_map_Nil_key [OF "3.prems"(1)] by auto
  note step = kids_map_Cons [OF "3.prems"(1)]
  have other: "kids_map es (take n key) = None" if "hd key = first e" for n
    using that key [of n] kids_map_first [OF e(4), of "take n key"] "3.prems"(1) nil
    by (cases "kids_map es (take n key)") auto
  from "3.prems" show ?case
  proof (cases rule: match_cases)
    case skip
    have "kids_map (e # es) (take n key) = kids_map es (take n key)" for n
      using key [of n] skip e by (auto simp: step prefix_def nil)
    then have "best (kids_map (e # es)) key pos = best (kids_map es) key pos" by (rule best_cong)
    with skip 3 e show ?thesis by (simp add: tree_match_def del: kids_wf_simps)
  next
    case into
    let ?s = "the (nstr e)"
    have "kids_map (e # es) (take n key)
        = (if length ?s \<le> n then tree_map e (take (n - length ?s) (drop (length ?s) key)) else None)" for n
      using into other [of n] by (auto simp: step prefix_def take_append dest: arg_cong [of _ _ length])
    from best_shift [OF into(5) this] 3 e into show ?thesis by (simp add: tree_match_def del: kids_wf_simps)
  next
    case stop
    have "kids_map (e # es) (take n key) = None" for n
      using stop other [of n] by (auto simp: step prefix_def) (metis append_assoc append_take_drop_id)
    then have "\<not> hits (kids_map (e # es)) key n" for n by (simp add: hits_def)
    with stop show ?thesis by (simp add: best_def tree_match_def del: kids_wf_simps)
  qed
qed

section \<open>Counting and searching by object\<close>

lemma count_entries: "tree_count acc t = acc + length (entries t)"
proof (induction t arbitrary: acc)
  case (Tree s ob pf ts)
  have "fold (\<lambda>t a. tree_count a t) ts a = a + length (kids_entries ts)" for a
    using Tree by (induction ts arbitrary: a) (auto simp: kids_entries_def)
  then show ?case by (cases ob) (simp_all add: kids_entries_def)
qed

lemma kids_entries_distinct:
  assumes "kids_wf ts" "\<forall>t \<in> set ts. distinct (map fst (entries t))"
  shows "distinct (map fst (kids_entries ts))"
  using assms
proof (induction ts)
  case (Cons e es)
  then obtain c s where e: "nstr e = Some (c # s)" "first e = c" by (auto elim: node_wfE)
  have "hd k \<in> first ` set es" if "k \<in> fst ` set (kids_entries es)" for k
  proof -
    from that have "kids_map es k \<noteq> None" unfolding kids_map_def by (simp add: map_of_eq_None_iff)
    with Cons.prems kids_map_first [of es k] show ?thesis by simp
  qed
  then have "k \<notin> fst ` set (kids_entries es)" if "hd k = first e" for k
    using that Cons.prems by (metis kids_wf_simps(2))
  then have "(c # s @ k) \<notin> fst ` set (kids_entries es)" for k using e by simp
  moreover have "map fst (kids_entries (e # es)) = map ((@) (c # s)) (map fst (entries e)) @ map fst (kids_entries es)"
    using e by (simp add: kids_entries_def)
  moreover have "inj ((@) (c # s))" by (simp add: inj_def)
  ultimately show ?case using Cons by (auto simp: distinct_map inj_on_def)
qed (simp add: kids_entries_def)

lemma entries_distinct: "kids_wf (kids t) \<Longrightarrow> distinct (map fst (entries t))"
proof (induction t)
  case (Tree s ob pf ts)
  have "distinct (map fst (kids_entries ts))"
  proof (intro kids_entries_distinct ballI)
    fix t assume t: "t \<in> set ts"
    with Tree.prems have "node_wf t" by (simp add: kids_wf_def)
    with Tree.IH [OF t] show "distinct (map fst (entries t))" by (auto elim: node_wfE)
  qed (use Tree.prems in simp)
  moreover have "[] \<notin> fst ` set (kids_entries ts)"
    using kids_map_Nil_key [of ts] Tree by (simp add: kids_map_def map_of_eq_None_iff)
  ultimately show ?case by (cases ob) (simp_all add: kids_entries_def)
qed

lemma count_correct:
  assumes "kids_wf (kids t)"
  shows "tree_count 0 t = card (dom (tree_map t))"
proof -
  have "dom (tree_map t) = set (map fst (entries t))" by (simp add: tree_map_def dom_map_of_conv_image_fst)
  with entries_distinct [OF assms] show ?thesis by (simp only: distinct_card count_entries) simp
qed

lemma path_correct:
  fixes t :: "'o tree" and ts :: "'o tree list"
  shows "node_wf t \<Longrightarrow> oo = Some x \<Longrightarrow>
      (case tree_path oo t of
         None \<Rightarrow> \<forall>k. map_option fst (tree_map t k) \<noteq> Some x
       | Some p \<Rightarrow> \<exists>q. p = the (nstr t) @ q \<and> map_option fst (tree_map t q) = Some x)"
    and "kids_wf ts \<Longrightarrow> oo = Some x \<Longrightarrow>
      (case path_kids oo ts of
         None \<Rightarrow> \<forall>k. map_option fst (kids_map ts k) \<noteq> Some x
       | Some p \<Rightarrow> map_option fst (kids_map ts p) = Some x)"
proof (induction oo t and oo ts rule: tree_path_path_kids.induct)
  case (1 oo s ob pf ts)
  then obtain c q where n: "s = Some (c # q)" "kids_wf ts" by (auto elim: node_wfE)
  then have M: "tree_map (Tree s ob pf ts) k = (if k = [] then map_option (\<lambda>x. (x, pf)) ob else kids_map ts k)" for k
    by (simp add: tree_map_Tree)
  show ?case
  proof (cases "ob = oo")
    case True
    then show ?thesis using n 1(3) M [of "[]"] by auto
  next
    case False
    with 1 n have IH: "case path_kids oo ts of
        None \<Rightarrow> \<forall>k. map_option fst (kids_map ts k) \<noteq> Some x | Some p \<Rightarrow> map_option fst (kids_map ts p) = Some x"
      by simp
    show ?thesis
    proof (cases "path_kids oo ts")
      case None
      with IH False 1(3) M show ?thesis by (auto simp: option.map_comp split: if_splits)
    next
      case (Some r)
      with IH have r: "map_option fst (kids_map ts r) = Some x" by simp
      then have "r \<noteq> []" using kids_map_Nil_key [OF n(2)] by (cases r) auto
      with r M [of r] have "map_option fst (tree_map (Tree s ob pf ts) r) = Some x" by simp
      with Some False n show ?thesis by auto
    qed
  qed
next
  case (2 oo)
  then show ?case by simp
next
  case (3 oo e es)
  note step = kids_map_Cons [OF 3(3)]
  have wf: "node_wf e" "kids_wf es" using 3 by auto
  show ?case
  proof (cases "tree_path oo e")
    case None
    with 3 wf have e: "\<forall>k. map_option fst (tree_map e k) \<noteq> Some x" by simp
    from None 3 wf have es: "case path_kids oo es of
        None \<Rightarrow> \<forall>k. map_option fst (kids_map es k) \<noteq> Some x | Some p \<Rightarrow> map_option fst (kids_map es p) = Some x"
      by simp
    show ?thesis
    proof (cases "path_kids oo es")
      case None
      with es e \<open>tree_path oo e = None\<close> show ?thesis by (simp add: step)
    next
      case (Some p)
      with es have p: "map_option fst (kids_map es p) = Some x" by simp
      have "\<not> prefix (the (nstr e)) p"
      proof
        assume "prefix (the (nstr e)) p"
        moreover from wf obtain c s where "nstr e = Some (c # s)" "first e = c" by (auto elim: node_wfE)
        ultimately have "hd p = first e" by (auto simp: prefix_def)
        moreover have "hd p \<in> first ` set es" using kids_map_first [OF wf(2), of p] p by auto
        ultimately show False using 3(3) by auto
      qed
      with p Some \<open>tree_path oo e = None\<close> show ?thesis by (simp add: step)
    qed
  next
    case (Some p)
    with 3 wf have "\<exists>q. p = the (nstr e) @ q \<and> map_option fst (tree_map e q) = Some x" by simp
    with Some show ?thesis by (auto simp: step)
  qed
qed

text \<open>The root: \<open>search(obj)\<close> returns the root's string, which is null, when the object stands there.\<close>

lemma path_root:
  assumes "tree_wf t" "nobj t \<noteq> Some x"
  shows "case tree_path (Some x) t of
      None \<Rightarrow> \<forall>k. tree_search k t \<noteq> Some x
    | Some p \<Rightarrow> tree_search p t = Some x"
proof -
  obtain ob pf ts where t: "t = Tree None ob pf ts" "kids_wf ts" "ob \<noteq> Some x"
    using assms by (cases t) (auto simp: tree_wf_def)
  note path = path_correct(2) [OF t(2) refl, of x]
  have "tree_path (Some x) t = path_kids (Some x) ts" using t by (simp split: option.split)
  moreover have "tree_search k t = (if k = [] then ob else map_option fst (kids_map ts k))" for k
    using t search_correct(2) by auto
  moreover have "kids_map ts [] = None" using t kids_map_Nil_key by auto
  ultimately show ?thesis using path t(3) by (auto split: option.splits)
qed

section \<open>Properties\<close>

lemma new_wf: "tree_wf tree_new" "tree_map tree_new = Map.empty"
  by (auto simp: tree_new_def tree_wf_def tree_map_Tree fun_eq_iff)

lemma ins_wf:
  assumes "tree_wf t"
  shows "tree_wf (tree_ins ix (Some ob) pf t)" "tree_map (tree_ins ix (Some ob) pf t) = (tree_map t)(ix \<mapsto> (ob, pf))"
  using ins_correct(1) [of t "Some ob" ob ix pf] assms by (auto simp: tree_wf_def)

lemma search_map: "tree_wf t \<Longrightarrow> tree_search k t = map_option fst (tree_map t k)"
  by (simp add: tree_wf_def search_correct)

lemma count_map: "tree_wf t \<Longrightarrow> tree_count 0 t = card (dom (tree_map t))"
  by (simp add: tree_wf_def count_correct)

lemma dom_finite [simp]: "finite (dom (tree_map t))"
  by (simp add: tree_map_def finite_dom_map_of)

lemma del_wf:
  assumes "tree_wf t" "tree_del key t = (r, t')"
  shows "tree_wf t'" "tree_map t' = (tree_map t)(key := None)" "r = map_option fst (tree_map t key)"
  using del_correct(1) [of t key] assms by (auto simp: tree_wf_def)

text \<open>C33: Insertion into a well-formed tree, on every branch (new child, descent, splitting a node at
  the end of the key, forking a node inside it): the tree stays well-formed, the key now finds the
  object, every other key finds what it found, and the count grows exactly when the key was new.\<close>

theorem tree_ins_correct:
  assumes "tree_wf t"
  shows "tree_wf (tree_ins ix (Some ob) pf t)
    \<and> tree_search k (tree_ins ix (Some ob) pf t) = (if k = ix then Some ob else tree_search k t)
    \<and> tree_count 0 (tree_ins ix (Some ob) pf t) = tree_count 0 t + (if tree_search ix t = None then 1 else 0)"
  using assms ins_wf [OF assms, of ix ob pf]
  by (auto simp: search_map count_map card_insert_if insert_absorb domI)

theorem tree_ins_correct_witness:
  "tree_search ''abd'' (tree_ins ''abd'' (Some (2 :: nat)) True (tree_ins ''abc'' (Some 1) False tree_new)) = Some 2
   \<and> tree_search ''abc'' (tree_ins ''abd'' (Some (2 :: nat)) True (tree_ins ''abc'' (Some 1) False tree_new)) = Some 1
   \<and> tree_count 0 (tree_ins ''abd'' (Some (2 :: nat)) True (tree_ins ''abc'' (Some 1) False tree_new)) = 2"
proof -
  have wf: "tree_wf (tree_ins ''abc'' (Some (1 :: nat)) False tree_new)" by (rule ins_wf [OF new_wf(1)])
  have "tree_search ''abc'' (tree_ins ''abc'' (Some (1 :: nat)) False tree_new) = Some 1"
    "tree_search ''abd'' (tree_ins ''abc'' (Some (1 :: nat)) False tree_new) = None"
    "tree_count 0 (tree_ins ''abc'' (Some (1 :: nat)) False tree_new) = 1"
    by (simp_all add: tree_new_def tree_node_def tree_match_def)
  with tree_ins_correct [OF wf, of "''abd''" 2 True "''abd''"] tree_ins_correct [OF wf, of "''abd''" 2 True "''abc''"]
  show ?thesis by simp
qed

text \<open>C34: Deletion answers the object that stood under the key and removes exactly that key, merging or
  unlinking nodes so that the tree stays well-formed; the count drops exactly when the key was
  present.\<close>

theorem tree_del_correct:
  assumes "tree_wf t" "tree_del key t = (r, t')"
  shows "tree_wf t' \<and> r = tree_search key t
    \<and> tree_search k t' = (if k = key then None else tree_search k t)
    \<and> tree_count 0 t' = tree_count 0 t - (if r = None then 0 else 1)"
  using assms(1) del_wf [OF assms] by (auto simp: search_map count_map card_Diff_singleton_if split: option.splits)

theorem tree_del_correct_witness:
  "tree_search ''abc'' (snd (tree_del ''abd'' (tree_ins ''abd'' (Some (2 :: nat)) True (tree_ins ''abc'' (Some 1) False tree_new))))
     = Some 1
   \<and> tree_del ''abd'' (tree_ins ''abd'' (Some (2 :: nat)) True (tree_ins ''abc'' (Some 1) False tree_new))
     = (Some 2, tree_ins ''abc'' (Some 1) False tree_new)"
proof -
  let ?t = "tree_ins ''abd'' (Some (2 :: nat)) True (tree_ins ''abc'' (Some 1) False tree_new)"
  have wf: "tree_wf ?t" by (intro ins_wf new_wf(1))
  have d: "tree_del ''abd'' ?t = (Some 2, tree_ins ''abc'' (Some 1) False tree_new)"
    by (simp add: tree_new_def tree_node_def tree_reset_def tree_match_def tidy_def)
  from tree_del_correct [OF wf d, of "''abc''"] d show ?thesis
    by (simp add: tree_new_def tree_node_def tree_reset_def tree_match_def)
qed

text \<open>The search with a match length answers the object of the longest prefix of the key that may
  answer for it (the whole key, or a prefix whose object was inserted with \<open>partial_flag\<close>), and
  the length of that prefix; with no such prefix it answers null and 0.\<close>

theorem search_len_longest:
  assumes "tree_wf t"
  shows "case search_len key t of
      (None, n) \<Rightarrow> n = 0 \<and> (\<forall>j. \<not> hits (tree_map t) key j)
    | (Some x, n) \<Rightarrow> hits (tree_map t) key n \<and> map_option fst (tree_map t (take n key)) = Some x
        \<and> (\<forall>j > n. \<not> hits (tree_map t) key j)"
proof -
  have "best (tree_map t) key 0 (None, None) (longest 0 key None None t)"
    using assms longest_correct(1) [of t key 0 None None] by (simp add: tree_wf_def)
  then show ?thesis by (auto simp: best_def search_len_def)
qed

theorem search_len_longest_witness:
  "search_len ''abcd'' (tree_ins ''ab'' (Some (1 :: nat)) True (tree_ins ''abcx'' (Some 2) True tree_new)) = (Some 1, 2)
   \<and> hits (tree_map (tree_ins ''ab'' (Some (1 :: nat)) True (tree_ins ''abcx'' (Some 2) True tree_new))) ''abcd'' 2
   \<and> \<not> hits (tree_map (tree_ins ''ab'' (Some (1 :: nat)) True (tree_ins ''abcx'' (Some 2) True tree_new))) ''abcd'' 3"
proof -
  let ?t = "tree_ins ''ab'' (Some (1 :: nat)) True (tree_ins ''abcx'' (Some 2) True tree_new)"
  have wf: "tree_wf ?t" by (intro ins_wf new_wf(1))
  have s: "search_len ''abcd'' ?t = (Some 1, 2)"
    by (simp add: search_len_def tree_new_def tree_node_def tree_reset_def tree_match_def)
  from search_len_longest [OF wf, of "''abcd''"] show ?thesis unfolding s by simp
qed

text \<open>Searching and deleting by object: the object found below the root is answered with a key it
  stands under, and that key is deleted; an object that is nowhere is answered by null.  An object
  under the empty key, in the root, is not found by this search and never deleted by it, although it
  is in the tree.\<close>

theorem tree_by_object:
  assumes "tree_wf t"
  shows "(nobj t \<noteq> Some x \<longrightarrow>
      (case tree_path (Some x) t of
         None \<Rightarrow> x \<notin> fst ` ran (tree_map t) \<and> tree_del_obj (Some x) t = (None, t)
       | Some p \<Rightarrow> tree_search p t = Some x \<and> fst (tree_del_obj (Some x) t) = Some x
           \<and> tree_map (snd (tree_del_obj (Some x) t)) = (tree_map t)(p := None)))
    \<and> (nobj t = Some x \<longrightarrow>
         tree_path (Some x) t = None \<and> tree_search [] t = Some x \<and> tree_del_obj (Some x) t = (None, t))"
proof (intro conjI impI)
  assume n: "nobj t \<noteq> Some x"
  show "case tree_path (Some x) t of
         None \<Rightarrow> x \<notin> fst ` ran (tree_map t) \<and> tree_del_obj (Some x) t = (None, t)
       | Some p \<Rightarrow> tree_search p t = Some x \<and> fst (tree_del_obj (Some x) t) = Some x
           \<and> tree_map (snd (tree_del_obj (Some x) t)) = (tree_map t)(p := None)"
  proof (cases "tree_path (Some x) t")
    case None
    with path_root [OF assms n] show ?thesis
      using assms by (auto simp: ran_def search_map tree_del_obj_def)
  next
    case (Some p)
    obtain r t' where d: "tree_del p t = (r, t')" by fastforce
    with Some path_root [OF assms n] del_wf [OF assms d] show ?thesis
      using assms by (simp add: tree_del_obj_def search_map)
  qed
qed (use assms in \<open>cases t; simp add: tree_wf_def tree_del_obj_def\<close>)+

theorem tree_by_object_witness:
  "tree_path (Some 2) (tree_ins ''ab'' (Some (2 :: nat)) True tree_new) = Some ''ab''
   \<and> tree_search ''ab'' (tree_ins ''ab'' (Some (2 :: nat)) True tree_new) = Some 2"
proof -
  let ?t = "tree_ins ''ab'' (Some (2 :: nat)) True tree_new"
  have "tree_wf ?t" by (intro ins_wf new_wf(1))
  from tree_by_object [OF this, of 2] show ?thesis
    by (simp add: tree_new_def tree_node_def)
qed

end
