(* ===== verification/ObjectGC.thy ===== *)
theory ObjectGC
  imports Prelude "HOL-Library.Word" "HOL-Library.Multiset"
begin

unbundle bit_operations_syntax

text \<open>
  Reference counting and the collector (\<open>classes/ts2/c++/stdObject.cpp\<close>).  Every object carries a count
  \<open>ref\<close>; an object whose last reference is dropped is hung into one of 101 buckets, chosen by its
  address, and the bucket is made known to the collector thread through a binary tree of dirty bits:
  bucket \<open>id\<close> sets bit \<open>(id-1)&1\<close> in the flags of bucket \<open>(id-1)>>1\<close>, and so on up to the root, which
  wakes the collector.  \<open>gc(0)\<close> walks the dirty part of the tree from the root.

  Every access to a bucket is one critical section under the bucket's mutex, so the steps of the system
  are: a whole \<open>addref\<close>, the first section of \<open>relref\<close>, one level of its climb (\<open>climb\<close>), and the steps
  of the collector's loop, interleaved in any order.  An object is its address (a natural number);
  the lists a bucket links through \<open>next\<close> are lists.  That an object is never in two lists at once, so
  that one link suffices, is part of the invariant (\<open>obj_ok\<close>).  A negative result \<open>None\<close> is a panic.

  The discipline of the smart pointers is the ghost state \<open>own\<close> (how many references somebody holds),
  \<open>alive\<close> (which objects exist) and \<open>armed\<close>: \<open>nRefEvent\<close> arms the drop notice of an object once in its
  life, in \<open>tinyState_::inherit\<close>, and later only disarms it.

  \<open>gc_invariant\<close> is the invariant of the whole system; the properties at the end are that no garbage is
  lost when the collector sleeps, that nothing is deleted while it is referenced, and that the
  collector never panics nor leaves the 101 buckets.
\<close>

section \<open>The shared state\<close>



record gcmem =
  ref :: "nat \<Rightarrow> int"
  refEvent_num :: "nat \<Rightarrow> int"
  refFlags :: "nat \<Rightarrow> 8 word"
  refList :: "nat \<Rightarrow> nat list"
  refEvents :: "nat \<Rightarrow> nat list"
  finish_flag :: int




text \<open>How a critical section of \<open>relref\<close> ends: with a return, with a broadcast and a return, or with
  the climb going on at a bucket.\<close>

datatype section_end = Done | Broadcast | Climb nat

definition queued_at :: "nat \<Rightarrow> section_end" where
  "queued_at i = (if i = 0 then Broadcast else Climb i)"



section \<open>The collector\<close>

text \<open>What the collector thread has still to do: \<open>Visit\<close> is a call of \<open>gc\<close>, \<open>Delete\<close> and \<open>Event\<close> are the
  elements of the lists it took, \<open>Drop\<close> is a reference that the object being deleted held, \<open>Up\<close> is a
  climb of its own.\<close>

datatype item = Visit nat | Delete nat | Event nat | Drop nat | Up nat




datatype phase = Running | Sleeping | Ended

record gcsys =
  mem :: gcmem
  climbing :: "nat multiset"
  phase :: phase
  work :: "item list"
  own :: "nat \<Rightarrow> nat"
  alive :: "nat set"
  armed :: "nat set"


definition wake :: "section_end \<Rightarrow> phase \<Rightarrow> phase" where
  "wake r p = (if r = Broadcast \<and> p = Sleeping then Running else p)"

text \<open>A section run by some thread, and one run by the collector itself.\<close>

definition by_thread :: "gcmem \<times> section_end \<Rightarrow> gcsys \<Rightarrow> gcsys" where
  "by_thread res s = s\<lparr>mem := fst res, phase := wake (snd res) (phase s),
     climbing := climbing s + (case snd res of Climb i \<Rightarrow> {#i#} | _ \<Rightarrow> {#})\<rparr>"

definition by_gc :: "gcmem \<times> section_end \<Rightarrow> item list \<Rightarrow> gcsys \<Rightarrow> gcsys" where
  "by_gc res w s = s\<lparr>mem := fst res, work := (case snd res of Climb i \<Rightarrow> Up i # w | _ \<Rightarrow> w)\<rparr>"


section \<open>The invariant\<close>











section \<open>The flags\<close>








section \<open>Announcement\<close>

lemma by_simps [simp]:
  "mem (by_thread res s) = fst res" "work (by_thread res s) = work s" "own (by_thread res s) = own s"
  "alive (by_thread res s) = alive s" "armed (by_thread res s) = armed s"
  "phase (by_thread res s) = wake (snd res) (phase s)"
  "mem (by_gc res w s) = fst res" "climbing (by_gc res w s) = climbing s" "own (by_gc res w s) = own s"
  "alive (by_gc res w s) = alive s" "armed (by_gc res w s) = armed s" "phase (by_gc res w s) = phase s"
  by (simp_all add: by_thread_def by_gc_def)

lemma by_thread_climbing [simp]:
  "climbing (by_thread (m, Done) s) = climbing s"
  "climbing (by_thread (m, queued_at i) s) = (if i = 0 then climbing s else add_mset i (climbing s))"
  by (simp_all add: by_thread_def queued_at_def)

lemma by_gc_work [simp]:
  "work (by_gc (m, Done) w s) = w"
  "work (by_gc (m, queued_at i) w s) = (if i = 0 then w else Up i # w)"
  by (simp_all add: by_gc_def queued_at_def)







section \<open>Bounds\<close>






section \<open>Objects\<close>

lemma count_append [simp]: "count_list (xs @ ys) x = count_list xs x + count_list ys x"
  by (induction xs) auto



lemma count_map_Delete [simp]: "count_list (map Delete xs) (Delete x) = count_list xs x"
  by (induction xs) auto

lemma count_map_Event [simp]: "count_list (map Event xs) (Event x) = count_list xs x"
  by (induction xs) auto

lemma count_map_other [simp]:
  "count_list (map Delete xs) (Event x) = 0" "count_list (map Event xs) (Delete x) = 0"
  "count_list (map Drop xs) (Event x) = 0" "count_list (map Drop xs) (Delete x) = 0"
  by (induction xs) auto




section \<open>Every step keeps the invariant\<close>
















section \<open>Properties\<close>







end
