(* ===== verification/ThreadPool.thy ===== *)
theory ThreadPool
  imports Prelude "HOL-Library.Multiset"
begin

text \<open>
  The pool of worker threads that runs the \<open>TS_THREAD\<close> states (\<open>classes/ts2/c++/tsThread.cpp\<close>), with
  \<open>stdThreadInfo\<close>, the record of one job, and \<open>sTimer\<close>.

  Every access to the pool is a critical section under its mutex \<open>mtx\<close>; a wait on the condition
  variable gives the mutex up.  A step of the system (\<open>pool_step\<close>) is one section: a caller's (\<open>ins\<close>,
  \<open>limitThreadsNumber\<close>, \dots), one of the pool's own state machine, or what a worker does from the
  moment it holds the mutex until it waits, runs a job or leaves.  The workers are a multiset of what
  each is doing (\<open>worker\<close>); a waiting worker is woken by a signal, wakes by itself when the time is up
  or without any cause.  The queues \<open>ready\<close> and \<open>run\<close> are the lists their refinement in
  \<open>StdQueueRefine\<close> gives, with job numbers for the \<open>stdThreadInfo\<close> objects.

  \<open>pool_inv\<close> is the invariant: the counters count the workers, every running job has exactly one
  worker, no wake-up is lost, and the keep-alive held on the reactor (\<open>refio\<close>) is held exactly while
  there is work.  Printing and the teardown probe are left out; the hooks of \<open>ins_setup\<close> are the list of
  hooks to call.
\<close>

section \<open>One job: \<open>stdThreadInfo\<close>\<close>

datatype kf = KF_IDLE | KF_THR | KF_THR_REQUEST | KF_THR_CATCH | KF_THR_CATCH_REQUEST

text \<open>\<open>id\<close> is the thread while \<open>id_enabled\<close>; \<open>pol\<close> tells whether a \<open>co_tsThreadKill\<close> is attached.\<close>

record thread_info =
  target :: nat
  createTime :: int
  runStartTime :: int
  kstate :: kf
  thread_id :: "nat option"
  pol :: bool
  signal_flag :: bool

definition new_info :: "nat \<Rightarrow> int \<Rightarrow> thread_info" where
  "new_info t now = \<lparr>target = t, createTime = now, runStartTime = 0, kstate = KF_IDLE, thread_id = None,
     pol = False, signal_flag = False\<rparr>"

definition setId :: "nat \<Rightarrow> thread_info \<Rightarrow> thread_info" where
  "setId self i = i\<lparr>thread_id := Some self\<rparr>"

definition resetId :: "thread_info \<Rightarrow> thread_info" where
  "resetId i = i\<lparr>thread_id := None\<rparr>"

definition start :: "thread_info \<Rightarrow> thread_info option" where
  "start i = (case kstate i of
     KF_IDLE \<Rightarrow> Some (i\<lparr>kstate := KF_THR\<rparr>)
   | KF_THR \<Rightarrow> Some i
   | _ \<Rightarrow> None)"

definition finish :: "thread_info \<Rightarrow> thread_info option" where
  "finish i = (case kstate i of
     KF_IDLE \<Rightarrow> Some i
   | KF_THR \<Rightarrow> Some (i\<lparr>kstate := KF_IDLE\<rparr>)
   | KF_THR_REQUEST \<Rightarrow> Some (i\<lparr>kstate := KF_IDLE\<rparr>)
   | _ \<Rightarrow> None)"

definition kill_begin :: "thread_info \<Rightarrow> (kf \<times> thread_info) option" where
  "kill_begin i = (case kstate i of
     KF_IDLE \<Rightarrow> Some (KF_IDLE, i\<lparr>kstate := KF_THR_CATCH\<rparr>)
   | KF_THR \<Rightarrow> Some (KF_THR, i\<lparr>kstate := KF_THR_CATCH\<rparr>)
   | KF_THR_REQUEST \<Rightarrow> Some (KF_THR_REQUEST, i\<lparr>kstate := KF_THR_CATCH_REQUEST\<rparr>)
   | _ \<Rightarrow> None)"

text \<open>\<open>kill_finish\<close>, and whether the attached \<open>co_tsThreadKill\<close> is destroyed.\<close>

definition kill_finish :: "thread_info \<Rightarrow> (bool \<times> thread_info) option" where
  "kill_finish i = (case kstate i of
     KF_THR_CATCH \<Rightarrow> Some (pol i, i\<lparr>kstate := KF_THR, pol := False\<rparr>)
   | KF_THR_CATCH_REQUEST \<Rightarrow> Some (pol i, i\<lparr>kstate := KF_THR_REQUEST, pol := False\<rparr>)
   | _ \<Rightarrow> None)"

text \<open>\<open>kill\<close> by the thread \<open>self\<close>: the thread that gets the signal, and the new state.\<close>

definition kill :: "nat \<Rightarrow> thread_info \<Rightarrow> nat option \<times> thread_info" where
  "kill self i =
    (case thread_id i of Some t \<Rightarrow> if t \<noteq> self then Some t else None | None \<Rightarrow> None,
     case kstate i of
       KF_THR \<Rightarrow> i\<lparr>kstate := KF_THR_REQUEST\<rparr>
     | KF_THR_CATCH \<Rightarrow> i\<lparr>kstate := KF_THR_CATCH_REQUEST, pol := True\<rparr>
     | _ \<Rightarrow> i)"

text \<open>One look of \<open>wait\<close> at the flag (it sleeps while the answer is \<^term>\<open>False\<close>), and \<open>signal\<close> with whether
  it signals the condition.\<close>

definition wait_poll :: "thread_info \<Rightarrow> bool \<times> thread_info" where
  "wait_poll i = (signal_flag i, i\<lparr>signal_flag := False\<rparr>)"

definition signal_info :: "thread_info \<Rightarrow> bool \<times> thread_info" where
  "signal_info i = (if signal_flag i then (False, i) else (True, i\<lparr>signal_flag := True\<rparr>))"

section \<open>\<open>sTimer\<close>\<close>

record timer =
  expire :: int
  stop_flag :: bool

definition timer_start :: "int \<Rightarrow> int \<Rightarrow> timer \<Rightarrow> timer" where
  "timer_start now len t = t\<lparr>expire := now + (if len < 0 then 0 else len), stop_flag := False\<rparr>"

definition timer_stop :: "timer \<Rightarrow> timer" where
  "timer_stop t = t\<lparr>stop_flag := True\<rparr>"

definition is_expire :: "int \<Rightarrow> timer \<Rightarrow> bool" where
  "is_expire now t \<longleftrightarrow> \<not> stop_flag t \<and> expire t \<le> now"

section \<open>The pool\<close>

definition THREAD_UP_DULATION :: int where "THREAD_UP_DULATION = 10 * 1000"
definition THREAD_DOWN_DULATION :: int where "THREAD_DOWN_DULATION = 120 * 1000 * 1000"
definition THREAD_MAX_IDLE_THREADS :: int where "THREAD_MAX_IDLE_THREADS = 2"
definition MAX_INTEGER :: int where "MAX_INTEGER = 0x7fffffff"

record pool =
  targetRunThreads :: int
  limit_threads :: int
  currentIdleThreads :: int
  currentRunThreads :: int
  ready :: "nat list option"
  running :: "nat list option"
  setup_list :: "nat list option"
  thread_stop :: bool
  finish_flag :: bool
  refio :: bool
  fw_refio :: int
  info :: "nat \<Rightarrow> thread_info"
  next_job :: nat

text \<open>What a worker is doing: not yet at its first section, waiting for the condition, woken, timed out,
  running a job, or letting the mutex go after the last job.\<close>

datatype worker = Born | Waiting | Woken | Timedout | Runs nat | Emptied

type_synonym workers = "worker multiset"

definition pool_new :: pool where
  "pool_new = \<lparr>targetRunThreads = 0, limit_threads = MAX_INTEGER, currentIdleThreads = 0, currentRunThreads = 0,
     ready = None, running = None, setup_list = None, thread_stop = False, finish_flag = False, refio = False,
     fw_refio = 0, info = (\<lambda>_. new_info 0 0), next_job = 0\<rparr>"

text \<open>\<open>cond.signal()\<close> and \<open>cond.broadcast()\<close>.\<close>

definition cond_signal :: "workers \<Rightarrow> workers" where
  "cond_signal ws = (if Waiting \<in># ws then add_mset Woken (ws - {#Waiting#}) else ws)"

definition cond_broadcast :: "workers \<Rightarrow> workers" where
  "cond_broadcast ws = image_mset (\<lambda>w. if w = Waiting then Woken else w) ws"

text \<open>\<open>setRefio\<close>, \<open>resRefio\<close> with \<open>fwIO::addRefio\<close>, \<open>fwIO::delRefio\<close> (which clamps at 0).\<close>

definition setRefio :: "pool \<Rightarrow> pool" where
  "setRefio p = (if refio p then p else p\<lparr>refio := True, fw_refio := fw_refio p + 1\<rparr>)"

definition resRefio :: "pool \<Rightarrow> pool" where
  "resRefio p = (if \<not> refio p then p else p\<lparr>refio := False, fw_refio := max 0 (fw_refio p - 1)\<rparr>)"

definition ins_setup :: "nat \<Rightarrow> pool \<Rightarrow> pool" where
  "ins_setup h p = p\<lparr>setup_list := Some ((case setup_list p of None \<Rightarrow> [] | Some hs \<Rightarrow> hs) @ [h])\<rparr>"

definition del_setup :: "nat \<Rightarrow> pool \<Rightarrow> pool" where
  "del_setup h p = p\<lparr>setup_list := map_option (remove1 h) (setup_list p)\<rparr>"

text \<open>The hooks \<open>_do_setup\<close> and \<open>_do_cleanup\<close> call, in order.\<close>

definition hooks :: "pool \<Rightarrow> nat list" where
  "hooks p = (case setup_list p of None \<Rightarrow> [] | Some hs \<Rightarrow> hs)"

text \<open>\<open>ins\<close>: the result tells whether the job was taken.\<close>

definition pool_ins :: "nat \<Rightarrow> int \<Rightarrow> pool \<times> workers \<Rightarrow> bool \<times> pool \<times> workers" where
  "pool_ins t now s =
    (let (p, ws) = s in
     case ready p of
       None \<Rightarrow> (False, p, ws)
     | Some js \<Rightarrow>
         (True, setRefio (p\<lparr>ready := Some (js @ [next_job p]), info := (info p)(next_job p := new_info t now),
            next_job := Suc (next_job p)\<rparr>), cond_signal ws))"

definition create :: "int \<Rightarrow> pool \<times> workers \<Rightarrow> pool \<times> workers" where
  "create n s = ((fst s)\<lparr>currentRunThreads := currentRunThreads (fst s) + n\<rparr>, snd s + replicate_mset (nat n) Born)"

definition runThreads_nolock :: "int \<Rightarrow> pool \<times> workers \<Rightarrow> pool \<times> workers" where
  "runThreads_nolock n s =
    (let num = (if n > limit_threads (fst s) then limit_threads (fst s) else n);
         s1 = ((fst s)\<lparr>targetRunThreads := num\<rparr>, snd s);
         s2 = (if currentRunThreads (fst s1) < targetRunThreads (fst s1)
               then create (targetRunThreads (fst s1) - currentRunThreads (fst s1)) s1 else s1)
     in if currentRunThreads (fst s2) > targetRunThreads (fst s2) then (fst s2, cond_broadcast (snd s2)) else s2)"

definition limitThreadsNumber :: "int \<Rightarrow> pool \<times> workers \<Rightarrow> pool \<times> workers" where
  "limitThreadsNumber lim s =
    (let lim = (if lim < THREAD_MAX_IDLE_THREADS then THREAD_MAX_IDLE_THREADS else lim)
     in runThreads_nolock (targetRunThreads (fst s)) ((fst s)\<lparr>limit_threads := lim\<rparr>, snd s))"

text \<open>\<open>readyQueueOldest\<close>: the lambda answers 1, so \<open>check\<close> stops at the head.\<close>

definition readyQueueOldest :: "pool \<Rightarrow> int" where
  "readyQueueOldest p = (case the (ready p) of
     [] \<Rightarrow> max_integer64
   | j # js \<Rightarrow> if createTime (info p j) < max_integer64 then createTime (info p j) else max_integer64)"

definition readysAndRuns :: "pool \<Rightarrow> nat" where
  "readysAndRuns p = length (the (ready p)) + length (the (running p))"

section \<open>The body of a worker\<close>

text \<open>\<open>__tsThread_body\<close> from the head of its loop, holding the mutex, until it lets it go: it leaves, starts
  to wait, or takes a job and runs it (\<open>take_job\<close>).\<close>

definition leave_pool :: "pool \<times> workers \<Rightarrow> pool \<times> workers" where
  "leave_pool s = ((fst s)\<lparr>currentRunThreads := currentRunThreads (fst s) - 1\<rparr>, snd s)"

definition take_job :: "nat \<Rightarrow> int \<Rightarrow> nat \<Rightarrow> nat list \<Rightarrow> pool \<times> workers \<Rightarrow> pool \<times> workers" where
  "take_job self now j js s =
    ((fst s)\<lparr>ready := Some js, running := map_option (\<lambda>r. r @ [j]) (running (fst s)),
       info := (info (fst s))(j := setId self ((info (fst s) j)\<lparr>runStartTime := now\<rparr>))\<rparr>,
     add_mset (Runs j) (snd s))"

definition body_loop :: "nat \<Rightarrow> int \<Rightarrow> pool \<times> workers \<Rightarrow> pool \<times> workers" where
  "body_loop self now s =
    (let (p, ws) = s in
     if targetRunThreads p < currentRunThreads p then leave_pool s
     else case the (ready p) of
       j # js \<Rightarrow> take_job self now j js s
     | [] \<Rightarrow> if thread_stop p then leave_pool s
             else (p\<lparr>currentIdleThreads := currentIdleThreads p + 1\<rparr>, add_mset Waiting ws))"

text \<open>After \<open>timedwait\<close>: woken (\<open>ret == 0\<close>), or timed out.\<close>

definition body_woken :: "nat \<Rightarrow> int \<Rightarrow> pool \<times> workers \<Rightarrow> pool \<times> workers" where
  "body_woken self now s =
    body_loop self now ((fst s)\<lparr>currentIdleThreads := currentIdleThreads (fst s) - 1\<rparr>, snd s - {#Woken#})"

definition body_timedout :: "nat \<Rightarrow> int \<Rightarrow> pool \<times> workers \<Rightarrow> pool \<times> workers" where
  "body_timedout self now s =
    (let s1 = ((fst s)\<lparr>currentIdleThreads := currentIdleThreads (fst s) - 1\<rparr>, snd s - {#Timedout#})
     in case the (ready (fst s1)) of
       [] \<Rightarrow> leave_pool s1
     | j # js \<Rightarrow> take_job self now j js s1)"

text \<open>After the job: it leaves \<open>run\<close>, and the keep-alive is returned when nothing is left to do.\<close>

definition body_done :: "nat \<Rightarrow> nat \<Rightarrow> int \<Rightarrow> pool \<times> workers \<Rightarrow> pool \<times> workers" where
  "body_done j self now s =
    (let p = (fst s)\<lparr>running := map_option (remove1 j) (running (fst s)), info := (info (fst s))(j := resetId (info (fst s) j))\<rparr>;
         ws = snd s - {#Runs j#}
     in if the (running p) = [] \<and> the (ready p) = [] then (resRefio p, add_mset Emptied ws)
        else body_loop self now (p, ws))"

section \<open>The state machine of the pool\<close>

datatype pstate = INI_START | ACT_START | ACT_TINYSTATE_START | ACT_WAIT_2 | ACT_DOWN | ACT_DOWN_WAIT
  | FIN_START | FIN_STABLE_WAIT | FIN_DRAINED | FIN_WAIT | FIN_TINYSTATE_START

record psys =
  pool :: pool
  workers :: workers
  pstate :: pstate
  ptimer :: timer

definition c_fin :: "pstate \<Rightarrow> bool" where
  "c_fin st \<longleftrightarrow> st \<in> {FIN_START, FIN_STABLE_WAIT, FIN_DRAINED, FIN_WAIT, FIN_TINYSTATE_START}"

text \<open>\<open>FIN_WAIT\<close> without workers: the keep-alive is returned and the queues are dropped; the jobs in them
  are the answer of \<open>doomed\<close>.\<close>

definition fold_pool :: "pool \<Rightarrow> pool" where
  "fold_pool p = (resRefio p)\<lparr>ready := None, running := None, setup_list := None\<rparr>"

definition doomed :: "pool \<Rightarrow> nat list" where
  "doomed p = map (\<lambda>j. target (info p j)) ((case ready p of None \<Rightarrow> [] | Some js \<Rightarrow> js) @ (case running p of None \<Rightarrow> [] | Some js \<Rightarrow> js))"

definition set_threads :: "int \<Rightarrow> psys \<Rightarrow> psys" where
  "set_threads n s = (let r = runThreads_nolock n (pool s, workers s) in s\<lparr>pool := fst r, workers := snd r\<rparr>)"

text \<open>One state function: \<open>destroyed\<close> is \<open>is_destroyed()\<close>, \<open>now\<close> is \<open>stdInterval::now()\<close>.  \<open>ACT_START\<close>
  stands for the states of the base class up to \<open>ACT_TINYSTATE_START\<close>.\<close>

fun pool_state :: "bool \<Rightarrow> int \<Rightarrow> psys \<Rightarrow> psys" where
  "pool_state destroyed now s =
    (let p = pool s; go = (\<lambda>st s. s\<lparr>pstate := st\<rparr>);
         start = (\<lambda>len s. s\<lparr>ptimer := timer_start now len (ptimer s)\<rparr>) in
     case pstate s of
       INI_START \<Rightarrow> go ACT_START (set_threads THREAD_MAX_IDLE_THREADS (s\<lparr>pool := p\<lparr>ready := Some [], running := Some []\<rparr>\<rparr>))
     | ACT_START \<Rightarrow> go (if destroyed then FIN_START else ACT_TINYSTATE_START) s
     | ACT_TINYSTATE_START \<Rightarrow>
         if currentIdleThreads p > THREAD_MAX_IDLE_THREADS then go ACT_DOWN s
         else if readyQueueOldest p = max_integer64 then go ACT_START s
         else go ACT_WAIT_2 (start THREAD_UP_DULATION
           (if now - readyQueueOldest p > THREAD_UP_DULATION then set_threads (targetRunThreads p + 1) s else s))
     | ACT_WAIT_2 \<Rightarrow> if destroyed then go FIN_START s else if is_expire now (ptimer s) then go ACT_START s else s
     | ACT_DOWN \<Rightarrow> go ACT_DOWN_WAIT (start THREAD_DOWN_DULATION s)
     | ACT_DOWN_WAIT \<Rightarrow>
         if destroyed then go FIN_START s
         else if currentIdleThreads p = 0 then go ACT_START s
         else if readysAndRuns p = 0 then go ACT_START (s\<lparr>ptimer := timer_stop (ptimer s)\<rparr>)
         else if is_expire now (ptimer s) then
           (if currentIdleThreads p > THREAD_MAX_IDLE_THREADS then go ACT_DOWN (set_threads (targetRunThreads p - 1) s)
            else go ACT_START s)
         else s
     | FIN_START \<Rightarrow> go FIN_STABLE_WAIT s
     | FIN_STABLE_WAIT \<Rightarrow> if finish_flag p then go FIN_DRAINED s else s
     | FIN_DRAINED \<Rightarrow> go FIN_WAIT (start (1000 * 1000) (set_threads 0 s))
     | FIN_WAIT \<Rightarrow>
         if currentRunThreads p \<noteq> 0 then (if is_expire now (ptimer s) then start (1000 * 1000) s else s)
         else go FIN_TINYSTATE_START (s\<lparr>pool := fold_pool p, ptimer := timer_stop (ptimer s)\<rparr>)
     | FIN_TINYSTATE_START \<Rightarrow> s)"

text \<open>\<open>tsThread::finish\<close>, the teardown gate; \<open>gc_stable\<close> is \<open>stdObject::is_stable()\<close>, \<open>zom\<close> that the pool object
  is in a \<open>ZOM\<close> state.  The function takes no lock.\<close>

definition pool_finish :: "bool \<Rightarrow> bool \<Rightarrow> psys \<Rightarrow> bool \<times> psys" where
  "pool_finish zom gc_stable s =
    (if zom then (True, s)
     else if \<not> c_fin (pstate s) then (False, s)
     else if finish_flag (pool s) then (True, s)
     else if length (the (ready (pool s))) = 0 \<and> length (the (running (pool s))) = 0 \<and> gc_stable
       then (True, s\<lparr>pool := (pool s)\<lparr>finish_flag := True\<rparr>\<rparr>)
     else (False, s))"

section \<open>All interleavings\<close>

definition on_pool :: "(pool \<times> workers \<Rightarrow> pool \<times> workers) \<Rightarrow> psys \<Rightarrow> psys" where
  "on_pool f s = (let r = f (pool s, workers s) in s\<lparr>pool := fst r, workers := snd r\<rparr>)"

definition pool_init :: psys where
  "pool_init = \<lparr>pool = pool_new, workers = {#}, pstate = INI_START, ptimer = \<lparr>expire = 0, stop_flag = False\<rparr>\<rparr>"

text \<open>The latch of \<open>finish\<close> reads its counts without the mutex, so it may be set on values that no longer
  hold: step \<open>latch\<close> asks only for the state.\<close>

inductive pool_step :: "psys \<Rightarrow> psys \<Rightarrow> bool" where
  ins: "pool_step s (on_pool (\<lambda>x. snd (pool_ins t now x)) s)"
| limit: "pool_step s (on_pool (limitThreadsNumber n) s)"
| hook: "f = ins_setup h \<or> f = del_setup h \<Longrightarrow> pool_step s (s\<lparr>pool := f (pool s)\<rparr>)"
| machine: "pool_step s (pool_state destroyed now s)"
| latch: "c_fin (pstate s) \<Longrightarrow> pool_step s (s\<lparr>pool := (pool s)\<lparr>finish_flag := True\<rparr>\<rparr>)"
| born: "Born \<in># workers s \<Longrightarrow> pool_step s (on_pool (\<lambda>x. body_loop self now (fst x, snd x - {#Born#})) s)"
| wake: "Waiting \<in># workers s \<Longrightarrow> r \<in> {Woken, Timedout} \<Longrightarrow>
    pool_step s (s\<lparr>workers := add_mset r (workers s - {#Waiting#})\<rparr>)"
| woken: "Woken \<in># workers s \<Longrightarrow> pool_step s (on_pool (body_woken self now) s)"
| timedout: "Timedout \<in># workers s \<Longrightarrow> pool_step s (on_pool (body_timedout self now) s)"
| job_done: "Runs j \<in># workers s \<Longrightarrow> pool_step s (on_pool (body_done j self now) s)"
| emptied: "Emptied \<in># workers s \<Longrightarrow> pool_step s (on_pool (\<lambda>x. body_loop self now (fst x, snd x - {#Emptied#})) s)"

section \<open>The invariant\<close>

definition idle_workers :: "workers \<Rightarrow> nat" where
  "idle_workers ws = count ws Waiting + count ws Woken + count ws Timedout"

text \<open>The pool with its queues, while \<open>held\<close> workers (0 or 1) hold the mutex: they are counted in
  \<open>currentRunThreads\<close> but are in no phase.\<close>

definition pool_ok :: "nat \<Rightarrow> pool \<times> workers \<Rightarrow> bool" where
  "pool_ok held x \<longleftrightarrow>
     currentRunThreads (fst x) = int (size (snd x)) + int held
     \<and> currentIdleThreads (fst x) = int (idle_workers (snd x))
     \<and> (\<exists>rd rn. ready (fst x) = Some rd \<and> running (fst x) = Some rn
          \<and> (\<forall>j. count (snd x) (Runs j) = count_list rn j)
          \<and> distinct (rd @ rn) \<and> (\<forall>j \<in> set (rd @ rn). j < next_job (fst x))
          \<and> (Waiting \<in># snd x \<longrightarrow> length rd \<le> count (snd x) Woken + held)
          \<and> (refio (fst x) \<longleftrightarrow> rd \<noteq> [] \<or> rn \<noteq> []))
     \<and> (targetRunThreads (fst x) < currentRunThreads (fst x) \<longrightarrow> Waiting \<notin># snd x)
     \<and> fw_refio (fst x) = of_bool (refio (fst x))"

definition folded :: "pool \<times> workers \<Rightarrow> bool" where
  "folded x \<longleftrightarrow> ready (fst x) = None \<and> running (fst x) = None \<and> snd x = {#} \<and> currentRunThreads (fst x) = 0
     \<and> currentIdleThreads (fst x) = 0 \<and> \<not> refio (fst x) \<and> fw_refio (fst x) = 0 \<and> targetRunThreads (fst x) \<le> 0"

definition pool_inv :: "psys \<Rightarrow> bool" where
  "pool_inv s \<longleftrightarrow>
     (if pstate s \<in> {INI_START, FIN_TINYSTATE_START} then folded (pool s, workers s) else pool_ok 0 (pool s, workers s))
     \<and> targetRunThreads (pool s) \<le> limit_threads (pool s) \<and> 2 \<le> limit_threads (pool s)
     \<and> (pstate s = FIN_WAIT \<longrightarrow> targetRunThreads (pool s) \<le> 0)"

lemma pool_okI:
  assumes "ready p = Some rd" "running p = Some rn" "currentRunThreads p = int (size ws) + int held"
    "currentIdleThreads p = int (idle_workers ws)" "\<And>j. count ws (Runs j) = count_list rn j" "distinct (rd @ rn)"
    "\<And>j. j \<in> set rd \<union> set rn \<Longrightarrow> j < next_job p" "Waiting \<in># ws \<Longrightarrow> length rd \<le> count ws Woken + held"
    "refio p \<longleftrightarrow> rd \<noteq> [] \<or> rn \<noteq> []" "targetRunThreads p < currentRunThreads p \<Longrightarrow> Waiting \<notin># ws"
    "fw_refio p = of_bool (refio p)"
  shows "pool_ok held (p, ws)"
  using assms by (auto simp: pool_ok_def)

lemma pool_okE:
  assumes "pool_ok held (p, ws)"
  obtains rd rn where "ready p = Some rd" "running p = Some rn" "currentRunThreads p = int (size ws) + int held"
    "currentIdleThreads p = int (idle_workers ws)" "\<forall>j. count ws (Runs j) = count_list rn j" "distinct (rd @ rn)"
    "\<forall>j \<in> set rd \<union> set rn. j < next_job p" "Waiting \<in># ws \<longrightarrow> length rd \<le> count ws Woken + held"
    "refio p \<longleftrightarrow> rd \<noteq> [] \<or> rn \<noteq> []" "targetRunThreads p < currentRunThreads p \<longrightarrow> Waiting \<notin># ws"
    "fw_refio p = of_bool (refio p)"
  using assms by (auto simp: pool_ok_def)

lemma idle_simps [simp]:
  "idle_workers {#} = 0"
  "idle_workers (add_mset w ws) = idle_workers ws + of_bool (w \<in> {Waiting, Woken, Timedout})"
  by (auto simp: idle_workers_def)

lemma idle_replicate [simp]: "idle_workers (ws + replicate_mset n Born) = idle_workers ws"
  by (simp add: idle_workers_def)

section \<open>Sections of a worker\<close>

lemma resRefio_simps [simp]:
  "ready (resRefio p) = ready p" "running (resRefio p) = running p" "currentRunThreads (resRefio p) = currentRunThreads p"
  "currentIdleThreads (resRefio p) = currentIdleThreads p" "next_job (resRefio p) = next_job p"
  "targetRunThreads (resRefio p) = targetRunThreads p" "limit_threads (resRefio p) = limit_threads p"
  "\<not> refio (resRefio p)" "fw_refio p = of_bool (refio p) \<Longrightarrow> fw_refio (resRefio p) = 0"
  by (auto simp: resRefio_def)

lemma setRefio_simps [simp]:
  "ready (setRefio p) = ready p" "running (setRefio p) = running p" "currentRunThreads (setRefio p) = currentRunThreads p"
  "currentIdleThreads (setRefio p) = currentIdleThreads p" "next_job (setRefio p) = next_job p"
  "targetRunThreads (setRefio p) = targetRunThreads p" "limit_threads (setRefio p) = limit_threads p"
  "refio (setRefio p)" "fw_refio p = of_bool (refio p) \<Longrightarrow> fw_refio (setRefio p) = 1"
  by (auto simp: setRefio_def)

lemma count_list_append: "count_list (xs @ ys) x = count_list xs x + count_list ys x"
  by (induction xs) auto

lemma ok_take:
  assumes "pool_ok 1 (p, ws)" "ready p = Some (j # js)"
  shows "pool_ok 0 (take_job self now j js (p, ws))"
  using assms(1)
proof (rule pool_okE)
  fix rd rn
  assume a: "ready p = Some rd" "running p = Some rn" "currentRunThreads p = int (size ws) + int 1"
    "currentIdleThreads p = int (idle_workers ws)" "\<forall>j. count ws (Runs j) = count_list rn j" "distinct (rd @ rn)"
    "\<forall>j \<in> set rd \<union> set rn. j < next_job p" "Waiting \<in># ws \<longrightarrow> length rd \<le> count ws Woken + 1"
    "refio p \<longleftrightarrow> rd \<noteq> [] \<or> rn \<noteq> []" "targetRunThreads p < currentRunThreads p \<longrightarrow> Waiting \<notin># ws"
    "fw_refio p = of_bool (refio p)"
  with assms(2) show ?thesis
    unfolding take_job_def fst_conv snd_conv
    by (intro pool_okI [where rd = js and rn = "rn @ [j]"]) (auto simp: count_list_append)
qed

lemma ok_leave:
  assumes "pool_ok 1 (p, ws)" "targetRunThreads p < currentRunThreads p \<or> ready p = Some []"
  shows "pool_ok 0 (leave_pool (p, ws))"
  using assms(1)
proof (rule pool_okE)
  fix rd rn
  assume a: "ready p = Some rd" "running p = Some rn" "currentRunThreads p = int (size ws) + int 1"
    "currentIdleThreads p = int (idle_workers ws)" "\<forall>j. count ws (Runs j) = count_list rn j" "distinct (rd @ rn)"
    "\<forall>j \<in> set rd \<union> set rn. j < next_job p" "Waiting \<in># ws \<longrightarrow> length rd \<le> count ws Woken + 1"
    "refio p \<longleftrightarrow> rd \<noteq> [] \<or> rn \<noteq> []" "targetRunThreads p < currentRunThreads p \<longrightarrow> Waiting \<notin># ws"
    "fw_refio p = of_bool (refio p)"
  with assms(2) show ?thesis
    unfolding leave_pool_def fst_conv snd_conv
    by (intro pool_okI [where rd = rd and rn = rn]) auto
qed

lemma ok_loop:
  assumes "pool_ok 1 (p, ws)"
  shows "pool_ok 0 (body_loop self now (p, ws))"
proof -
  obtain rd rn where a: "ready p = Some rd" "running p = Some rn" "currentRunThreads p = int (size ws) + int 1"
    "currentIdleThreads p = int (idle_workers ws)" "\<forall>j. count ws (Runs j) = count_list rn j" "distinct (rd @ rn)"
    "\<forall>j \<in> set rd \<union> set rn. j < next_job p" "refio p \<longleftrightarrow> rd \<noteq> [] \<or> rn \<noteq> []" "fw_refio p = of_bool (refio p)"
    using assms by (elim pool_okE) blast
  consider "targetRunThreads p < currentRunThreads p" | j js where "\<not> targetRunThreads p < currentRunThreads p" "rd = j # js"
    | "\<not> targetRunThreads p < currentRunThreads p" "rd = []" "thread_stop p"
    | "\<not> targetRunThreads p < currentRunThreads p" "rd = []" "\<not> thread_stop p"
    by (cases rd) auto
  then show ?thesis
  proof cases
    case 1
    then show ?thesis using ok_leave [OF assms] by (simp add: body_loop_def)
  next
    case (2 j js)
    then show ?thesis using ok_take [OF assms] a(1) by (simp add: body_loop_def)
  next
    case 3
    then show ?thesis using ok_leave [OF assms] a(1) by (simp add: body_loop_def)
  next
    case 4
    have "pool_ok 0 (p\<lparr>currentIdleThreads := currentIdleThreads p + 1\<rparr>, add_mset Waiting ws)"
      using 4 a by (intro pool_okI [where rd = rd and rn = rn]) auto
    with 4 a(1) show ?thesis by (simp add: body_loop_def)
  qed
qed

lemma ok_begin:
  assumes "pool_ok 0 (p, ws)" "w \<in># ws" "w \<in> {Born, Emptied}"
  shows "pool_ok 1 (p, ws - {#w#})"
proof -
  from assms(2) obtain ws' where ws: "ws = add_mset w ws'" by (metis insert_DiffM)
  from assms(1) show ?thesis
    by (rule pool_okE) (use assms(3) in \<open>auto simp: ws intro!: pool_okI\<close>)
qed

lemma ok_idle:
  assumes "pool_ok 0 (p, ws)" "w \<in># ws" "w \<in> {Woken, Timedout}"
  shows "pool_ok 1 (p\<lparr>currentIdleThreads := currentIdleThreads p - 1\<rparr>, ws - {#w#})"
proof -
  from assms(2) obtain ws' where ws: "ws = add_mset w ws'" by (metis insert_DiffM)
  from assms(1) show ?thesis
    by (rule pool_okE) (use assms(3) in \<open>auto simp: ws intro!: pool_okI\<close>)
qed

lemma ok_woken:
  assumes "pool_ok 0 (p, ws)" "Woken \<in># ws"
  shows "pool_ok 0 (body_woken self now (p, ws))"
  using ok_loop [OF ok_idle [OF assms]] unfolding body_woken_def by simp

lemma ok_timedout:
  assumes "pool_ok 0 (p, ws)" "Timedout \<in># ws"
  shows "pool_ok 0 (body_timedout self now (p, ws))"
proof -
  have "Timedout \<in> {Woken, Timedout}" by simp
  note ok = ok_idle [OF assms this]
  obtain rd where rd: "ready p = Some rd" using assms(1) by (auto elim: pool_okE)
  then show ?thesis using ok_take [OF ok] ok_leave [OF ok]
    by (cases rd) (auto simp: body_timedout_def)
qed

lemma count_remove1: "count_list (remove1 j xs) k = count_list xs k - (if k = j then 1 else 0)"
  by (induction xs) auto

lemma ok_done:
  assumes "pool_ok 0 (p, ws)" "Runs j \<in># ws"
  shows "pool_ok 0 (body_done j self now (p, ws))"
proof -
  from assms(2) obtain ws' where ws: "ws = add_mset (Runs j) ws'" by (metis insert_DiffM)
  let ?p = "p\<lparr>running := map_option (remove1 j) (running p), info := (info p)(j := resetId (info p j))\<rparr>"
  obtain rd rn where a: "ready p = Some rd" "running p = Some rn" "currentRunThreads p = int (size ws) + int 0"
    "currentIdleThreads p = int (idle_workers ws)" "\<forall>j. count ws (Runs j) = count_list rn j" "distinct (rd @ rn)"
    "\<forall>j \<in> set rd \<union> set rn. j < next_job p" "Waiting \<in># ws \<longrightarrow> length rd \<le> count ws Woken + 0"
    "refio p \<longleftrightarrow> rd \<noteq> [] \<or> rn \<noteq> []" "targetRunThreads p < currentRunThreads p \<longrightarrow> Waiting \<notin># ws"
    "fw_refio p = of_bool (refio p)"
    using assms(1) by (elim pool_okE) blast
  have "count_list rn j \<noteq> 0" using spec [OF a(5), of j] ws by simp
  then have j: "rn \<noteq> []" by auto
  have cnt: "count ws' (Runs k) = count_list (remove1 j rn) k" for k
    using spec [OF a(5), of k] ws by (auto simp: count_remove1)
  have dist: "distinct (rd @ remove1 j rn)" "\<forall>j \<in> set rd \<union> set (remove1 j rn). j < next_job p"
    using a(6,7) set_remove1_subset [of j rn] by auto
  show ?thesis
  proof (cases "remove1 j rn = [] \<and> rd = []")
    case True
    have "pool_ok 0 (resRefio ?p, add_mset Emptied ws')"
      using True a ws cnt dist by (intro pool_okI [where rd = rd and rn = "[]"]) auto
    with True a ws show ?thesis by (simp add: body_done_def Let_def)
  next
    case False
    have "pool_ok 1 (?p, ws')"
      using False a ws cnt dist j by (intro pool_okI [where rd = rd and rn = "remove1 j rn"]) auto
    from ok_loop [OF this] have "pool_ok 0 (body_loop self now (?p, ws'))" .
    moreover have "body_done j self now (p, ws) = body_loop self now (?p, ws')"
      using False a(1,2) ws by (auto simp: body_done_def Let_def)
    ultimately show ?thesis by simp
  qed
qed

section \<open>The other sections\<close>

lemma ok_ins:
  assumes "pool_ok 0 (p, ws)"
  shows "pool_ok 0 (snd (pool_ins t now (p, ws)))"
proof -
  obtain rd rn where a: "ready p = Some rd" "running p = Some rn" "currentRunThreads p = int (size ws) + int 0"
    "currentIdleThreads p = int (idle_workers ws)" "\<forall>j. count ws (Runs j) = count_list rn j" "distinct (rd @ rn)"
    "\<forall>j \<in> set rd \<union> set rn. j < next_job p" "Waiting \<in># ws \<longrightarrow> length rd \<le> count ws Woken + 0"
    "refio p \<longleftrightarrow> rd \<noteq> [] \<or> rn \<noteq> []" "targetRunThreads p < currentRunThreads p \<longrightarrow> Waiting \<notin># ws"
    "fw_refio p = of_bool (refio p)"
    using assms by (elim pool_okE) blast
  let ?p = "setRefio (p\<lparr>ready := Some (rd @ [next_job p]), info := (info p)(next_job p := new_info t now), next_job := Suc (next_job p)\<rparr>)"
  have new: "next_job p \<notin> set rd \<union> set rn" using a(7) by auto
  have sig: "size (cond_signal ws) = size ws \<and> idle_workers (cond_signal ws) = idle_workers ws
      \<and> (\<forall>j. count (cond_signal ws) (Runs j) = count ws (Runs j))
      \<and> (Waiting \<in># cond_signal ws \<longrightarrow> Waiting \<in># ws \<and> count (cond_signal ws) Woken = Suc (count ws Woken))"
  proof (cases "Waiting \<in># ws")
    case True
    then obtain ws' where "ws = add_mset Waiting ws'" by (metis insert_DiffM)
    then show ?thesis by (simp add: cond_signal_def)
  qed (simp add: cond_signal_def)
  have "pool_ok 0 (?p, cond_signal ws)"
    using a new sig less_SucI by (intro pool_okI [where rd = "rd @ [next_job p]" and rn = rn]) (auto intro: less_SucI)
  with a(1) show ?thesis by (simp add: pool_ins_def)
qed

lemma broadcast_count:
  "count (cond_broadcast ws) w =
    (if w = Waiting then 0 else if w = Woken then count ws Waiting + count ws Woken else count ws w)"
  by (induction ws) (auto simp: cond_broadcast_def)

lemma broadcast_simps [simp]: "size (cond_broadcast ws) = size ws" "Waiting \<notin># cond_broadcast ws"
    "idle_workers (cond_broadcast ws) = idle_workers ws"
  by (auto simp: cond_broadcast_def idle_workers_def broadcast_count [unfolded cond_broadcast_def])

lemma runThreads_eq:
  "runThreads_nolock n (p, ws) =
    (let m = min n (limit_threads p); p1 = p\<lparr>targetRunThreads := m\<rparr> in
     if currentRunThreads p < m then (p1\<lparr>currentRunThreads := m\<rparr>, ws + replicate_mset (nat (m - currentRunThreads p)) Born)
     else if currentRunThreads p > m then (p1, cond_broadcast ws)
     else (p1, ws))"
proof -
  have "(if n > limit_threads p then limit_threads p else n) = min n (limit_threads p)" by simp
  then show ?thesis unfolding runThreads_nolock_def fst_conv by (simp add: Let_def create_def del: min_less_iff_conj)
qed

lemma runThreads_parts:
  "ready (fst (runThreads_nolock n x)) = ready (fst x)" "running (fst (runThreads_nolock n x)) = running (fst x)"
  "refio (fst (runThreads_nolock n x)) = refio (fst x)" "fw_refio (fst (runThreads_nolock n x)) = fw_refio (fst x)"
  "limit_threads (fst (runThreads_nolock n x)) = limit_threads (fst x)"
  "targetRunThreads (fst (runThreads_nolock n x)) = min n (limit_threads (fst x))"
  by (auto simp: runThreads_nolock_def Let_def create_def)

lemma ok_runThreads:
  assumes "pool_ok 0 (p, ws)"
  shows "pool_ok 0 (runThreads_nolock n (p, ws))"
proof -
  obtain rd rn where a: "ready p = Some rd" "running p = Some rn" "currentRunThreads p = int (size ws) + int 0"
    "currentIdleThreads p = int (idle_workers ws)" "\<forall>j. count ws (Runs j) = count_list rn j" "distinct (rd @ rn)"
    "\<forall>j \<in> set rd \<union> set rn. j < next_job p" "Waiting \<in># ws \<longrightarrow> length rd \<le> count ws Woken + 0"
    "refio p \<longleftrightarrow> rd \<noteq> [] \<or> rn \<noteq> []" "fw_refio p = of_bool (refio p)"
    using assms by (elim pool_okE) blast
  let ?m = "min n (limit_threads p)"
  consider "currentRunThreads p < ?m" | "currentRunThreads p = ?m" | "currentRunThreads p > ?m" by linarith
  then show ?thesis
  proof cases
    case 1
    then have "runThreads_nolock n (p, ws) = (p\<lparr>targetRunThreads := ?m, currentRunThreads := ?m\<rparr>,
        ws + replicate_mset (nat (?m - currentRunThreads p)) Born)"
      by (simp add: runThreads_eq Let_def)
    moreover have "pool_ok 0 (p\<lparr>targetRunThreads := ?m, currentRunThreads := ?m\<rparr>,
        ws + replicate_mset (nat (?m - currentRunThreads p)) Born)"
      using 1 a by (intro pool_okI [where rd = rd and rn = rn]) (auto split: if_splits)
    ultimately show ?thesis by simp
  next
    case 2
    then have "runThreads_nolock n (p, ws) = (p\<lparr>targetRunThreads := ?m\<rparr>, ws)"
      by (simp add: runThreads_eq Let_def)
    moreover have "pool_ok 0 (p\<lparr>targetRunThreads := ?m\<rparr>, ws)"
      using 2 a by (intro pool_okI [where rd = rd and rn = rn]) auto
    ultimately show ?thesis by simp
  next
    case 3
    then have "runThreads_nolock n (p, ws) = (p\<lparr>targetRunThreads := ?m\<rparr>, cond_broadcast ws)"
      by (auto simp: runThreads_eq Let_def)
    moreover have "pool_ok 0 (p\<lparr>targetRunThreads := ?m\<rparr>, cond_broadcast ws)"
      using 3 a by (intro pool_okI [where rd = rd and rn = rn]) (auto simp: broadcast_count)
    ultimately show ?thesis by simp
  qed
qed

lemma folded_runThreads:
  assumes "folded (p, ws)" "n \<le> 0"
  shows "folded (runThreads_nolock n (p, ws))"
  using assms by (auto simp: folded_def runThreads_nolock_def Let_def create_def cond_broadcast_def)

lemma folded_ins: "folded (p, ws) \<Longrightarrow> snd (pool_ins t now (p, ws)) = (p, ws)"
  by (simp add: folded_def pool_ins_def)

lemma ok_limit_change: "pool_ok h (p\<lparr>limit_threads := l\<rparr>, ws) \<longleftrightarrow> pool_ok h (p, ws)"
    "folded (p\<lparr>limit_threads := l\<rparr>, ws) \<longleftrightarrow> folded (p, ws)"
  by (simp_all add: pool_ok_def folded_def)

section \<open>Every step keeps the invariant\<close>

lemma inv_onI:
  assumes "pool_inv s" "Waiting \<in># workers s \<or> workers s \<noteq> {#}"
    and "\<And>p ws. pool_ok 0 (p, ws) \<Longrightarrow> p = pool s \<Longrightarrow> ws = workers s \<Longrightarrow> pool_ok 0 (f (p, ws))"
    and "targetRunThreads (fst (f (pool s, workers s))) = targetRunThreads (pool s)"
    and "limit_threads (fst (f (pool s, workers s))) = limit_threads (pool s)"
  shows "pool_inv (on_pool f s)"
proof -
  have "pstate s \<notin> {INI_START, FIN_TINYSTATE_START}" "pool_ok 0 (pool s, workers s)"
    using assms(1,2) by (auto simp: pool_inv_def folded_def split: if_splits)
  with assms show ?thesis by (auto simp: pool_inv_def on_pool_def Let_def)
qed

lemma body_loop_parts [simp]:
  "targetRunThreads (fst (body_loop self now x)) = targetRunThreads (fst x)"
  "limit_threads (fst (body_loop self now x)) = limit_threads (fst x)"
  by (cases x; auto simp: body_loop_def leave_pool_def take_job_def Let_def split: list.split)+

lemma body_parts [simp]:
  "targetRunThreads (fst (body_woken self now x)) = targetRunThreads (fst x)"
  "limit_threads (fst (body_woken self now x)) = limit_threads (fst x)"
  "targetRunThreads (fst (body_timedout self now x)) = targetRunThreads (fst x)"
  "limit_threads (fst (body_timedout self now x)) = limit_threads (fst x)"
  "targetRunThreads (fst (body_done j self now x)) = targetRunThreads (fst x)"
  "limit_threads (fst (body_done j self now x)) = limit_threads (fst x)"
  by (auto simp: body_woken_def body_timedout_def body_done_def leave_pool_def take_job_def Let_def split: list.split)

lemma inv_limit:
  assumes "pool_inv s"
  shows "pool_inv (on_pool (limitThreadsNumber n) s)"
proof -
  let ?l = "if n < THREAD_MAX_IDLE_THREADS then THREAD_MAX_IDLE_THREADS else n"
  let ?x = "((pool s)\<lparr>limit_threads := ?l\<rparr>, workers s)"
  have l: "2 \<le> ?l" by (simp add: THREAD_MAX_IDLE_THREADS_def)
  have "folded (runThreads_nolock (targetRunThreads (pool s)) ?x)" if "folded (pool s, workers s)"
    using that by (intro folded_runThreads) (auto simp: ok_limit_change folded_def)
  moreover have "pool_ok 0 (runThreads_nolock (targetRunThreads (pool s)) ?x)" if "pool_ok 0 (pool s, workers s)"
    using that by (intro ok_runThreads) (simp add: ok_limit_change)
  ultimately show ?thesis
    using assms l by (auto simp: pool_inv_def on_pool_def Let_def limitThreadsNumber_def runThreads_parts)
qed

lemma inv_set_threads:
  assumes "pool_ok 0 (pool s, workers s)" "2 \<le> limit_threads (pool s)" "st \<notin> {INI_START, FIN_TINYSTATE_START}"
    "st = FIN_WAIT \<longrightarrow> n \<le> 0"
  shows "pool_inv ((set_threads n s)\<lparr>pstate := st\<rparr>)" "pool_inv ((set_threads n s)\<lparr>ptimer := t, pstate := st\<rparr>)"
  using ok_runThreads [OF assms(1), of n] assms(2-)
  by (auto simp: pool_inv_def set_threads_def Let_def runThreads_parts)

lemma fold_folded:
  assumes "pool_ok 0 (p, ws)" "currentRunThreads p = 0" "targetRunThreads p \<le> 0"
  shows "folded (fold_pool p, ws)"
  using assms(1)
  by (rule pool_okE) (use assms(2,3) in \<open>auto simp: folded_def fold_pool_def\<close>)

lemma fold_parts [simp]: "targetRunThreads (fold_pool p) = targetRunThreads p" "limit_threads (fold_pool p) = limit_threads p"
  by (simp_all add: fold_pool_def)

lemma inv_machine:
  assumes "pool_inv s"
  shows "pool_inv (pool_state destroyed now s)"
proof -
  have ok: "pstate s \<notin> {INI_START, FIN_TINYSTATE_START} \<Longrightarrow> pool_ok 0 (pool s, workers s)"
    "pstate s \<in> {INI_START, FIN_TINYSTATE_START} \<Longrightarrow> folded (pool s, workers s)"
    "targetRunThreads (pool s) \<le> limit_threads (pool s)" "2 \<le> limit_threads (pool s)"
    "pstate s = FIN_WAIT \<Longrightarrow> targetRunThreads (pool s) \<le> 0"
    using assms by (auto simp: pool_inv_def split: if_splits)
  have stay: "pool_inv (s\<lparr>pstate := st\<rparr>)" "pool_inv (s\<lparr>ptimer := t, pstate := st\<rparr>)"
    if "pstate s \<notin> {INI_START, FIN_TINYSTATE_START}" "st \<notin> {INI_START, FIN_TINYSTATE_START, FIN_WAIT}" for st t
    using ok that by (auto simp: pool_inv_def)
  show ?thesis
  proof (cases "pstate s")
    case INI_START
    let ?s = "s\<lparr>pool := (pool s)\<lparr>ready := Some [], running := Some []\<rparr>\<rparr>"
    have "pool_ok 0 (pool ?s, workers ?s)"
      using ok(2) INI_START by (auto simp: folded_def intro!: pool_okI)
    from inv_set_threads(1) [OF this, of ACT_START THREAD_MAX_IDLE_THREADS] ok(4) INI_START
    show ?thesis by (simp add: Let_def)
  next
    case ACT_START
    then show ?thesis using stay by (simp add: Let_def)
  next
    case ACT_TINYSTATE_START
    then show ?thesis using stay inv_set_threads [OF ok(1) ok(4)]
      by (simp add: Let_def)
  next
    case ACT_WAIT_2
    then show ?thesis using stay assms by (simp add: Let_def)
  next
    case ACT_DOWN
    then show ?thesis using stay by (simp add: Let_def)
  next
    case ACT_DOWN_WAIT
    then show ?thesis using stay assms inv_set_threads [OF ok(1) ok(4)] by (simp add: Let_def)
  next
    case FIN_START
    then show ?thesis using stay by (simp add: Let_def)
  next
    case FIN_STABLE_WAIT
    then show ?thesis using stay assms by (simp add: Let_def)
  next
    case FIN_DRAINED
    then show ?thesis using inv_set_threads [OF ok(1) ok(4)] by (simp add: Let_def)
  next
    case FIN_WAIT
    show ?thesis
    proof (cases "currentRunThreads (pool s) = 0")
      case True
      have "folded (fold_pool (pool s), workers s)" using True FIN_WAIT ok by (intro fold_folded) auto
      then show ?thesis using True FIN_WAIT ok by (simp add: Let_def pool_inv_def)
    next
      case False
      then show ?thesis using FIN_WAIT assms by (auto simp: Let_def pool_inv_def)
    qed
  next
    case FIN_TINYSTATE_START
    then show ?thesis using assms by (simp add: Let_def)
  qed
qed

lemma inv_ins:
  assumes "pool_inv s"
  shows "pool_inv (on_pool (\<lambda>x. snd (pool_ins t now x)) s)"
proof -
  have "targetRunThreads (fst (snd (pool_ins t now (p, ws)))) = targetRunThreads p"
    "limit_threads (fst (snd (pool_ins t now (p, ws)))) = limit_threads p" for p ws
    by (simp_all add: pool_ins_def split: option.split)
  then show ?thesis using assms ok_ins [of "pool s" "workers s" t now] folded_ins [of "pool s" "workers s" t now]
    by (auto simp: pool_inv_def on_pool_def Let_def split: if_splits)
qed

lemma pool_ok_setup: "pool_ok h (p\<lparr>setup_list := l\<rparr>, ws) \<longleftrightarrow> pool_ok h (p, ws)"
    "folded (p\<lparr>setup_list := l\<rparr>, ws) \<longleftrightarrow> folded (p, ws)"
    "pool_ok h (p\<lparr>finish_flag := b\<rparr>, ws) \<longleftrightarrow> pool_ok h (p, ws)"
    "folded (p\<lparr>finish_flag := b\<rparr>, ws) \<longleftrightarrow> folded (p, ws)"
  by (simp_all add: pool_ok_def folded_def)

lemma ok_wake:
  assumes "pool_ok 0 (p, ws)" "Waiting \<in># ws" "r \<in> {Woken, Timedout}"
  shows "pool_ok 0 (p, add_mset r (ws - {#Waiting#}))"
proof -
  from assms(2) obtain ws' where ws: "ws = add_mset Waiting ws'" by (metis insert_DiffM)
  from assms(1) show ?thesis
    by (rule pool_okE) (use assms(3) in \<open>auto simp: ws intro!: pool_okI\<close>)
qed

lemma some_worker: "w \<in># ws \<Longrightarrow> Waiting \<in># ws \<or> ws \<noteq> {#}"
  by auto

lemma pool_step_inv [preserves]:
  assumes "pool_step s s'" "pool_inv s"
  shows "pool_inv s'"
  using assms
proof (induction rule: pool_step.induct)
  case (ins s t now)
  then show ?case by (rule inv_ins)
next
  case (limit s n)
  then show ?case by (rule inv_limit)
next
  case (hook f h s)
  then show ?case by (auto simp: pool_inv_def ins_setup_def del_setup_def pool_ok_setup)
next
  case (machine s destroyed now)
  then show ?case by (rule inv_machine)
next
  case (latch s)
  then show ?case by (auto simp: pool_inv_def pool_ok_setup)
next
  case (born s self now)
  then show ?case by (intro inv_onI [OF _ some_worker]) (use ok_loop [OF ok_begin [of _ _ Born]] in auto)
next
  case (wake s r)
  then show ?case using ok_wake [of "pool s" "workers s" r] by (auto simp: pool_inv_def folded_def split: if_splits)
next
  case (woken s self now)
  then show ?case by (intro inv_onI [OF _ some_worker]) (auto intro: ok_woken)
next
  case (timedout s self now)
  then show ?case by (intro inv_onI [OF _ some_worker]) (auto intro: ok_timedout)
next
  case (job_done j s self now)
  then show ?case by (intro inv_onI [OF _ some_worker]) (auto intro: ok_done)
next
  case (emptied s self now)
  then show ?case by (intro inv_onI [OF _ some_worker]) (use ok_loop [OF ok_begin [of _ _ Emptied]] in auto)
qed

lemma pool_init_inv: "pool_inv pool_init"
  by (simp add: pool_inv_def pool_init_def pool_new_def folded_def MAX_INTEGER_def)

lemma pool_reachable: "pool_step\<^sup>*\<^sup>* pool_init s \<Longrightarrow> pool_inv s"
  by (induction rule: rtranclp_induct) (auto intro: pool_init_inv pool_step_inv)

section \<open>Kill requests\<close>

text \<open>What the thread of a job and others do to its record while it is inside a \<open>TS_THREAD\<close> state.\<close>

definition requested :: "thread_info \<Rightarrow> bool" where
  "requested i \<longleftrightarrow> kstate i \<in> {KF_THR_REQUEST, KF_THR_CATCH_REQUEST}"

inductive info_step :: "thread_info \<Rightarrow> thread_info \<Rightarrow> bool" where
  "start i = Some i' \<Longrightarrow> info_step i i'"
| "kill_begin i = Some (r, i') \<Longrightarrow> info_step i i'"
| "kill_finish i = Some (d, i') \<Longrightarrow> info_step i i'"
| "info_step i (snd (kill self i))"
| "info_step i (snd (wait_poll i))"
| "info_step i (snd (signal_info i))"
| "info_step i (setId self i)"
| "info_step i (resetId i)"

lemma info_step_requested: "info_step i i' \<Longrightarrow> requested i \<Longrightarrow> requested i'"
  by (induction rule: info_step.induct)
    (auto simp: requested_def start_def kill_begin_def kill_finish_def kill_def wait_poll_def signal_info_def setId_def
      resetId_def split: kf.splits)

section \<open>Properties\<close>


text \<open>One worker starts, and is waiting for work.\<close>

definition two_born :: psys where
  "two_born = pool_state False 0 pool_init"

lemma two_born_parts:
  "pool_step\<^sup>*\<^sup>* pool_init two_born" "workers two_born = {#Born, Born#}" "ready (pool two_born) = Some []"
  "running (pool two_born) = Some []" "pstate two_born = ACT_START" "currentRunThreads (pool two_born) = 2"
proof -
  show "pool_step\<^sup>*\<^sup>* pool_init two_born" unfolding two_born_def by (rule r_into_rtranclp) (rule pool_step.machine)
qed (simp_all add: two_born_def pool_init_def pool_new_def set_threads_def runThreads_eq Let_def THREAD_MAX_IDLE_THREADS_def
    MAX_INTEGER_def numeral_2_eq_2)


text \<open>C6: No wake-up is lost: whenever a worker waits without having been signalled, the queue holds at
  most as many jobs as there are workers already woken, and nobody waits while the pool has more workers
  than its target.  In particular, when no worker is on its way, a queued job and a waiting worker
  never coexist.\<close>

theorem pool_no_lost_wakeup:
  assumes "pool_step\<^sup>*\<^sup>* pool_init s" "Waiting \<in># workers s"
  shows "(\<exists>rd. ready (pool s) = Some rd \<and> length rd \<le> count (workers s) Woken)
    \<and> currentRunThreads (pool s) \<le> targetRunThreads (pool s)"
proof -
  have inv: "pool_inv s" using assms(1) by (rule pool_reachable)
  with assms(2) have "pool_ok 0 (pool s, workers s)" by (auto simp: pool_inv_def folded_def split: if_splits)
  then show ?thesis using assms(2) by (elim pool_okE) auto
qed

theorem pool_no_lost_wakeup_witness:
  "\<exists>s. pool_step\<^sup>*\<^sup>* pool_init s \<and> Waiting \<in># workers s \<and> ready (pool s) = Some []"
proof -
  let ?s = "on_pool (\<lambda>x. body_loop 1 0 (fst x, snd x - {#Born#})) two_born"
  have "pool_step two_born ?s" by (rule pool_step.born) (simp add: two_born_parts)
  with two_born_parts(1) have reach: "pool_step\<^sup>*\<^sup>* pool_init ?s" by (rule rtranclp.rtrancl_into_rtrancl)
  have tgt: "targetRunThreads (pool two_born) = 2" "\<not> thread_stop (pool two_born)"
    by (simp_all add: two_born_def pool_init_def pool_new_def set_threads_def runThreads_eq Let_def THREAD_MAX_IDLE_THREADS_def
      MAX_INTEGER_def)
  have w: "workers ?s = {#Waiting, Born#}" "ready (pool ?s) = Some []"
    by (simp_all add: on_pool_def body_loop_def two_born_parts tgt Let_def)
  from pool_no_lost_wakeup [OF reach] w reach show ?thesis by (intro exI [of _ ?s]) auto
qed

text \<open>The pool keeps the reactor alive exactly while it has work: in every reachable state \<open>refio\<close> is set
  if and only if a job is queued or running, the pool's share of the reactor's count is 1 or 0
  accordingly, it never goes negative, and it is returned when the pool is folded.\<close>

theorem pool_keepalive:
  assumes "pool_step\<^sup>*\<^sup>* pool_init s"
  shows "(refio (pool s) \<longleftrightarrow> (\<exists>rd rn. ready (pool s) = Some rd \<and> running (pool s) = Some rn \<and> (rd \<noteq> [] \<or> rn \<noteq> [])))
    \<and> fw_refio (pool s) = of_bool (refio (pool s))"
proof -
  have inv: "pool_inv s" using assms by (rule pool_reachable)
  show ?thesis
  proof (cases "folded (pool s, workers s)")
    case False
    with inv have "pool_ok 0 (pool s, workers s)" by (simp add: pool_inv_def split: if_splits)
    then show ?thesis by (elim pool_okE) auto
  qed (auto simp: folded_def)
qed

theorem pool_keepalive_witness:
  "\<exists>s. pool_step\<^sup>*\<^sup>* pool_init s \<and> refio (pool s) \<and> fw_refio (pool s) = 1"
proof -
  let ?s = "on_pool (\<lambda>x. snd (pool_ins 7 0 x)) two_born"
  have "pool_step two_born ?s" by (rule pool_step.ins)
  with two_born_parts(1) have reach: "pool_step\<^sup>*\<^sup>* pool_init ?s" by (rule rtranclp.rtrancl_into_rtrancl)
  have "ready (pool ?s) \<noteq> None \<and> the (ready (pool ?s)) \<noteq> [] \<and> running (pool ?s) = Some []"
    by (simp add: on_pool_def pool_ins_def two_born_parts Let_def)
  with pool_keepalive [OF reach] reach show ?thesis by (intro exI [of _ ?s]) auto
qed

text \<open>A kill request is never lost: \<open>kill\<close> on a started job leaves it requested, and whatever its thread
  and others do afterwards short of \<open>finish\<close>, it stays requested, so every later \<open>kill_begin\<close> that
  does not panic reports the request instead of \<open>KF_THR\<close>; only \<open>finish\<close> clears it.\<close>

theorem kill_request_kept:
  assumes "kstate i \<noteq> KF_IDLE" "info_step\<^sup>*\<^sup>* (snd (kill self i)) i'"
  shows "requested i' \<and> (case kill_begin i' of None \<Rightarrow> True | Some (r, _) \<Rightarrow> r = KF_THR_REQUEST)
    \<and> (case finish i' of None \<Rightarrow> True | Some i2 \<Rightarrow> kstate i2 = KF_IDLE)"
proof -
  have "requested (snd (kill self i))" using assms(1) by (auto simp: requested_def kill_def split: kf.split)
  with assms(2) have "requested i'" by (induction rule: rtranclp_induct) (auto intro: info_step_requested)
  then show ?thesis by (auto simp: requested_def kill_begin_def finish_def)
qed

theorem kill_request_kept_witness:
  "requested (snd (kill 1 ((new_info 5 0)\<lparr>kstate := KF_THR_CATCH\<rparr>)))
   \<and> pol (snd (kill 1 ((new_info 5 0)\<lparr>kstate := KF_THR_CATCH\<rparr>)))"
proof -
  have "kstate ((new_info 5 0)\<lparr>kstate := KF_THR_CATCH\<rparr>) \<noteq> KF_IDLE" by simp
  from kill_request_kept [OF this rtranclp.rtrancl_refl, of 1] show ?thesis by (simp add: kill_def)
qed

end
