(* ===== verification/DynArray.thy ===== *)
theory DynArray
  imports Prelude
begin

text \<open>
  The growing array \<open>sArray<T>\<close> of \<open>src/src/h/ts2/c++/sArray.h\<close>, the storage of every \<open>stdArray\<close>
  and through it of strings and buffers.  The state is the allocated block \<open>store\<close> (its length is
  the code's \<open>cap\<close>), the number of elements in use and the \<open>expand\<close> flag; \<open>d\<close> is the value
  \<open>__TYPE()\<close>.  Lengths are unbounded here; in the code they are \<open>int\<close>, and doubling the capacity
  overflows above \<open>2^30\<close> elements.

  The contents of an array are \<open>arr_list\<close>, and each operation is shown to be the operation of lists
  it looks like.  Growing within the capacity shows elements that were in use before, so all of it
  rests on the invariant that the unused part of the block holds default values.
\<close>

section \<open>Model\<close>

record 'a sarr =
  leng :: nat
  store :: "'a list"
  expand :: bool

abbreviation cap :: "'a sarr \<Rightarrow> nat" where
  "cap a \<equiv> length (store a)"

definition arr_new :: "'a \<Rightarrow> nat \<Rightarrow> 'a sarr" where
  "arr_new d n = \<lparr>leng = n, store = replicate n d, expand = True\<rparr>"

definition realloc :: "'a \<Rightarrow> nat \<Rightarrow> 'a sarr \<Rightarrow> 'a sarr" where
  "realloc d new_cap a =
     (let clen = (if leng a < new_cap then leng a else new_cap)
      in a\<lparr>store := take clen (store a) @ replicate (new_cap - clen) d\<rparr>)"

text \<open>\<open>length(len)\<close>: a negative length shrinks the block to what is in use.\<close>

definition arr_resize :: "'a \<Rightarrow> int \<Rightarrow> 'a sarr \<Rightarrow> 'a sarr" where
  "arr_resize d len a =
     (if len < 0 then (if leng a = cap a then a else realloc d (leng a) a)
      else let n = nat len in
        if leng a = n then a
        else
          (if n > cap a then
             let new_cap = (if cap a = 0 then 8 else cap a * 2)
             in realloc d (if new_cap < n then n else new_cap) a
           else if n < leng a then a\<lparr>store := foldl (\<lambda>st i. st[i := d]) (store a) [n..<leng a]\<rparr>
           else a)\<lparr>leng := n\<rparr>)"

text \<open>
  \<open>operator[]\<close>: the element the reference denotes is the one at the index in the new state; a
  negative index, and one past the end of an array that must not expand, panics.
\<close>

definition arr_at :: "'a \<Rightarrow> int \<Rightarrow> 'a sarr \<Rightarrow> 'a sarr option" where
  "arr_at d i a =
     (if i < 0 then None
      else if \<not> expand a then (if i \<ge> int (leng a) then None else Some a)
      else Some (if i \<ge> int (leng a) then arr_resize d (i + 1) a else a))"

definition arr_write :: "'a \<Rightarrow> int \<Rightarrow> 'a \<Rightarrow> 'a sarr \<Rightarrow> 'a sarr option" where
  "arr_write d i x a = map_option (\<lambda>b. b\<lparr>store := (store b)[nat i := x]\<rparr>) (arr_at d i a)"

definition arr_push :: "'a \<Rightarrow> 'a \<Rightarrow> 'a sarr \<Rightarrow> 'a sarr" where
  "arr_push d x a =
     (let b = arr_resize d (int (leng a) + 1) a in b\<lparr>store := (store b)[leng a := x]\<rparr>)"

definition arr_pop :: "'a \<Rightarrow> 'a sarr \<Rightarrow> 'a option \<times> 'a sarr" where
  "arr_pop d a =
     (if leng a = 0 then (None, a)
      else (Some (store a ! (leng a - 1)), arr_resize d (int (leng a) - 1) a))"

definition arr_unshift :: "'a \<Rightarrow> 'a \<Rightarrow> 'a sarr \<Rightarrow> 'a sarr" where
  "arr_unshift d x a =
     (let b = arr_resize d (int (leng a) + 1) a;
          moved = foldl (\<lambda>st i. st[i := st ! (i - 1)]) (store b) (rev [1..<leng b])
      in b\<lparr>store := moved[0 := x]\<rparr>)"

definition arr_shift :: "'a \<Rightarrow> 'a sarr \<Rightarrow> 'a option \<times> 'a sarr" where
  "arr_shift d a =
     (if leng a = 0 then (None, a)
      else
        (Some (store a ! 0),
         arr_resize d (int (leng a) - 1)
           (a\<lparr>store := foldl (\<lambda>st i. st[i := st ! (i + 1)]) (store a) [0..<leng a - 1]\<rparr>)))"

text \<open>The copy constructor of \<open>stdArray<T>\<close>: a new block of the same length, element by element.\<close>

definition arr_copy :: "'a \<Rightarrow> 'a sarr \<Rightarrow> 'a sarr" where
  "arr_copy d a =
     (let b = arr_new d (leng a)
      in b\<lparr>store := foldl (\<lambda>st i. st[i := store a ! i]) (store b) [0..<leng a]\<rparr>)"

section \<open>Contents and invariant\<close>

definition arr_list :: "'a sarr \<Rightarrow> 'a list" where
  "arr_list a = take (leng a) (store a)"

definition arr_ok :: "'a \<Rightarrow> 'a sarr \<Rightarrow> bool" where
  "arr_ok d a = (leng a \<le> cap a \<and> drop (leng a) (store a) = replicate (cap a - leng a) d)"

lemma arr_okE:
  assumes "arr_ok d a"
  obtains k where "store a = arr_list a @ replicate k d" "length (arr_list a) = leng a"
  using assms that [of "cap a - leng a"] unfolding arr_ok_def arr_list_def
  by (metis append_take_drop_id length_take min.absorb2)

lemma arr_okI:
  assumes "store a = xs @ replicate k d" "leng a = length xs"
  shows "arr_ok d a" and "arr_list a = xs"
  using assms by (auto simp: arr_ok_def arr_list_def)

section \<open>The loops\<close>

lemma clear_loop:
  "n \<le> m \<Longrightarrow> m \<le> length st \<Longrightarrow>
   foldl (\<lambda>st i. st[i := d]) st [n..<m] = take n st @ replicate (m - n) d @ drop m st"
proof (induction m)
  case (Suc m)
  show ?case
  proof (cases "n \<le> m")
    case True
    then have "(take n st @ replicate (m - n) d @ drop m st)[m := d]
        = take n st @ replicate (m - n) d @ (drop m st)[0 := d]"
      using Suc.prems by (simp add: list_update_append)
    also have "(drop m st)[0 := d] = d # drop (Suc m) st"
      using Suc.prems by (simp add: Cons_nth_drop_Suc [symmetric])
    finally show ?thesis
      using True Suc by (simp add: Suc_diff_le replicate_append_same [symmetric])
  next
    case False
    with Suc.prems have "n = Suc m" by simp
    then show ?thesis by simp
  qed
qed simp

lemma up_loop:
  "Suc m \<le> length st \<Longrightarrow>
   foldl (\<lambda>st i. st[i := st ! (i - 1)]) st (rev [1..<Suc m]) = hd st # take m st @ drop (Suc m) st"
proof (induction m arbitrary: st)
  case 0
  then show ?case by (cases st) auto
next
  case (Suc m)
  let ?st = "st[Suc m := st ! m]"
  have "foldl (\<lambda>st i. st[i := st ! (i - 1)]) st (rev [1..<Suc (Suc m)])
      = foldl (\<lambda>st i. st[i := st ! (i - 1)]) ?st (rev [1..<Suc m])" by simp
  also have "\<dots> = hd ?st # take m ?st @ drop (Suc m) ?st"
    using Suc by simp
  also have "hd ?st = hd st" using Suc.prems by (cases st) auto
  also have "drop (Suc m) ?st = st ! m # drop (Suc (Suc m)) st"
    using Suc.prems by (simp add: Cons_nth_drop_Suc [symmetric])
  finally show ?case using Suc.prems by (simp add: take_Suc_conv_app_nth)
qed

lemma down_loop:
  "m < length st \<Longrightarrow>
   foldl (\<lambda>st i. st[i := st ! (i + 1)]) st [0..<m] = take m (tl st) @ drop m st"
proof (induction m)
  case (Suc m)
  then have "(take m (tl st) @ drop m st)[m := (take m (tl st) @ drop m st) ! (m + 1)]
      = take m (tl st) @ (drop m st)[0 := st ! (m + 1)]"
    by (simp add: list_update_append nth_append)
  also have "(drop m st)[0 := st ! (m + 1)] = tl st ! m # drop (Suc m) st"
    using Suc.prems by (simp add: Cons_nth_drop_Suc [symmetric] nth_tl)
  finally show ?case using Suc by (simp add: take_Suc_conv_app_nth)
qed simp

lemma copy_loop:
  "m \<le> length st \<Longrightarrow> m \<le> length xs \<Longrightarrow>
   foldl (\<lambda>st i. st[i := xs ! i]) st [0..<m] = take m xs @ drop m st"
proof (induction m)
  case (Suc m)
  then have "(take m xs @ drop m st)[m := xs ! m] = take m xs @ (drop m st)[0 := xs ! m]"
    by (simp add: list_update_append)
  also have "(drop m st)[0 := xs ! m] = xs ! m # drop (Suc m) st"
    using Suc.prems by (simp add: Cons_nth_drop_Suc [symmetric])
  finally show ?case using Suc by (simp add: take_Suc_conv_app_nth)
qed simp

section \<open>The operations on the contents\<close>

lemma new_array [preserves]: "arr_ok d (arr_new d n)" "arr_list (arr_new d n) = replicate n d"
  by (auto simp: arr_ok_def arr_list_def arr_new_def)

lemma realloc_array:
  assumes "arr_ok d a" "leng a \<le> n"
  shows "store (realloc d n a) = arr_list a @ replicate (n - leng a) d"
    and "leng (realloc d n a) = leng a" and "expand (realloc d n a) = expand a"
  using assms by (auto simp: realloc_def arr_list_def Let_def)

lemma replicate_split: "i \<le> n \<Longrightarrow> replicate n d = replicate i d @ replicate (n - i) d"
  by (simp flip: replicate_add)

text \<open>The block after \<open>length(n)\<close>, and that the flag is kept.\<close>

lemma resize_store:
  assumes ok: "arr_ok d a"
  shows "\<exists>k. store (arr_resize d (int n) a) = take n (arr_list a) @ replicate (n - leng a) d @ replicate k d"
    and "leng (arr_resize d (int n) a) = n" and "expand (arr_resize d (int n) a) = expand a"
proof -
  obtain k where k: "store a = arr_list a @ replicate k d" "length (arr_list a) = leng a"
    using arr_okE [OF ok] .
  show "\<exists>k. store (arr_resize d (int n) a) = take n (arr_list a) @ replicate (n - leng a) d @ replicate k d"
  proof (cases "n \<le> cap a")
    case grow: True
    show ?thesis
    proof (cases "n < leng a")
      case True
      have "foldl (\<lambda>st i. st[i := d]) (store a) [n..<leng a]
          = take n (arr_list a) @ replicate (leng a - n) d @ replicate k d"
        using True k by (subst clear_loop) (auto simp: min_def)
      with True grow show ?thesis
        by (auto simp: arr_resize_def replicate_add [symmetric])
    next
      case False
      then have "store (arr_resize d (int n) a) = arr_list a @ replicate k d"
        using grow k by (auto simp: arr_resize_def)
      moreover have "n - leng a \<le> k" using grow k arg_cong [OF k(1), of length] by simp
      note replicate_split [OF this, of d]
      ultimately show ?thesis using False k by (metis append_same_eq take_all_iff not_less)
    qed
  next
    case False
    define m where "m = (if (if cap a = 0 then 8 else cap a * 2) < n then n else if cap a = 0 then 8 else cap a * 2)"
    have "n \<le> m" "leng a \<le> m" "leng a \<le> n" using False ok by (auto simp: m_def arr_ok_def)
    moreover have "store (arr_resize d (int n) a) = store (realloc d m a)"
      using False ok by (auto simp: arr_resize_def Let_def m_def arr_ok_def)
    ultimately have "store (arr_resize d (int n) a)
        = arr_list a @ replicate (n - leng a) d @ replicate (m - leng a - (n - leng a)) d"
      using realloc_array(1) [OF ok, of m] replicate_split [of "n - leng a" "m - leng a" d] by simp
    then show ?thesis using k \<open>leng a \<le> n\<close> by auto
  qed
  show "leng (arr_resize d (int n) a) = n" "expand (arr_resize d (int n) a) = expand a"
    by (auto simp: arr_resize_def Let_def realloc_def)
qed

lemma resize_array [preserves]:
  assumes "arr_ok d a"
  shows "arr_ok d (arr_resize d (int n) a)"
    and "arr_list (arr_resize d (int n) a) = take n (arr_list a) @ replicate (n - leng a) d"
proof -
  obtain k where k: "store (arr_resize d (int n) a)
      = (take n (arr_list a) @ replicate (n - leng a) d) @ replicate k d"
    using resize_store(1) [OF assms, of n] by (metis append_assoc)
  have "length (arr_list a) = leng a" using assms by (blast elim: arr_okE)
  then have l: "leng (arr_resize d (int n) a) = length (take n (arr_list a) @ replicate (n - leng a) d)"
    by (simp add: resize_store(2) [OF assms])
  show "arr_ok d (arr_resize d (int n) a)" by (rule arr_okI(1) [OF k l])
  show "arr_list (arr_resize d (int n) a) = take n (arr_list a) @ replicate (n - leng a) d"
    by (rule arr_okI(2) [OF k l])
qed

lemma shrink_to_fit:
  assumes "arr_ok d a" "n < 0"
  shows "arr_ok d (arr_resize d n a)" "arr_list (arr_resize d n a) = arr_list a"
    and "cap (arr_resize d n a) = leng a"
  using assms by (auto simp: arr_resize_def realloc_def arr_ok_def arr_list_def)

text \<open>An update inside the contents.\<close>

lemma update_array [preserves]:
  assumes "arr_ok d a" "i < leng a"
  shows "arr_ok d (a\<lparr>store := (store a)[i := x]\<rparr>)"
    and "arr_list (a\<lparr>store := (store a)[i := x]\<rparr>) = (arr_list a)[i := x]"
  using assms by (auto simp: arr_ok_def arr_list_def take_update_swap)

text \<open>A new block whose first part is in use, whatever it holds.\<close>

lemma replace_array:
  assumes "arr_ok d a" "length xs = leng a"
  shows "arr_ok d (a\<lparr>store := xs @ drop (leng a) (store a)\<rparr>)"
    and "arr_list (a\<lparr>store := xs @ drop (leng a) (store a)\<rparr>) = xs"
  using assms by (auto simp: arr_ok_def arr_list_def)

lemma length_arr_list [simp]: "arr_ok d a \<Longrightarrow> length (arr_list a) = leng a"
  by (auto elim: arr_okE)

lemma push_array [preserves]:
  assumes "arr_ok d a"
  shows "arr_ok d (arr_push d x a)" "arr_list (arr_push d x a) = arr_list a @ [x]"
proof -
  let ?b = "arr_resize d (int (Suc (leng a))) a"
  have b: "arr_push d x a = ?b\<lparr>store := (store ?b)[leng a := x]\<rparr>"
    by (simp add: arr_push_def Let_def add.commute)
  have "leng a < leng ?b" unfolding resize_store(2) [OF assms] by simp
  note u = update_array [OF resize_array(1) [OF assms] this, of x]
  show "arr_ok d (arr_push d x a)" unfolding b by (rule u)
  show "arr_list (arr_push d x a) = arr_list a @ [x]"
    unfolding b u(2) resize_array(2) [OF assms] using assms by (simp add: list_update_append)
qed

lemma pop_array:
  assumes "arr_ok d a"
  shows "arr_ok d (snd (arr_pop d a))"
    and "fst (arr_pop d a) = (if arr_list a = [] then None else Some (last (arr_list a)))"
    and "arr_list (snd (arr_pop d a)) = butlast (arr_list a)"
proof -
  have len: "length (arr_list a) = leng a" using assms by simp
  have snd_pop: "snd (arr_pop d a) = (if leng a = 0 then a else arr_resize d (int (leng a - 1)) a)"
    by (simp add: arr_pop_def of_nat_diff)
  show "arr_ok d (snd (arr_pop d a))"
    unfolding snd_pop using assms resize_array(1) [OF assms, of "leng a - 1"] by (cases "leng a = 0") simp_all
  show "arr_list (snd (arr_pop d a)) = butlast (arr_list a)"
  proof (cases "leng a = 0")
    case True
    with len have "arr_list a = []" by simp
    with True show ?thesis unfolding snd_pop by simp
  next
    case False
    then show ?thesis
      unfolding snd_pop using resize_array(2) [OF assms, of "leng a - 1"] len
      by (simp add: butlast_conv_take)
  qed
  have "store a ! (leng a - 1) = last (arr_list a)" if "leng a \<noteq> 0"
  proof -
    have "arr_list a \<noteq> []" using len that by auto
    then have "last (arr_list a) = arr_list a ! (leng a - 1)" by (simp add: last_conv_nth len)
    then show ?thesis using that by (simp add: arr_list_def)
  qed
  then show "fst (arr_pop d a) = (if arr_list a = [] then None else Some (last (arr_list a)))"
    using len by (auto simp: arr_pop_def)
qed

lemma unshift_array [preserves]:
  assumes "arr_ok d a"
  shows "arr_ok d (arr_unshift d x a)" "arr_list (arr_unshift d x a) = x # arr_list a"
proof -
  let ?b = "arr_resize d (int (Suc (leng a))) a"
  have l: "leng ?b = Suc (leng a)" by (rule resize_store(2) [OF assms])
  have ok: "arr_ok d ?b" by (rule resize_array(1) [OF assms])
  have b: "arr_list ?b = arr_list a @ [d]" using resize_array(2) [OF assms, of "Suc (leng a)"] assms by simp
  have cap: "Suc (leng a) \<le> length (store ?b)" using ok l by (simp add: arr_ok_def)
  have t: "take (leng a) (store ?b) = arr_list a"
    using arg_cong [OF b, of "take (leng a)"] assms unfolding arr_list_def [of ?b] l by simp
  have u: "arr_unshift d x a = ?b\<lparr>store := (x # arr_list a) @ drop (leng ?b) (store ?b)\<rparr>"
    using up_loop [OF cap] l t by (simp add: arr_unshift_def Let_def add.commute)
  have len: "length (x # arr_list a) = leng ?b" using assms l by simp
  show "arr_ok d (arr_unshift d x a)" unfolding u by (rule replace_array(1) [OF ok len])
  show "arr_list (arr_unshift d x a) = x # arr_list a" unfolding u by (rule replace_array(2) [OF ok len])
qed

lemma shift_array:
  assumes "arr_ok d a"
  shows "arr_ok d (snd (arr_shift d a))"
    and "fst (arr_shift d a) = (if arr_list a = [] then None else Some (hd (arr_list a)))"
    and "arr_list (snd (arr_shift d a)) = tl (arr_list a)"
proof -
  have len: "length (arr_list a) = leng a" using assms by simp
  obtain k where k: "store a = arr_list a @ replicate k d" using arr_okE [OF assms] by blast
  show "fst (arr_shift d a) = (if arr_list a = [] then None else Some (hd (arr_list a)))"
    using len by (cases "arr_list a") (auto simp: arr_shift_def k)
  have "arr_ok d (snd (arr_shift d a)) \<and> arr_list (snd (arr_shift d a)) = tl (arr_list a)"
  proof (cases "arr_list a")
    case Nil
    then show ?thesis using assms len by (simp add: arr_shift_def)
  next
    case (Cons y ys)
    then have ly: "leng a = Suc (length ys)" using len by simp
    let ?st = "ys @ [last (y # ys)]"
    have "foldl (\<lambda>st i. st[i := st ! (i + 1)]) (store a) [0..<leng a - 1]
        = take (length ys) (tl (store a)) @ drop (length ys) (store a)"
      using down_loop [of "leng a - 1" "store a"] ly assms by (simp add: arr_ok_def)
    also have "\<dots> = ?st @ replicate k d"
      using Cons by (simp add: k) (cases ys rule: rev_cases; simp)
    finally have s: "foldl (\<lambda>st i. st[i := st ! (i + 1)]) (store a) [0..<leng a - 1] = ?st @ drop (leng a) (store a)"
      using len by (simp add: k)
    let ?m = "a\<lparr>store := ?st @ drop (leng a) (store a)\<rparr>"
    have m: "arr_ok d ?m" "arr_list ?m = ?st" using replace_array [OF assms, of ?st] ly by auto
    have "snd (arr_shift d a) = arr_resize d (int (length ys)) ?m"
      using ly by (simp add: arr_shift_def s [simplified ly, simplified])
    then show ?thesis using resize_array [OF m(1), of "length ys"] m(2) Cons ly by simp
  qed
  then show "arr_ok d (snd (arr_shift d a))" "arr_list (snd (arr_shift d a)) = tl (arr_list a)"
    by blast+
qed

lemma copy_array:
  assumes "arr_ok d a"
  shows "arr_copy d a = \<lparr>leng = leng a, store = arr_list a, expand = True\<rparr>"
    and "arr_ok d (arr_copy d a)" "arr_list (arr_copy d a) = arr_list a"
proof -
  show c: "arr_copy d a = \<lparr>leng = leng a, store = arr_list a, expand = True\<rparr>"
    using assms copy_loop [of "leng a" "replicate (leng a) d" "store a"]
    by (simp add: arr_copy_def arr_new_def arr_ok_def arr_list_def)
  show "arr_ok d (arr_copy d a)" "arr_list (arr_copy d a) = arr_list a"
    using assms unfolding c by (auto simp: arr_ok_def arr_list_def)
qed

text \<open>Indexing.\<close>

lemma at_array:
  assumes "arr_ok d a" "arr_at d i a = Some b"
  shows "arr_ok d b" "0 \<le> i" "nat i < leng b"
    and "arr_list b = arr_list a @ replicate (Suc (nat i) - leng a) d"
proof -
  have i: "0 \<le> i" using assms(2) by (auto simp: arr_at_def split: if_splits)
  have "i + 1 = int (Suc (nat i))" using i by simp
  then have b: "b = (if int (leng a) \<le> i then arr_resize d (int (Suc (nat i))) a else a)"
    using assms(2) unfolding arr_at_def by (simp split: if_splits add: add.commute [of i])
  show "0 \<le> i" by (rule i)
  show "arr_ok d b" "nat i < leng b" "arr_list b = arr_list a @ replicate (Suc (nat i) - leng a) d"
    using i assms(1) resize_array [OF assms(1), of "Suc (nat i)"] resize_store(2) [OF assms(1), of "Suc (nat i)"]
    unfolding b by (auto simp: nat_less_iff not_le le_nat_iff)
qed

section \<open>Properties\<close>

text \<open>The array is a list: every operation that changes the length keeps the invariant and acts on
  the contents as the list operation it is named after; \<open>length(n)\<close> cuts or pads with default values,
  whatever the block held there before, and a negative length gives back the unused capacity.\<close>

theorem array_as_list:
  assumes "arr_ok d a"
  shows "(arr_ok d (arr_push d x a) \<and> arr_list (arr_push d x a) = arr_list a @ [x])
   \<and> (arr_ok d (arr_unshift d x a) \<and> arr_list (arr_unshift d x a) = x # arr_list a)
   \<and> (case arr_pop d a of (e, b) \<Rightarrow> arr_ok d b \<and> arr_list b = butlast (arr_list a)
        \<and> e = (if arr_list a = [] then None else Some (last (arr_list a))))
   \<and> (case arr_shift d a of (e, b) \<Rightarrow> arr_ok d b \<and> arr_list b = tl (arr_list a)
        \<and> e = (if arr_list a = [] then None else Some (hd (arr_list a))))
   \<and> (arr_ok d (arr_resize d (int n) a)
        \<and> arr_list (arr_resize d (int n) a) = take n (arr_list a) @ replicate (n - length (arr_list a)) d)
   \<and> (arr_ok d (arr_resize d (-1) a) \<and> arr_list (arr_resize d (-1) a) = arr_list a
        \<and> cap (arr_resize d (-1) a) = length (arr_list a))"
  using push_array [OF assms, of x] unshift_array [OF assms, of x] pop_array [OF assms]
    shift_array [OF assms] resize_array [OF assms, of n] shrink_to_fit [OF assms, of "-1"] assms
  by (simp add: case_prod_beta)

text \<open>A block of four whose last two elements are free.\<close>

theorem array_as_list_witness:
  "arr_list (arr_unshift 0 9 \<lparr>leng = 2, store = [1, 2, 0, 0], expand = True\<rparr>) = [9, 1, 2 :: nat]
   \<and> fst (arr_pop 0 \<lparr>leng = 2, store = [1, 2, 0, 0], expand = True\<rparr>) = Some (2 :: nat)"
proof -
  have ok: "arr_ok 0 \<lparr>leng = 2, store = [1, 2, 0, 0 :: nat], expand = True\<rparr>"
    by (simp add: arr_ok_def numeral_2_eq_2)
  show ?thesis
    using array_as_list [OF ok, of 9 0] by (simp add: arr_list_def numeral_2_eq_2 split: prod.splits)
qed

text \<open>The elements \<open>_realloc\<close> copies in a push, and a run of pushes with their total.\<close>

definition push_copies :: "'a sarr \<Rightarrow> nat" where
  "push_copies a = (if leng a + 1 > cap a then leng a else 0)"

fun push_all :: "'a \<Rightarrow> 'a list \<Rightarrow> nat \<times> 'a sarr \<Rightarrow> nat \<times> 'a sarr" where
  "push_all d [] s = s"
| "push_all d (x # xs) (n, a) = push_all d xs (n + push_copies a, arr_push d x a)"

definition arr_empty :: "'a sarr" where
  "arr_empty = \<lparr>leng = 0, store = [], expand = True\<rparr>"

lemma push_cap:
  assumes "arr_ok d a"
  shows "cap (arr_push d x a) = (if leng a < cap a then cap a else if cap a = 0 then 8 else 2 * cap a)"
  using assms by (auto simp: arr_push_def arr_resize_def realloc_def Let_def arr_ok_def)

definition copy_bound :: "nat \<times> 'a sarr \<Rightarrow> bool" where
  "copy_bound s = (case s of (n, a) \<Rightarrow>
     (n = 0 \<and> cap a = 0 \<and> leng a = 0) \<or> (n + 8 = cap a \<and> (cap a = 8 \<or> cap a < 2 * leng a)))"

lemma leng_push: "arr_ok d a \<Longrightarrow> leng (arr_push d x a) = Suc (leng a)"
  using push_array [of d a x] by (metis length_append_singleton length_arr_list)

lemma push_copy_bound:
  assumes "arr_ok d a" "copy_bound (n, a)"
  shows "copy_bound (n + push_copies a, arr_push d x a)"
proof -
  have "leng a \<le> cap a" using assms(1) by (simp add: arr_ok_def)
  then show ?thesis
    using assms(2) unfolding copy_bound_def push_copies_def
    by (simp add: push_cap [OF assms(1)] leng_push [OF assms(1)]) (auto split: if_splits)
qed

lemma push_all_bound:
  "arr_ok d a \<Longrightarrow> copy_bound (n, a) \<Longrightarrow>
   (case push_all d xs (n, a) of (m, b) \<Rightarrow> arr_ok d b \<and> copy_bound (m, b) \<and> arr_list b = arr_list a @ xs)"
proof (induction xs arbitrary: n a)
  case (Cons x xs)
  note IH = Cons.IH [OF push_array(1) push_copy_bound, OF Cons.prems(1) Cons.prems]
  from IH [of x] push_array(2) [OF Cons.prems(1), of x] show ?case by (simp split: prod.splits)
qed simp

text \<open>Appending is amortised constant: any number of pushes into an empty array copies fewer than
  two elements for each push in total, and the block is never more than eight elements larger than
  twice the contents.\<close>

theorem push_amortised:
  "case push_all d xs (0, arr_empty) of (copies, a) \<Rightarrow>
     arr_list a = xs \<and> copies \<le> 2 * length xs \<and> cap a \<le> 8 + 2 * length xs"
proof -
  have "arr_ok d arr_empty" "copy_bound (0, arr_empty)"
    by (auto simp: arr_ok_def arr_empty_def copy_bound_def)
  from push_all_bound [OF this, of xs] show ?thesis
    by (auto simp: copy_bound_def arr_empty_def arr_list_def [of "\<lparr>leng = 0, store = [], expand = True\<rparr>"]
        dest: length_arr_list split: prod.splits)
qed

end
