(* ===== verification/StdString.thy ===== *)
theory StdString
  imports DynArray "HOL-Library.Monad_Syntax" "HOL-Library.Char_ord" "HOL-Library.List_Lexorder"
begin

text \<open>
  The string class of \<open>src/src/classes/ts2/c++/stdString.cpp\<close>: a growing array of bytes whose text
  ends at the first NUL.  The code works on the block through raw pointers, so the model does too: a
  pointer into a block is a position in its \<open>store\<close>, and a read or write past the block is
  \<^term>\<open>None\<close>, as is a panic and the use of a null string.  A \<open>const char *\<close> argument is the list of
  the bytes from the pointer to the end of what may be read there.

  Methods that only read answer a value; the \<open>&ary[0]\<close> they begin with gives an array of length zero
  its first, zero element, which is what \<open>mem\<close> looks at.  The regular expressions (\<open>rx\<close> and its
  variables) are calls of the C library and not modelled, nor are the readings of numbers by
  \<open>sscanf\<close>; the text that \<open>snprintf\<close> makes is an argument of the formatting constructor.
\<close>

section \<open>C strings in memory\<close>

abbreviation NUL :: char where
  "NUL \<equiv> CHR 0x00"

type_synonym cstr = "char sarr"

fun strlen :: "char list \<Rightarrow> nat option" where
  "strlen [] = None"
| "strlen (c # cs) = (if c = NUL then Some 0 else map_option Suc (strlen cs))"

fun strcmp :: "char list \<Rightarrow> char list \<Rightarrow> int option" where
  "strcmp (a # as) (b # bs) =
     (if a \<noteq> b then Some (if (of_char a :: nat) < of_char b then -1 else 1)
      else if a = NUL then Some 0 else strcmp as bs)"
| "strcmp _ _ = None"

text \<open>Reading and writing a run of bytes.\<close>

definition peek :: "int \<Rightarrow> nat \<Rightarrow> char list \<Rightarrow> char list option" where
  "peek i n m = (if 0 \<le> i \<and> nat i + n \<le> length m then Some (take n (drop (nat i) m)) else None)"

definition poke :: "nat \<Rightarrow> char list \<Rightarrow> char list \<Rightarrow> char list option" where
  "poke i xs m = (if i + length xs \<le> length m then Some (take i m @ xs @ drop (i + length xs) m) else None)"

definition strcpy :: "nat \<Rightarrow> char list \<Rightarrow> char list \<Rightarrow> char list option" where
  "strcpy i src m = do { n \<leftarrow> strlen src; poke i (take (Suc n) src) m }"

section \<open>The string object\<close>

definition mem :: "cstr \<Rightarrow> char list option" where
  "mem s = map_option store (arr_at NUL 0 s)"

definition write_at :: "nat \<Rightarrow> (char list \<Rightarrow> char list option) \<Rightarrow> cstr \<Rightarrow> cstr option" where
  "write_at i f s =
     do { s1 \<leftarrow> arr_at NUL (int i) s; m \<leftarrow> f (store s1); Some (s1\<lparr>store := m\<rparr>) }"

definition str_length :: "cstr \<Rightarrow> nat option" where
  "str_length s = do { m \<leftarrow> mem s; strlen m }"

definition str_set_length :: "int \<Rightarrow> cstr \<Rightarrow> cstr option" where
  "str_set_length len s =
     (if len < 0 then Some (arr_resize NUL (-1) s)
      else arr_write NUL len NUL (arr_resize NUL (len + 1) s))"

subsection \<open>Constructors\<close>

definition str_new :: "char list sptr \<Rightarrow> cstr option" where
  "str_new str =
     (case str of
        None \<Rightarrow> Some (arr_new NUL 0)
      | Some src \<Rightarrow>
          do {
            n \<leftarrow> strlen src;
            s \<leftarrow> str_set_length (int n + 1) (arr_new NUL 0);
            write_at 0 (strcpy 0 src) s
          })"



text \<open>The four formatting constructors; \<open>out\<close> is the full text of the format and its datum.\<close>

definition str_format :: "nat \<Rightarrow> char list \<Rightarrow> char list \<Rightarrow> cstr option" where
  "str_format sz fmt out =
     do {
       n \<leftarrow> strlen fmt;
       if n > sz then None
       else do {
         let buffer = take (sz - 1) out @ [NUL];
         len \<leftarrow> strlen buffer;
         s \<leftarrow> str_set_length (int len) (arr_new NUL 0);
         write_at 0 (poke 0 (take (len + 1) buffer)) s
       }
     }"

definition str_of_char :: "char \<Rightarrow> cstr option" where
  "str_of_char ch = arr_write NUL 0 ch (arr_new NUL 2) \<bind> arr_write NUL 1 NUL"

definition str_empty :: cstr where
  "str_empty = arr_new NUL 1"

text \<open>The loop of the substring constructor reads a byte before it tests the bound.\<close>

fun scan :: "int \<Rightarrow> int \<Rightarrow> char list \<Rightarrow> int option" where
  "scan ep len [] = None"
| "scan ep len (c # cs) = (if c \<noteq> NUL \<and> len < ep then scan ep (len + 1) cs else Some len)"

definition cut :: "char list \<Rightarrow> int \<Rightarrow> int \<Rightarrow> cstr option" where
  "cut str sp e =
     (if e \<le> sp then str_set_length 0 (arr_new NUL 1)
      else do {
        s \<leftarrow> str_set_length (e - sp) (arr_new NUL 1);
        bytes \<leftarrow> peek sp (nat (e - sp)) str;
        s \<leftarrow> write_at 0 (poke 0 bytes) s;
        arr_write NUL (e - sp) NUL s
      })"

definition str_sub :: "char list \<Rightarrow> int \<Rightarrow> int \<Rightarrow> cstr option" where
  "str_sub str sp ep =
     do {
       len \<leftarrow> scan ep 0 str;
       if len \<ge> ep then cut str sp ep else cut str sp len
     }"

definition str_sub_obj :: "cstr \<Rightarrow> int \<Rightarrow> int \<Rightarrow> cstr option" where
  "str_sub_obj str sp ep =
     do {
       m \<leftarrow> mem str;
       pt \<leftarrow> str_sub m sp ep;
       n \<leftarrow> str_length pt;
       s \<leftarrow> str_set_length (int n) (arr_new NUL 1);
       pm \<leftarrow> mem pt;
       write_at 0 (strcpy 0 pm) s
     }"

definition str_from :: "cstr \<Rightarrow> int \<Rightarrow> cstr option" where
  "str_from str sp = str_sub_obj str sp 0x7fffffff"

subsection \<open>Concatenation\<close>



text \<open>\<open>s->addIn(s)\<close>: source and destination are the same block, byte by byte.\<close>

function strcpy_same :: "nat \<Rightarrow> nat \<Rightarrow> char list \<Rightarrow> char list option" where
  "strcpy_same t i m =
     (if t + i < length m
      then if m ! i = NUL then Some (m[t + i := NUL]) else strcpy_same t (i + 1) (m[t + i := m ! i])
      else None)"
  by auto
termination by (relation "measure (\<lambda>(t, i, m). length m - (t + i))") auto

declare strcpy_same.simps [simp del]

definition str_addIn_self :: "cstr \<Rightarrow> cstr option" where
  "str_addIn_self this =
     do {
       tlen \<leftarrow> str_length this;
       write_at tlen (strcpy_same tlen 0) (arr_resize NUL (int (tlen + tlen + 1)) this)
     }"

subsection \<open>Comparison and case\<close>

definition str_cmp :: "cstr \<Rightarrow> cstr sptr \<Rightarrow> int option" where
  "str_cmp this str =
     do {
       m \<leftarrow> mem this;
       case str of
         None \<Rightarrow> Some (if hd m = NUL then 0 else 1)
       | Some t \<Rightarrow> do { tm \<leftarrow> mem t; strcmp m tm }
     }"

definition str_cmp_c :: "cstr \<Rightarrow> char list sptr \<Rightarrow> int option" where
  "str_cmp_c this str =
     do {
       m \<leftarrow> mem this;
       case str of
         None \<Rightarrow> Some (if hd m = NUL then 0 else -1)
       | Some t \<Rightarrow> strcmp m t
     }"

definition str_partial_cmp :: "cstr \<Rightarrow> char list \<Rightarrow> int option" where
  "str_partial_cmp this str =
     do {
       len \<leftarrow> str_length this;
       n \<leftarrow> strlen str;
       if len > n then Some (-1)
       else do {
         m \<leftarrow> mem this;
         r \<leftarrow> strcmp m str;
         if r = 0 then Some 0
         else do {
           a \<leftarrow> peek 0 len m;
           b \<leftarrow> peek 0 len str;
           Some (if a = b then 1 else -1)
         }
       }
     }"






subsection \<open>Fixed-size buffers\<close>

definition str_copyout :: "cstr \<Rightarrow> char list \<Rightarrow> nat \<Rightarrow> char list option" where
  "str_copyout this dest sz =
     do {
       len \<leftarrow> str_length this;
       m \<leftarrow> mem this;
       if len \<ge> sz then do { bytes \<leftarrow> peek 0 sz m; poke 0 bytes dest }
       else strcpy 0 m dest
     }"

fun scan_size :: "nat \<Rightarrow> nat \<Rightarrow> char list \<Rightarrow> nat option" where
  "scan_size sz len buf =
     (if len < sz then
        (case buf of
           [] \<Rightarrow> None
         | c # cs \<Rightarrow> if c \<noteq> NUL then scan_size sz (len + 1) cs else Some len)
      else Some len)"

definition str_copyin :: "cstr \<Rightarrow> char list \<Rightarrow> nat \<Rightarrow> cstr option" where
  "str_copyin this dest sz =
     do {
       len \<leftarrow> scan_size sz 0 dest;
       if len < sz then do {
         s \<leftarrow> str_set_length (int len) this;
         write_at 0 (strcpy 0 dest) s
       } else do {
         s \<leftarrow> str_set_length (int sz) this;
         bytes \<leftarrow> peek 0 sz dest;
         s \<leftarrow> write_at 0 (poke 0 bytes) s;
         arr_write NUL (int sz) NUL s
       }
     }"

subsection \<open>Percent encoding\<close>

definition unreserved :: "char \<Rightarrow> bool" where
  "unreserved ch =
     (CHR ''0'' \<le> ch \<and> ch \<le> CHR ''9'' \<or> CHR ''a'' \<le> ch \<and> ch \<le> CHR ''z'' \<or> CHR ''A'' \<le> ch \<and> ch \<le> CHR ''Z''
      \<or> ch = CHR ''-'' \<or> ch = CHR ''.'' \<or> ch = CHR ''_'' \<or> ch = CHR 0x7E)"

definition hexdigit :: "nat \<Rightarrow> char" where
  "hexdigit n = ''0123456789ABCDEF'' ! n"

fun encode_loop :: "char list \<Rightarrow> char list option" where
  "encode_loop [] = None"
| "encode_loop (ch # p1) =
     (if ch = NUL then Some []
      else if unreserved ch then map_option ((#) ch) (encode_loop p1)
      else map_option (\<lambda>p2. CHR ''%'' # hexdigit (of_char ch div 16) # hexdigit (of_char ch mod 16) # p2)
             (encode_loop p1))"

text \<open>The bytes written through \<open>p2\<close> and the final NUL go into the buffer, from its start.\<close>

definition str_percent_encode :: "cstr \<Rightarrow> cstr option" where
  "str_percent_encode this =
     do {
       len \<leftarrow> str_length this;
       m \<leftarrow> mem this;
       out \<leftarrow> encode_loop m;
       buffer \<leftarrow> poke 0 (out @ [NUL]) (replicate (len * 3 + 1) NUL);
       str_new (Some buffer)
     }"

definition hexval :: "char \<Rightarrow> nat option" where
  "hexval ch =
     (if CHR ''0'' \<le> ch \<and> ch \<le> CHR ''9'' then Some (of_char ch - 48)
      else if CHR ''a'' \<le> ch \<and> ch \<le> CHR ''f'' then Some (of_char ch - 97 + 10)
      else if CHR ''A'' \<le> ch \<and> ch \<le> CHR ''F'' then Some (of_char ch - 65 + 10)
      else None)"

text \<open>
  The decoder takes one or two bytes after a percent sign without testing for the end: a byte that
  is no digit, the NUL among them, is written as it is and the loop goes on behind it.
\<close>

fun decode_loop :: "char list \<Rightarrow> char list option" where
  "decode_loop [] = None"
| "decode_loop (c # p1) =
     (if c = NUL then Some []
      else if c \<noteq> CHR ''%'' then map_option ((#) c) (decode_loop p1)
      else
        (case p1 of
           [] \<Rightarrow> None
         | c1 # p2 \<Rightarrow>
             (case hexval c1 of
                None \<Rightarrow> map_option ((#) c1) (decode_loop p2)
              | Some h \<Rightarrow>
                  (case p2 of
                     [] \<Rightarrow> None
                   | c2 # p3 \<Rightarrow>
                       (case hexval c2 of
                          None \<Rightarrow> map_option ((#) c2) (decode_loop p3)
                        | Some l \<Rightarrow> map_option ((#) (char_of (h * 16 + l))) (decode_loop p3))))))"

definition str_percent_decode :: "cstr \<Rightarrow> cstr option" where
  "str_percent_decode this =
     do {
       len \<leftarrow> str_length this;
       m \<leftarrow> mem this;
       out \<leftarrow> decode_loop m;
       buffer \<leftarrow> poke 0 (out @ [NUL]) (replicate (len + 1) NUL);
       str_new (Some buffer)
     }"

section \<open>Text of a string and the invariant\<close>

definition str_text :: "cstr \<Rightarrow> string" where
  "str_text s = takeWhile (\<lambda>c. c \<noteq> NUL) (arr_list s)"

definition str_ok :: "cstr \<Rightarrow> bool" where
  "str_ok s = (arr_ok NUL s \<and> expand s \<and> (leng s = 0 \<or> NUL \<in> set (arr_list s)))"

text \<open>Memory that holds the C string \<open>t\<close>.\<close>

definition cstring :: "string \<Rightarrow> char list \<Rightarrow> bool" where
  "cstring t m = (NUL \<notin> set t \<and> (\<exists>r. m = t @ NUL # r))"

lemma strlen_cstring [simp]: "cstring t m \<Longrightarrow> strlen m = Some (length t)"
  by (induction t arbitrary: m) (auto simp: cstring_def)

lemma take_cstring [simp]: "cstring t m \<Longrightarrow> take (Suc (length t)) m = t @ [NUL]"
  by (auto simp: cstring_def)

lemma strcpy_cstring [simp]: "cstring t m \<Longrightarrow> strcpy i m st = poke i (t @ [NUL]) st"
  by (simp add: strcpy_def)

lemma cstring_text: "NUL \<in> set l \<Longrightarrow> cstring (takeWhile (\<lambda>c. c \<noteq> NUL) l) (l @ r)"
  unfolding cstring_def
  by (induction l) (auto simp: cstring_def dest: set_takeWhileD)

lemma takeWhile_cstring: "NUL \<notin> set t \<Longrightarrow> takeWhile (\<lambda>c. c \<noteq> NUL) (t @ NUL # r) = t"
  by (induction t) auto

lemma text_no_NUL [simp]: "NUL \<notin> set (str_text s)"
  by (auto simp: str_text_def dest: set_takeWhileD)

lemma at_touch:
  assumes "arr_ok NUL s" "expand s"
  obtains s1 where "arr_at NUL (int i) s = Some s1" "arr_ok NUL s1" "expand s1" "i < leng s1"
    "arr_list s1 = arr_list s @ replicate (Suc i - leng s) NUL"
proof -
  obtain s1 where s1: "arr_at NUL (int i) s = Some s1"
    using assms by (auto simp: arr_at_def)
  moreover have "expand s1"
    using s1 assms resize_store(3) [OF assms(1), of "Suc i"] by (auto simp: arr_at_def add.commute split: if_splits)
  ultimately show ?thesis using at_array [OF assms(1) s1] that by simp
qed

lemma mem_text:
  assumes "str_ok s"
  obtains m where "mem s = Some m" "cstring (str_text s) m"
proof -
  obtain s1 where s1: "arr_at NUL 0 s = Some s1" "arr_ok NUL s1" "arr_list s1 = arr_list s @ replicate (1 - leng s) NUL"
    using at_touch [of s 0] assms unfolding str_ok_def by auto
  have len: "length (arr_list s) = leng s" using assms by (auto simp: str_ok_def intro: length_arr_list)
  obtain k where k: "store s1 = arr_list s1 @ replicate k NUL" using arr_okE [OF s1(2)] by blast
  have "cstring (str_text s) (store s1)"
  proof (cases "leng s = 0")
    case True
    then show ?thesis using len s1(3) k by (simp add: str_text_def cstring_def)
  next
    case False
    then have "NUL \<in> set (arr_list s)" using assms by (simp add: str_ok_def)
    then show ?thesis using cstring_text k s1(3) by (simp add: str_text_def)
  qed
  with that s1(1) show ?thesis by (simp add: mem_def)
qed

lemma length_text [simp]: "str_ok s \<Longrightarrow> str_length s = Some (length (str_text s))"
  by (erule mem_text) (simp add: str_length_def)

text \<open>Writing inside the length.\<close>

lemma write_inside:
  assumes "arr_ok NUL s" "i + length xs \<le> leng s" "xs \<noteq> []"
  obtains s' where "write_at i (poke i xs) s = Some s'" "arr_ok NUL s'" "expand s' = expand s" "leng s' = leng s"
    "arr_list s' = take i (arr_list s) @ xs @ drop (i + length xs) (arr_list s)"
proof -
  obtain k where k: "store s = arr_list s @ replicate k NUL" "length (arr_list s) = leng s"
    using arr_okE [OF assms(1)] .
  have "i < leng s" using assms(2,3) by (cases xs) auto
  then have at: "arr_at NUL (int i) s = Some s" by (simp add: arr_at_def)
  let ?l = "take i (arr_list s) @ xs @ drop (i + length xs) (arr_list s)"
  have "poke i xs (store s) = Some (?l @ replicate k NUL)"
    using k assms(2) by (simp add: poke_def)
  then have w: "write_at i (poke i xs) s = Some (s\<lparr>store := ?l @ replicate k NUL\<rparr>)"
    by (simp add: write_at_def at)
  have "length ?l = leng s" using k(2) assms(2) by simp
  then show ?thesis
    using that [OF w] arr_okI [of "s\<lparr>store := ?l @ replicate k NUL\<rparr>" ?l k NUL] by simp
qed

lemma write_byte_inside:
  assumes "arr_ok NUL s" "i < leng s"
  obtains s' where "arr_write NUL (int i) c s = Some s'" "arr_ok NUL s'" "expand s' = expand s" "leng s' = leng s"
    "arr_list s' = (arr_list s)[i := c]"
  using assms that [of "s\<lparr>store := (store s)[i := c]\<rparr>"] update_array [OF assms, of c]
  by (simp add: arr_write_def arr_at_def)

lemma set_length_text:
  assumes "arr_ok NUL s" "expand s"
  obtains s' where "str_set_length (int n) s = Some s'" "arr_ok NUL s'" "expand s'" "leng s' = Suc n"
    "arr_list s' ! n = NUL" "take n (arr_list s') = take n (arr_list s) @ replicate (n - leng s) NUL"
proof -
  let ?b = "arr_resize NUL (int (Suc n)) s"
  have b: "arr_ok NUL ?b" "leng ?b = Suc n" "expand ?b"
    using resize_array(1) [OF assms(1), of "Suc n"] resize_store(2,3) [OF assms(1), of "Suc n"] assms(2) by auto
  obtain s' where s': "arr_write NUL (int n) NUL ?b = Some s'" "arr_ok NUL s'" "expand s' = expand ?b" "leng s' = leng ?b"
    "arr_list s' = (arr_list ?b)[n := NUL]"
    using write_byte_inside [OF b(1), of n NUL] b(2) by auto
  have len: "length (arr_list ?b) = Suc n" using b by simp
  have "take n (arr_list s') = take n (arr_list ?b)" unfolding s'(5) by simp
  also have "\<dots> = take n (arr_list s) @ replicate (n - leng s) NUL"
    unfolding resize_array(2) [OF assms(1)] using assms(1) by (simp add: min_def)
  finally show ?thesis
    using that [of s'] s' b len by (simp add: str_set_length_def add.commute)
qed

lemma new_expand [simp]: "expand (arr_new d n)"
  by (simp add: arr_new_def)

lemmas new_length = set_length_text [OF new_array(1) new_expand]

text \<open>A text and its NUL written to the start make a well-formed string with that text.\<close>

lemma write_text:
  assumes "arr_ok NUL s" "expand s" "length t < leng s" "NUL \<notin> set t"
  obtains s' where "write_at 0 (poke 0 (t @ [NUL])) s = Some s'" "str_ok s'" "str_text s' = t"
proof -
  obtain s' where s': "write_at 0 (poke 0 (t @ [NUL])) s = Some s'" "arr_ok NUL s'" "expand s' = expand s"
    "arr_list s' = (t @ [NUL]) @ drop (Suc (length t)) (arr_list s)"
    using write_inside [OF assms(1), of 0 "t @ [NUL]"] assms(3) by auto
  then show ?thesis
    using that [OF s'(1)] assms(2,4) takeWhile_cstring [OF assms(4)] by (simp add: str_ok_def str_text_def)
qed

lemma write_cstring:
  assumes "arr_ok NUL s" "expand s" "length t < leng s" "cstring t src"
  obtains s' where "write_at 0 (strcpy 0 src) s = Some s'" "str_ok s'" "str_text s' = t"
proof -
  have "write_at 0 (strcpy 0 src) s = write_at 0 (poke 0 (t @ [NUL])) s"
    using assms(4) by (simp add: write_at_def)
  moreover have "NUL \<notin> set t" using assms(4) by (simp add: cstring_def)
  ultimately show ?thesis using write_text [OF assms(1-3)] that by metis
qed

section \<open>Constructors\<close>

lemma new_str_ok [simp]: "str_ok (arr_new NUL n)" "str_text (arr_new NUL n) = []"
  by (cases n; simp add: str_ok_def str_text_def new_array arr_new_def [of _ 0] arr_new_def [of _ "Suc _"]
        arr_ok_def arr_list_def)+

lemma str_new_text:
  assumes "cstring t src"
  obtains s where "str_new (Some src) = Some s" "str_ok s" "str_text s = t"
proof -
  obtain s1 where s1: "str_set_length (int (Suc (length t))) (arr_new NUL 0) = Some s1" "arr_ok NUL s1" "expand s1"
    "leng s1 = Suc (Suc (length t))"
    by (rule new_length)
  obtain s2 where "write_at 0 (strcpy 0 src) s1 = Some s2" "str_ok s2" "str_text s2 = t"
    using write_cstring [OF s1(2,3) _ assms] s1(4) by auto
  with that s1(1) assms show ?thesis by (simp add: str_new_def add.commute)
qed


lemma str_format_text:
  assumes "cstring f fmt" "length f \<le> sz" "NUL \<notin> set out"
  obtains s where "str_format sz fmt out = Some s" "str_ok s" "str_text s = take (sz - 1) out"
proof -
  let ?t = "take (sz - 1) out"
  have t: "cstring ?t (?t @ [NUL])" using assms(3) by (auto simp: cstring_def dest: in_set_takeD)
  obtain s1 where s1: "str_set_length (int (length ?t)) (arr_new NUL 0) = Some s1" "arr_ok NUL s1" "expand s1"
    "leng s1 = Suc (length ?t)"
    by (rule new_length)
  obtain s2 where "write_at 0 (poke 0 (?t @ [NUL])) s1 = Some s2" "str_ok s2" "str_text s2 = ?t"
    using write_text [OF s1(2,3), of ?t] s1(4) t by (auto simp: cstring_def)
  with that s1(1) assms(1,2) strlen_cstring [OF t] take_cstring [OF t] show ?thesis
    by (simp add: str_format_def del: length_take)
qed

lemma str_of_char_text:
  obtains s where "str_of_char c = Some s" "str_ok s" "str_text s = (if c = NUL then [] else [c])"
proof -
  let ?s = "\<lparr>leng = 2, store = [c, NUL], expand = True\<rparr>"
  have "str_of_char c = Some ?s"
    by (simp add: str_of_char_def arr_write_def arr_at_def arr_new_def numeral_2_eq_2)
  moreover have "str_ok ?s" "str_text ?s = (if c = NUL then [] else [c])"
    by (auto simp: str_ok_def str_text_def arr_ok_def arr_list_def)
  ultimately show ?thesis using that by blast
qed





section \<open>Concatenation\<close>




text \<open>Appending a string to itself copies over its own NUL and runs off the block.\<close>

lemma strcpy_same_runs_off:
  assumes "\<forall>j < t + i. j < length m \<longrightarrow> m ! j \<noteq> NUL" "0 < t"
  shows "strcpy_same t i m = None"
  using assms
proof (induction t i m rule: strcpy_same.induct)
  case (1 t i m)
  show ?case
  proof (cases "t + i < length m")
    case True
    then have "m ! i \<noteq> NUL" using 1 by simp
    moreover have "\<forall>j < t + (i + 1). j < length (m[t + i := m ! i]) \<longrightarrow> m[t + i := m ! i] ! j \<noteq> NUL"
      using 1 calculation by (auto simp: nth_list_update less_Suc_eq)
    ultimately show ?thesis using 1 True by (subst strcpy_same.simps) simp
  next
    case False
    then show ?thesis by (subst strcpy_same.simps) simp
  qed
qed

lemma addIn_self:
  assumes "str_ok s" "str_text s \<noteq> []"
  shows "str_addIn_self s = None"
proof -
  let ?u = "str_text s" and ?b = "arr_resize NUL (int (length (str_text s) + length (str_text s) + 1)) s"
  have s': "arr_ok NUL s" "expand s" using assms by (auto simp: str_ok_def)
  have b: "leng ?b = length ?u + length ?u + 1" "arr_ok NUL ?b"
    by (simp_all only: resize_array(1) [OF s'(1)] resize_store(2) [OF s'(1)])
  have "length ?u \<le> length (arr_list s)" by (simp add: str_text_def length_takeWhile_le)
  then have "take (length ?u) (arr_list ?b) = ?u"
    unfolding resize_array(2) [OF s'(1)] by (simp add: str_text_def takeWhile_eq_take [symmetric])
  moreover obtain k where "store ?b = arr_list ?b @ replicate k NUL" using arr_okE [OF b(2)] by blast
  moreover have "length ?u \<le> length (arr_list ?b)" using b by (simp add: length_arr_list [OF b(2)])
  ultimately have u: "take (length ?u) (store ?b) = ?u" by simp
  have "\<forall>j < length ?u + 0. j < length (store ?b) \<longrightarrow> store ?b ! j \<noteq> NUL"
  proof (intro allI impI)
    fix j assume "j < length ?u + 0"
    then have "store ?b ! j = ?u ! j" by (subst u [symmetric]) simp
    then show "store ?b ! j \<noteq> NUL" using text_no_NUL [of s] \<open>j < length ?u + 0\<close> by (metis add_0_right nth_mem)
  qed
  then have "strcpy_same (length ?u) 0 (store ?b) = None" using strcpy_same_runs_off assms(2) by blast
  moreover have "arr_at NUL (int (length ?u)) ?b = Some ?b" using b by (simp add: arr_at_def)
  ultimately have "write_at (length ?u) (strcpy_same (length ?u) 0) ?b = None" by (simp add: write_at_def)
  then show ?thesis using assms(1) by (simp add: str_addIn_self_def)
qed

section \<open>Comparison, case and fixed-size buffers\<close>

lemma cstring_simps:
  "cstring [] m \<longleftrightarrow> (\<exists>r. m = NUL # r)"
  "cstring (c # t) m \<longleftrightarrow> c \<noteq> NUL \<and> (\<exists>m'. m = c # m' \<and> cstring t m')"
  by (auto simp: cstring_def)

lemma of_char_zero: "(of_char c :: nat) = 0 \<longleftrightarrow> c = NUL"
  using of_char_eq_iff [where ?'a = nat, of c NUL] by simp

lemma strcmp_text:
  "cstring a m \<Longrightarrow> cstring b m' \<Longrightarrow> strcmp m m' = Some (if a = b then 0 else if a < b then -1 else 1)"
proof (induction a arbitrary: b m m')
  case Nil
  then show ?case
    by (cases b) (auto simp: cstring_simps of_char_zero intro: gr0I)
next
  case (Cons c a)
  show ?case
  proof (cases b)
    case Nil
    then show ?thesis using Cons.prems by (auto simp: cstring_simps)
  next
    case b: (Cons c' b')
    obtain n n' where "m = c # n" "m' = c' # n'" "c \<noteq> NUL" "cstring a n" "cstring b' n'"
      using Cons.prems unfolding b cstring_simps by blast
    then show ?thesis
      using Cons.IH [of n b' n'] b by (auto simp: less_char_def)
  qed
qed


lemma cmp_null:
  assumes "str_ok s"
  shows "str_cmp s None = Some (if str_text s = [] then 0 else 1)"
    and "str_cmp_c s None = Some (if str_text s = [] then 0 else -1)"
proof -
  obtain m where m: "mem s = Some m" "cstring (str_text s) m" using mem_text [OF assms] .
  then have "hd m = NUL \<longleftrightarrow> str_text s = []" by (cases "str_text s") (auto simp: cstring_def)
  then show "str_cmp s None = Some (if str_text s = [] then 0 else 1)"
      "str_cmp_c s None = Some (if str_text s = [] then 0 else -1)"
    using m(1) by (simp_all add: str_cmp_def str_cmp_c_def)
qed

lemma partial_cmp_text:
  assumes "str_ok s" "cstring t tm"
  shows "str_partial_cmp s tm
    = Some (if str_text s = t then 0 else if take (length (str_text s)) t = str_text s then 1 else -1)"
proof -
  obtain m where m: "mem s = Some m" "cstring (str_text s) m" using mem_text [OF assms(1)] .
  have p: "peek 0 n m' = Some (take n a)" if "cstring a m'" "n \<le> length a" for n m' a
    using that by (auto simp: peek_def cstring_def)
  show ?thesis
  proof (cases "length (str_text s) \<le> length t")
    case True
    then show ?thesis
      using m(1) strlen_cstring [OF assms(2)] strcmp_text [OF m(2) assms(2)] p [OF m(2) order_refl] p [OF assms(2) True] assms(1)
      by (auto simp: str_partial_cmp_def)
  next
    case False
    then show ?thesis using assms by (auto simp: str_partial_cmp_def)
  qed
qed





text \<open>What \<open>copyout\<close> leaves in a buffer of the given size, and what \<open>copyin\<close> makes of one.\<close>

lemma copyout_text:
  assumes "str_ok s" "length dest = n"
  shows "str_copyout s dest n =
    Some (if n \<le> length (str_text s) then take n (str_text s)
          else str_text s @ NUL # drop (Suc (length (str_text s))) dest)"
proof -
  obtain m where m: "mem s = Some m" "cstring (str_text s) m" using mem_text [OF assms(1)] .
  then have "n \<le> length (str_text s) \<Longrightarrow> peek 0 n m = Some (take n (str_text s))"
    by (auto simp: peek_def cstring_def)
  then show ?thesis
    using m assms by (auto simp: str_copyout_def poke_def)
qed

lemma scan_size_steps [simp]:
  "n \<le> k \<Longrightarrow> scan_size n k m = Some k"
  "k < n \<Longrightarrow> scan_size n k (c # cs) = (if c = NUL then Some k else scan_size n (Suc k) cs)"
  by (subst scan_size.simps, simp)+

declare scan_size.simps [simp del]

lemma scan_size_text:
  "cstring t m \<Longrightarrow> scan_size n k m = Some (if n \<le> k then k else min n (k + length t))"
proof (induction t arbitrary: m k)
  case (Cons c t)
  then show ?case by (cases "k < n"; cases "Suc k < n") (auto simp: cstring_simps min_def)
qed (cases "n \<le> k"; auto simp: cstring_simps not_le min_def)

lemma scan_size_full: "NUL \<notin> set m \<Longrightarrow> k + length m = n \<Longrightarrow> scan_size n k m = Some n"
proof (induction m arbitrary: k)
  case (Cons c m)
  from Cons.IH [of "Suc k"] Cons.prems show ?case by auto
qed simp

lemma copyin_text:
  assumes "str_ok s" "length dest = n"
  obtains s' where "str_copyin s dest n = Some s'" "str_ok s'" "str_text s' = takeWhile (\<lambda>c. c \<noteq> NUL) dest"
proof (cases "NUL \<in> set dest")
  case True
  let ?t = "takeWhile (\<lambda>c. c \<noteq> NUL) dest"
  have t: "cstring ?t dest" using cstring_text [OF True, of "[]"] by simp
  then obtain r where "dest = ?t @ NUL # r" unfolding cstring_def by blast
  from arg_cong [OF this, of length] have len: "length ?t < n" using assms(2) by simp
  have s: "arr_ok NUL s" "expand s" using assms(1) by (auto simp: str_ok_def)
  obtain s1 where s1: "str_set_length (int (length ?t)) s = Some s1" "arr_ok NUL s1" "expand s1" "leng s1 = Suc (length ?t)"
    using set_length_text [OF s, of "length ?t"] by metis
  obtain s2 where "write_at 0 (strcpy 0 dest) s1 = Some s2" "str_ok s2" "str_text s2 = ?t"
    using write_cstring [OF s1(2,3) _ t] s1(4) by auto
  with that s1(1) len scan_size_text [OF t, of n 0] show ?thesis by (simp add: str_copyin_def)
next
  case False
  have s: "arr_ok NUL s" "expand s" using assms(1) by (auto simp: str_ok_def)
  obtain s1 where s1: "str_set_length (int n) s = Some s1" "arr_ok NUL s1" "expand s1" "leng s1 = Suc n"
    "arr_list s1 ! n = NUL"
    using set_length_text [OF s, of n] by metis
  have len: "length (arr_list s1) = Suc n" using length_arr_list [OF s1(2)] s1(4) by simp
  have "\<exists>s2. write_at 0 (poke 0 dest) s1 = Some s2 \<and> arr_ok NUL s2 \<and> expand s2 \<and> leng s2 = Suc n
      \<and> take n (arr_list s2) = dest"
  proof (cases "dest = []")
    case True
    have "arr_at NUL 0 s1 = Some s1" using s1(4) by (simp add: arr_at_def)
    then have "write_at 0 (poke 0 dest) s1 = Some s1" using True by (simp add: write_at_def poke_def)
    then show ?thesis using True assms(2) s1 by auto
  next
    case ne: False
    obtain s2 where "write_at 0 (poke 0 dest) s1 = Some s2" "arr_ok NUL s2" "expand s2 = expand s1" "leng s2 = leng s1"
      "arr_list s2 = take 0 (arr_list s1) @ dest @ drop (0 + length dest) (arr_list s1)"
      using write_inside [OF s1(2) _ ne, of 0] s1(4) assms(2) by auto
    then show ?thesis using s1(3,4) assms(2) by auto
  qed
  then obtain s2 where s2: "write_at 0 (poke 0 dest) s1 = Some s2" "arr_ok NUL s2" "expand s2" "leng s2 = Suc n"
    "take n (arr_list s2) = dest" by blast
  obtain s3 where s3: "arr_write NUL (int n) NUL s2 = Some s3" "arr_ok NUL s3" "expand s3 = expand s2"
    "arr_list s3 = (arr_list s2)[n := NUL]"
    using write_byte_inside [OF s2(2), of n NUL] s2(4) by auto
  have "length (arr_list s2) = Suc n" using length_arr_list [OF s2(2)] s2(4) by simp
  then have "arr_list s3 = dest @ [NUL]"
    unfolding s3(4) using s2(5) by (metis lessI list_update_length take_Suc_conv_app_nth take_all order_refl length_take min.absorb2 le_SucI)
  then have "str_ok s3" "str_text s3 = dest"
    using s3 s2(3) takeWhile_cstring [OF False, of "[]"] by (simp_all add: str_ok_def str_text_def)
  moreover have "str_copyin s dest n = Some s3"
    using scan_size_full [OF False, of 0 n] assms(2) s1(1) s2(1) s3(1) by (simp add: str_copyin_def peek_def)
  moreover have "takeWhile (\<lambda>c. c \<noteq> NUL) dest = dest" using False by (auto simp: takeWhile_eq_all_conv)
  ultimately show ?thesis using that by metis
qed

section \<open>Percent encoding\<close>

definition encoded :: "string \<Rightarrow> string" where
  "encoded t = concat (map (\<lambda>ch. if unreserved ch then [ch]
     else [CHR ''%'', hexdigit (of_char ch div 16), hexdigit (of_char ch mod 16)]) t)"

lemma hexval_hexdigit: "n < 16 \<Longrightarrow> hexval (hexdigit n) = Some n"
proof -
  have "list_all (\<lambda>n. hexval (hexdigit n) = Some n) [0..<16]" by code_simp
  then show "n < 16 \<Longrightarrow> hexval (hexdigit n) = Some n" by (simp add: list_all_iff)
qed

lemma hexdigit_unreserved: "n < 16 \<Longrightarrow> unreserved (hexdigit n)"
proof -
  have "list_all (\<lambda>n. unreserved (hexdigit n)) [0..<16]" by code_simp
  then show "n < 16 \<Longrightarrow> unreserved (hexdigit n)" by (simp add: list_all_iff)
qed

lemma unreserved_plain: "unreserved c \<Longrightarrow> c \<noteq> NUL \<and> c \<noteq> CHR ''%''"
  by (auto simp: unreserved_def less_eq_char_def)

lemma char_halves: "of_char c div 16 < (16 :: nat)" "of_char c mod 16 < (16 :: nat)"
  "char_of (of_char c div 16 * 16 + of_char c mod 16 :: nat) = c"
  by (simp_all add: less_mult_imp_div_less)

lemma encode_loop_text: "cstring t m \<Longrightarrow> encode_loop m = Some (encoded t)"
  by (induction t arbitrary: m) (auto simp: cstring_simps encoded_def)

lemma encoded_chars: "c \<in> set (encoded t) \<Longrightarrow> unreserved c \<or> c = CHR ''%''"
  by (auto simp: encoded_def hexdigit_unreserved char_halves split: if_splits)

lemma encoded_no_NUL: "NUL \<notin> set (encoded t)"
  using encoded_chars [of NUL t] unreserved_plain by auto

lemma length_encoded: "length (encoded t) \<le> 3 * length t"
  by (induction t) (auto simp: encoded_def)

lemma decode_encoded: "decode_loop (encoded t @ NUL # r) = Some t"
proof (induction t)
  case (Cons c t)
  have enc: "encoded (c # t) = (if unreserved c then [c]
     else [CHR ''%'', hexdigit (of_char c div 16), hexdigit (of_char c mod 16)]) @ encoded t"
    by (simp add: encoded_def)
  show ?case
    using Cons unreserved_plain [of c] char_halves [of c]
    unfolding enc by (auto simp: hexval_hexdigit)
qed (simp add: encoded_def)

text \<open>A result written into a zeroed buffer that is large enough becomes a string with that text.\<close>

lemma buffer_text:
  assumes "NUL \<notin> set t" "length t \<le> n"
  obtains b s where "poke 0 (t @ [NUL]) (replicate (n + 1) NUL) = Some b" "str_new (Some b) = Some s" "str_ok s"
    "str_text s = t"
proof -
  have b: "poke 0 (t @ [NUL]) (replicate (n + 1) NUL) = Some (t @ NUL # replicate (n - length t) NUL)"
    using assms(2) by (simp add: poke_def)
  have "cstring t (t @ NUL # replicate (n - length t) NUL)" using assms(1) by (auto simp: cstring_def)
  from str_new_text [OF this] b that show ?thesis by metis
qed

lemma percent_encode_text:
  assumes "str_ok s"
  obtains s' where "str_percent_encode s = Some s'" "str_ok s'" "str_text s' = encoded (str_text s)"
proof -
  obtain m where m: "mem s = Some m" "cstring (str_text s) m" using mem_text [OF assms] .
  obtain b s' where "poke 0 (encoded (str_text s) @ [NUL]) (replicate (length (str_text s) * 3 + 1) NUL) = Some b"
    "str_new (Some b) = Some s'" "str_ok s'" "str_text s' = encoded (str_text s)"
    using buffer_text [OF encoded_no_NUL, of "str_text s" "length (str_text s) * 3"] length_encoded [of "str_text s"]
    by (metis mult.commute)
  with that m assms encode_loop_text [OF m(2)] show ?thesis by (simp add: str_percent_encode_def)
qed

lemma percent_decode_text:
  assumes "str_ok s" "str_text s = encoded t" "NUL \<notin> set t"
  obtains s' where "str_percent_decode s = Some s'" "str_ok s'" "str_text s' = t"
proof -
  obtain m where m: "mem s = Some m" "cstring (encoded t) m" using mem_text [OF assms(1)] assms(2) by metis
  have d: "decode_loop m = Some t" using m(2) decode_encoded by (auto simp: cstring_def)
  have "length t \<le> length (encoded t)" by (induction t) (auto simp: encoded_def)
  then obtain b s' where "poke 0 (t @ [NUL]) (replicate (length (encoded t) + 1) NUL) = Some b"
    "str_new (Some b) = Some s'" "str_ok s'" "str_text s' = t"
    using buffer_text [OF assms(3)] by metis
  with that m d assms(1,2) show ?thesis by (simp add: str_percent_decode_def)
qed

section \<open>Properties\<close>

text \<open>C38: Percent encoding round trip: for every well-formed string the encoder stays inside its buffer
  of three bytes for each byte, its result is a well-formed string of unreserved characters and percent
  signs only, and decoding that result gives the text back.\<close>

theorem percent_roundtrip:
  assumes "str_ok s"
  shows "\<exists>e d. str_percent_encode s = Some e \<and> str_percent_decode e = Some d
    \<and> str_ok e \<and> list_all (\<lambda>c. unreserved c \<or> c = CHR ''%'') (str_text e)
    \<and> str_ok d \<and> str_text d = str_text s"
proof -
  obtain e where e: "str_percent_encode s = Some e" "str_ok e" "str_text e = encoded (str_text s)"
    using percent_encode_text [OF assms] .
  obtain d where "str_percent_decode e = Some d" "str_ok d" "str_text d = str_text s"
    using percent_decode_text [OF e(2,3) text_no_NUL] .
  then show ?thesis using e encoded_chars by (auto simp: list_all_iff)
qed

text \<open>A text with a percent sign, a space and a byte above 127.\<close>

definition sample :: cstr where
  "sample = \<lparr>leng = 4, store = [CHR ''%'', CHR 0x20, CHR 0xE3, NUL], expand = True\<rparr>"

lemma sample_ok: "str_ok sample" "str_text sample = [CHR ''%'', CHR 0x20, CHR 0xE3]"
  by (auto simp: sample_def str_ok_def str_text_def arr_ok_def arr_list_def)

theorem percent_roundtrip_witness:
  "\<exists>e d. str_percent_encode sample = Some e \<and> str_percent_decode e = Some d
    \<and> str_ok e \<and> str_ok d \<and> str_text d = [CHR ''%'', CHR 0x20, CHR 0xE3]"
  using percent_roundtrip [OF sample_ok(1)] by (auto simp: sample_ok(2))

text \<open>
  The decoder on text the encoder did not make: behind a percent sign at the very end it takes the NUL
  for a character and reads on past the block.
\<close>

theorem decode_past_the_end:
  "decode_loop (t @ [CHR ''%'', NUL]) = None \<or> (\<exists>c \<in> set t. c = CHR ''%'' \<or> c = NUL)"
  by (induction t) (auto simp: hexval_def less_eq_char_def)



text \<open>A string through a buffer of fixed size: \<open>copyout\<close> fills the buffer and never writes past it,
  and \<open>copyin\<close> of the buffer gives the text back, cut to the size of the buffer.\<close>

theorem buffer_roundtrip:
  assumes "str_ok s" "str_ok s'" "length dest = n"
  shows "\<exists>b r. str_copyout s dest n = Some b \<and> length b = n
    \<and> str_copyin s' b n = Some r \<and> str_ok r \<and> str_text r = take n (str_text s)"
proof -
  let ?u = "str_text s"
  let ?b = "if n \<le> length ?u then take n ?u else ?u @ NUL # drop (Suc (length ?u)) dest"
  have b: "str_copyout s dest n = Some ?b" "length ?b = n"
    using copyout_text [OF assms(1,3)] assms(3) by auto
  obtain r where r: "str_copyin s' ?b n = Some r" "str_ok r" "str_text r = takeWhile (\<lambda>c. c \<noteq> NUL) ?b"
    using copyin_text [OF assms(2) b(2)] .
  have "NUL \<notin> set (take n ?u)" using text_no_NUL [of s] by (auto dest: in_set_takeD)
  then have "takeWhile (\<lambda>c. c \<noteq> NUL) (take n ?u) = take n ?u" by (auto simp: takeWhile_eq_all_conv)
  then have "takeWhile (\<lambda>c. c \<noteq> NUL) ?b = take n ?u"
    using takeWhile_cstring [OF text_no_NUL, of s] by simp
  then show ?thesis using b r by metis
qed

theorem buffer_roundtrip_witness:
  "\<exists>b r. str_copyout sample (replicate 2 NUL) 2 = Some b \<and> str_copyin str_empty b 2 = Some r
     \<and> str_text r = [CHR ''%'', CHR 0x20]"
proof -
  have "str_ok str_empty" by (simp add: str_empty_def)
  from buffer_roundtrip [OF sample_ok(1) this, of "replicate 2 NUL" 2] show ?thesis
    by (auto simp: sample_ok(2) numeral_2_eq_2)
qed

end
