(* ===== verification/Endian.thy ===== *)
theory Endian
  imports Prelude "HOL-Library.Word"
begin

unbundle bit_operations_syntax

text \<open>
  Byte order, \<open>src/src/classes/ts2/c++/sEndian.cpp\<close> and \<open>src/src/h/ts2/c++/sEndian.h\<close>: integers of up
  to seven bytes written to and read from a buffer in either order, and the reversal of a value in
  place.  A byte is an \<open>8 word\<close>, an \<open>INTEGER64\<close> a \<open>64 word\<close>; a value of the template type is the list
  of its bytes in memory.  A panic, or an access outside the buffer, is \<^term>\<open>None\<close>.
\<close>

section \<open>Model\<close>

type_synonym byte = "8 word"

definition ENDIAN_BIG :: int where "ENDIAN_BIG = 1"
definition ENDIAN_LITTLE :: int where "ENDIAN_LITTLE = 0"

text \<open>\<open>swap(buf,len)\<close>: two pointers that move towards each other.\<close>

function swap_loop :: "int \<Rightarrow> int \<Rightarrow> byte list \<Rightarrow> byte list" where
  "swap_loop p1 p2 buf =
     (if p1 < p2
      then swap_loop (p1 + 1) (p2 - 1) (buf[nat p1 := buf ! nat p2, nat p2 := buf ! nat p1])
      else buf)"
  by auto
termination by (relation "measure (\<lambda>(p1, p2, buf). nat (p2 - p1))") auto

declare swap_loop.simps [simp del]

definition swap_bytes :: "byte list \<Rightarrow> nat \<Rightarrow> byte list option" where
  "swap_bytes buf len = (if len \<le> length buf then Some (swap_loop 0 (int len - 1) buf) else None)"

definition conv_read :: "byte list \<Rightarrow> nat \<Rightarrow> int \<Rightarrow> 64 word option" where
  "conv_read buf len endian =
     (if len \<ge> 8 \<or> length buf < len then None
      else
        map_option (\<lambda>tmp. foldl (\<lambda>ret i. ret OR push_bit (i * 8) (ucast (tmp ! i))) 0 [0..<len])
          (if endian = ENDIAN_BIG then swap_bytes (take len buf) len else Some (take len buf)))"

text \<open>The bytes \<open>conv(buf,inp,len,endian)\<close> writes, in order; \<open>>>\<close> of a signed value is arithmetic.\<close>

definition conv_write :: "64 word \<Rightarrow> nat \<Rightarrow> int \<Rightarrow> byte list option" where
  "conv_write inp len endian =
     (if len \<ge> 8 then None
      else Some (map (\<lambda>i. ucast (signed_drop_bit (8 * i) inp AND 0xff))
                   (if endian = ENDIAN_BIG then rev [0..<len] else [0..<len])))"

text \<open>The templates: \<open>conv\<close> answers the swapped copy, \<open>apply\<close> calls \<open>swap\<close> and drops what it answers.\<close>

definition swap_value :: "byte list \<Rightarrow> byte list option" where
  "swap_value inp = swap_bytes inp (length inp)"

definition conv_value :: "int \<Rightarrow> byte list \<Rightarrow> int \<Rightarrow> byte list option" where
  "conv_value cpu inp endian = (if cpu = endian then Some inp else swap_value inp)"

definition apply_value :: "int \<Rightarrow> byte list \<Rightarrow> int \<Rightarrow> byte list option" where
  "apply_value cpu inp endian =
     (if cpu = endian then Some inp else map_option (\<lambda>_. inp) (swap_value inp))"

section \<open>The reversal\<close>

lemma swap_loop_parts:
  "length m = k \<Longrightarrow>
   swap_loop (int (length pre)) (int (length pre) + int k - 1) (pre @ m @ post) = pre @ rev m @ post"
proof (induction k arbitrary: pre m post rule: less_induct)
  case (less k)
  show ?case
  proof (cases "k \<le> 1")
    case True
    then have "rev m = m" using less.prems by (cases m) auto
    with True show ?thesis by (subst swap_loop.simps) simp
  next
    case False
    then obtain a n b where m: "m = a # n @ [b]"
      using less.prems by (cases m; cases "tl m" rule: rev_cases) auto
    let ?p = "int (length pre)"
    have k: "k = length n + 2" using less.prems m by simp
    have "(pre @ m @ post)[nat ?p := (pre @ m @ post) ! nat (?p + int k - 1),
        nat (?p + int k - 1) := (pre @ m @ post) ! nat ?p] = (pre @ [b]) @ n @ (a # post)"
    proof -
      have i: "nat (?p + int k - 1) = length pre + Suc (length n)" using k by simp
      show ?thesis unfolding i m by (simp add: nth_append list_update_append)
    qed
    then have "swap_loop ?p (?p + int k - 1) (pre @ m @ post)
        = swap_loop (?p + 1) (?p + int k - 1 - 1) ((pre @ [b]) @ n @ (a # post))"
      using False by (subst swap_loop.simps) simp
    also have "\<dots> = (pre @ [b]) @ rev n @ (a # post)"
      using less.IH [of "length n" n "pre @ [b]" "a # post"] k by (simp add: algebra_simps)
    finally show ?thesis by (simp add: m)
  qed
qed

lemma swap_bytes_rev: "len \<le> length buf \<Longrightarrow> swap_bytes buf len = Some (rev (take len buf) @ drop len buf)"
  using swap_loop_parts [of "take len buf" len "[]" "drop len buf"] by (simp add: swap_bytes_def)

section \<open>Reading and writing\<close>

lemma bit_read:
  "m \<le> 8 \<Longrightarrow> m \<le> length tmp \<Longrightarrow>
   bit (foldl (\<lambda>ret i. ret OR push_bit (i * 8) (ucast (tmp ! i))) (0 :: 64 word) [0..<m]) n
   \<longleftrightarrow> n < 8 * m \<and> bit (tmp ! (n div 8) :: byte) (n mod 8)"
proof (induction m)
  case (Suc m)
  show ?case
  proof (cases "n div 8 = m")
    case True
    then have "n = m * 8 + n mod 8" by (metis div_mult_mod_eq)
    then have "n < 8 * Suc m" "\<not> n < 8 * m" "m * 8 \<le> n" "n - m * 8 = n mod 8" by auto
    moreover have "n < 64" "n mod 8 < 64" using calculation Suc.prems(1) by (simp_all add: less_trans [of _ 8])
    ultimately show ?thesis using Suc True by (simp add: bit_simps)
  next
    case False
    have "bit (push_bit (m * 8) (ucast (tmp ! m)) :: 64 word) n \<longleftrightarrow> False"
    proof -
      have "\<not> (m * 8 \<le> n \<and> n - m * 8 < 8)" using False by auto
      then show ?thesis by (auto simp: bit_simps dest: bit_imp_le_length)
    qed
    moreover have "n < 8 * Suc m \<longleftrightarrow> n < 8 * m" using False by auto
    ultimately show ?thesis using Suc by (auto simp: bit_or_iff)
  qed
qed simp

lemma bit_byte:
  "i < 8 \<Longrightarrow> bit (ucast (signed_drop_bit (8 * i) (inp :: 64 word) AND 0xff) :: byte) k
     \<longleftrightarrow> k < 8 \<and> bit inp (8 * i + k)"
proof -
  assume i: "i < 8"
  have ff: "(0xff :: 64 word) = mask 8" by (simp add: mask_eq_exp_minus_1)
  show ?thesis
  proof (cases "k < 8")
    case True
    then have "\<not> 64 - 8 * i \<le> k \<or> 8 * i + k = 63" "8 * i + k < 64" "k < 64" using i by auto
    then show ?thesis
      unfolding ff using True by (auto simp: bit_simps add.commute)
  next
    case False
    then show ?thesis by (simp add: bit_simps)
  qed
qed

text \<open>Writing the low bytes of an integer and reading them back in the same byte order gives the
  integer modulo \<open>2^(8*len)\<close>, and reading bytes and writing them back gives the bytes; both for every
  length below eight, in both orders.\<close>

theorem endian_roundtrip:
  assumes "len < 8" "length buf = len"
  shows "(\<exists>bs. conv_write inp len e = Some bs \<and> length bs = len
           \<and> conv_read bs len e = Some (take_bit (8 * len) inp))
    \<and> (\<exists>v. conv_read buf len e = Some v \<and> conv_write v len e = Some buf)"
proof
  let ?w = "map (\<lambda>i. ucast (signed_drop_bit (8 * i) inp AND 0xff)) [0..<len] :: byte list"
  let ?r = "\<lambda>tmp :: byte list. foldl (\<lambda>ret i. ret OR push_bit (i * 8) (ucast (tmp ! i))) (0 :: 64 word) [0..<len]"
  have swap: "swap_bytes bs len = Some (rev bs)" if "length bs = len" for bs
    using swap_bytes_rev [of len bs] that by simp
  have "?r ?w = take_bit (8 * len) inp"
  proof (rule bit_word_eqI)
    fix n
    have "n div 8 < len" if "n < 8 * len" using that by auto
    then show "bit (?r ?w) n = bit (take_bit (8 * len) inp) n"
      using assms(1) by (subst bit_read) (auto simp: bit_byte bit_take_bit_iff)
  qed
  then show "\<exists>bs. conv_write inp len e = Some bs \<and> length bs = len
       \<and> conv_read bs len e = Some (take_bit (8 * len) inp)"
    using assms(1) swap [of "rev ?w"] by (auto simp: conv_write_def conv_read_def rev_map)
  have wr: "map (\<lambda>i. ucast (signed_drop_bit (8 * i) (?r tmp) AND 0xff)) [0..<len] = tmp" if "length tmp = len" for tmp
  proof (rule nth_equalityI)
    fix i assume "i < length (map (\<lambda>i. ucast (signed_drop_bit (8 * i) (?r tmp) AND 0xff) :: byte) [0..<len])"
    then have i: "i < len" by simp
    show "map (\<lambda>i. ucast (signed_drop_bit (8 * i) (?r tmp) AND 0xff)) [0..<len] ! i = tmp ! i"
    proof (rule bit_word_eqI)
      fix k assume "k < LENGTH(8)"
      then have k: "(8 * i + k) div 8 = i" "(8 * i + k) mod 8 = k" "8 * i + k < 8 * len" and i8: "i < 8"
        using i assms(1) by auto
      have "bit (?r tmp) (8 * i + k) = bit (tmp ! i) k"
        using assms(1) that k by (subst bit_read) simp_all
      with bit_byte [OF i8, of "?r tmp" k] \<open>k < LENGTH(8)\<close> i
      show "bit (map (\<lambda>i. ucast (signed_drop_bit (8 * i) (?r tmp) AND 0xff) :: byte) [0..<len] ! i) k = bit (tmp ! i) k"
        by simp
    qed
  qed (use that in simp)
  show "\<exists>v. conv_read buf len e = Some v \<and> conv_write v len e = Some buf"
  proof (cases "e = ENDIAN_BIG")
    case True
    then show ?thesis
      using assms swap [OF assms(2)] wr [of "rev buf"]
      by (auto simp: conv_write_def conv_read_def rev_map [symmetric])
  next
    case False
    then show ?thesis using assms wr [of buf] by (auto simp: conv_write_def conv_read_def)
  qed
qed

theorem endian_roundtrip_witness:
  "conv_read [0x12, 0x34, 0x56] 3 ENDIAN_BIG = Some (0x123456 :: 64 word)
   \<and> (\<exists>v. conv_read [0x12, 0x34, 0x56] 3 ENDIAN_BIG = Some v \<and> conv_write v 3 ENDIAN_BIG = Some [0x12, 0x34, 0x56])"
proof -
  have "conv_write (0x123456 :: 64 word) 3 ENDIAN_BIG = Some [0x12, 0x34, 0x56]"
    by (simp add: conv_write_def upt_rec)
  then show ?thesis
    using endian_roundtrip [of 3 "[0x12, 0x34, 0x56]" "0x123456" ENDIAN_BIG] by simp
qed

text \<open>Eight bytes, which the temporary buffer would hold, are refused; and \<open>apply\<close> changes nothing.\<close>

lemma eight_bytes_refused: "conv_read buf 8 e = None" "conv_write inp 8 e = None"
  by (simp_all add: conv_read_def conv_write_def)

lemma apply_changes_nothing: "apply_value cpu inp endian = Some inp"
  by (simp add: apply_value_def swap_value_def swap_bytes_def)

end
