(* ===== verification/Listeners.thy ===== *)
theory Listeners
  imports Prelude
begin

text \<open>
  Who listens to whom: the listener lists of \<open>src/src/classes/ts2/c++/tinyState.cpp\<close> and the handles of
  \<open>src/src/classes/ts2/c++/stdEventHandle.cpp\<close>.  An object keeps, for each type of event, a queue of
  handles of those that listen to it (\<open>event_listener\<close>), and one list of the handles by which it
  listens to others (\<open>handle_list\<close>).  A handle names both ends.

  Objects and handles are numbers; the queues are lists of handles (the refinement of \<open>stdQueue\<close> to
  lists is the theory \<open>StdQueueRefine\<close>: insertion under the largest key appends, insertion under key 0
  into a list whose keys are all 0 puts in front).  Every method holds the lock of its object, so a
  method is one step, except \<open>invoke_listen\<close>, which delivers after releasing it: there the world may
  change between two deliveries, by an arbitrary function of the model's parameter.
\<close>

section \<open>Model\<close>

definition TSE_MAX :: int where "TSE_MAX = 21"

record eh =
  source :: "nat sptr"
  listener :: "nat sptr"
  eh_type :: int
  handler :: nat

record lworld =
  is_ZOM :: "nat \<Rightarrow> bool"
  zom_class :: "nat \<Rightarrow> bool"
  has_queues :: "nat \<Rightarrow> bool"
  event_listener :: "nat \<Rightarrow> int \<Rightarrow> nat list sptr"
  handle_list :: "nat \<Rightarrow> nat list sptr"
  handles :: "nat \<Rightarrow> eh"
  fresh :: nat

definition in_queues :: "int \<Rightarrow> bool" where
  "in_queues type = (0 \<le> type \<and> type < TSE_MAX)"

definition listenerCounter :: "nat \<Rightarrow> int \<Rightarrow> lworld \<Rightarrow> nat" where
  "listenerCounter this type w =
     (if \<not> in_queues type \<or> is_ZOM w this \<or> \<not> has_queues w this then 0
      else case event_listener w this type of None \<Rightarrow> 0 | Some q \<Rightarrow> length q)"

definition ins_handle_list :: "nat \<Rightarrow> nat \<Rightarrow> lworld \<Rightarrow> lworld" where
  "ins_handle_list this h w =
     w\<lparr>handle_list := (handle_list w)(this := Some (case handle_list w this of None \<Rightarrow> [h] | Some q \<Rightarrow> h # q))\<rparr>"

text \<open>
  \<open>add_listener\<close>; the default handler is \<open>0\<close>.  \<open>event_listener.length(TSE_MAX)\<close> makes the queues of
  all types available, at first all null.
\<close>

definition add_listener :: "nat \<Rightarrow> nat \<Rightarrow> int \<Rightarrow> nat \<Rightarrow> lworld \<Rightarrow> nat sptr \<times> lworld" where
  "add_listener this lsn type hdl w =
     (if \<not> in_queues type \<or> is_ZOM w this \<or> is_ZOM w lsn then (None, w)
      else
        let q = (case (if has_queues w this then event_listener w this type else None) of
                   None \<Rightarrow> [] | Some q \<Rightarrow> q);
            old = (if has_queues w this then event_listener w this else (\<lambda>_. None));
            h = fresh w
        in (Some h, ins_handle_list lsn h
             (w\<lparr>has_queues := (has_queues w)(this := True),
                event_listener := (event_listener w)(this := old(type := Some (q @ [h]))),
                handles := (handles w)(h := \<lparr>source = Some this, listener = Some lsn, eh_type = type, handler = hdl\<rparr>),
                fresh := Suc h\<rparr>)))"

text \<open>\<open>search_listen\<close> leaves out type 0; the handle is the first one of the listener.\<close>

definition search_listen :: "nat \<Rightarrow> int \<Rightarrow> nat \<Rightarrow> lworld \<Rightarrow> nat sptr" where
  "search_listen this type lsn w =
     (if \<not> has_queues w this \<or> type \<le> 0 \<or> type \<ge> TSE_MAX then None
      else case event_listener w this type of
             None \<Rightarrow> None
           | Some q \<Rightarrow> find (\<lambda>h. listener (handles w h) = Some lsn) q)"

definition listen :: "nat \<Rightarrow> nat sptr \<Rightarrow> int \<Rightarrow> nat \<Rightarrow> lworld \<Rightarrow> nat sptr \<times> lworld" where
  "listen this lsn type hdl w =
     (case lsn of
        None \<Rightarrow> (None, w)
      | Some l \<Rightarrow>
          (case search_listen this type l w of
             Some h \<Rightarrow> (Some h, w)
           | None \<Rightarrow> add_listener this l type hdl w))"

text \<open>\<open>remove_handle(eh)\<close> for a handle, the leaf of every removal.\<close>

definition remove_handle :: "nat \<Rightarrow> nat \<Rightarrow> lworld \<Rightarrow> lworld" where
  "remove_handle this h w =
     w\<lparr>handle_list := (handle_list w)(this := map_option (remove1 h) (handle_list w this))\<rparr>"

definition remove_listener :: "nat \<Rightarrow> nat \<Rightarrow> lworld \<Rightarrow> lworld" where
  "remove_listener this h w =
     (let t = eh_type (handles w h);
          w1 = (if has_queues w this
                then w\<lparr>event_listener := (event_listener w)(this := (event_listener w this)(t :=
                        map_option (remove1 h) (event_listener w this t)))\<rparr>
                else w)
      in case listener (handles w1 h) of None \<Rightarrow> w1 | Some l \<Rightarrow> remove_handle l h w1)"

text \<open>\<open>stdEventHandle::remove\<close>: both ends are cleared first, then each side takes the handle out.\<close>

definition eh_remove :: "nat \<Rightarrow> lworld \<Rightarrow> lworld" where
  "eh_remove h w =
     (let src = source (handles w h); lsn = listener (handles w h);
          w1 = w\<lparr>handles := (handles w)(h := (handles w h)\<lparr>source := None, listener := None\<rparr>)\<rparr>;
          w2 = (case src of None \<Rightarrow> w1 | Some s \<Rightarrow> remove_listener s h w1)
      in case lsn of None \<Rightarrow> w2 | Some l \<Rightarrow> remove_handle l h w2)"

text \<open>\<open>remove_handle(thNULL)\<close>: the whole list is taken over, then every handle of it removed.\<close>

definition remove_all :: "nat \<Rightarrow> lworld \<Rightarrow> lworld" where
  "remove_all this w =
     (case handle_list w this of
        None \<Rightarrow> w
      | Some drained \<Rightarrow> fold eh_remove drained (w\<lparr>handle_list := (handle_list w)(this := None)\<rparr>))"

definition get_handle_list :: "nat \<Rightarrow> int \<Rightarrow> lworld \<Rightarrow> nat list sptr" where
  "get_handle_list this type w =
     (if zom_class w this then None
      else case handle_list w this of
             None \<Rightarrow> None
           | Some q \<Rightarrow> Some (if type = 0 then q else filter (\<lambda>h. eh_type (handles w h) = type) q))"

definition clean_stdEventHandle :: "nat \<Rightarrow> int \<Rightarrow> lworld \<Rightarrow> lworld" where
  "clean_stdEventHandle this type w =
     (case get_handle_list this type w of None \<Rightarrow> w | Some q \<Rightarrow> fold eh_remove q w)"

text \<open>
  \<open>invoke_listen\<close>: what happens under the lock (which handles are to be served, and with
  \<open>clearFlag\<close> the queue is taken away), and the deliveries.  \<open>deliver l\<close> is whatever the handler of
  listener \<open>l\<close> does to the world; a handler called with a null listener dereferences it.
\<close>

definition invoke_begin :: "nat \<Rightarrow> int \<Rightarrow> bool \<Rightarrow> lworld \<Rightarrow> nat list \<times> lworld" where
  "invoke_begin this type clearFlag w =
     (if \<not> has_queues w this \<or> type \<le> 0 \<or> type \<ge> TSE_MAX then ([], w)
      else case event_listener w this type of
             None \<Rightarrow> ([], w)
           | Some q \<Rightarrow>
               if q = [] then ([], w)
               else if clearFlag
                 then (q, w\<lparr>event_listener := (event_listener w)(this := (event_listener w this)(type := None))\<rparr>)
                 else (q, w))"

fun invoke_loop :: "(nat \<Rightarrow> lworld \<Rightarrow> lworld) \<Rightarrow> nat sptr \<Rightarrow> nat list \<Rightarrow> lworld \<Rightarrow> (nat list \<times> lworld) option" where
  "invoke_loop deliver except [] w = Some ([], w)"
| "invoke_loop deliver except (h # nq) w =
     (if listener (handles w h) = except then invoke_loop deliver except nq w
      else case listener (handles w h) of
             None \<Rightarrow> None
           | Some l \<Rightarrow> map_option (apfst ((#) l)) (invoke_loop deliver except nq (deliver l w)))"

definition invoke_listen ::
    "(nat \<Rightarrow> lworld \<Rightarrow> lworld) \<Rightarrow> nat \<Rightarrow> int \<Rightarrow> nat sptr \<Rightarrow> bool \<Rightarrow> lworld \<Rightarrow> (nat list \<times> lworld) option" where
  "invoke_listen deliver this type except clearFlag w =
     (let (nq, w1) = invoke_begin this type clearFlag w in invoke_loop deliver except nq w1)"

text \<open>The worlds the operations lead to, from one without any listener.\<close>

definition lworld_init :: lworld where
  "lworld_init = \<lparr>is_ZOM = (\<lambda>_. False), zom_class = (\<lambda>_. False), has_queues = (\<lambda>_. False),
     event_listener = (\<lambda>_ _. None), handle_list = (\<lambda>_. None),
     handles = (\<lambda>_. \<lparr>source = None, listener = None, eh_type = 0, handler = 0\<rparr>), fresh = 0\<rparr>"

inductive lreach :: "lworld \<Rightarrow> bool" where
  init: "lreach lworld_init"
| state: "lreach w \<Longrightarrow> lreach (w\<lparr>is_ZOM := z, zom_class := c\<rparr>)"
| add: "lreach w \<Longrightarrow> lreach (snd (add_listener s l t hdl w))"
| listen: "lreach w \<Longrightarrow> lreach (snd (listen s l t hdl w))"
| remove: "lreach w \<Longrightarrow> lreach (eh_remove h w)"
| remove_listener: "lreach w \<Longrightarrow> source (handles w h) = Some s \<Longrightarrow> lreach (remove_listener s h w)"
| remove_all: "lreach w \<Longrightarrow> lreach (remove_all l w)"
| clean: "lreach w \<Longrightarrow> lreach (clean_stdEventHandle l t w)"
| invoke: "lreach w \<Longrightarrow> lreach (snd (invoke_begin s t c w))"

section \<open>The two sides of every handle\<close>

definition qs :: "lworld \<Rightarrow> nat \<Rightarrow> int \<Rightarrow> nat list" where
  "qs w s t = (case event_listener w s t of None \<Rightarrow> [] | Some q \<Rightarrow> q)"

definition hl :: "lworld \<Rightarrow> nat \<Rightarrow> nat list" where
  "hl w l = (case handle_list w l of None \<Rightarrow> [] | Some q \<Rightarrow> q)"

text \<open>
  Every queued handle names the object and type of its queue and a listener that has it in its list,
  or is one of those (\<open>D\<close>) whose removal is under way; every handle of a list names the list's owner;
  nothing is there twice.
\<close>

definition linked_but :: "nat set \<Rightarrow> lworld \<Rightarrow> bool" where
  "linked_but D w \<longleftrightarrow>
     (\<forall>s t h. h \<in> set (qs w s t) \<longrightarrow>
        source (handles w h) = Some s \<and> eh_type (handles w h) = t
        \<and> listener (handles w h) \<noteq> None
        \<and> (\<forall>l. listener (handles w h) = Some l \<longrightarrow> h \<in> set (hl w l) \<or> h \<in> D))
     \<and> (\<forall>l h. h \<in> set (hl w l) \<longrightarrow> listener (handles w h) = Some l)
     \<and> (\<forall>s t. distinct (qs w s t) \<and> (\<forall>h \<in> set (qs w s t). h < fresh w))
     \<and> (\<forall>l. distinct (hl w l) \<and> (\<forall>h \<in> set (hl w l). h < fresh w))
     \<and> (\<forall>s. \<not> has_queues w s \<longrightarrow> event_listener w s = (\<lambda>_. None))"

lemma linked_queuedD:
  "linked_but D w \<Longrightarrow> h \<in> set (qs w s t) \<Longrightarrow>
   source (handles w h) = Some s \<and> eh_type (handles w h) = t
   \<and> listener (handles w h) \<noteq> None
   \<and> (\<forall>l. listener (handles w h) = Some l \<longrightarrow> h \<in> set (hl w l) \<or> h \<in> D)"
  unfolding linked_but_def by blast

lemma linked_listD: "linked_but D w \<Longrightarrow> h \<in> set (hl w l) \<Longrightarrow> listener (handles w h) = Some l"
  unfolding linked_but_def by blast

lemma linked_distinct: "linked_but D w \<Longrightarrow> distinct (qs w s t)" "linked_but D w \<Longrightarrow> distinct (hl w l)"
  unfolding linked_but_def by blast+

lemma linked_fresh:
  "linked_but D w \<Longrightarrow> h \<in> set (qs w s t) \<Longrightarrow> h < fresh w"
  "linked_but D w \<Longrightarrow> h \<in> set (hl w l) \<Longrightarrow> h < fresh w"
  unfolding linked_but_def by blast+

lemma linked_none: "linked_but D w \<Longrightarrow> \<not> has_queues w s \<Longrightarrow> event_listener w s t = None"
  unfolding linked_but_def by metis

subsection \<open>What the operations do to the lists\<close>

lemma ins_handle_list_lists [simp]:
  "qs (ins_handle_list l h w) = qs w" "hl (ins_handle_list l h w) l' = (if l' = l then h # hl w l else hl w l')"
  "handles (ins_handle_list l h w) = handles w" "fresh (ins_handle_list l h w) = fresh w"
  "has_queues (ins_handle_list l h w) = has_queues w"
  "event_listener (ins_handle_list l h w) = event_listener w"
  by (auto simp: ins_handle_list_def qs_def hl_def fun_eq_iff split: option.splits)

lemma remove_handle_lists [simp]:
  "qs (remove_handle l h w) = qs w" "hl (remove_handle l h w) l' = (if l' = l then remove1 h (hl w l) else hl w l')"
  "handles (remove_handle l h w) = handles w" "fresh (remove_handle l h w) = fresh w"
  "has_queues (remove_handle l h w) = has_queues w"
  "event_listener (remove_handle l h w) = event_listener w"
  by (auto simp: remove_handle_def qs_def hl_def fun_eq_iff split: option.splits)

lemma remove_listener_lists:
  assumes "\<not> has_queues w s \<Longrightarrow> event_listener w s = (\<lambda>_. None)"
  shows "qs (remove_listener s h w) s' t
      = (if s' = s \<and> t = eh_type (handles w h) then remove1 h (qs w s t) else qs w s' t)"
    and "hl (remove_listener s h w) l
      = (if listener (handles w h) = Some l then remove1 h (hl w l) else hl w l)"
    and "handles (remove_listener s h w) = handles w" "fresh (remove_listener s h w) = fresh w"
    and "has_queues (remove_listener s h w) = has_queues w"
    and "(event_listener (remove_listener s h w) s' t = None) = (event_listener w s' t = None)"
  using assms
  by (auto simp: remove_listener_def remove_handle_def qs_def hl_def Let_def split: option.splits if_splits)

lemma eh_remove_lists:
  assumes "\<And>s. \<not> has_queues w s \<Longrightarrow> event_listener w s = (\<lambda>_. None)"
  shows "qs (eh_remove h w) s t
      = (if source (handles w h) = Some s \<and> t = eh_type (handles w h) then remove1 h (qs w s t) else qs w s t)"
    and "hl (eh_remove h w) l
      = (if listener (handles w h) = Some l then remove1 h (hl w l) else hl w l)"
    and "handles (eh_remove h w) = (handles w)(h := (handles w h)\<lparr>source := None, listener := None\<rparr>)"
    and "fresh (eh_remove h w) = fresh w" "has_queues (eh_remove h w) = has_queues w"
    and "(event_listener (eh_remove h w) s t = None) = (event_listener w s t = None)"
proof -
  define w1 where "w1 = w\<lparr>handles := (handles w)(h := (handles w h)\<lparr>source := None, listener := None\<rparr>)\<rparr>"
  have w1: "qs w1 = qs w" "hl w1 = hl w" "handles w1 h = (handles w h)\<lparr>source := None, listener := None\<rparr>"
    "handles w1 = (handles w)(h := (handles w h)\<lparr>source := None, listener := None\<rparr>)"
    "fresh w1 = fresh w" "has_queues w1 = has_queues w" "event_listener w1 = event_listener w"
    by (auto simp: w1_def qs_def hl_def fun_eq_iff)
  define w2 where "w2 = (case source (handles w h) of None \<Rightarrow> w1 | Some s \<Rightarrow> remove_listener s h w1)"
  have w2: "qs w2 s t = (if source (handles w h) = Some s \<and> t = eh_type (handles w h) then remove1 h (qs w s t) else qs w s t)"
    "hl w2 l = hl w l" "handles w2 = handles w1" "fresh w2 = fresh w" "has_queues w2 = has_queues w"
    "(event_listener w2 s t = None) = (event_listener w s t = None)" for s t l
    using remove_listener_lists [of w1] assms by (auto simp: w2_def w1 split: option.splits)
  have e: "eh_remove h w = (case listener (handles w h) of None \<Rightarrow> w2 | Some l \<Rightarrow> remove_handle l h w2)"
    unfolding eh_remove_def w2_def w1_def Let_def ..
  show "qs (eh_remove h w) s t
      = (if source (handles w h) = Some s \<and> t = eh_type (handles w h) then remove1 h (qs w s t) else qs w s t)"
    "hl (eh_remove h w) l = (if listener (handles w h) = Some l then remove1 h (hl w l) else hl w l)"
    "handles (eh_remove h w) = (handles w)(h := (handles w h)\<lparr>source := None, listener := None\<rparr>)"
    "fresh (eh_remove h w) = fresh w" "has_queues (eh_remove h w) = has_queues w"
    "(event_listener (eh_remove h w) s t = None) = (event_listener w s t = None)"
    by (auto simp: e w2 w1 split: option.splits)
qed

subsection \<open>They keep the two sides consistent\<close>

text \<open>Every operation but adding makes the lists smaller and keeps the handles that stay in them.\<close>

lemma linked_shrink:
  assumes w: "linked_but D w"
    and "\<And>s t. set (qs w' s t) \<subseteq> set (qs w s t)" "\<And>s t. distinct (qs w' s t)"
    and "\<And>l. set (hl w' l) \<subseteq> set (hl w l)" "\<And>l. distinct (hl w' l)"
    and "\<And>s t h. h \<in> set (qs w' s t) \<Longrightarrow> handles w' h = handles w h"
    and "\<And>l h. h \<in> set (hl w' l) \<Longrightarrow> handles w' h = handles w h"
    and stay: "\<And>s t l h. h \<in> set (qs w' s t) \<Longrightarrow> listener (handles w h) = Some l \<Longrightarrow> h \<in> set (hl w l) \<or> h \<in> D
      \<Longrightarrow> h \<in> set (hl w' l) \<or> h \<in> D'"
    and "fresh w' = fresh w" "has_queues w' = has_queues w"
    and "\<And>s t. event_listener w s t = None \<Longrightarrow> event_listener w' s t = None"
  shows "linked_but D' w'"
  unfolding linked_but_def
proof (intro conjI allI impI ballI)
  fix s t h assume h: "h \<in> set (qs w' s t)"
  then have "h \<in> set (qs w s t)" using assms(2) by blast
  note d = linked_queuedD [OF w this]
  show "source (handles w' h) = Some s" "eh_type (handles w' h) = t" "listener (handles w' h) \<noteq> None"
    using d assms(6) [OF h] by simp_all
  show "h \<in> set (hl w' l) \<or> h \<in> D'" if "listener (handles w' h) = Some l" for l
    using stay [OF h, of l] d that assms(6) [OF h] by simp
next
  fix l h assume h: "h \<in> set (hl w' l)"
  then show "listener (handles w' h) = Some l"
    using assms(4) assms(7) [OF h] linked_listD [OF w, of h l] by auto
next
  fix s assume "\<not> has_queues w' s"
  then show "event_listener w' s = (\<lambda>_. None)" using linked_none [OF w, of s] assms(10,11) by auto
qed (use assms(2-5,9) linked_fresh [OF w] in \<open>simp_all add: subset_iff, blast+\<close>)

lemma linked_nones: "linked_but D w \<Longrightarrow> \<not> has_queues w s \<Longrightarrow> event_listener w s = (\<lambda>_. None)"
  unfolding linked_but_def by blast

lemma eh_remove_linked:
  assumes "linked_but (insert h D) w"
  shows "linked_but D (eh_remove h w)"
proof -
  note e = eh_remove_lists [OF linked_nones [OF assms]]
  have q: "h' \<in> set (qs (eh_remove h w) s t) \<longleftrightarrow> h' \<in> set (qs w s t) \<and> h' \<noteq> h" for h' s t
    using linked_queuedD [OF assms, of h s t] linked_distinct(1) [OF assms, of s t] by (auto simp: e(1))
  have l: "h' \<in> set (hl (eh_remove h w) l) \<longleftrightarrow> h' \<in> set (hl w l) \<and> h' \<noteq> h" for h' l
    using linked_listD [OF assms, of h l] linked_distinct(2) [OF assms, of l] by (auto simp: e(2))
  have d: "distinct (qs (eh_remove h w) s t)" "distinct (hl (eh_remove h w) l)" for s t l
    using linked_distinct [OF assms] by (simp_all add: e(1,2) distinct_remove1)
  show ?thesis
    by (rule linked_shrink [OF assms]) (auto simp: q l d e(3-6))
qed

lemma linked_mono: "linked_but D w \<Longrightarrow> D \<subseteq> D' \<Longrightarrow> linked_but D' w"
  unfolding linked_but_def by blast

lemma fold_remove_linked: "linked_but (set hs) w \<Longrightarrow> linked_but {} (fold eh_remove hs w)"
proof (induction hs arbitrary: w)
  case (Cons h hs)
  then have "linked_but (set hs) (eh_remove h w)" by (intro eh_remove_linked) simp
  with Cons.IH show ?case by simp
qed simp

lemma add_listener_linked:
  assumes "linked_but D w"
  shows "linked_but D (snd (add_listener s l t hdl w))"
proof (cases "\<not> in_queues t \<or> is_ZOM w s \<or> is_ZOM w l")
  case True
  then show ?thesis using assms by (simp add: add_listener_def)
next
  case False
  let ?w = "snd (add_listener s l t hdl w)" and ?h = "fresh w"
  have q: "qs ?w s' t' = (if s' = s \<and> t' = t then qs w s t @ [?h] else qs w s' t')" for s' t'
    using False linked_none [OF assms, of s]
    by (auto simp: add_listener_def Let_def) (auto simp: qs_def split: option.splits)
  have l: "hl ?w l' = (if l' = l then ?h # hl w l else hl w l')" for l'
    using False by (auto simp: add_listener_def Let_def) (auto simp: hl_def)
  have o: "handles ?w = (handles w)(?h := \<lparr>source = Some s, listener = Some l, eh_type = t, handler = hdl\<rparr>)"
    "fresh ?w = Suc ?h" "has_queues ?w = (has_queues w)(s := True)"
    "s' \<noteq> s \<Longrightarrow> event_listener ?w s' = event_listener w s'" for s'
    using False by (auto simp: add_listener_def Let_def)
  have new: "?h \<notin> set (qs w s' t')" "?h \<notin> set (hl w l')" for s' t' l'
    using linked_fresh [OF assms, of ?h] by auto
  show ?thesis
    unfolding linked_but_def
  proof (intro conjI allI impI ballI)
    fix s' t' h assume h: "h \<in> set (qs ?w s' t')"
    show "source (handles ?w h) = Some s'" "eh_type (handles ?w h) = t'" "listener (handles ?w h) \<noteq> None"
        "\<And>l'. listener (handles ?w h) = Some l' \<Longrightarrow> h \<in> set (hl ?w l') \<or> h \<in> D"
      using h linked_queuedD [OF assms, of h s' t'] new by (auto simp: q l o split: if_splits)
  next
    fix l' h assume "h \<in> set (hl ?w l')"
    then show "listener (handles ?w h) = Some l'"
      using linked_listD [OF assms, of h l'] new by (auto simp: l o split: if_splits)
  next
    fix s' assume "\<not> has_queues ?w s'"
    then show "event_listener ?w s' = (\<lambda>_. None)"
      using assms unfolding linked_but_def by (auto simp: o split: if_splits)
  qed (use linked_distinct [OF assms] linked_fresh [OF assms] new in \<open>auto simp: q l o less_Suc_eq split: if_splits\<close>)
qed

lemma listen_linked:
  "linked_but D w \<Longrightarrow> linked_but D (snd (listen s l t hdl w))"
  by (auto simp: listen_def add_listener_linked split: option.splits)

lemma remove_listener_linked:
  assumes "linked_but {} w" "source (handles w h) = Some s"
  shows "linked_but {} (remove_listener s h w)"
proof -
  note e = remove_listener_lists [OF linked_nones [OF assms(1)]]
  have q: "h' \<in> set (qs (remove_listener s h w) s' t) \<longleftrightarrow> h' \<in> set (qs w s' t) \<and> h' \<noteq> h" for h' s' t
  proof (cases "s' = s \<and> t = eh_type (handles w h)")
    case True
    then show ?thesis using linked_distinct(1) [OF assms(1), of s' t] by (simp add: e(1))
  next
    case False
    moreover have "h \<notin> set (qs w s' t)" using False linked_queuedD [OF assms(1), of h s' t] assms(2) by auto
    ultimately show ?thesis by (auto simp: e(1))
  qed
  have l: "h' \<in> set (hl (remove_listener s h w) l) \<longleftrightarrow> h' \<in> set (hl w l) \<and> h' \<noteq> h" for h' l
    using linked_listD [OF assms(1), of h l] linked_distinct(2) [OF assms(1), of l] by (auto simp: e(2))
  have d: "distinct (qs (remove_listener s h w) s' t)" "distinct (hl (remove_listener s h w) l)" for s' t l
    using linked_distinct [OF assms(1)] by (simp_all add: e(1,2) distinct_remove1)
  show ?thesis
    by (rule linked_shrink [OF assms(1)]) (auto simp: q l d e(3-6))
qed

lemma remove_all_linked:
  assumes "linked_but {} w"
  shows "linked_but {} (remove_all l w)"
proof (cases "handle_list w l")
  case (Some drained)
  let ?w = "w\<lparr>handle_list := (handle_list w)(l := None)\<rparr>"
  have o: "qs ?w = qs w" "hl ?w l' = (if l' = l then [] else hl w l')" "hl w l = drained" for l'
    using Some by (auto simp: qs_def hl_def fun_eq_iff)
  have "linked_but (set drained) ?w"
    by (rule linked_shrink [OF assms])
      (auto simp: o(1,2) o(3) [symmetric] linked_distinct [OF assms])
  then show ?thesis using Some by (simp add: remove_all_def fold_remove_linked)
qed (use assms in \<open>simp add: remove_all_def\<close>)

lemma clean_linked: "linked_but {} w \<Longrightarrow> linked_but {} (clean_stdEventHandle l t w)"
  by (auto simp: clean_stdEventHandle_def intro: fold_remove_linked linked_mono split: option.splits)

lemma invoke_begin_linked:
  assumes "linked_but {} w"
  shows "linked_but {} (snd (invoke_begin s t c w))"
proof -
  let ?w = "w\<lparr>event_listener := (event_listener w)(s := (event_listener w s)(t := None))\<rparr>"
  have o: "qs ?w s' t' = (if s' = s \<and> t' = t then [] else qs w s' t')" "hl ?w = hl w" for s' t'
    by (auto simp: qs_def hl_def fun_eq_iff)
  have "linked_but {} ?w"
    by (rule linked_shrink [OF assms]) (auto simp: o linked_distinct [OF assms] split: if_splits)
  then show ?thesis using assms by (auto simp: invoke_begin_def split: option.splits)
qed

lemma lreach_linked: "lreach w \<Longrightarrow> linked_but {} w"
proof (induction rule: lreach.induct)
  case init
  then show ?case by (auto simp: linked_but_def lworld_init_def qs_def hl_def)
next
  case (state w z c)
  have "qs (w\<lparr>is_ZOM := z, zom_class := c\<rparr>) = qs w" "hl (w\<lparr>is_ZOM := z, zom_class := c\<rparr>) = hl w" for z c
    by (auto simp: qs_def hl_def fun_eq_iff)
  then show ?case
    by (intro linked_shrink [OF state.IH]) (simp_all add: linked_distinct [OF state.IH])
next
  case (remove w h)
  then show ?case by (meson eh_remove_linked linked_mono empty_subsetI)
qed (simp_all add: add_listener_linked listen_linked remove_listener_linked remove_all_linked clean_linked
    invoke_begin_linked)

section \<open>Properties\<close>


text \<open>Object 1 listens to the destruction (type 6) of object 0, then lets go of it.\<close>

definition one_listener :: lworld where
  "one_listener = snd (listen 0 (Some 1) 6 0 lworld_init)"

lemma one_listener_lists: "qs one_listener 0 6 = [0]" "hl one_listener 1 = [0]"
  by (simp_all add: one_listener_def listen_def search_listen_def add_listener_def in_queues_def TSE_MAX_def
      lworld_init_def qs_def hl_def ins_handle_list_def)


subsection \<open>Listening twice, and letting go\<close>

lemma search_added:
  assumes "linked_but {} w" "search_listen s t l w = None" "0 < t"
    and "add_listener s l t hdl w = (Some h, w')"
  shows "search_listen s t l w' = Some h"
proof -
  have t: "in_queues t" "\<not> is_ZOM w s" "\<not> is_ZOM w l" "h = fresh w"
    using assms(4) by (auto simp: add_listener_def Let_def split: if_splits)
  let ?q = "case (if has_queues w s then event_listener w s t else None) of None \<Rightarrow> [] | Some q \<Rightarrow> q"
  have w': "event_listener w' s t = Some (?q @ [h])" "has_queues w' s"
    "handles w' = (handles w)(h := \<lparr>source = Some s, listener = Some l, eh_type = t, handler = hdl\<rparr>)"
    using assms(4) t by (auto simp: add_listener_def Let_def)
  have "find (\<lambda>h. listener (handles w h) = Some l) ?q = None"
    using assms(2,3) t(1) by (auto simp: search_listen_def in_queues_def split: option.splits if_splits)
  then have n: "listener (handles w g) \<noteq> Some l" if "g \<in> set ?q" for g using that by (auto simp: find_None_iff)
  have "h \<notin> set ?q"
    using linked_fresh(1) [OF assms(1), of h s t] t(4) by (auto simp: qs_def split: option.splits if_splits)
  then have "\<not> (\<exists>g. g \<in> set ?q \<and> listener (handles w' g) = Some l)"
    using n unfolding w'(3) by (metis fun_upd_other)
  then have "find (\<lambda>h. listener (handles w' h) = Some l) ?q = None"
    unfolding find_None_iff .
  moreover have "find P (xs @ [x]) = (if find P xs = None then (if P x then Some x else None) else find P xs)"
    for P :: "nat \<Rightarrow> bool" and xs x by (induction xs) auto
  ultimately show ?thesis
    using assms(3) t(1) w' by (simp add: search_listen_def in_queues_def)
qed

lemma fold_remove_hl:
  assumes "\<And>s. \<not> has_queues w s \<Longrightarrow> event_listener w s = (\<lambda>_. None)"
  shows "set (hl (fold eh_remove hs w) l) \<subseteq> set (hl w l)"
  using assms
proof (induction hs arbitrary: w)
  case (Cons h hs)
  note e = eh_remove_lists [OF Cons.prems]
  have "\<not> has_queues (eh_remove h w) s \<Longrightarrow> event_listener (eh_remove h w) s = (\<lambda>_. None)" for s
    using Cons.prems e(5,6) by (auto simp: fun_eq_iff)
  from Cons.IH [OF this] have "set (hl (fold eh_remove hs (eh_remove h w)) l) \<subseteq> set (hl (eh_remove h w) l)" .
  also have "\<dots> \<subseteq> set (hl w l)" by (simp add: e(2) set_remove1_subset)
  finally show ?case by simp
qed simp

lemma remove_all_silent:
  assumes "linked_but {} w" "h \<in> set (qs (remove_all l w) s t)"
  shows "listener (handles (remove_all l w) h) \<noteq> Some l"
proof
  assume l: "listener (handles (remove_all l w) h) = Some l"
  note r = remove_all_linked [OF assms(1), of l]
  have "h \<in> set (hl (remove_all l w) l)" using linked_queuedD [OF r assms(2)] l by blast
  moreover have "hl (remove_all l w) l = []"
  proof (cases "handle_list w l")
    case None
    then show ?thesis by (simp add: remove_all_def hl_def)
  next
    case (Some hs)
    let ?w = "w\<lparr>handle_list := (handle_list w)(l := None)\<rparr>"
    have "set (hl (fold eh_remove hs ?w) l) \<subseteq> set (hl ?w l)"
      by (rule fold_remove_hl) (use linked_nones [OF assms(1)] in simp)
    also have "hl ?w l = []" by (simp add: hl_def)
    finally have "hl (fold eh_remove hs ?w) l = []" unfolding list.set subset_empty set_empty .
    moreover have "remove_all l w = fold eh_remove hs ?w" unfolding remove_all_def Some option.case ..
    ultimately show ?thesis by metis
  qed
  ultimately show False by simp
qed

text \<open>Listening and letting go: in a reachable world, listening a second time for the same type
  (other than type 0) answers the same handle and changes nothing; a removed handle is in no queue and
  no list, and all others stay; and after \<open>remove_handle(thNULL)\<close> nothing is queued anywhere for that
  listener.\<close>

theorem listen_and_let_go:
  assumes "lreach w"
  shows "(0 < t \<and> listen s (Some l) t hdl w = (Some h, w') \<longrightarrow> listen s (Some l) t hdl' w' = (Some h, w'))
    \<and> (\<forall>g s t l. (g \<in> set (qs (eh_remove h w) s t)) = (g \<in> set (qs w s t) \<and> g \<noteq> h)
        \<and> (g \<in> set (hl (eh_remove h w) l)) = (g \<in> set (hl w l) \<and> g \<noteq> h))
    \<and> (\<forall>g s t. g \<in> set (qs (remove_all l w) s t) \<longrightarrow> listener (handles (remove_all l w) g) \<noteq> Some l)"
proof (intro conjI impI allI)
  note w = lreach_linked [OF assms]
  assume a: "0 < t \<and> listen s (Some l) t hdl w = (Some h, w')"
  show "listen s (Some l) t hdl' w' = (Some h, w')"
  proof (cases "search_listen s t l w")
    case None
    then have "add_listener s l t hdl w = (Some h, w')" using a by (simp add: listen_def)
    from search_added [OF w None _ this] a show ?thesis by (simp add: listen_def)
  next
    case (Some g)
    then show ?thesis using a by (auto simp: listen_def)
  qed
next
  note w = lreach_linked [OF assms]
  note e = eh_remove_lists [OF linked_nones [OF w]]
  fix g s t l
  show "(g \<in> set (qs (eh_remove h w) s t)) = (g \<in> set (qs w s t) \<and> g \<noteq> h)"
    using linked_queuedD [OF w, of h s t] linked_distinct(1) [OF w, of s t] by (auto simp: e(1))
  show "(g \<in> set (hl (eh_remove h w) l)) = (g \<in> set (hl w l) \<and> g \<noteq> h)"
    using linked_listD [OF w, of h l] linked_distinct(2) [OF w, of l] by (auto simp: e(2))
next
  fix g s t assume "g \<in> set (qs (remove_all l w) s t)"
  then show "listener (handles (remove_all l w) g) \<noteq> Some l"
    using remove_all_silent [OF lreach_linked [OF assms]] by blast
qed

theorem listen_and_let_go_witness:
  "listen 0 (Some 1) 6 0 lworld_init = (Some 0, one_listener) \<and> listen 0 (Some 1) 6 5 one_listener = (Some 0, one_listener)
   \<and> 0 \<notin> set (qs (eh_remove 0 one_listener) 0 6)"
proof -
  have l: "listen 0 (Some 1) 6 0 lworld_init = (Some 0, one_listener)"
    by (simp add: one_listener_def listen_def search_listen_def add_listener_def in_queues_def TSE_MAX_def lworld_init_def)
  have r: "lreach one_listener" unfolding one_listener_def by (intro lreach.intros)
  show ?thesis
    using l listen_and_let_go [OF lreach.init, of 6 0 1 0 0 one_listener 5]
      listen_and_let_go [OF r, of 6 0 1 0 0 one_listener 5] by auto
qed

text \<open>Type 0 is accepted by \<open>add_listener\<close> but never found again: every call adds a handle.\<close>

lemma listen_type_zero: "search_listen s 0 l w = None"
  by (simp add: search_listen_def)

subsection \<open>Delivery\<close>

text \<open>
  With the default \<open>except = thNULL\<close> no handler is called with a null listener, whatever the handlers
  called before did: a handle that was removed meanwhile compares equal to \<open>except\<close> and is passed over.
\<close>

lemma invoke_loop_default: "invoke_loop deliver None nq w \<noteq> None"
proof (induction nq arbitrary: w)
  case (Cons h nq)
  then show ?case by (cases "listener (handles w h)") (simp_all del: not_None_eq)
qed simp

lemma invoke_loop_quiet:
  assumes "\<And>l w. handles (deliver l w) = handles w" and "\<And>h. h \<in> set nq \<Longrightarrow> listener (handles w h) \<noteq> None"
  shows "\<exists>w'. invoke_loop deliver except nq w
      = Some (filter (\<lambda>l. Some l \<noteq> except) (map (\<lambda>h. the (listener (handles w h))) nq), w')"
  using assms(2)
proof (induction nq arbitrary: w)
  case (Cons h nq)
  from Cons.IH [of w] Cons.prems
  have skip: "\<exists>w'. invoke_loop deliver except nq w
      = Some (filter (\<lambda>l. Some l \<noteq> except) (map (\<lambda>h. the (listener (handles w h))) nq), w')" by simp
  obtain l where l: "listener (handles w h) = Some l" using Cons.prems by fastforce
  from Cons.IH [of "deliver l w"] Cons.prems assms(1) [of l w]
  have "\<exists>w'. invoke_loop deliver except nq (deliver l w)
      = Some (filter (\<lambda>l. Some l \<noteq> except) (map (\<lambda>h. the (listener (handles w h))) nq), w')" by simp
  with skip l show ?case by (auto simp: apfst_def)
qed simp

text \<open>Delivery: in a reachable world, when the handlers leave the handles alone, \<open>invoke_listen\<close>
  calls exactly the listeners of the queue except the one named, each once and in the order they began
  to listen; with no exception named it never calls a null listener, whatever the handlers do.\<close>

theorem invoke_reaches_all:
  assumes "lreach w"
  shows "((\<forall>l v. handles (deliver l v) = handles v) \<and> has_queues w s \<and> 0 < t \<and> t < TSE_MAX
        \<longrightarrow> (\<exists>w'. invoke_listen deliver s t except clearFlag w
              = Some (filter (\<lambda>l. Some l \<noteq> except) (map (\<lambda>h. the (listener (handles w h))) (qs w s t)), w')))
    \<and> invoke_listen deliver' s t None clearFlag w \<noteq> None"
proof (intro conjI impI)
  assume a: "(\<forall>l v. handles (deliver l v) = handles v) \<and> has_queues w s \<and> 0 < t \<and> t < TSE_MAX"
  define v where "v = snd (invoke_begin s t clearFlag w)"
  have b: "invoke_begin s t clearFlag w = (qs w s t, v)" "handles v = handles w"
    using a by (auto simp: v_def invoke_begin_def qs_def split: option.splits)
  have "listener (handles v h) \<noteq> None" if "h \<in> set (qs w s t)" for h
    using linked_queuedD [OF lreach_linked [OF assms] that] b(2) by simp
  then show "\<exists>w'. invoke_listen deliver s t except clearFlag w
      = Some (filter (\<lambda>l. Some l \<noteq> except) (map (\<lambda>h. the (listener (handles w h))) (qs w s t)), w')"
    using invoke_loop_quiet [of deliver "qs w s t" v except] a b by (simp add: invoke_listen_def)
next
  show "invoke_listen deliver' s t None clearFlag w \<noteq> None"
    by (simp add: invoke_listen_def invoke_loop_default case_prod_beta)
qed

theorem invoke_reaches_all_witness:
  "\<exists>w'. invoke_listen (\<lambda>l w. w) 0 6 None False one_listener = Some ([1], w')"
proof -
  have r: "lreach one_listener" unfolding one_listener_def by (intro lreach.intros)
  have h: "has_queues one_listener 0" "listener (handles one_listener 0) = Some 1"
    by (simp_all add: one_listener_def listen_def search_listen_def add_listener_def in_queues_def TSE_MAX_def
        lworld_init_def)
  show ?thesis
    using invoke_reaches_all [OF r, of "\<lambda>l w. w" 0 6 None False "\<lambda>l w. w"] h
    by (simp add: one_listener_lists TSE_MAX_def)
qed

text \<open>
  With an exception named, a handler that removes a later handle of the same queue makes the loop call
  that handle's handler with a null listener: objects 1 and 2 listen to object 0, and 1 lets 2 go.
\<close>

definition two_listeners :: lworld where
  "two_listeners = snd (listen 0 (Some 2) 6 0 one_listener)"

theorem invoke_null_listener:
  "invoke_listen (\<lambda>l w. if l = 1 then remove_all 2 w else w) 0 6 (Some 7) False two_listeners = None"
  by (simp add: two_listeners_def one_listener_def listen_def search_listen_def add_listener_def in_queues_def TSE_MAX_def
      lworld_init_def ins_handle_list_def invoke_listen_def invoke_begin_def remove_all_def eh_remove_def
      remove_listener_def remove_handle_def Let_def)

end
