(* ===== verification/CallList.thy ===== *)
theory CallList
  imports Prelude
begin

text \<open>
  Waiting for several children: \<open>src/src/classes/ts2/c++/tsCallList.cpp\<close> (a machine that collects the
  \<open>TSE_RETURN\<close> of every object given to \<open>call\<close> and then returns all of them to its parent) and
  \<open>src/src/classes/ts2/c++/tsCallBuffer.cpp\<close> (one that passes on a single return).

  Objects are numbers.  A state function that ends with \<open>rDO\<close> is followed by the next one on the same
  event, which is how \<open>eventHandler\<close> runs them (theory \<open>TinyState\<close>): the assignment to \<open>ev\<close> inside
  \<open>INI_WAIT\<close> changes that function's own copy only.
\<close>

section \<open>Model\<close>

text \<open>The types of events that matter here; \<open>ret_id\<close> stands for what a return carries.\<close>

datatype ctype = Wakeup | Return | Other

record cev =
  c_type :: ctype
  c_source :: "nat sptr"
  ret_id :: nat

datatype cstate = INI_WAIT | ACT_START | FIN_START

record clist =
  c_state :: cstate
  pend :: "nat sptr list"
  rets :: "cev sptr list"
  eq :: "cev list"
  finish_flag :: bool

text \<open>After the constructor and \<open>INI_START\<close>.\<close>

definition cl_new :: clist where
  "cl_new = \<lparr>c_state = INI_WAIT, pend = [], rets = [], eq = [], finish_flag = False\<rparr>"

text \<open>\<open>list[list.length()] = caller\<close> and \<open>ret->length(list.length())\<close>.\<close>

definition cl_call :: "nat \<Rightarrow> clist \<Rightarrow> clist" where
  "cl_call caller s = s\<lparr>pend := pend s @ [Some caller], rets := rets s @ [None]\<rparr>"

definition cl_finish :: "clist \<Rightarrow> clist" where
  "cl_finish s = s\<lparr>finish_flag := True\<rparr>"

text \<open>The inner loop of \<open>INI_WAIT\<close> for one queued event: the first place of its source.\<close>

function take_first :: "nat \<Rightarrow> cev \<Rightarrow> clist \<Rightarrow> clist" where
  "take_first i ev s =
     (if i < length (pend s) then
        if c_source ev = pend s ! i then s\<lparr>rets := (rets s)[i := Some ev], pend := (pend s)[i := None]\<rparr>
        else take_first (i + 1) ev s
      else s)"
  by auto
termination by (relation "measure (\<lambda>(i, ev, s). length (pend s) - i)") auto

declare take_first.simps [simp del]

text \<open>The loop of \<open>ACT_START\<close>: every place of the source; the count of those still awaited.\<close>

definition take_every :: "cev \<Rightarrow> clist \<Rightarrow> clist" where
  "take_every ev s =
     foldl (\<lambda>s i. if c_source ev = pend s ! i
                  then s\<lparr>rets := (rets s)[i := Some ev], pend := (pend s)[i := None]\<rparr> else s)
       s [0..<length (pend s)]"

definition act_start :: "cev \<Rightarrow> clist \<Rightarrow> clist" where
  "act_start ev s =
     (if c_type ev \<noteq> Return then s
      else
        let s1 = take_every ev s in
        if list_ex (\<lambda>p. p \<noteq> None) (pend s1) then s1 else s1\<lparr>c_state := FIN_START\<rparr>)"

definition ini_wait :: "cev \<Rightarrow> clist \<Rightarrow> clist" where
  "ini_wait ev s =
     (let s1 = (if c_type ev = Return then s\<lparr>eq := eq s @ [ev]\<rparr> else s) in
      if \<not> finish_flag s1 then s1
      else act_start ev (foldl (\<lambda>s e. take_first 0 e s) s1 (eq s1) \<lparr>eq := [], c_state := ACT_START\<rparr>))"

text \<open>
  One event; \<open>FIN_START\<close> hands \<open>rets\<close> to the parent at once and goes on to the end of the base machine,
  so it answers no further event.
\<close>

definition cl_event :: "cev \<Rightarrow> clist \<Rightarrow> clist" where
  "cl_event ev s =
     (case c_state s of INI_WAIT \<Rightarrow> ini_wait ev s | ACT_START \<Rightarrow> act_start ev s | FIN_START \<Rightarrow> s)"

text \<open>What happens to a list after its children were added: \<open>finish()\<close> is called, events arrive.\<close>

datatype cinput = Finish | Ev cev

fun cl_input :: "cinput \<Rightarrow> clist \<Rightarrow> clist" where
  "cl_input Finish s = cl_finish s"
| "cl_input (Ev ev) s = cl_event ev s"

definition cl_run :: "nat list \<Rightarrow> cinput list \<Rightarrow> clist" where
  "cl_run cs is = fold cl_input is (fold cl_call cs cl_new)"

text \<open>
  \<open>tsCallBuffer\<close>: what the single state \<open>ACT_START\<close> does with an event; the answer is what is passed on
  to the parent, whether the parent was made to listen to the source's destruction, and whether the
  machine ends.
\<close>

record cbuf =
  b_ignore :: bool
  b_status :: "nat sptr"
  b_data :: "nat list"

text \<open>\<open>push\<close> inserts under key 0, in front of what is there.\<close>

definition cb_push :: "nat \<Rightarrow> cbuf \<Rightarrow> cbuf" where
  "cb_push x b = b\<lparr>b_data := x # b_data b\<rparr>"

definition cb_ignore :: "cbuf \<Rightarrow> cbuf" where
  "cb_ignore b = b\<lparr>b_ignore := True\<rparr>"

datatype cb_outcome = Stay | Fin bool "cev option"

definition cb_act_start :: "bool \<Rightarrow> cev \<Rightarrow> cbuf \<Rightarrow> cb_outcome \<times> cbuf" where
  "cb_act_start destroyed ev b =
     (if destroyed then (Fin False None, b)
      else if c_type ev \<noteq> Return then (Stay, b)
      else
        (Fin True (if b_ignore b then None else Some ev), b\<lparr>b_status := Some (ret_id ev)\<rparr>))"

section \<open>What has been returned\<close>

definition returns :: "cinput list \<Rightarrow> cev list" where
  "returns is = concat (map (\<lambda>i. case i of Ev e \<Rightarrow> if c_type e = Return then [e] else [] | Finish \<Rightarrow> []) is)"

definition answer :: "cev list \<Rightarrow> nat \<Rightarrow> cev sptr" where
  "answer es c = find (\<lambda>e. c_source e = Some c) es"

text \<open>The moment a list can end: a return arrives after \<open>finish()\<close> when every child has returned.\<close>

definition fires :: "nat list \<Rightarrow> cinput list \<Rightarrow> bool" where
  "fires cs is \<longleftrightarrow>
     (\<exists>pre e post. is = pre @ Ev e # post \<and> Finish \<in> set pre \<and> c_type e = Return
        \<and> (\<forall>c \<in> set cs. answer (returns (pre @ [Ev e])) c \<noteq> None))"

text \<open>The lists of the machine after the returns \<open>es\<close> were matched with the children \<open>cs\<close>.\<close>

definition matched :: "nat list \<Rightarrow> cev list \<Rightarrow> clist \<Rightarrow> bool" where
  "matched cs es s \<longleftrightarrow>
     pend s = map (\<lambda>c. if answer es c = None then Some c else None) cs \<and> rets s = map (answer es) cs"

lemma returns_simps [simp]:
  "returns [] = []" "returns (is @ [Finish]) = returns is"
  "returns (is @ [Ev e]) = (if c_type e = Return then returns is @ [e] else returns is)"
  by (simp_all add: returns_def)

lemma answer_snoc:
  "answer (es @ [e]) c = (if answer es c \<noteq> None then answer es c else if c_source e = Some c then Some e else None)"
  unfolding answer_def by (induction es) auto

lemma answer_nil [simp]: "answer [] c = None"
  by (simp add: answer_def)

text \<open>One event matched: the first place of its source, when the children are distinct.\<close>

lemma map_update_distinct:
  "distinct cs \<Longrightarrow> i < length cs \<Longrightarrow> (map f cs)[i := y] = map (\<lambda>c. if c = cs ! i then y else f c) cs"
  by (rule nth_equalityI) (auto simp: nth_list_update nth_eq_iff_index_eq)

lemma take_first_skip:
  "i \<le> n \<Longrightarrow> n \<le> length (pend s) \<Longrightarrow> \<forall>j. i \<le> j \<and> j < n \<longrightarrow> c_source ev \<noteq> pend s ! j
   \<Longrightarrow> take_first i ev s = take_first n ev s"
proof (induction "n - i" arbitrary: i)
  case (Suc d)
  then have "i < n" "i < length (pend s)" "c_source ev \<noteq> pend s ! i" by simp_all
  then have "take_first i ev s = take_first (Suc i) ev s" by (subst take_first.simps) simp
  also have "\<dots> = take_first n ev s"
    by (rule Suc.hyps(1)) (use Suc.hyps(2) Suc.prems in auto)
  finally show ?case .
qed simp

lemma place_matched:
  assumes "distinct cs" "matched cs es s" "i < length cs" "c_source e = Some (cs ! i)" "answer es (cs ! i) = None"
  shows "matched cs (es @ [e]) (s\<lparr>rets := (rets s)[i := Some e], pend := (pend s)[i := None]\<rparr>)"
  using assms unfolding matched_def
  by (auto simp: map_update_distinct answer_snoc)

lemma nowhere_matched:
  assumes "matched cs es s" "\<And>c. c \<in> set cs \<Longrightarrow> c_source e = Some c \<Longrightarrow> answer es c \<noteq> None"
  shows "matched cs (es @ [e]) s"
  using assms unfolding matched_def by (auto simp: answer_snoc)

text \<open>The places an event with a source matches.\<close>

lemma matched_place:
  assumes "matched cs es s" "c_source e \<noteq> None" "i < length cs"
  shows "c_source e = pend s ! i \<longleftrightarrow> c_source e = Some (cs ! i) \<and> answer es (cs ! i) = None"
  using assms unfolding matched_def by auto

text \<open>The fields the matching leaves alone.\<close>

definition same_rest :: "clist \<Rightarrow> clist \<Rightarrow> bool" where
  "same_rest s s' \<longleftrightarrow> c_state s' = c_state s \<and> eq s' = eq s \<and> finish_flag s' = finish_flag s"

lemma take_first_matched:
  assumes "distinct cs" "matched cs es s" "c_source e \<noteq> None"
  shows "matched cs (es @ [e]) (take_first 0 e s) \<and> same_rest s (take_first 0 e s)"
proof -
  have len: "length (pend s) = length cs" using assms(2) by (simp add: matched_def)
  show ?thesis
  proof (cases "\<exists>i < length cs. c_source e = pend s ! i")
    case True
    then obtain i where i: "i < length cs" "c_source e = pend s ! i" by blast
    then have m: "c_source e = Some (cs ! i)" "answer es (cs ! i) = None"
      using matched_place [OF assms(2,3) i(1)] by simp_all
    have "c_source e \<noteq> pend s ! j" if "j < i" for j
      using matched_place [OF assms(2,3), of j] that i(1) m(1) assms(1) by (auto simp: nth_eq_iff_index_eq)
    then have "take_first 0 e s = take_first i e s"
      by (intro take_first_skip) (use i(1) len in auto)
    also have "\<dots> = s\<lparr>rets := (rets s)[i := Some e], pend := (pend s)[i := None]\<rparr>"
      using i len by (subst take_first.simps) simp
    finally show ?thesis
      using place_matched [OF assms(1,2) i(1) m] by (simp add: same_rest_def)
  next
    case False
    then have "take_first 0 e s = take_first (length cs) e s"
      by (intro take_first_skip) (use len in auto)
    also have "\<dots> = s" using len by (subst take_first.simps) simp
    finally have "take_first 0 e s = s" .
    moreover have "matched cs (es @ [e]) s"
    proof (rule nowhere_matched [OF assms(2)])
      fix c assume "c \<in> set cs" "c_source e = Some c"
      moreover obtain i where "i < length cs" "cs ! i = c" using \<open>c \<in> set cs\<close> by (auto simp: in_set_conv_nth)
      ultimately show "answer es c \<noteq> None" using False matched_place [OF assms(2,3), of i] by auto
    qed
    ultimately show ?thesis by (simp add: same_rest_def)
  qed
qed

lemma take_every_matched:
  assumes "distinct cs" "matched cs es s" "c_source e \<noteq> None"
  shows "matched cs (es @ [e]) (take_every e s) \<and> same_rest s (take_every e s)"
proof -
  let ?f = "\<lambda>s i. if c_source e = pend s ! i
                  then s\<lparr>rets := (rets s)[i := Some e], pend := (pend s)[i := None]\<rparr> else s"
  have len: "length (pend s) = length cs" using assms(2) by (simp add: matched_def)
  have "n \<le> length cs \<Longrightarrow>
      (foldl ?f s [0..<n] = s \<and> (\<forall>i < n. c_source e \<noteq> pend s ! i))
      \<or> (matched cs (es @ [e]) (foldl ?f s [0..<n]) \<and> same_rest s (foldl ?f s [0..<n]))" for n
  proof (induction n)
    case (Suc n)
    then have n: "n < length cs" by simp
    let ?s = "foldl ?f s [0..<n]"
    consider (none) "?s = s" "\<forall>i < n. c_source e \<noteq> pend s ! i"
      | (placed) "matched cs (es @ [e]) ?s" "same_rest s ?s" using Suc by auto
    then show ?case
    proof cases
      case none
      show ?thesis
      proof (cases "c_source e = pend s ! n")
        case True
        then have "c_source e = Some (cs ! n)" "answer es (cs ! n) = None"
          using matched_place [OF assms(2,3) n] by simp_all
        from place_matched [OF assms(1,2) n this] True none show ?thesis by (simp add: same_rest_def)
      next
        case False
        with none show ?thesis by (auto simp: less_Suc_eq)
      qed
    next
      case placed
      have "c_source e \<noteq> pend ?s ! n"
        using matched_place [OF placed(1) assms(3) n] by (auto simp: answer_snoc split: if_splits)
      with placed show ?thesis by simp
    qed
  qed simp
  from this [of "length cs"] show ?thesis
  proof
    assume a: "foldl ?f s [0..<length cs] = s \<and> (\<forall>i < length cs. c_source e \<noteq> pend s ! i)"
    have "matched cs (es @ [e]) s"
    proof (rule nowhere_matched [OF assms(2)])
      fix c assume "c \<in> set cs" "c_source e = Some c"
      moreover obtain i where "i < length cs" "cs ! i = c" using \<open>c \<in> set cs\<close> by (auto simp: in_set_conv_nth)
      ultimately show "answer es c \<noteq> None" using a matched_place [OF assms(2,3), of i] by auto
    qed
    then show ?thesis using a len by (simp add: take_every_def same_rest_def)
  qed (simp_all add: take_every_def len)
qed

lemma fold_take_first_matched:
  assumes "distinct cs" "matched cs es s" "\<forall>e \<in> set fs. c_source e \<noteq> None"
  shows "matched cs (es @ fs) (foldl (\<lambda>s e. take_first 0 e s) s fs)
    \<and> same_rest s (foldl (\<lambda>s e. take_first 0 e s) s fs)"
  using assms(2,3)
proof (induction fs arbitrary: es s)
  case (Cons e fs)
  let ?s = "take_first 0 e s"
  have m: "matched cs (es @ [e]) ?s" "same_rest s ?s"
    using take_first_matched [OF assms(1) Cons.prems(1), of e] Cons.prems(2) by auto
  from Cons.IH [OF m(1)] Cons.prems(2) m(2) show ?case by (simp add: same_rest_def)
qed (simp add: same_rest_def)

section \<open>A run\<close>

lemma fires_snoc:
  "fires cs (is @ [x]) \<longleftrightarrow> fires cs is
     \<or> (\<exists>e. x = Ev e \<and> Finish \<in> set is \<and> c_type e = Return \<and> (\<forall>c \<in> set cs. answer (returns (is @ [x])) c \<noteq> None))"
  (is "?l \<longleftrightarrow> ?r")
proof
  assume ?l
  then obtain pre e post where p: "is @ [x] = pre @ Ev e # post" "Finish \<in> set pre" "c_type e = Return"
    "\<forall>c \<in> set cs. answer (returns (pre @ [Ev e])) c \<noteq> None"
    unfolding fires_def by blast
  show ?r
  proof (cases post rule: rev_cases)
    case Nil
    then have "is = pre" "x = Ev e" using p(1) by auto
    then show ?thesis using p by blast
  next
    case (snoc ys y)
    then have "is = pre @ Ev e # ys" using p(1) by (metis append_Cons append_assoc butlast_snoc)
    then show ?thesis using p unfolding fires_def by blast
  qed
next
  assume ?r
  then show ?l
  proof
    assume "fires cs is"
    then show ?l unfolding fires_def by (metis append_Cons append_assoc)
  next
    assume "\<exists>e. x = Ev e \<and> Finish \<in> set is \<and> c_type e = Return \<and> (\<forall>c \<in> set cs. answer (returns (is @ [x])) c \<noteq> None)"
    then show ?l unfolding fires_def by blast
  qed
qed

definition sourced :: "cinput list \<Rightarrow> bool" where
  "sourced is \<longleftrightarrow> (\<forall>e \<in> set (returns is). c_source e \<noteq> None)"

definition cl_inv :: "nat list \<Rightarrow> cinput list \<Rightarrow> clist \<Rightarrow> bool" where
  "cl_inv cs is s \<longleftrightarrow>
     finish_flag s = (Finish \<in> set is)
     \<and> (case c_state s of
          INI_WAIT \<Rightarrow> eq s = returns is \<and> matched cs [] s \<and> \<not> fires cs is
        | ACT_START \<Rightarrow> Finish \<in> set is \<and> matched cs (returns is) s \<and> \<not> fires cs is
        | FIN_START \<Rightarrow> fires cs is \<and> rets s = map (answer (returns is)) cs \<and> None \<notin> set (rets s))"

lemma act_start_inv:
  assumes "distinct cs" "matched cs es s" "c_state s = ACT_START" "c_type e = Return \<Longrightarrow> c_source e \<noteq> None"
    and n: "\<not> fires cs is" "Finish \<in> set is" "finish_flag s"
    and es: "returns (is @ [Ev e]) = (if c_type e = Return then es @ [e] else es)"
  shows "cl_inv cs (is @ [Ev e]) (act_start e s)"
proof (cases "c_type e = Return")
  case False
  then show ?thesis using assms by (simp add: cl_inv_def act_start_def fires_snoc)
next
  case True
  let ?s = "take_every e s"
  have m: "matched cs (es @ [e]) ?s" "same_rest s ?s"
    using take_every_matched [OF assms(1,2)] assms(4) True by auto
  have r: "returns (is @ [Ev e]) = es @ [e]" using es True by simp
  have "list_ex (\<lambda>p. p \<noteq> None) (pend ?s) \<longleftrightarrow> (\<exists>c \<in> set cs. answer (es @ [e]) c = None)"
    using m(1) by (auto simp: matched_def list_ex_iff)
  moreover have "fires cs (is @ [Ev e]) \<longleftrightarrow> (\<forall>c \<in> set cs. answer (es @ [e]) c \<noteq> None)"
    using n True unfolding fires_snoc r by simp
  ultimately show ?thesis
    using m assms(3) n(2,3) True
    unfolding cl_inv_def r act_start_def Let_def same_rest_def matched_def
    by auto
qed

lemma calls:
  "pend (fold cl_call cs s) = pend s @ map Some cs" "rets (fold cl_call cs s) = rets s @ map (\<lambda>_. None) cs"
  "same_rest s (fold cl_call cs s)"
  by (induction cs arbitrary: s) (auto simp: cl_call_def same_rest_def)

lemma cl_input_inv:
  assumes cs: "distinct cs" and inv: "cl_inv cs is s" and src: "sourced (is @ [x])"
  shows "cl_inv cs (is @ [x]) (cl_input x s)"
proof (cases x)
  case Finish
  then show ?thesis using inv by (cases "c_state s") (auto simp: cl_inv_def cl_finish_def fires_snoc matched_def)
next
  case (Ev e)
  have r: "returns (is @ [x]) = (if c_type e = Return then returns is @ [e] else returns is)" by (simp add: Ev)
  have e: "c_type e = Return \<Longrightarrow> c_source e \<noteq> None" using src by (simp add: sourced_def r)
  have es: "\<forall>e \<in> set (returns is). c_source e \<noteq> None" using src by (auto simp: sourced_def r split: if_splits)
  show ?thesis
  proof (cases "c_state s")
    case INI_WAIT
    let ?s = "if c_type e = Return then s\<lparr>eq := eq s @ [e]\<rparr> else s"
    have i: "eq ?s = returns (is @ [x])" "matched cs [] ?s" "c_state ?s = INI_WAIT" "finish_flag ?s = (Finish \<in> set is)"
      "\<not> fires cs is"
      using inv INI_WAIT by (auto simp: cl_inv_def r matched_def)
    show ?thesis
    proof (cases "Finish \<in> set is")
      case False
      then have "cl_input x s = ?s" using i(4) INI_WAIT by (simp add: Ev cl_event_def ini_wait_def Let_def)
      then show ?thesis using i False by (simp add: cl_inv_def fires_snoc Ev)
    next
      case True
      let ?t = "(foldl (\<lambda>s e. take_first 0 e s) ?s (eq ?s))\<lparr>eq := [], c_state := ACT_START\<rparr>"
      have "matched cs ([] @ eq ?s) (foldl (\<lambda>s e. take_first 0 e s) ?s (eq ?s))
          \<and> same_rest ?s (foldl (\<lambda>s e. take_first 0 e s) ?s (eq ?s))"
        by (rule fold_take_first_matched [OF cs i(2)]) (use es e i(1) r in auto)
      then have t: "matched cs (returns (is @ [x])) ?t" "finish_flag ?t" "c_state ?t = ACT_START"
        using i(1,4) True by (simp_all add: matched_def same_rest_def)
      have step: "cl_input x s = act_start e ?t"
        using i(4) True INI_WAIT by (simp add: Ev cl_event_def ini_wait_def Let_def)
      show ?thesis
      proof (cases "c_type e = Return")
        case False
        then show ?thesis
          unfolding step using act_start_inv [OF cs, of "returns is" ?t e "is"] t i(5) True r Ev by simp
      next
        case ret: True
        \<comment> \<open>The return that ends the wait has been matched already: a second look changes nothing.\<close>
        let ?u = "take_every e ?t"
        have u: "matched cs (returns (is @ [x]) @ [e]) ?u" "same_rest ?t ?u"
          using take_every_matched [OF cs t(1)] e ret by auto
        have a: "answer (returns (is @ [x]) @ [e]) = answer (returns (is @ [x]))"
          using answer_snoc [of "returns is @ [e]" e] r ret by (auto simp: answer_snoc [of "returns is"] fun_eq_iff)
        have "list_ex (\<lambda>p. p \<noteq> None) (pend ?u) \<longleftrightarrow> (\<exists>c \<in> set cs. answer (returns (is @ [x])) c = None)"
          using u(1) a by (auto simp: matched_def list_ex_iff)
        moreover have "fires cs (is @ [x]) \<longleftrightarrow> (\<forall>c \<in> set cs. answer (returns (is @ [x])) c \<noteq> None)"
          using i(5) ret True unfolding fires_snoc by (simp add: Ev)
        ultimately show ?thesis
          using u t(2,3) True ret a
          unfolding step cl_inv_def act_start_def Let_def same_rest_def matched_def
          by (auto simp: Ev)
      qed
    qed
  next
    case ACT_START
    then show ?thesis
      using act_start_inv [OF cs, of "returns is" s e "is"] inv e r
      by (simp add: cl_inv_def Ev cl_event_def)
  next
    case FIN_START
    then have f: "fires cs is" "rets s = map (answer (returns is)) cs" "None \<notin> set (rets s)"
      using inv by (auto simp: cl_inv_def)
    then have f': "None \<notin> answer (returns is) ` set cs" by (metis list.set_map)
    then have "answer (returns (is @ [x])) c = answer (returns is) c" if "c \<in> set cs" for c
      using that unfolding r by (auto simp: answer_snoc image_iff)
    then show ?thesis
      using FIN_START inv f(1,2) f' by (simp add: cl_inv_def Ev cl_event_def fires_snoc cong: map_cong)
  qed
qed

lemma run_inv: "distinct cs \<Longrightarrow> sourced is \<Longrightarrow> cl_inv cs is (cl_run cs is)"
proof (induction "is" rule: rev_induct)
  case Nil
  then show ?case
    using calls [where s = cl_new and cs = cs] by (auto simp: cl_run_def cl_inv_def cl_new_def same_rest_def matched_def fires_def)
next
  case (snoc x xs)
  then have "sourced xs" by (cases x) (auto simp: sourced_def split: if_splits)
  then have "cl_inv cs xs (cl_run cs xs)" using snoc by simp
  from cl_input_inv [OF snoc.prems(1) this snoc.prems(2)] show ?case by (simp add: cl_run_def)
qed

section \<open>Properties\<close>

text \<open>The call list: for distinct children and any order of \<open>finish()\<close>, returns and other events, the
  list ends exactly when a return is handled after \<open>finish()\<close> and every child has returned by then, and
  it then hands over, in the order of the calls, the first return of each child.\<close>

theorem call_list_correct:
  assumes "distinct cs" "sourced is"
  shows "(c_state (cl_run cs is) = FIN_START \<longleftrightarrow> fires cs is)
    \<and> (c_state (cl_run cs is) = FIN_START \<longrightarrow>
         rets (cl_run cs is) = map (answer (returns is)) cs \<and> None \<notin> set (rets (cl_run cs is)))"
  using run_inv [OF assms] by (cases "c_state (cl_run cs is)") (auto simp: cl_inv_def)

text \<open>Two children, the second one returns before \<open>finish()\<close>.\<close>

definition ret_of :: "nat \<Rightarrow> cinput" where
  "ret_of c = Ev \<lparr>c_type = Return, c_source = Some c, ret_id = c\<rparr>"

definition two_calls :: "cinput list" where
  "two_calls = [ret_of 2, Finish, Ev \<lparr>c_type = Wakeup, c_source = None, ret_id = 0\<rparr>, ret_of 1]"

theorem call_list_correct_witness:
  "map (map_option ret_id) (rets (cl_run [1, 2] two_calls)) = [Some 1, Some 2]
   \<and> c_state (cl_run [1, 2] two_calls) = FIN_START"
proof -
  have r: "returns two_calls = [\<lparr>c_type = Return, c_source = Some 2, ret_id = 2\<rparr>, \<lparr>c_type = Return, c_source = Some 1, ret_id = 1\<rparr>]"
    by (simp add: two_calls_def ret_of_def returns_def)
  have "sourced two_calls" by (simp add: sourced_def r)
  moreover have "fires [1, 2] two_calls"
    unfolding fires_def
    by (rule exI [of _ "butlast two_calls"])
      (simp add: two_calls_def ret_of_def returns_def answer_def)
  ultimately show ?thesis
    using call_list_correct [of "[1, 2]" two_calls] by (simp add: r answer_def)
qed

text \<open>
  When every child has returned before the wakeup of \<open>finish()\<close> is handled, no return is left to end the
  list: it waits for ever.  The same holds for a list without children.
\<close>

theorem call_list_stuck:
  assumes "distinct cs" "\<forall>e \<in> set before. c_source e \<noteq> None" "\<forall>e \<in> set after. c_type e \<noteq> Return"
  shows "c_state (cl_run cs (map Ev before @ Finish # map Ev after)) \<noteq> FIN_START"
proof -
  let ?is = "map Ev before @ Finish # map Ev after"
  have "set (returns ?is) \<subseteq> set before" using assms(3) by (auto simp: returns_def split: if_splits)
  then have "sourced ?is" using assms(2) by (auto simp: sourced_def)
  moreover have "\<not> fires cs ?is"
  proof
    assume "fires cs ?is"
    then obtain pre e post where p: "?is = pre @ Ev e # post" "Finish \<in> set pre" "c_type e = Return"
      unfolding fires_def by blast
    then obtain us vs where pre: "pre = us @ Finish # vs" by (meson split_list)
    have "map Ev before @ Finish # map Ev after = us @ Finish # (vs @ Ev e # post)" using p(1) pre by simp
    moreover have "Finish \<notin> set (map Ev before)" "Finish \<notin> set (map Ev after)" by auto
    ultimately have "map Ev after = vs @ Ev e # post"
      using append_Cons_eq_iff by metis
    then have "e \<in> set after" by (metis cinput.inject imageE in_set_conv_decomp list.set_map)
    with assms(3) p(3) show False by blast
  qed
  ultimately show ?thesis using call_list_correct [OF assms(1)] by blast
qed

end
