(* ===== verification/ArrayQueue.thy ===== *)
theory ArrayQueue
  imports Prelude "HOL-Library.Word"
begin

text \<open>
  The ring buffer \<open>stdArrayQueue<T>\<close> of \<open>src/src/h/ts2/c++/stdArrayQueue.h\<close>: positions are unsigned
  32-bit counters that wrap, the slot of a position is its remainder by the capacity, a power of two.
  Each slot has a count of the indices attached to it (\<open>ix\<close>) and the list of those indices, kept by
  \<open>AQ_DEBUG_MODE\<close>, which the header switches on.

  Every operation runs under the lock of the queue.  Where the code waits for the condition variable
  the operation answers \<open>Waits\<close> with the state it waits in; after a wakeup the test of the loop is
  made again, which is the definition with \<open>_loop\<close> in its name.  A panic is \<^term>\<open>None\<close>, among them the
  panic of \<open>sArray\<close> for a negative index.
\<close>

section \<open>Model\<close>

type_synonym upos = "32 word"

definition AQE_ERROR :: int where "AQE_ERROR = -1"
definition AQ_EMPTY :: int where "AQ_EMPTY = -1"
definition AQ_INS :: int where "AQ_INS = -2"

record 'a aq =
  slots :: "'a list"
  ix :: "int list"
  debug_list :: "nat list list"
  q_head :: upos
  q_tail :: upos
  wait_count :: int

datatype 'r outcome = Ret 'r | Waits

text \<open>\<open>regular_length\<close>: the first power of two that is not smaller; \<open>1<<31\<close> is negative.\<close>

fun regular_exp :: "nat \<Rightarrow> nat \<Rightarrow> int \<Rightarrow> nat" where
  "regular_exp 0 i len = i"
| "regular_exp (Suc fuel) i len = (if len \<le> 2 ^ i then i else regular_exp fuel (i + 1) len)"

definition regular_length :: "int \<Rightarrow> int" where
  "regular_length len = sint (push_bit (regular_exp 31 0 len) (1 :: 32 word))"

definition aq_new :: "'a \<Rightarrow> int \<Rightarrow> 'a aq option" where
  "aq_new d len =
     (let n = regular_length len in
      if n < 0 then None
      else Some \<lparr>slots = replicate (nat n) d, ix = replicate (nat n) AQ_EMPTY, debug_list = replicate (nat n) [],
             q_head = 0, q_tail = 0, wait_count = 0\<rparr>)"

text \<open>The copy constructor: the contents and the range, with nothing attached.\<close>

definition aq_copy :: "'a \<Rightarrow> 'a aq \<Rightarrow> 'a aq option" where
  "aq_copy d inp =
     map_option (\<lambda>q. q\<lparr>q_tail := q_tail inp, q_head := q_head inp, slots := slots inp,
         ix := foldl (\<lambda>ix i. ix[unat (q_tail inp + of_nat i) mod length ix := 0])
                 (replicate (length (slots inp)) AQ_EMPTY) [0..<unat (q_head inp - q_tail inp)]\<rparr>)
       (aq_new d (int (length (slots inp))))"

definition i_count :: "'a aq \<Rightarrow> int" where
  "i_count q = sint (q_head q - q_tail q)"

text \<open>\<open>p % length\<close> for an unsigned and for an \<open>int\<close> position; the latter has the sign of the position.\<close>

definition slot :: "'a aq \<Rightarrow> upos \<Rightarrow> nat" where
  "slot q p = unat p mod length (slots q)"

definition int_slot :: "'a aq \<Rightarrow> upos \<Rightarrow> nat option" where
  "int_slot q p =
     (let n = int (length (slots q)); r = (if sint p < 0 then - ((- sint p) mod n) else sint p mod n)
      in if r < 0 then None else Some (nat r))"

definition aq_get :: "'a aq \<Rightarrow> upos \<Rightarrow> 'a" where
  "aq_get q p = slots q ! slot q p"

text \<open>Assignment through \<open>*index\<close> or \<open>index->\<close>, a pointer to the slot.\<close>

definition aq_set :: "upos \<Rightarrow> 'a \<Rightarrow> 'a aq \<Rightarrow> 'a aq" where
  "aq_set p x q = q\<lparr>slots := (slots q)[slot q p := x]\<rparr>"

definition del_loop :: "'a aq \<Rightarrow> (int outcome \<times> 'a aq) option" where
  "del_loop q =
     (if ix q ! slot q (q_tail q) \<noteq> 0 then Some (Waits, q\<lparr>wait_count := wait_count q + 1\<rparr>)
      else if debug_list q ! slot q (q_tail q) \<noteq> [] then None
      else Some (Ret 0, q\<lparr>q_tail := q_tail q + 1\<rparr>))"

definition aq_del :: "'a aq \<Rightarrow> (int outcome \<times> 'a aq) option" where
  "aq_del q = (if i_count q = 0 then Some (Ret AQE_ERROR, q) else del_loop q)"

definition ins_put :: "'a aq \<Rightarrow> (upos outcome \<times> 'a aq) option" where
  "ins_put q =
     map_option (\<lambda>i. (Ret (q_head q), q\<lparr>q_head := q_head q + 1, ix := (ix q)[i := AQ_INS]\<rparr>))
       (int_slot q (q_head q))"

definition aq_ins :: "'a aq \<Rightarrow> (upos outcome \<times> 'a aq) option" where
  "aq_ins q =
     (if i_count q = int (length (slots q)) then
        (case aq_del q of
           None \<Rightarrow> None
         | Some (Waits, q') \<Rightarrow> Some (Waits, q')
         | Some (Ret _, q') \<Rightarrow> ins_put q')
      else ins_put q)"

definition pop_loop :: "upos \<Rightarrow> 'a aq \<Rightarrow> (int outcome \<times> 'a aq) option" where
  "pop_loop ret q =
     (case int_slot q ret of
        None \<Rightarrow> None
      | Some i \<Rightarrow>
          if ix q ! i \<noteq> 0 then Some (Waits, q\<lparr>wait_count := wait_count q + 1\<rparr>)
          else Some (Ret 0, q\<lparr>q_head := ret\<rparr>))"

definition aq_pop :: "'a aq \<Rightarrow> (int outcome \<times> 'a aq) option" where
  "aq_pop q = (if i_count q = 0 then Some (Ret AQE_ERROR, q) else pop_loop (q_head q - 1) q)"

text \<open>The test with which \<open>attach\<close> and \<open>detach\<close> refuse a position.\<close>

definition outside :: "'a aq \<Rightarrow> upos \<Rightarrow> bool" where
  "outside q p =
     (if q_head q < q_tail q then q_head q \<le> p \<and> p < q_tail q else q_head q \<le> p \<or> p < q_tail q)"

definition attach :: "upos \<Rightarrow> nat \<Rightarrow> 'a aq \<Rightarrow> int outcome \<times> 'a aq" where
  "attach p org q =
     (let i = slot q p in
      if outside q p then (Ret AQE_ERROR, q)
      else if ix q ! i < 0 then (Waits, q\<lparr>wait_count := wait_count q + 1\<rparr>)
      else (Ret 0, q\<lparr>ix := (ix q)[i := ix q ! i + 1], debug_list := (debug_list q)[i := org # debug_list q ! i]\<rparr>))"

text \<open>\<open>detach\<close>; when the count comes to 0 all that wait are signalled and \<open>wait_count\<close> runs down.\<close>

definition detach :: "upos \<Rightarrow> nat \<Rightarrow> 'a aq \<Rightarrow> (int \<times> 'a aq) option" where
  "detach p org q =
     (let i = slot q p in
      if outside q p then Some (AQE_ERROR, q)
      else if ix q ! i = 0 then Some (AQE_ERROR, q)
      else
        let ins_flag = (ix q ! i = AQ_INS);
            c = (if ins_flag then 0 else ix q ! i - 1);
            wc = (if c = 0 \<and> wait_count q > 0 then 0 else wait_count q);
            dl = debug_list q ! i
        in if org \<notin> set dl \<and> \<not> ins_flag then None
           else if c = 0 \<and> remove1 org dl \<noteq> [] then None
           else Some (0, q\<lparr>ix := (ix q)[i := c], wait_count := wc, debug_list := (debug_list q)[i := remove1 org dl]\<rparr>))"

section \<open>Invariant and contents\<close>

text \<open>The capacity is a power of two up to \<open>2^30\<close> and the range is not longer.\<close>

definition aq_ok :: "'a aq \<Rightarrow> bool" where
  "aq_ok q \<longleftrightarrow>
     (\<exists>k \<le> 30. length (slots q) = 2 ^ k) \<and> length (ix q) = length (slots q)
     \<and> length (debug_list q) = length (slots q) \<and> unat (q_head q - q_tail q) \<le> length (slots q)"

definition live :: "'a aq \<Rightarrow> nat" where
  "live q = unat (q_head q - q_tail q)"

definition aq_list :: "'a aq \<Rightarrow> 'a list" where
  "aq_list q = map (\<lambda>i. aq_get q (q_tail q + of_nat i)) [0..<live q]"

lemma length_aq_list [simp]: "length (aq_list q) = live q"
  by (simp add: aq_list_def)

lemma capacity:
  assumes "aq_ok q"
  shows "0 < length (slots q)" "length (slots q) \<le> 2 ^ 30" "length (slots q) dvd 2 ^ 32" "live q \<le> length (slots q)"
proof -
  obtain k where k: "k \<le> 30" "length (slots q) = 2 ^ k" using assms by (auto simp: aq_ok_def)
  show "0 < length (slots q)" "length (slots q) \<le> 2 ^ 30" "length (slots q) dvd 2 ^ 32"
    unfolding k(2) using k(1) power_increasing [of k 30 "2 :: nat"] le_imp_power_dvd [of k 32 "2 :: nat"] by simp_all
  show "live q \<le> length (slots q)" using assms by (simp add: aq_ok_def live_def)
qed

text \<open>Wrapping at \<open>2^32\<close> does not disturb the slots.\<close>

lemma slot_add:
  assumes "aq_ok q"
  shows "slot q (p + of_nat i) = (unat p + i) mod length (slots q)"
proof -
  have "unat (p + of_nat i) = (unat p + i mod 2 ^ 32) mod 2 ^ 32"
    by (simp add: unat_word_ariths unat_of_nat)
  then have "slot q (p + of_nat i) = ((unat p + i) mod 2 ^ 32) mod length (slots q)"
    by (simp add: slot_def mod_simps)
  also have "\<dots> = (unat p + i) mod length (slots q)"
    using capacity(3) [OF assms] by (rule mod_mod_cancel)
  finally show ?thesis .
qed

lemma slot_less: "aq_ok q \<Longrightarrow> slot q p < length (slots q)"
  using capacity(1) [of q] by (simp add: slot_def)

lemma slot_inj:
  assumes "aq_ok q" "i < length (slots q)" "j < length (slots q)" "slot q (p + of_nat i) = slot q (p + of_nat j)"
  shows "i = j"
proof -
  have e: "(unat p + i) mod length (slots q) = (unat p + j) mod length (slots q)"
    using assms(4) unfolding slot_add [OF assms(1)] .
  have "m = m'" if "m \<le> m'" "m' < length (slots q)"
    "(unat p + m') mod length (slots q) = (unat p + m) mod length (slots q)" for m m'
  proof -
    have "length (slots q) dvd (unat p + m') - (unat p + m)"
      using that mod_eq_dvd_iff_nat [of "unat p + m" "unat p + m'" "length (slots q)"] by simp
    then have "length (slots q) dvd m' - m" by simp
    moreover have "m' - m < length (slots q)" using that by simp
    ultimately show ?thesis using that(1) by (auto dest: dvd_imp_le)
  qed
  from this [of i j] this [of j i] e assms(2,3) show ?thesis by (cases "i \<le> j") auto
qed

section \<open>Positions\<close>

lemma small_sint: "unat (w :: 32 word) < 2 ^ 31 \<Longrightarrow> sint w = int (unat w)"
proof -
  assume "unat w < 2 ^ 31"
  then have "uint w < 2 ^ 31" by (metis of_nat_less_iff of_nat_numeral of_nat_power of_nat_unat)
  then have "signed_take_bit 31 (uint w) = uint w" by (intro signed_take_bit_int_eq_self) (auto intro: order_trans [of _ 0])
  then show "sint w = int (unat w)" by (simp add: sint_uint)
qed

lemma i_count_live: "aq_ok q \<Longrightarrow> i_count q = int (live q)"
  using capacity(2,4) [of q] by (simp add: i_count_def live_def small_sint)

text \<open>The test on both sides of a wrapped range is the distance from the tail.\<close>

lemma outside_distance: "outside q p \<longleftrightarrow> \<not> unat (p - q_tail q) < live q"
proof -
  have "unat p < 2 ^ 32" "unat (q_head q) < 2 ^ 32" "unat (q_tail q) < 2 ^ 32"
    by (rule order.strict_trans2 [OF unsigned_less], simp)+
  then show ?thesis
    unfolding outside_def live_def unat_sub_if' word_less_nat_alt word_le_nat_alt
    by (simp split: if_split) linarith
qed

lemma inside_position:
  assumes "\<not> outside q p"
  obtains i where "i < live q" "p = q_tail q + of_nat i"
  using assms that [of "unat (p - q_tail q)"] by (simp add: outside_distance)

lemma position_inside:
  assumes "aq_ok q" "i < live q"
  shows "\<not> outside q (q_tail q + of_nat i)"
proof -
  have "i < 2 ^ 32" using capacity(2,4) [OF assms(1)] assms(2) by simp
  then have "unat (of_nat i :: upos) = i" by (simp add: unat_of_nat)
  then show ?thesis using assms(2) by (simp add: outside_distance)
qed

text \<open>An \<open>int\<close> position has a slot exactly while it is not negative or lies on slot 0.\<close>

lemma int_slot_eq:
  assumes "aq_ok q"
  shows "int_slot q p = (if sint p \<ge> 0 \<or> slot q p = 0 then Some (slot q p) else None)"
proof (cases "0 \<le> sint p")
  case True
  have "sint p < 2 ^ 31" using sint_lt [of p] by simp
  with True have "uint p = sint p" using uint_sint [of p] by (simp add: take_bit_int_eq_self)
  then have "int (unat p) = sint p" by simp
  then have "sint p mod int (length (slots q)) = int (slot q p)" by (simp add: slot_def zmod_int)
  then show ?thesis using True by (simp add: int_slot_def Let_def)
next
  case False
  let ?n = "int (length (slots q))"
  have "- (2 ^ 31) \<le> sint p" using sint_ge [of p] by simp
  have "uint p = sint p + 2 ^ 32"
  proof -
    have "uint p = sint p mod 2 ^ 32" by (simp add: uint_sint take_bit_eq_mod)
    also have "\<dots> = (sint p + 2 ^ 32) mod 2 ^ 32" by simp
    also have "\<dots> = sint p + 2 ^ 32" using False \<open>- (2 ^ 31) \<le> sint p\<close> by (intro mod_pos_pos_trivial) simp_all
    finally show ?thesis .
  qed
  moreover have "?n dvd 2 ^ 32"
  proof -
    have "int (length (slots q)) dvd int (2 ^ 32)" using capacity(3) [OF assms] by (simp only: of_nat_dvd_iff)
    then show ?thesis by simp
  qed
  then have "(2 :: int) ^ 32 mod ?n = 0" by (rule dvd_imp_mod_0)
  then have "(sint p + 2 ^ 32) mod ?n = sint p mod ?n" using mod_add_right_eq [of "sint p" "2 ^ 32" ?n] by simp
  ultimately have "uint p mod ?n = sint p mod ?n" by simp
  moreover have "int (slot q p) = uint p mod ?n" by (simp add: slot_def zmod_int)
  ultimately have "slot q p = 0 \<longleftrightarrow> ?n dvd sint p" by (metis dvd_eq_mod_eq_0 of_nat_eq_0_iff)
  moreover have "?n dvd sint p \<longleftrightarrow> (- sint p) mod ?n = 0" by (metis dvd_minus_iff dvd_eq_mod_eq_0)
  moreover have "0 \<le> (- sint p) mod ?n" using capacity(1) [OF assms] by simp
  ultimately show ?thesis using False by (auto simp: int_slot_def Let_def)
qed

section \<open>The operations on the contents\<close>

lemma live_del: "0 < live q \<Longrightarrow> live (q\<lparr>q_tail := q_tail q + 1\<rparr>) = live q - 1"
  using unat_minus_one [of "q_head q - q_tail q"]
  by (cases "q_head q = q_tail q") (simp_all add: live_def algebra_simps)

lemma live_pop: "0 < live q \<Longrightarrow> live (q\<lparr>q_head := q_head q - 1\<rparr>) = live q - 1"
  using unat_minus_one [of "q_head q - q_tail q"]
  by (cases "q_head q = q_tail q") (simp_all add: live_def algebra_simps)

lemma live_ins: "aq_ok q \<Longrightarrow> live (q\<lparr>q_head := q_head q + 1, ix := z\<rparr>) = Suc (live q)"
proof -
  assume "aq_ok q"
  then have "unat (q_head q - q_tail q) + 1 < 2 ^ 32" using capacity(2,4) [of q] by (simp add: live_def)
  then have "unat (q_head q - q_tail q + 1) = Suc (unat (q_head q - q_tail q))"
    by (simp add: unat_word_ariths)
  then show ?thesis by (simp add: live_def algebra_simps)
qed

lemma ok_range:
  "aq_ok q \<Longrightarrow> live q' \<le> length (slots q') \<Longrightarrow> length (slots q') = length (slots q)
   \<Longrightarrow> length (ix q') = length (ix q) \<Longrightarrow> length (debug_list q') = length (debug_list q) \<Longrightarrow> aq_ok q'"
  by (auto simp: aq_ok_def live_def)

lemma ring_del_refines:
  assumes "aq_ok q" "aq_del q = Some (Ret r, q')"
  shows "aq_ok q'" "aq_list q' = tl (aq_list q)" "r = (if aq_list q = [] then AQE_ERROR else 0)"
proof -
  have c: "i_count q = 0 \<longleftrightarrow> live q = 0" by (simp add: i_count_live [OF assms(1)])
  have e: "aq_list q = [] \<longleftrightarrow> live q = 0" by (simp flip: length_0_conv)
  show "r = (if aq_list q = [] then AQE_ERROR else 0)"
    using assms(2) c e by (auto simp: aq_del_def del_loop_def split: if_splits)
  have q': "q' = (if live q = 0 then q else q\<lparr>q_tail := q_tail q + 1\<rparr>)"
    using assms(2) c by (auto simp: aq_del_def del_loop_def split: if_splits)
  show "aq_ok q'"
    using assms(1) live_del [of q] capacity(4) [OF assms(1)] unfolding q'
    by (auto intro: ok_range [OF assms(1)])
  show "aq_list q' = tl (aq_list q)"
  proof (cases "live q = 0")
    case False
    then have "live q = Suc (live q')" using live_del [of q] q' by simp
    then have "aq_list q = aq_get q (q_tail q) # map (\<lambda>i. aq_get q (q_tail q + 1 + of_nat i)) [0..<live q']"
      by (simp add: aq_list_def upt_conv_Cons map_Suc_upt [symmetric] del: upt_Suc) (simp add: o_def add.assoc)
    moreover have "aq_list q' = map (\<lambda>i. aq_get q (q_tail q + 1 + of_nat i)) [0..<live q']"
      using False by (simp add: aq_list_def q' aq_get_def slot_def)
    ultimately show ?thesis by simp
  qed (simp add: q' aq_list_def)
qed

lemma pop_refines:
  assumes "aq_ok q" "aq_pop q = Some (Ret r, q')"
  shows "aq_ok q'" "aq_list q' = butlast (aq_list q)" "r = (if aq_list q = [] then AQE_ERROR else 0)"
proof -
  have c: "i_count q = 0 \<longleftrightarrow> live q = 0" by (simp add: i_count_live [OF assms(1)])
  have e: "aq_list q = [] \<longleftrightarrow> live q = 0" by (simp flip: length_0_conv)
  show "r = (if aq_list q = [] then AQE_ERROR else 0)"
    using assms(2) c e by (auto simp: aq_pop_def pop_loop_def split: if_splits option.splits)
  have q': "q' = (if live q = 0 then q else q\<lparr>q_head := q_head q - 1\<rparr>)"
    using assms(2) c by (auto simp: aq_pop_def pop_loop_def split: if_splits option.splits)
  show "aq_ok q'"
    using assms(1) live_pop [of q] capacity(4) [OF assms(1)] unfolding q'
    by (auto intro: ok_range [OF assms(1)])
  show "aq_list q' = butlast (aq_list q)"
  proof (cases "live q = 0")
    case False
    then have "live q = Suc (live q')" using live_pop [of q] q' by simp
    then show ?thesis
      using False by (simp add: aq_list_def q' aq_get_def slot_def butlast_append)
  qed (simp add: q' aq_list_def)
qed

lemma ins_put_refines:
  assumes "aq_ok q" "live q < length (slots q)" "ins_put q = Some (r, q')"
  shows "aq_ok q'" "aq_list q' = aq_list q @ [aq_get q (q_head q)]" "r = Ret (q_head q)"
    "q_tail q' = q_tail q" "live q' = Suc (live q)"
proof -
  obtain i where q': "q' = q\<lparr>q_head := q_head q + 1, ix := (ix q)[i := AQ_INS]\<rparr>" "r = Ret (q_head q)"
    using assms(3) by (auto simp: ins_put_def)
  show l: "live q' = Suc (live q)" unfolding q' by (rule live_ins [OF assms(1)])
  show "aq_ok q'" using l assms(2) by (intro ok_range [OF assms(1)]) (simp_all add: q')
  have "q_tail q + of_nat (live q) = q_head q" by (simp add: live_def)
  then show "aq_list q' = aq_list q @ [aq_get q (q_head q)]"
    using l by (simp add: aq_list_def q' aq_get_def slot_def)
  show "r = Ret (q_head q)" "q_tail q' = q_tail q" by (simp_all add: q')
qed

lemma set_refines:
  assumes "aq_ok q" "i < live q"
  shows "aq_ok (aq_set (q_tail q + of_nat i) x q)"
    "aq_list (aq_set (q_tail q + of_nat i) x q) = (aq_list q)[i := x]"
proof -
  let ?q = "aq_set (q_tail q + of_nat i) x q"
  have l: "live ?q = live q" "length (slots ?q) = length (slots q)" "q_tail ?q = q_tail q" "slot ?q = slot q"
    by (auto simp: aq_set_def live_def slot_def fun_eq_iff)
  show "aq_ok ?q" using capacity(4) [OF assms(1)] l by (intro ok_range [OF assms(1)]) (simp_all add: aq_set_def live_def)
  show "aq_list ?q = (aq_list q)[i := x]"
  proof (rule nth_equalityI)
    fix j assume "j < length (aq_list ?q)"
    then have j: "j < live q" using l by simp
    have "slot q (q_tail q + of_nat i) = slot q (q_tail q + of_nat j) \<longleftrightarrow> i = j"
      using slot_inj [OF assms(1), of i j "q_tail q"] capacity(4) [OF assms(1)] j assms(2) by auto
    then show "aq_list ?q ! j = (aq_list q)[i := x] ! j"
      using j l slot_less [OF assms(1)]
      by (auto simp: aq_list_def aq_get_def nth_list_update) (auto simp: aq_set_def)
  qed (simp add: l)
qed

section \<open>Attached indices\<close>

text \<open>
  What the count of a slot says: in the range an inserted slot whose index has not let go (\<open>AQ_INS\<close>) or
  the number of different indices attached; outside the range nothing is attached.
\<close>

definition used_slot :: "int \<Rightarrow> nat list \<Rightarrow> bool" where
  "used_slot c dl \<longleftrightarrow> c = AQ_INS \<and> dl = [] \<or> c = int (length dl) \<and> distinct dl"

definition free_slot :: "int \<Rightarrow> nat list \<Rightarrow> bool" where
  "free_slot c dl \<longleftrightarrow> (c = AQ_EMPTY \<or> c = 0) \<and> dl = []"

definition in_range :: "'a aq \<Rightarrow> nat \<Rightarrow> bool" where
  "in_range q i \<longleftrightarrow> (\<exists>j < live q. i = slot q (q_tail q + of_nat j))"

definition aq_inv :: "'a aq \<Rightarrow> bool" where
  "aq_inv q \<longleftrightarrow> aq_ok q
     \<and> (\<forall>i < length (slots q).
          if in_range q i then used_slot (ix q ! i) (debug_list q ! i) else free_slot (ix q ! i) (debug_list q ! i))"

lemma aq_invD: "aq_inv q \<Longrightarrow> aq_ok q" by (simp add: aq_inv_def)

lemma inv_wait: "aq_inv (q\<lparr>wait_count := n\<rparr>) = aq_inv q"
  by (simp add: aq_inv_def aq_ok_def in_range_def live_def slot_def)

lemma inside_range: "\<not> outside q p \<Longrightarrow> in_range q (slot q p)"
  unfolding in_range_def by (metis inside_position)

lemma inv_slotD:
  assumes "aq_inv q" "i < length (slots q)"
  shows "in_range q i \<Longrightarrow> used_slot (ix q ! i) (debug_list q ! i)"
    and "\<not> in_range q i \<Longrightarrow> free_slot (ix q ! i) (debug_list q ! i)"
  using assms by (auto simp: aq_inv_def split: if_splits)

lemma inv_used:
  "aq_inv q \<Longrightarrow> \<not> outside q p \<Longrightarrow> used_slot (ix q ! slot q p) (debug_list q ! slot q p)"
  by (rule inv_slotD(1) [OF _ slot_less [OF aq_invD] inside_range])

text \<open>A range with the same slots but for one that is dropped or added.\<close>

lemma in_range_snoc:
  assumes "aq_ok q" "live q' = Suc (live q)" "q_tail q' = q_tail q" "length (slots q') = length (slots q)"
  shows "in_range q' i \<longleftrightarrow> in_range q i \<or> i = slot q (q_head q)"
proof -
  have "q_tail q + of_nat (live q) = q_head q" by (simp add: live_def)
  moreover have "slot q' = slot q" using assms(4) by (simp add: slot_def fun_eq_iff)
  ultimately show ?thesis using assms(2,3) by (auto simp: in_range_def less_Suc_eq)
qed

lemma head_free:
  assumes "aq_ok q" "live q < length (slots q)"
  shows "\<not> in_range q (slot q (q_head q))"
proof
  assume "in_range q (slot q (q_head q))"
  then obtain j where j: "j < live q" "slot q (q_head q) = slot q (q_tail q + of_nat j)" by (auto simp: in_range_def)
  have "q_tail q + of_nat (live q) = q_head q" by (simp add: live_def)
  then have "slot q (q_tail q + of_nat (live q)) = slot q (q_tail q + of_nat j)" using j(2) by simp
  from slot_inj [OF assms(1,2) _ this] j(1) assms(2) show False by simp
qed

lemma ins_put_inv:
  assumes "aq_inv q" "live q < length (slots q)" "ins_put q = Some (r, q')"
  shows "aq_inv q'"
proof -
  note ok = aq_invD [OF assms(1)]
  have q': "q' = q\<lparr>q_head := q_head q + 1, ix := (ix q)[slot q (q_head q) := AQ_INS]\<rparr>"
    using assms(3) int_slot_eq [OF ok] by (auto simp: ins_put_def split: if_splits)
  note r = ins_put_refines [OF ok assms(2,3)]
  have l: "length (slots q') = length (slots q)" "length (ix q) = length (slots q)" using ok by (simp_all add: q' aq_ok_def)
  have f: "free_slot (ix q ! slot q (q_head q)) (debug_list q ! slot q (q_head q))"
    using assms(1) head_free [OF ok assms(2)] slot_less [OF ok] by (auto simp: aq_inv_def)
  show ?thesis
    unfolding aq_inv_def
  proof (intro conjI allI impI)
    show "aq_ok q'" by (rule r(1))
    fix i assume i: "i < length (slots q')"
    then show "if in_range q' i then used_slot (ix q' ! i) (debug_list q' ! i) else free_slot (ix q' ! i) (debug_list q' ! i)"
    proof (cases "i = slot q (q_head q)")
      case True
      then have "in_range q' i" unfolding in_range_snoc [OF ok r(5,4) l(1)] by blast
      then show ?thesis using True i f l by (simp add: q' free_slot_def used_slot_def)
    next
      case False
      then have "in_range q' i = in_range q i" unfolding in_range_snoc [OF ok r(5,4) l(1)] by blast
      then show ?thesis using False i l inv_slotD [OF assms(1), of i] by (simp add: q')
    qed
  qed
qed

lemma in_range_tail:
  assumes "aq_ok q" "0 < live q" "live q' = live q - 1" "q_tail q' = q_tail q + 1" "length (slots q') = length (slots q)"
  shows "in_range q' i \<longleftrightarrow> in_range q i \<and> i \<noteq> slot q (q_tail q)"
proof -
  have s: "slot q' = slot q" using assms(5) by (simp add: slot_def fun_eq_iff)
  have e: "q_tail q + 1 + of_nat j = q_tail q + of_nat (Suc j)" for j by (simp add: algebra_simps)
  have ne: "slot q (q_tail q + of_nat (Suc j)) \<noteq> slot q (q_tail q)" if "Suc j < live q" for j
    using slot_inj [OF assms(1), of "Suc j" 0 "q_tail q"] that capacity(1,4) [OF assms(1)] by auto
  show ?thesis
  proof
    assume "in_range q' i"
    then obtain j where "j < live q - 1" "i = slot q (q_tail q + of_nat (Suc j))"
      using assms(3,4) s e by (auto simp: in_range_def)
    then show "in_range q i \<and> i \<noteq> slot q (q_tail q)"
      using ne [of j] unfolding in_range_def by (intro conjI exI [of _ "Suc j"]) auto
  next
    assume a: "in_range q i \<and> i \<noteq> slot q (q_tail q)"
    then obtain j where j: "j < live q" "i = slot q (q_tail q + of_nat j)" by (auto simp: in_range_def)
    then obtain k where "j = Suc k" using a by (cases j) auto
    then have "i = slot q' (q_tail q' + of_nat k)" "k < live q'"
      using j assms(3,4) by (simp_all add: s algebra_simps)
    then show "in_range q' i" unfolding in_range_def by blast
  qed
qed

lemma tail_inside: "aq_ok q \<Longrightarrow> 0 < live q \<Longrightarrow> \<not> outside q (q_tail q)"
  using position_inside [of q 0] by simp

lemma del_inv:
  assumes "aq_inv q" "aq_del q = Some (r, q')"
  shows "aq_inv q'"
proof -
  note ok = aq_invD [OF assms(1)]
  have c: "i_count q = 0 \<longleftrightarrow> live q = 0" by (simp add: i_count_live [OF ok])
  consider (same) "q' = q \<or> q' = q\<lparr>wait_count := wait_count q + 1\<rparr>"
    | (gone) "0 < live q" "ix q ! slot q (q_tail q) = 0" "debug_list q ! slot q (q_tail q) = []"
        "q' = q\<lparr>q_tail := q_tail q + 1\<rparr>"
    using assms(2) c by (auto simp: aq_del_def del_loop_def split: if_splits)
  then show ?thesis
  proof cases
    case same
    then show ?thesis using assms(1) inv_wait by auto
  next
    case gone
    have l: "live q' = live q - 1" using live_del [OF gone(1)] gone(4) by simp
    have "aq_ok q'" using ok l capacity(4) [OF ok] gone(4) by (intro ok_range [OF ok]) simp_all
    moreover have "in_range q' i \<longleftrightarrow> in_range q i \<and> i \<noteq> slot q (q_tail q)" for i
      by (rule in_range_tail [OF ok gone(1) l]) (simp_all add: gone(4))
    ultimately show ?thesis
      using assms(1) gone by (auto simp: aq_inv_def free_slot_def)
  qed
qed

lemma slot_update_inv:
  assumes "aq_inv q" "in_range q i" "i < length (slots q)" "used_slot c dl"
  shows "aq_inv (q\<lparr>ix := (ix q)[i := c], wait_count := wc, debug_list := (debug_list q)[i := dl]\<rparr>)" (is "aq_inv ?q")
proof -
  have len: "length (ix q) = length (slots q)" "length (debug_list q) = length (slots q)" "aq_ok ?q"
    using aq_invD [OF assms(1)] by (auto simp: aq_ok_def)
  have r: "in_range ?q j = in_range q j" for j by (simp add: in_range_def live_def slot_def)
  show ?thesis
    unfolding aq_inv_def r
  proof (intro conjI allI impI len(3))
    fix j assume "j < length (slots ?q)"
    then show "if in_range q j then used_slot (ix ?q ! j) (debug_list ?q ! j) else free_slot (ix ?q ! j) (debug_list ?q ! j)"
      using inv_slotD [OF assms(1), of j] assms(2-4) len by (cases "j = i") auto
  qed
qed

lemma attach_inv:
  assumes "aq_inv q" "attach p org q = (r, q')" "\<And>i. org \<notin> set (debug_list q ! i) \<or> \<not> i < length (slots q)"
  shows "aq_inv q'" "r = Ret 0 \<longleftrightarrow> \<not> outside q p \<and> ix q ! slot q p \<noteq> AQ_INS"
    and "r = Ret AQE_ERROR \<longleftrightarrow> outside q p"
proof -
  note ok = aq_invD [OF assms(1)]
  have u: "\<not> outside q p \<Longrightarrow> ix q ! slot q p < 0 \<longleftrightarrow> ix q ! slot q p = AQ_INS"
    using inv_used [OF assms(1)] by (fastforce simp: used_slot_def AQ_INS_def)
  show "r = Ret 0 \<longleftrightarrow> \<not> outside q p \<and> ix q ! slot q p \<noteq> AQ_INS" "r = Ret AQE_ERROR \<longleftrightarrow> outside q p"
    using assms(2) u by (auto simp: attach_def AQE_ERROR_def Let_def split: if_splits)
  consider (same) "q' = q \<or> q' = q\<lparr>wait_count := wait_count q + 1\<rparr>"
    | (put) "\<not> outside q p" "\<not> ix q ! slot q p < 0"
        "q' = q\<lparr>ix := (ix q)[slot q p := ix q ! slot q p + 1],
               debug_list := (debug_list q)[slot q p := org # debug_list q ! slot q p]\<rparr>"
    using assms(2) by (auto simp: attach_def Let_def split: if_splits)
  then show "aq_inv q'"
  proof cases
    case same
    then show ?thesis using assms(1) inv_wait by auto
  next
    case put
    let ?i = "slot q p"
    have i: "?i < length (slots q)" by (rule slot_less [OF ok])
    have "used_slot (ix q ! ?i + 1) (org # debug_list q ! ?i)"
      using inv_used [OF assms(1) put(1)] put(2) assms(3) [of ?i] i by (auto simp: used_slot_def AQ_INS_def)
    from slot_update_inv [OF assms(1) inside_range [OF put(1)] i this, of "wait_count q"] put(3) show ?thesis by simp
  qed
qed

lemma detach_inv:
  assumes "aq_inv q" and own: "\<not> outside q p \<Longrightarrow> ix q ! slot q p > 0 \<Longrightarrow> org \<in> set (debug_list q ! slot q p)"
  obtains r q' where "detach p org q = Some (r, q')" "aq_inv q'" "aq_list q' = aq_list q" "org \<notin> set (debug_list q' ! slot q p) \<or> outside q p"
proof -
  note ok = aq_invD [OF assms(1)]
  let ?i = "slot q p" and ?dl = "debug_list q ! slot q p"
  have i: "?i < length (slots q)" by (rule slot_less [OF ok])
  have len: "length (ix q) = length (slots q)" "length (debug_list q) = length (slots q)" using ok by (auto simp: aq_ok_def)
  show ?thesis
  proof (cases "outside q p \<or> ix q ! ?i = 0")
    case True
    moreover have "?dl = []" if "\<not> outside q p"
      using True that inv_used [OF assms(1) that] by (auto simp: used_slot_def AQ_INS_def)
    moreover have "detach p org q = Some (AQE_ERROR, q)" using True by (auto simp: detach_def Let_def)
    ultimately show ?thesis using that [of AQE_ERROR q] assms(1) by (cases "outside q p") auto
  next
    case False
    have u: "used_slot (ix q ! ?i) ?dl" using inv_used [OF assms(1)] False by blast
    let ?c = "if ix q ! ?i = AQ_INS then 0 else ix q ! ?i - 1"
    let ?wc = "if ?c = 0 \<and> wait_count q > 0 then 0 else wait_count q"
    let ?q = "q\<lparr>ix := (ix q)[?i := ?c], wait_count := ?wc, debug_list := (debug_list q)[?i := remove1 org ?dl]\<rparr>"
    have mem: "ix q ! ?i \<noteq> AQ_INS \<Longrightarrow> org \<in> set ?dl"
      using own False u by (auto simp: used_slot_def AQ_INS_def)
    have new: "used_slot ?c (remove1 org ?dl)" "org \<notin> set (remove1 org ?dl)" "?c = 0 \<longrightarrow> remove1 org ?dl = []"
    proof -
      have "used_slot ?c (remove1 org ?dl) \<and> org \<notin> set (remove1 org ?dl) \<and> (?c = 0 \<longrightarrow> remove1 org ?dl = [])"
      proof (cases "ix q ! ?i = AQ_INS")
        case True
        then have "?dl = []" using u by (auto simp: used_slot_def AQ_INS_def)
        then show ?thesis using True by (simp add: used_slot_def)
      next
        case ne: False
        then have n: "ix q ! ?i = int (length ?dl)" "distinct ?dl" "org \<in> set ?dl"
          using u mem by (auto simp: used_slot_def)
        then have "length (remove1 org ?dl) = length ?dl - 1" "0 < length ?dl"
          by (auto simp: length_remove1 length_pos_if_in_set)
        moreover have "distinct (remove1 org ?dl)" "org \<notin> set (remove1 org ?dl)" using n(2) by simp_all
        moreover have "remove1 org ?dl = []" if "int (length ?dl) - 1 = 0"
          using that calculation(1) by (metis diff_is_0_eq' length_0_conv nat_le_linear of_nat_1 of_nat_eq_iff right_minus_eq)
        moreover have "int (length ?dl) - 1 = int (length ?dl - 1)" using calculation(2) by linarith
        ultimately show ?thesis using ne unfolding n(1) used_slot_def by presburger
      qed
      then show "used_slot ?c (remove1 org ?dl)" "org \<notin> set (remove1 org ?dl)" "?c = 0 \<longrightarrow> remove1 org ?dl = []"
        by blast+
    qed
    have d: "detach p org q = Some (0, ?q)"
      using False mem new(3) by (simp add: detach_def Let_def)
    have "in_range q ?i" using False inside_range by blast
    then have "aq_inv ?q" by (rule slot_update_inv [OF assms(1) _ i new(1)])
    then show ?thesis using that [OF d] new(2) i len by (simp add: aq_list_def aq_get_def live_def slot_def)
  qed
qed

section \<open>Properties\<close>

text \<open>The ring is a list: deletion at the tail, removal at the head and insertion, when they return,
  keep the invariant and are \<open>tl\<close>, \<open>butlast\<close> and appending the slot that was freed; insertion into a
  full ring first drops the oldest element; assignment through an index in the range changes just that
  element; this across any wrap of the 32-bit positions.\<close>

theorem ring_as_list:
  assumes "aq_inv q"
  shows "(\<forall>r q'. aq_del q = Some (Ret r, q') \<longrightarrow> aq_inv q' \<and> aq_list q' = tl (aq_list q))
    \<and> (\<forall>r q'. aq_pop q = Some (Ret r, q') \<longrightarrow> aq_ok q' \<and> aq_list q' = butlast (aq_list q))
    \<and> (\<forall>r q'. aq_ins q = Some (Ret r, q') \<longrightarrow> aq_inv q' \<and> r = q_head q
         \<and> (\<exists>x. aq_list q' = (if live q = length (slots q) then tl (aq_list q) else aq_list q) @ [x]))
    \<and> (\<forall>i < live q. aq_list (aq_set (q_tail q + of_nat i) x q) = (aq_list q)[i := x])"
proof (intro conjI allI impI)
  note ok = aq_invD [OF assms]
  show "aq_list (aq_set (q_tail q + of_nat i) x q) = (aq_list q)[i := x]" if "i < live q" for i
    by (rule set_refines(2) [OF ok that])
  fix r q' assume d: "aq_del q = Some (Ret r, q')"
  show "aq_inv q'" "aq_list q' = tl (aq_list q)" using del_inv [OF assms d] ring_del_refines [OF ok d] by blast+
next
  note ok = aq_invD [OF assms]
  fix r q' assume d: "aq_pop q = Some (Ret r, q')"
  show "aq_ok q'" "aq_list q' = butlast (aq_list q)" using pop_refines [OF ok d] by blast+
next
  note ok = aq_invD [OF assms]
  fix r q' assume ins: "aq_ins q = Some (Ret r, q')"
  have "aq_inv q' \<and> r = q_head q
      \<and> aq_list q' = (if live q = length (slots q) then tl (aq_list q) else aq_list q) @ [aq_get q (q_head q)]"
  proof (cases "live q = length (slots q)")
    case True
    then obtain e q1 where d: "aq_del q = Some (Ret e, q1)" "ins_put q1 = Some (Ret r, q')"
      using ins i_count_live [OF ok] by (auto simp: aq_ins_def split: option.splits outcome.splits)
    have "0 < live q" using True capacity(1) [OF ok] by simp
    then have q1: "q1 = q\<lparr>q_tail := q_tail q + 1\<rparr>" "live q1 = live q - 1"
      using d(1) i_count_live [OF ok] live_del [of q] by (auto simp: aq_del_def del_loop_def split: if_splits)
    have i1: "aq_inv q1" by (rule del_inv [OF assms d(1)])
    have l1: "live q1 < length (slots q1)" using q1 True \<open>0 < live q\<close> by simp
    show ?thesis
      using ins_put_inv [OF i1 l1 d(2)] ins_put_refines [OF aq_invD [OF i1] l1 d(2)] ring_del_refines(2) [OF ok d(1)] True q1(1)
      by (simp add: aq_get_def slot_def)
  next
    case False
    then have l: "live q < length (slots q)" using capacity(4) [OF ok] by simp
    have p: "ins_put q = Some (Ret r, q')" using ins False i_count_live [OF ok] by (simp add: aq_ins_def)
    show ?thesis using ins_put_inv [OF assms l p] ins_put_refines [OF ok l p] False by simp
  qed
  then show "aq_inv q'" "r = q_head q"
    "\<exists>x. aq_list q' = (if live q = length (slots q) then tl (aq_list q) else aq_list q) @ [x]" by blast+
qed

text \<open>A ring of two whose range has wrapped: positions \<open>2^32 - 1\<close> and \<open>0\<close>.\<close>

definition wrapped :: "nat aq" where
  "wrapped = \<lparr>slots = [8, 7], ix = [0, 0], debug_list = [[], []], q_head = 1, q_tail = 0xFFFFFFFF, wait_count = 0\<rparr>"

lemma wrapped_slot: "slot wrapped p = (if even (unat p) then 0 else 1)"
  by (simp add: slot_def wrapped_def mod2_eq_if flip: numeral_2_eq_2)

lemma wrapped_list: "live wrapped = 2" "aq_list wrapped = [7, 8]"
proof -
  show l: "live wrapped = 2" by (simp add: wrapped_def live_def)
  show "aq_list wrapped = [7, 8]"
    by (simp add: aq_list_def l aq_get_def wrapped_slot upt_rec [of 0 2] upt_rec [of "Suc 0" 2]) (simp add: wrapped_def)
qed

lemma wrapped_ok: "aq_inv wrapped"
proof -
  have "aq_ok wrapped" unfolding aq_ok_def by (simp add: wrapped_def) (rule exI [of _ 1], simp)
  moreover have "in_range wrapped i" if "i < 2" for i
  proof -
    have "i = 0 \<or> i = 1" using that by auto
    moreover have "slot wrapped (q_tail wrapped + of_nat 0) = 1" "slot wrapped (q_tail wrapped + of_nat 1) = 0"
      unfolding wrapped_slot by (simp_all add: wrapped_def)
    moreover have "(0 :: nat) < 2" "(1 :: nat) < 2" by simp_all
    ultimately show ?thesis unfolding in_range_def wrapped_list by metis
  qed
  moreover have "used_slot (ix wrapped ! i) (debug_list wrapped ! i)" if "i < 2" for i
    using that by (auto simp: wrapped_def used_slot_def less_2_cases_iff)
  moreover have "length (slots wrapped) = 2" by (simp add: wrapped_def)
  ultimately show ?thesis by (simp add: aq_inv_def)
qed

theorem ring_as_list_witness:
  "\<exists>q'. aq_del wrapped = Some (Ret 0, q') \<and> aq_list q' = [8] \<and> aq_list (aq_set 0 5 wrapped) = [7, 5]"
proof -
  have "aq_del wrapped = Some (Ret 0, wrapped\<lparr>q_tail := 0\<rparr>)"
    unfolding aq_del_def del_loop_def i_count_def wrapped_slot by (simp add: wrapped_def)
  moreover have "q_tail wrapped + of_nat 1 = 0" by (simp add: wrapped_def)
  ultimately show ?thesis
    using ring_as_list [OF wrapped_ok, of 5] by (auto simp: wrapped_list dest!: spec [of _ 1])
qed

subsection \<open>Capacities and positions\<close>







text \<open>A queue of two that has taken \<open>2^31 + 1\<close> elements can take no more.\<close>

lemma ins_panics:
  "aq_ins \<lparr>slots = [a, b], ix = [0, 0], debug_list = [[], []], q_head = 0x80000001, q_tail = 0x80000001,
     wait_count = 0\<rparr> = None"
  by (simp add: aq_ins_def ins_put_def i_count_def int_slot_def numeral_2_eq_2)

subsection \<open>Attaching\<close>

text \<open>An attached element stays: attaching an index to a position in the range keeps the invariant and
  the contents; while anything is attached to the oldest element, \<open>del\<close> waits; and letting the index go
  never panics, changes nothing but the counts, and gives back the count there was.\<close>

theorem attached_stays:
  assumes "aq_inv q" "\<And>i. i < length (slots q) \<Longrightarrow> org \<notin> set (debug_list q ! i)" "attach p org q = (Ret 0, q1)"
  shows "aq_inv q1 \<and> aq_list q1 = aq_list q
    \<and> (p = q_tail q \<longrightarrow> (\<exists>q2. aq_del q1 = Some (Waits, q2)))
    \<and> (\<exists>q2. detach p org q1 = Some (0, q2) \<and> aq_inv q2 \<and> aq_list q2 = aq_list q \<and> ix q2 = ix q)"
proof -
  note ok = aq_invD [OF assms(1)]
  have fresh: "org \<notin> set (debug_list q ! i) \<or> \<not> i < length (slots q)" for i using assms(2) by blast
  note a = attach_inv [OF assms(1,3) fresh]
  have in_: "\<not> outside q p" "ix q ! slot q p \<noteq> AQ_INS" using a(2) by simp_all
  let ?i = "slot q p"
  have i: "?i < length (slots q)" by (rule slot_less [OF ok])
  have len: "length (ix q) = length (slots q)" "length (debug_list q) = length (slots q)" using ok by (auto simp: aq_ok_def)
  have u: "0 \<le> ix q ! ?i" using inv_used [OF assms(1) in_(1)] in_(2) by (auto simp: used_slot_def)
  have q1: "q1 = q\<lparr>ix := (ix q)[?i := ix q ! ?i + 1], debug_list := (debug_list q)[?i := org # debug_list q ! ?i]\<rparr>"
    using assms(3) in_(1) u by (auto simp: attach_def Let_def split: if_splits)
  have same: "slot q1 = slot q" "aq_list q1 = aq_list q" "live q1 = live q" "outside q1 = outside q"
    by (simp_all add: q1 slot_def live_def aq_list_def aq_get_def outside_def fun_eq_iff)
  have "\<exists>q2. aq_del q1 = Some (Waits, q2)" if "p = q_tail q"
  proof -
    have "0 < live q" using in_(1) that by (auto simp: outside_distance)
    moreover have "q_tail q1 = p" using that by (simp add: q1)
    moreover have "ix q1 ! ?i \<noteq> 0" using u i len by (simp add: q1)
    ultimately show ?thesis
      using i_count_live [OF aq_invD [OF a(1)]] same(1,3) by (simp add: aq_del_def del_loop_def)
  qed
  moreover have "\<exists>q2. detach p org q1 = Some (0, q2) \<and> aq_inv q2 \<and> aq_list q2 = aq_list q \<and> ix q2 = ix q"
  proof -
    have e: "ix q1 ! ?i = ix q ! ?i + 1" "debug_list q1 ! ?i = org # debug_list q ! ?i" using i len by (simp_all add: q1)
    have "org \<in> set (debug_list q1 ! slot q1 p)" using e(2) same(1) by simp
    then obtain r q2 where d: "detach p org q1 = Some (r, q2)" "aq_inv q2" "aq_list q2 = aq_list q1"
      using detach_inv [OF a(1)] by metis
    have o: "\<not> outside q1 p" using in_(1) same(4) by simp
    have undone: "(ix q1)[?i := ix q ! ?i] = ix q" by (simp add: q1)
    have "r = 0 \<and> ix q2 = ix q"
      using d(1) e u o undone by (auto simp: detach_def Let_def same(1) AQ_INS_def split: if_splits)
    with d same(2) show ?thesis by simp
  qed
  ultimately show ?thesis using a(1) same(2) by blast
qed

theorem attached_stays_witness:
  "\<exists>q1. attach 0xFFFFFFFF 3 wrapped = (Ret 0, q1) \<and> (\<exists>q2. aq_del q1 = Some (Waits, q2))
     \<and> (\<exists>q2. detach 0xFFFFFFFF 3 q1 = Some (0, q2) \<and> aq_list q2 = [7, 8])"
proof -
  obtain q1 where q1: "attach 0xFFFFFFFF 3 wrapped = (Ret 0, q1)"
    unfolding attach_def Let_def wrapped_slot by (simp add: wrapped_def outside_def)
  have "3 \<notin> set (debug_list wrapped ! i)" if "i < length (slots wrapped)" for i
    using that by (auto simp: wrapped_def less_Suc_eq)
  from attached_stays [OF wrapped_ok this q1] q1 show ?thesis by (auto simp: wrapped_list) (simp add: wrapped_def)
qed

text \<open>
  Two deletions that wait for the same oldest element are both woken when it is let go.  The second one
  does not look at the count again: if the slot behind was used before, it moves the tail past the
  head, and the queue of two then counts itself \<open>-1\<close> long.
\<close>

theorem second_delete_runs_past:
  fixes a b :: 'a
  defines "q \<equiv> \<lparr>slots = [a, b], ix = [0, 0], debug_list = [[], []], q_head = 3, q_tail = 2, wait_count = 0\<rparr>"
  shows "\<exists>q1 q2. del_loop q = Some (Ret 0, q1) \<and> i_count q1 = 0 \<and> del_loop q1 = Some (Ret 0, q2) \<and> i_count q2 = - 1"
proof -
  have "3 mod 2 = (1 :: nat)" by simp
  then show ?thesis
    by (simp add: q_def del_loop_def slot_def i_count_def flip: numeral_2_eq_2)
qed

end
