(* ===== verification/Reactor.thy ===== *)
theory Reactor
  imports TinyState StdQueueRefine "HOL-Library.Word" "HOL-Library.Multiset"
begin

unbundle bit_operations_syntax

text \<open>
  The reactor \<open>fwIO\<close>: the registrations of state machines for readable and writable descriptors and
  for timers (\<open>src/src/classes/ts2/c++/fwIO.cpp\<close>), the self-pipe that wakes the loop and the loop around
  \<open>select\<close> (\<open>src/arch/posix/src/classes/ts2/c++/fwIOarch.cpp\<close>).

  The three queues are \<open>stdQueue\<close>s, read at their contents: \<open>StdQueueRefine\<close> shows that the linked
  queue does \<^const>\<open>sq_ins\<close>, \<^const>\<open>sq_move\<close> and the removal of a first match on that list.  Every
  operation runs under the mutex of the reactor, so it is one step; the loop takes the mutex for its
  scan and for its collection, and lets it go for \<open>select\<close> and for the calls of event handlers.
  \<open>select\<close>, \<open>fstat\<close>, the clock, the state of an object (\<open>zom\<close>: it is in a \<open>ZOM\<close> state) and the
  stability of the garbage collector are arguments.
\<close>

section \<open>Registrations\<close>

definition FD_SETSIZE :: int where "FD_SETSIZE = 1024"
definition FWTR_WRITE :: int where "FWTR_WRITE = 1"
definition FWTR_READ :: int where "FWTR_READ = 2"
definition FWTR_INTERVAL :: int where "FWTR_INTERVAL = 4"
definition FWIO_OPT_ONLY_EXP :: int where "FWIO_OPT_ONLY_EXP = 1"

record fwIOdata =
  fd_type :: nat
  fd_seq :: "32 word"
  fd_data :: int
  fd_opt :: int
  fd_obj :: nat

type_synonym fwq = "(int \<times> fwIOdata) list"

text \<open>\<open>pfd_bytes\<close> counts the bytes in the pipe; \<open>seqNo\<close> is the static counter behind \<open>getSeq\<close>.\<close>

record fwIO =
  read_objs :: fwq
  write_objs :: fwq
  interval_objs :: fwq
  announceMaxfd :: int
  realMaxfd :: int
  wait_flag :: bool
  pfd_bytes :: nat
  refio :: int
  refio_pins :: "(int \<times> nat) list"
  seqNo :: "32 word"

definition new_fwIO :: "32 word \<Rightarrow> fwIO" where
  "new_fwIO s = \<lparr>read_objs = [], write_objs = [], interval_objs = [], announceMaxfd = - 1, realMaxfd = 0,
     wait_flag = False, pfd_bytes = 0, refio = 0, refio_pins = [], seqNo = s\<rparr>"

definition announce :: "int \<Rightarrow> fwIO \<Rightarrow> fwIO" where
  "announce msg w = w\<lparr>announceMaxfd := msg\<rparr>"

definition writePipe :: "fwIO \<Rightarrow> fwIO" where
  "writePipe w = (if wait_flag w then w else w\<lparr>wait_flag := True, pfd_bytes := pfd_bytes w + 1\<rparr>)"

definition readPipe :: "fwIO \<Rightarrow> fwIO" where
  "readPipe w = w\<lparr>pfd_bytes := 0\<rparr>"

text \<open>The element a registration files, and \<open>read\<close>, \<open>write\<close> (\<^term>\<open>None\<close> is the panic) and \<open>wait\<close>.\<close>

definition fw_elem :: "nat \<Rightarrow> nat \<Rightarrow> int \<Rightarrow> int \<Rightarrow> fwIO \<Rightarrow> fwIOdata" where
  "fw_elem type obj data opt w =
     \<lparr>fd_type = type, fd_seq = fst (getSeq (seqNo w)), fd_data = data, fd_opt = opt, fd_obj = obj\<rparr>"

definition fw_read :: "nat \<Rightarrow> int \<Rightarrow> int \<Rightarrow> fwIO \<Rightarrow> (32 word \<times> fwIO) option" where
  "fw_read obj fd opt w =
     (if fd < 0 \<or> FD_SETSIZE \<le> fd then None
      else let dd = fw_elem TSE_RETURN obj fd opt w in
        Some (fd_seq dd, writePipe (w\<lparr>seqNo := snd (getSeq (seqNo w)),
                                       read_objs := sq_ins False fd dd (read_objs w)\<rparr>)))"

definition fw_write :: "nat \<Rightarrow> int \<Rightarrow> int \<Rightarrow> fwIO \<Rightarrow> (32 word \<times> fwIO) option" where
  "fw_write obj fd opt w =
     (if fd < 0 \<or> FD_SETSIZE \<le> fd then None
      else let dd = fw_elem TSE_RETURN obj fd opt w in
        Some (fd_seq dd, writePipe (w\<lparr>seqNo := snd (getSeq (seqNo w)),
                                       write_objs := sq_ins False fd dd (write_objs w)\<rparr>)))"

definition fw_wait :: "nat \<Rightarrow> int \<Rightarrow> int \<Rightarrow> nat \<Rightarrow> fwIO \<Rightarrow> 32 word \<times> fwIO" where
  "fw_wait obj now tm type w =
     (let dd = fw_elem type obj (now + tm) 0 w in
      (fd_seq dd, writePipe (w\<lparr>seqNo := snd (getSeq (seqNo w)),
                                interval_objs := sq_ins False (now + tm) dd (interval_objs w)\<rparr>)))"

definition registered :: "nat \<Rightarrow> fwq \<Rightarrow> bool" where
  "registered obj q = list_ex (\<lambda>e. fd_obj (snd e) = obj) q"

definition is_read :: "nat \<Rightarrow> fwIO \<Rightarrow> bool" where "is_read obj w = registered obj (read_objs w)"
definition is_write :: "nat \<Rightarrow> fwIO \<Rightarrow> bool" where "is_write obj w = registered obj (write_objs w)"
definition is_wait :: "nat \<Rightarrow> fwIO \<Rightarrow> bool" where "is_wait obj w = registered obj (interval_objs w)"

text \<open>\<open>for ( ; q->del(obj,cmp).is_notNull() ; );\<close>\<close>

function del_each :: "('a \<Rightarrow> bool) \<Rightarrow> 'a list \<Rightarrow> 'a list" where
  "del_each P q = (case find P q of None \<Rightarrow> q | Some _ \<Rightarrow> del_each P (remove_first P q))"
  by pat_completeness auto
termination
proof (relation "measure (length \<circ> snd)")
  fix P :: "'a \<Rightarrow> bool" and q x
  assume "find P q = Some x"
  then have "q \<noteq> []" by auto
  with \<open>find P q = Some x\<close> show "((P, remove_first P q), P, q) \<in> measure (length \<circ> snd)"
    by (simp add: length_remove_first)
qed simp

declare del_each.simps [simp del]

definition detach :: "nat \<Rightarrow> int \<Rightarrow> fwIO \<Rightarrow> fwIO" where
  "detach obj flags w =
     (let P = (\<lambda>e. fd_obj (snd e) = obj);
          w1 = (if flags AND FWTR_READ \<noteq> 0 then w\<lparr>read_objs := del_each P (read_objs w)\<rparr> else w);
          w2 = (if flags AND FWTR_WRITE \<noteq> 0 then w1\<lparr>write_objs := del_each P (write_objs w1)\<rparr> else w1);
          w3 = (if flags AND FWTR_INTERVAL \<noteq> 0 then w2\<lparr>interval_objs := del_each P (interval_objs w2)\<rparr> else w2)
      in writePipe w3)"

definition addRefio :: "nat sptr \<Rightarrow> fwIO \<Rightarrow> fwIO" where
  "addRefio obj w =
     (case obj of
        None \<Rightarrow> w\<lparr>refio := refio w + 1\<rparr>
      | Some x \<Rightarrow> w\<lparr>refio := refio w + 1, refio_pins := sq_ins False max_integer64 x (refio_pins w)\<rparr>)"

definition delRefio :: "nat sptr \<Rightarrow> fwIO \<Rightarrow> fwIO" where
  "delRefio obj w =
     (let w1 = w\<lparr>refio := refio w - 1\<rparr>;
          w2 = (case obj of None \<Rightarrow> w1
                | Some x \<Rightarrow> w1\<lparr>refio_pins := remove_first (\<lambda>e. snd e = x) (refio_pins w1)\<rparr>);
          w3 = (if refio w2 < 0 then w2\<lparr>refio := 0\<rparr> else w2)
      in writePipe w3)"

text \<open>
  \<open>abort(fd)\<close>: one turn of its loop takes a registration out under the mutex; its event, with \<open>-1\<close>
  for the data, is handled outside.  \<open>h\<close> is what the handler does to the reactor.
\<close>

record io_event =
  ie_type :: nat
  ie_obj :: nat
  ie_seq :: "32 word"
  ie_data :: int

definition abort_event :: "fwIOdata \<Rightarrow> io_event" where
  "abort_event d = \<lparr>ie_type = fd_type d, ie_obj = fd_obj d, ie_seq = fd_seq d, ie_data = - 1\<rparr>"

partial_function (option) abort_reads ::
  "(io_event \<Rightarrow> fwIO \<Rightarrow> fwIO) \<Rightarrow> int \<Rightarrow> fwIO \<Rightarrow> (io_event list \<times> fwIO) option" where
  "abort_reads h fd w =
     (case find (\<lambda>e. fd_data (snd e) = fd) (read_objs w) of
        None \<Rightarrow> Some ([], w)
      | Some e \<Rightarrow>
          Option.bind
            (abort_reads h fd (h (abort_event (snd e))
               (w\<lparr>read_objs := remove_first (\<lambda>e. fd_data (snd e) = fd) (read_objs w)\<rparr>)))
            (\<lambda>r. Some (abort_event (snd e) # fst r, snd r)))"

partial_function (option) abort_writes ::
  "(io_event \<Rightarrow> fwIO \<Rightarrow> fwIO) \<Rightarrow> int \<Rightarrow> fwIO \<Rightarrow> (io_event list \<times> fwIO) option" where
  "abort_writes h fd w =
     (case find (\<lambda>e. fd_data (snd e) = fd) (write_objs w) of
        None \<Rightarrow> Some ([], w)
      | Some e \<Rightarrow>
          Option.bind
            (abort_writes h fd (h (abort_event (snd e))
               (w\<lparr>write_objs := remove_first (\<lambda>e. fd_data (snd e) = fd) (write_objs w)\<rparr>)))
            (\<lambda>r. Some (abort_event (snd e) # fst r, snd r)))"

definition abort :: "(io_event \<Rightarrow> fwIO \<Rightarrow> fwIO) \<Rightarrow> int \<Rightarrow> fwIO \<Rightarrow> (io_event list \<times> fwIO) option" where
  "abort h fd w =
     (case abort_reads h fd w of
        None \<Rightarrow> None
      | Some (evs, w1) \<Rightarrow> map_option (\<lambda>(evs', w2). (evs @ evs', w2)) (abort_writes h fd w1))"

text \<open>The destructor tells everything that is registered.\<close>

definition fwIO_delete :: "fwIO \<Rightarrow> io_event list" where
  "fwIO_delete w =
     map (\<lambda>e. \<lparr>ie_type = TSE_DESTROY, ie_obj = fd_obj (snd e), ie_seq = 0, ie_data = 0\<rparr>)
       (read_objs w @ write_objs w @ interval_objs w)"

section \<open>The loop\<close>

subsection \<open>Scan\<close>

record masks =
  m_read :: "int set"
  m_write :: "int set"
  m_exp :: "int set"
  m_max :: int

text \<open>\<open>ts_io_filter_zom\<close> and \<open>ts_io_filter_zom2\<close> with \<open>move\<close>, whose result is dropped.\<close>

definition filter_zom :: "(nat \<Rightarrow> bool) \<Rightarrow> fwIOdata sptr \<Rightarrow> int" where
  "filter_zom zom dd = (if zom (fd_obj (the dd)) then 1 else 0)"

definition filter_zom2 :: "(nat \<Rightarrow> bool) \<Rightarrow> fwIOdata sptr \<Rightarrow> int" where
  "filter_zom2 zom dd = (if zom (fd_obj (the dd)) then 1 else - 1)"

definition moved :: "(fwIOdata sptr \<Rightarrow> int) \<Rightarrow> fwq \<Rightarrow> fwq" where
  "moved cmp q = map (apsnd the) (snd (sq_move cmp (map (apsnd Some) q)))"

text \<open>\<open>ts_io_get_maxfd\<close> over a queue: the set of its direction, the exception set and the bound.\<close>

definition get_maxfd :: "fwq \<Rightarrow> int set \<times> int set \<times> int \<Rightarrow> int set \<times> int set \<times> int" where
  "get_maxfd q mfd =
     foldl (\<lambda>(fsp, fexp, maxfd) e.
        (if fd_opt (snd e) = FWIO_OPT_ONLY_EXP then fsp else insert (fd_data (snd e)) fsp,
         insert (fd_data (snd e)) fexp,
         if maxfd \<le> fd_data (snd e) then fd_data (snd e) + 1 else maxfd)) mfd q"

text \<open>\<open>ts_io_get_interval_minimal\<close>, which stops the \<open>check\<close> at the first later timer.\<close>

fun interval_minimal :: "fwIOdata sptr \<Rightarrow> fwq \<Rightarrow> fwIOdata sptr" where
  "interval_minimal p [] = p"
| "interval_minimal p (e # es) =
     (case p of
        None \<Rightarrow> interval_minimal (Some (snd e)) es
      | Some m \<Rightarrow>
          if fd_data m > fd_data (snd e) then interval_minimal (Some (snd e)) es
          else if fd_data m < fd_data (snd e) then p
          else interval_minimal p es)"

datatype scanned = Announced int | Finished | Unstable | To_select masks "fwIOdata sptr"

definition loop_scan :: "(nat \<Rightarrow> bool) \<Rightarrow> bool \<Rightarrow> int \<Rightarrow> fwIO \<Rightarrow> scanned \<times> fwIO" where
  "loop_scan zom calm pfd w =
     (let w1 = w\<lparr>read_objs := moved (filter_zom zom) (read_objs w),
                 write_objs := moved (filter_zom zom) (write_objs w),
                 interval_objs := moved (filter_zom2 zom) (interval_objs w)\<rparr>;
          (fdread, fdexp, maxfd) = get_maxfd (read_objs w1) ({}, {}, 0);
          (fdwrite, fdexp, maxfd) = get_maxfd (write_objs w1) ({}, fdexp, maxfd);
          ptr = interval_minimal None (interval_objs w1);
          n = int (length (read_objs w1)) + int (length (write_objs w1));
          w2 = w1\<lparr>realMaxfd := (if ptr \<noteq> None then n + announceMaxfd w1 + 1 else n)\<rparr>
      in if realMaxfd w2 = announceMaxfd w2 \<and> ptr = None then (Announced maxfd, w2)
         else if maxfd = 0 \<and> ptr = None \<and> refio w2 = 0 \<and> calm then (Finished, w2)
         else
           let m = \<lparr>m_read = insert pfd fdread, m_write = fdwrite, m_exp = insert pfd fdexp,
                    m_max = (if maxfd \<le> pfd then pfd + 1 else maxfd)\<rparr>;
               w3 = w2\<lparr>wait_flag := False\<rparr>
           in if maxfd = 0 \<and> ptr = None \<and> refio w2 = 0 then (Unstable, w3) else (To_select m ptr, w3))"

subsection \<open>Select\<close>

definition ts_get_timeval :: "int \<Rightarrow> int \<times> int" where
  "ts_get_timeval inp = (inp div 1000000, inp mod 1000000)"

text \<open>The time \<open>select\<close> may wait, in seconds and microseconds; without a timer for ever.\<close>

definition select_timeout :: "int \<Rightarrow> fwIOdata sptr \<Rightarrow> (int \<times> int) option" where
  "select_timeout now ptr =
     map_option (\<lambda>d. let sub = fd_data d - now in if sub < 0 then (0, 0) else ts_get_timeval sub) ptr"

text \<open>After \<open>EBADF\<close> a registration of a descriptor that is not open any more is a panic.\<close>

definition has_fd :: "int \<Rightarrow> fwq \<Rightarrow> bool" where
  "has_fd fd q = list_ex (\<lambda>e. fd_data (snd e) = fd) q"

definition ebadf_panics :: "(int \<Rightarrow> bool) \<Rightarrow> masks \<Rightarrow> fwIO \<Rightarrow> bool" where
  "ebadf_panics fstat_ok m w =
     list_ex (\<lambda>fd. \<not> fstat_ok fd
        \<and> (fd \<in> m_read m \<and> has_fd fd (read_objs w)
           \<or> fd \<in> m_write m \<and> has_fd fd (write_objs w)
           \<or> fd \<in> m_exp m \<and> (has_fd fd (read_objs w) \<or> has_fd fd (write_objs w)))) [0 .. m_max m - 1]"

subsection \<open>Collection and dispatch\<close>

text \<open>
  What is ready goes to \<open>result\<close>, one registration for a descriptor; what is not goes to a new queue
  under \<open>MAX_INTEGER64\<close>.
\<close>

fun collect_fds :: "(int \<Rightarrow> bool) \<Rightarrow> int set \<Rightarrow> fwq \<Rightarrow> fwIOdata list \<times> fwq" where
  "collect_fds ready target [] = ([], [])"
| "collect_fds ready target (e # es) =
     (let dd = snd e in
      if \<not> ready (fd_data dd) then
        (let (result, q) = collect_fds ready target es in (result, (max_integer64, dd) # q))
      else if fd_data dd \<in> target then collect_fds ready target es
      else (let (result, q) = collect_fds ready (insert (fd_data dd) target) es in (dd # result, q)))"

definition loop_collect :: "int \<Rightarrow> masks \<Rightarrow> int \<Rightarrow> fwIO \<Rightarrow> fwIOdata list \<times> fwIO" where
  "loop_collect ret m nn w =
     (let w1 = readPipe (w\<lparr>wait_flag := True\<rparr>);
          (rs, w2) = (if ret > 0 then
             (let (rs, q) = collect_fds (\<lambda>fd. fd \<in> m_read m \<or> fd \<in> m_exp m) {} (read_objs w1);
                  (ws, q') = collect_fds (\<lambda>fd. fd \<in> m_write m \<or> fd \<in> m_exp m) {} (write_objs w1)
              in (rs @ ws, w1\<lparr>read_objs := q, write_objs := q'\<rparr>))
             else ([], w1));
          due = (\<lambda>e. fd_data (snd e) \<le> nn)
      in (rs @ map snd (takeWhile due (interval_objs w2)),
          w2\<lparr>interval_objs := dropWhile due (interval_objs w2)\<rparr>))"

definition loop_event :: "fwIOdata \<Rightarrow> io_event" where
  "loop_event d = \<lparr>ie_type = fd_type d, ie_obj = fd_obj d, ie_seq = fd_seq d, ie_data = fd_data d\<rparr>"

section \<open>The reactor among its clients\<close>

text \<open>
  \<open>Scan\<close>, \<open>Selecting\<close> and \<open>Unstable_wait\<close> carry \<open>rret\<close>, the value \<open>loop\<close> will answer.  Any thread may
  register, detach, abort or take and drop a keep-alive at any moment; \<open>f_log\<close> collects the events.
  A deadline fits an \<open>INTEGER64\<close>.
\<close>

datatype fpc =
    Outside
  | Scan int
  | Selecting masks "fwIOdata sptr" int
  | Unstable_wait int
  | Dispatching "fwIOdata list"
  | Returned int
  | Panicked

record fsys =
  f_io :: fwIO
  f_pc :: fpc
  f_log :: "io_event list"

definition narrower :: "masks \<Rightarrow> masks \<Rightarrow> bool" where
  "narrower m' m \<longleftrightarrow> m_read m' \<subseteq> m_read m \<and> m_write m' \<subseteq> m_write m \<and> m_exp m' \<subseteq> m_exp m"

inductive fstep :: "int \<Rightarrow> fsys \<Rightarrow> fsys \<Rightarrow> bool" for pfd where
  fs_read: "fw_read obj fd opt (f_io s) = Some (n, w) \<Longrightarrow> fstep pfd s (s\<lparr>f_io := w\<rparr>)"
| fs_write: "fw_write obj fd opt (f_io s) = Some (n, w) \<Longrightarrow> fstep pfd s (s\<lparr>f_io := w\<rparr>)"
| fs_wait: "fw_wait obj now tm type (f_io s) = (n, w) \<Longrightarrow> now + tm \<le> max_integer64 \<Longrightarrow> fstep pfd s (s\<lparr>f_io := w\<rparr>)"
| fs_detach: "fstep pfd s (s\<lparr>f_io := detach obj flags (f_io s)\<rparr>)"
| fs_addRefio: "fstep pfd s (s\<lparr>f_io := addRefio obj (f_io s)\<rparr>)"
| fs_delRefio: "fstep pfd s (s\<lparr>f_io := delRefio obj (f_io s)\<rparr>)"
| fs_announce: "fstep pfd s (s\<lparr>f_io := announce msg (f_io s)\<rparr>)"
| fs_abort_read: "find (\<lambda>e. fd_data (snd e) = fd) (read_objs (f_io s)) = Some e
    \<Longrightarrow> fstep pfd s (s\<lparr>f_io := (f_io s)\<lparr>read_objs := remove_first (\<lambda>e. fd_data (snd e) = fd) (read_objs (f_io s))\<rparr>,
                      f_log := f_log s @ [abort_event (snd e)]\<rparr>)"
| fs_abort_write: "find (\<lambda>e. fd_data (snd e) = fd) (write_objs (f_io s)) = Some e
    \<Longrightarrow> fstep pfd s (s\<lparr>f_io := (f_io s)\<lparr>write_objs := remove_first (\<lambda>e. fd_data (snd e) = fd) (write_objs (f_io s))\<rparr>,
                      f_log := f_log s @ [abort_event (snd e)]\<rparr>)"
| fs_enter: "f_pc s = Outside \<or> f_pc s = Returned r
    \<Longrightarrow> fstep pfd s (s\<lparr>f_io := (f_io s)\<lparr>wait_flag := True\<rparr>, f_pc := Scan 0\<rparr>)"
| fs_announced: "f_pc s = Scan r \<Longrightarrow> loop_scan zom calm pfd (f_io s) = (Announced maxfd, w)
    \<Longrightarrow> fstep pfd s (s\<lparr>f_io := w\<rparr>)"
| fs_finished: "f_pc s = Scan r \<Longrightarrow> loop_scan zom calm pfd (f_io s) = (Finished, w)
    \<Longrightarrow> fstep pfd s (s\<lparr>f_io := w, f_pc := Returned r\<rparr>)"
| fs_unstable: "f_pc s = Scan r \<Longrightarrow> loop_scan zom calm pfd (f_io s) = (Unstable, w)
    \<Longrightarrow> fstep pfd s (s\<lparr>f_io := w, f_pc := Unstable_wait r\<rparr>)"
| fs_stable: "f_pc s = Unstable_wait r \<Longrightarrow> fstep pfd s (s\<lparr>f_pc := Scan r\<rparr>)"
| fs_selecting: "f_pc s = Scan r \<Longrightarrow> loop_scan zom calm pfd (f_io s) = (To_select m ptr, w)
    \<Longrightarrow> fstep pfd s (s\<lparr>f_io := w, f_pc := Selecting m ptr r\<rparr>)"
| fs_interrupted: "f_pc s = Selecting m ptr r \<Longrightarrow> fstep pfd s (s\<lparr>f_pc := Scan r\<rparr>)"
| fs_ebadf: "f_pc s = Selecting m ptr r \<Longrightarrow> ebadf_panics fstat_ok m (f_io s) \<Longrightarrow> fstep pfd s (s\<lparr>f_pc := Panicked\<rparr>)"
| fs_failed: "f_pc s = Selecting m ptr r \<Longrightarrow> fstep pfd s (s\<lparr>f_pc := Returned (- 1)\<rparr>)"
| fs_selected: "f_pc s = Selecting m ptr r \<Longrightarrow> narrower m' m \<Longrightarrow> 0 \<le> ret \<Longrightarrow> loop_collect ret m' nn (f_io s) = (ds, w)
    \<Longrightarrow> fstep pfd s (s\<lparr>f_io := w, f_pc := Dispatching ds\<rparr>)"
| fs_dispatch: "f_pc s = Dispatching (d # ds)
    \<Longrightarrow> fstep pfd s (s\<lparr>f_pc := Dispatching ds, f_log := f_log s @ [loop_event d]\<rparr>)"
| fs_dispatched: "f_pc s = Dispatching [] \<Longrightarrow> fstep pfd s (s\<lparr>f_pc := Scan 1\<rparr>)"


inductive_cases fstepE: "fstep pfd s t"

section \<open>Facts about the queues\<close>

lemma moved_simps [simp]: "moved cmp [] = []"
  by (simp add: moved_def)






text \<open>Timers are kept under their deadline, so the first is the earliest.\<close>

definition timers_ok :: "fwq \<Rightarrow> bool" where
  "timers_ok q \<longleftrightarrow> sorted (map fst q) \<and> (\<forall>e \<in> set q. fst e = fd_data (snd e) \<and> fst e \<le> max_integer64)"






section \<open>Invariant\<close>

definition fds_ok :: "fwq \<Rightarrow> bool" where
  "fds_ok q \<longleftrightarrow> (\<forall>e \<in> set q. 0 \<le> fd_data (snd e) \<and> fd_data (snd e) < FD_SETSIZE)"

definition fw_ok :: "fwIO \<Rightarrow> bool" where
  "fw_ok w \<longleftrightarrow> fds_ok (read_objs w) \<and> fds_ok (write_objs w) \<and> timers_ok (interval_objs w) \<and> 0 \<le> refio w"

text \<open>Everything that is registered is in the sets and in the time limit of the \<open>select\<close>.\<close>

definition watched :: "int set \<Rightarrow> masks \<Rightarrow> fwq \<Rightarrow> bool" where
  "watched fsp m q \<longleftrightarrow>
     (\<forall>e \<in> set q. fd_data (snd e) \<in> m_exp m \<and> fd_data (snd e) < m_max m
        \<and> (fd_opt (snd e) \<noteq> FWIO_OPT_ONLY_EXP \<longrightarrow> fd_data (snd e) \<in> fsp))"

definition timed :: "fwIOdata sptr \<Rightarrow> fwq \<Rightarrow> bool" where
  "timed ptr q \<longleftrightarrow> (\<forall>e \<in> set q. case ptr of None \<Rightarrow> False | Some d \<Rightarrow> fd_data d \<le> fd_data (snd e))"

definition covered :: "masks \<Rightarrow> fwIOdata sptr \<Rightarrow> fwIO \<Rightarrow> bool" where
  "covered m ptr w \<longleftrightarrow>
     watched (m_read m) m (read_objs w) \<and> watched (m_write m) m (write_objs w) \<and> timed ptr (interval_objs w)"

definition sel_ok :: "int \<Rightarrow> fpc \<Rightarrow> fwIO \<Rightarrow> bool" where
  "sel_ok pfd pc w \<longleftrightarrow>
     (case pc of
        Selecting m ptr r \<Rightarrow> pfd \<in> m_read m \<and> pfd < m_max m
          \<and> (if wait_flag w then 0 < pfd_bytes w else covered m ptr w)
      | _ \<Rightarrow> True)"

lemma sel_ok_simps [simp]:
  "sel_ok pfd Outside w" "sel_ok pfd (Scan r) w" "sel_ok pfd (Unstable_wait r) w"
  "sel_ok pfd (Dispatching ds) w" "sel_ok pfd (Returned r) w" "sel_ok pfd Panicked w"
  by (simp_all add: sel_ok_def)



lemma writePipe_simps [simp]:
  "read_objs (writePipe w) = read_objs w" "write_objs (writePipe w) = write_objs w"
  "interval_objs (writePipe w) = interval_objs w" "refio (writePipe w) = refio w"
  "refio_pins (writePipe w) = refio_pins w" "fw_ok (writePipe w) = fw_ok w"
  by (simp_all add: writePipe_def fw_ok_def)




















section \<open>Correctness\<close>


text \<open>A registration that comes while the loop sits in \<open>select\<close> for nothing but its own pipe.\<close>

definition idle_masks :: masks where
  "idle_masks = \<lparr>m_read = {3}, m_write = {}, m_exp = {3}, m_max = 4\<rparr>"

definition registered_late :: fsys where
  "registered_late =
     \<lparr>f_io = writePipe \<lparr>read_objs = [(5, \<lparr>fd_type = TSE_RETURN, fd_seq = 1, fd_data = 5, fd_opt = 0, fd_obj = 9\<rparr>)],
         write_objs = [], interval_objs = [], announceMaxfd = - 1, realMaxfd = 0, wait_flag = False,
         pfd_bytes = 0, refio = 1, refio_pins = [], seqNo = 2\<rparr>,
       f_pc = Selecting idle_masks None 0, f_log = []\<rparr>"





text \<open>
  Of two objects that wait for one descriptor the one that registered last is served; the other gets no
  event and is not registered any more.
\<close>

lemma older_reader_dropped:
  fixes a b :: fwIOdata
  defines "w \<equiv> (new_fwIO 1)\<lparr>seqNo := 5\<rparr>"
  shows "\<exists>s1 s2 w1 w2 ds w3. fw_read 1 7 0 w = Some (s1, w1) \<and> fw_read 2 7 0 w1 = Some (s2, w2)
    \<and> loop_collect 1 \<lparr>m_read = {7}, m_write = {}, m_exp = {}, m_max = 8\<rparr> 0 w2 = (ds, w3)
    \<and> map fd_obj ds = [2] \<and> \<not> is_read 1 w3"
  by (simp add: w_def fw_read_def FD_SETSIZE_def fw_elem_def getSeq_def new_fwIO_def sq_ins_def max_integer64_def
      writePipe_def loop_collect_def readPipe_def key_passes_def is_read_def registered_def)

subsection \<open>Keep-alives\<close>

text \<open>The keep-alives that are out after a run of takes (\<^const>\<open>True\<close>) and releases, if every release has its take.\<close>

fun refio_run :: "(bool \<times> nat sptr) list \<Rightarrow> fwIO \<Rightarrow> fwIO" where
  "refio_run [] w = w"
| "refio_run ((tk, obj) # ops) w = refio_run ops (if tk then addRefio obj w else delRefio obj w)"

fun outstanding :: "(bool \<times> nat sptr) list \<Rightarrow> nat sptr multiset \<Rightarrow> nat sptr multiset option" where
  "outstanding [] M = Some M"
| "outstanding ((tk, obj) # ops) M =
     (if tk then outstanding ops (add_mset obj M)
      else if obj \<in># M then outstanding ops (M - {#obj#}) else None)"

definition pins_of :: "nat sptr multiset \<Rightarrow> nat multiset" where
  "pins_of M = image_mset the (filter_mset (\<lambda>x. x \<noteq> None) M)"

definition pinned :: "nat sptr multiset \<Rightarrow> fwIO \<Rightarrow> bool" where
  "pinned M w \<longleftrightarrow> refio w = int (size M) \<and> mset (map snd (refio_pins w)) = pins_of M"

lemma pins_of_simps [simp]:
  "pins_of {#} = {#}" "pins_of (add_mset None M) = pins_of M" "pins_of (add_mset (Some x) M) = add_mset x (pins_of M)"
  by (simp_all add: pins_of_def)

lemma mset_remove_first:
  "x \<in> snd ` set q \<Longrightarrow> mset (map snd (remove_first (\<lambda>e. snd e = x) q)) = mset (map snd q) - {#x#}"
proof (induction q)
  case (Cons e q)
  show ?case
  proof (cases "snd e = x")
    case False
    with Cons have "x \<in># mset (map snd q)" by auto
    moreover have "mset (map snd (remove_first (\<lambda>e. snd e = x) q)) = mset (map snd q) - {#x#}"
      using Cons False by auto
    ultimately show ?thesis using False diff_union_swap [of x "snd e" "mset (map snd q)"] by simp
  qed simp
qed simp

lemma pinned_add: "pinned M w \<Longrightarrow> pinned (add_mset obj M) (addRefio obj w)"
  by (cases obj) (simp_all add: pinned_def addRefio_def sq_ins_def)

lemma pinned_del:
  assumes "pinned M w" "obj \<in># M"
  shows "pinned (M - {#obj#}) (delRefio obj w)"
proof -
  from assms(2) obtain N where M: "M = add_mset obj N" by (metis mset_add)
  show ?thesis
  proof (cases obj)
    case None
    with assms M show ?thesis by (simp add: pinned_def delRefio_def Let_def)
  next
    case (Some x)
    then have "x \<in># mset (map snd (refio_pins w))" using assms M by (simp add: pinned_def)
    then have "x \<in> snd ` set (refio_pins w)" by auto
    from mset_remove_first [OF this] Some assms M show ?thesis by (simp add: pinned_def delRefio_def Let_def)
  qed
qed

text \<open>Keep-alives: as long as every release has its take, \<open>refio\<close> is the number of keep-alives that are out,
  and an object is pinned exactly as often as it has one out; once \<open>refio\<close> is 0 nothing is pinned.
  A release too many is clamped at 0.\<close>

theorem keepalive_balance:
  assumes "outstanding ops {#} = Some M"
  shows "refio (refio_run ops (new_fwIO n)) = int (size M)
    \<and> mset (map snd (refio_pins (refio_run ops (new_fwIO n)))) = pins_of M
    \<and> (refio (refio_run ops (new_fwIO n)) = 0 \<longrightarrow> refio_pins (refio_run ops (new_fwIO n)) = [])
    \<and> (refio w = 0 \<longrightarrow> refio (delRefio None w) = 0)"
proof -
  have run: "pinned M' (refio_run ops v)" if "pinned M v" "outstanding ops M = Some M'" for M M' v
    using that
  proof (induction ops v arbitrary: M rule: refio_run.induct)
    case (2 tk obj ops v)
    show ?case
    proof (cases tk)
      case True
      with "2.IH" [of "add_mset obj M"] "2.prems" show ?thesis using pinned_add by simp
    next
      case False
      with "2.IH" [of "M - {#obj#}"] "2.prems" show ?thesis using pinned_del by (simp split: if_splits)
    qed
  qed simp
  have "pinned {#} (new_fwIO n)" by (simp add: pinned_def new_fwIO_def)
  from run [OF this assms] have "pinned M (refio_run ops (new_fwIO n))" .
  then show ?thesis by (auto simp: pinned_def delRefio_def)
qed

theorem keepalive_balance_witness:
  "refio (refio_run [(True, Some 4), (True, None), (False, None)] (new_fwIO 1)) = 1
   \<and> mset (map snd (refio_pins (refio_run [(True, Some 4), (True, None), (False, None)] (new_fwIO 1)))) = {#4#}"
  using keepalive_balance [of "[(True, Some 4), (True, None), (False, None)]" "{#Some 4#}" 1 "new_fwIO 1"] by simp

subsection \<open>Abort\<close>

lemma find_none_filter: "find P q = None \<Longrightarrow> filter P q = [] \<and> filter (\<lambda>x. \<not> P x) q = q"
  by (induction q) (auto split: if_splits)

lemma abort_reads_all:
  assumes "\<And>ev v. read_objs (h ev v) = read_objs v \<and> write_objs (h ev v) = write_objs v"
  shows "\<exists>w'. abort_reads h fd w
      = Some (map (abort_event \<circ> snd) (filter (\<lambda>e. fd_data (snd e) = fd) (read_objs w)), w')
    \<and> read_objs w' = filter (\<lambda>e. fd_data (snd e) \<noteq> fd) (read_objs w) \<and> write_objs w' = write_objs w"
proof (induction "length (read_objs w)" arbitrary: w rule: less_induct)
  case less
  let ?P = "\<lambda>e :: int \<times> fwIOdata. fd_data (snd e) = fd"
  show ?case
  proof (cases "find ?P (read_objs w)")
    case None
    then have "filter ?P (read_objs w) = []" "filter (\<lambda>e. \<not> ?P e) (read_objs w) = read_objs w"
      by (simp_all add: find_none_filter)
    with None show ?thesis by (subst abort_reads.simps) simp
  next
    case (Some e)
    let ?v = "h (abort_event (snd e)) (w\<lparr>read_objs := remove_first ?P (read_objs w)\<rparr>)"
    have "read_objs w \<noteq> []" using Some by auto
    with Some have "length (read_objs ?v) < length (read_objs w)" by (simp add: assms length_remove_first)
    from less [OF this] obtain w' where w': "abort_reads h fd ?v
        = Some (map (abort_event \<circ> snd) (filter ?P (read_objs ?v)), w')"
      "read_objs w' = filter (\<lambda>e. \<not> ?P e) (read_objs ?v)" "write_objs w' = write_objs ?v" by auto
    have "filter ?P q = e # filter ?P (remove_first ?P q) \<and> filter (\<lambda>e. \<not> ?P e) (remove_first ?P q) = filter (\<lambda>e. \<not> ?P e) q"
      if "find ?P q = Some e" for q
      using that by (induction q) (auto split: if_splits)
    with Some w' show ?thesis by (subst abort_reads.simps) (simp add: assms)
  qed
qed

lemma abort_writes_all:
  assumes "\<And>ev v. read_objs (h ev v) = read_objs v \<and> write_objs (h ev v) = write_objs v"
  shows "\<exists>w'. abort_writes h fd w
      = Some (map (abort_event \<circ> snd) (filter (\<lambda>e. fd_data (snd e) = fd) (write_objs w)), w')
    \<and> write_objs w' = filter (\<lambda>e. fd_data (snd e) \<noteq> fd) (write_objs w) \<and> read_objs w' = read_objs w"
proof (induction "length (write_objs w)" arbitrary: w rule: less_induct)
  case less
  let ?P = "\<lambda>e :: int \<times> fwIOdata. fd_data (snd e) = fd"
  show ?case
  proof (cases "find ?P (write_objs w)")
    case None
    then have "filter ?P (write_objs w) = []" "filter (\<lambda>e. \<not> ?P e) (write_objs w) = write_objs w"
      by (simp_all add: find_none_filter)
    with None show ?thesis by (subst abort_writes.simps) simp
  next
    case (Some e)
    let ?v = "h (abort_event (snd e)) (w\<lparr>write_objs := remove_first ?P (write_objs w)\<rparr>)"
    have "write_objs w \<noteq> []" using Some by auto
    with Some have "length (write_objs ?v) < length (write_objs w)" by (simp add: assms length_remove_first)
    from less [OF this] obtain w' where w': "abort_writes h fd ?v
        = Some (map (abort_event \<circ> snd) (filter ?P (write_objs ?v)), w')"
      "write_objs w' = filter (\<lambda>e. \<not> ?P e) (write_objs ?v)" "read_objs w' = read_objs ?v" by auto
    have "filter ?P q = e # filter ?P (remove_first ?P q) \<and> filter (\<lambda>e. \<not> ?P e) (remove_first ?P q) = filter (\<lambda>e. \<not> ?P e) q"
      if "find ?P q = Some e" for q
      using that by (induction q) (auto split: if_splits)
    with Some w' show ?thesis by (subst abort_writes.simps) (simp add: assms)
  qed
qed

text \<open>
  If the handlers register nothing, \<open>abort(fd)\<close> ends; every registration for the descriptor has got one
  event with \<open>-1\<close> and is gone, the others are as they were.
\<close>

theorem abort_tells_all:
  assumes "\<And>ev v. read_objs (h ev v) = read_objs v \<and> write_objs (h ev v) = write_objs v"
  shows "\<exists>w'. abort h fd w
      = Some (map (abort_event \<circ> snd) (filter (\<lambda>e. fd_data (snd e) = fd) (read_objs w @ write_objs w)), w')
    \<and> read_objs w' = filter (\<lambda>e. fd_data (snd e) \<noteq> fd) (read_objs w)
    \<and> write_objs w' = filter (\<lambda>e. fd_data (snd e) \<noteq> fd) (write_objs w)"
proof -
  obtain w1 where w1: "abort_reads h fd w
      = Some (map (abort_event \<circ> snd) (filter (\<lambda>e. fd_data (snd e) = fd) (read_objs w)), w1)"
    "read_objs w1 = filter (\<lambda>e. fd_data (snd e) \<noteq> fd) (read_objs w)" "write_objs w1 = write_objs w"
    using abort_reads_all [of h, OF assms] by blast
  obtain w2 where "abort_writes h fd w1
      = Some (map (abort_event \<circ> snd) (filter (\<lambda>e. fd_data (snd e) = fd) (write_objs w1)), w2)"
    "write_objs w2 = filter (\<lambda>e. fd_data (snd e) \<noteq> fd) (write_objs w1)" "read_objs w2 = read_objs w1"
    using abort_writes_all [of h, OF assms] by blast
  with w1 show ?thesis by (simp add: abort_def)
qed

theorem abort_tells_all_witness:
  "\<exists>w'. abort (\<lambda>_ v. v) 5 (f_io registered_late)
     = Some ([\<lparr>ie_type = TSE_RETURN, ie_obj = 9, ie_seq = 1, ie_data = - 1\<rparr>], w') \<and> read_objs w' = []"
proof -
  have r: "read_objs (f_io registered_late)
      = [(5, \<lparr>fd_type = TSE_RETURN, fd_seq = 1, fd_data = 5, fd_opt = 0, fd_obj = 9\<rparr>)]"
    "write_objs (f_io registered_late) = []"
    by (simp_all add: registered_late_def)
  show ?thesis using abort_tells_all [of "\<lambda>_ v. v" 5 "f_io registered_late"] by (auto simp: r abort_event_def)
qed

end
