(* ===== verification/ParallelGroup.thy ===== *)
theory ParallelGroup
  imports Prelude
begin

text \<open>
  The fork/join group \<open>ts2Parallel\<close> of \<open>src/src/classes/ts2/c++/ts2Parallel.cpp\<close>: a root and its siblings,
  linked from the root through \<open>_next\<close>.  A worker runs the body of its root until the body answers
  non-zero; the root ends, and tells its creator, when all siblings are gone.

  Objects are numbered.  A state function that runs under the application mutex is one step; a body is
  the user's code, of which only the calls into the group matter: \<open>spawn\<close>, \<open>cancel\<close>, \<open>destroy\<close> and the
  return.  \<open>INI_START\<close> runs inside \<open>thNEW\<close>.  \<open>FIN_START\<close> goes through the states of \<open>tinyState\<close> to
  \<open>ZOM\<close>; the model takes this as part of the same step.
\<close>

section \<open>Model\<close>

text \<open>\<open>P_ACT\<close> is \<open>ACT_START\<close> or \<open>ACT_START_THR\<close>, by \<open>p_type\<close>; \<open>P_FIN\<close> is a root that waits in \<open>FIN_START\<close>.\<close>

datatype phase = P_ACT | P_FIN | P_ZOM

record pobj =
  p_next :: "nat sptr"
  p_root :: nat
  p_phase :: phase
  p_type :: int
  p_fn :: "nat sptr"
  p_org :: "nat sptr"
  p_org_type :: int
  p_cancelling :: bool
  p_destroyed :: bool
  p_wake :: bool

record pworld =
  pobjs :: "nat \<Rightarrow> pobj"
  pfresh :: nat
  preturned :: "nat list"

definition pupd :: "nat \<Rightarrow> (pobj \<Rightarrow> pobj) \<Rightarrow> pworld \<Rightarrow> pworld" where
  "pupd i f w = w\<lparr>pobjs := (pobjs w)(i := f (pobjs w i))\<rparr>"

abbreviation phase_of :: "pworld \<Rightarrow> nat \<Rightarrow> phase" where "phase_of w i \<equiv> p_phase (pobjs w i)"
abbreviation root_of :: "pworld \<Rightarrow> nat \<Rightarrow> nat" where "root_of w i \<equiv> p_root (pobjs w i)"
abbreviation next_of :: "pworld \<Rightarrow> nat \<Rightarrow> nat sptr" where "next_of w i \<equiv> p_next (pobjs w i)"

text \<open>
  \<open>thNEW(ts2Parallel,(parent,type,fn))\<close> with \<open>INI_START\<close>: below a worker that lives the new one joins its
  group and gets the body of the root, otherwise it is a root.  \<open>pr\<close> is the parent if it is a \<open>ts2Parallel\<close>.
\<close>

definition p_new :: "nat sptr \<Rightarrow> int \<Rightarrow> nat sptr \<Rightarrow> pworld \<Rightarrow> pworld" where
  "p_new pr type fn w =
     (let me = pfresh w;
          w1 = w\<lparr>pfresh := me + 1\<rparr>;
          o0 = \<lparr>p_next = None, p_root = me, p_phase = P_ACT, p_type = type, p_fn = fn, p_org = fn, p_org_type = type,
                p_cancelling = False, p_destroyed = False, p_wake = False\<rparr>
      in case pr of
           None \<Rightarrow> pupd me (\<lambda>_. o0) w1
         | Some p \<Rightarrow>
             if phase_of w p = P_ZOM then pupd me (\<lambda>_. o0) w1
             else
               let r = root_of w p;
                   ty = (if type < 0 then p_org_type (pobjs w r) else type)
               in pupd r (\<lambda>x. x\<lparr>p_next := Some me\<rparr>)
                    (pupd me (\<lambda>_. o0\<lparr>p_root := r, p_next := next_of w r, p_fn := p_org (pobjs w r), p_type := ty,
                                     p_org := None, p_org_type := 0\<rparr>) w1))"

definition spawn :: "nat \<Rightarrow> int \<Rightarrow> pworld \<Rightarrow> pworld" where
  "spawn me type w = p_new (Some (root_of w me)) type None w"

text \<open>\<open>tinyState_::destroy\<close>: the flag, and an event that runs the body once more.\<close>

definition base_destroy :: "nat \<Rightarrow> pworld \<Rightarrow> pworld" where
  "base_destroy i w =
     (if phase_of w i = P_ZOM \<or> p_destroyed (pobjs w i) then w
      else pupd i (\<lambda>x. x\<lparr>p_destroyed := True, p_wake := True\<rparr>) w)"

text \<open>The loop over the siblings, for which \<open>destroy\<close> is that of \<open>tinyState\<close>.\<close>

partial_function (option) destroy_chain :: "nat sptr \<Rightarrow> pworld \<Rightarrow> pworld option" where
  "destroy_chain p w =
     (case p of None \<Rightarrow> Some w | Some i \<Rightarrow> destroy_chain (next_of w i) (base_destroy i w))"

definition p_destroy :: "nat \<Rightarrow> pworld \<Rightarrow> pworld option" where
  "p_destroy me w =
     (if root_of w me = me \<and> \<not> (p_destroyed (pobjs w me) \<or> phase_of w me = P_ZOM)
      then map_option (base_destroy me) (destroy_chain (next_of w me) w)
      else Some (base_destroy me w))"

definition p_cancel :: "nat \<Rightarrow> pworld \<Rightarrow> pworld option" where
  "p_cancel me w =
     (let r = root_of w me in
      if phase_of w r = P_ZOM then Some w
      else if p_cancelling (pobjs w r) then Some w
      else Option.bind (destroy_chain (next_of w r) (pupd r (\<lambda>x. x\<lparr>p_cancelling := True\<rparr>) w)) (p_destroy r))"

text \<open>\<open>for ( np = &_root->_next ; *np != ifThis ; np = &(*np)->_next )\<close>: the object whose link it is.\<close>

partial_function (option) find_link :: "pworld \<Rightarrow> nat \<Rightarrow> nat \<Rightarrow> nat option" where
  "find_link w me prev =
     (case next_of w prev of None \<Rightarrow> None | Some n \<Rightarrow> if n = me then Some prev else find_link w me n)"

text \<open>\<open>FIN_START\<close>, entered when the body has answered non-zero and again for every event of a waiting root.\<close>

definition p_fin :: "nat \<Rightarrow> pworld \<Rightarrow> pworld option" where
  "p_fin me w0 =
     (let w = pupd me (\<lambda>x. x\<lparr>p_fn := None\<rparr>) w0; r = root_of w me in
      if r = me then
        if next_of w me \<noteq> None then Some (pupd me (\<lambda>x. x\<lparr>p_phase := P_FIN\<rparr>) w)
        else Some ((pupd me (\<lambda>x. x\<lparr>p_org := None, p_phase := P_ZOM\<rparr>) w)\<lparr>preturned := preturned w @ [me]\<rparr>)
      else
        case find_link w me r of
          None \<Rightarrow> None
        | Some prev \<Rightarrow>
            let w1 = pupd prev (\<lambda>x. x\<lparr>p_next := next_of w me\<rparr>) w;
                w2 = pupd me (\<lambda>x. x\<lparr>p_next := None, p_phase := P_ZOM\<rparr>) w1
            in Some (if next_of w2 r = None then pupd r (\<lambda>x. x\<lparr>p_wake := True\<rparr>) w2 else w2))"

text \<open>A body: the worker's function when it has one; without, it is done.\<close>

definition p_body :: "(nat \<Rightarrow> nat \<Rightarrow> pworld \<Rightarrow> bool) \<Rightarrow> nat \<Rightarrow> pworld \<Rightarrow> bool" where
  "p_body run me w = (case p_fn (pobjs w me) of None \<Rightarrow> True | Some f \<Rightarrow> run f me w)"

text \<open>
  The steps: anybody may create a group, spawn, cancel or destroy; a worker in its body may finish (\<open>run\<close>
  says whether it does); a waiting root runs again on an event.
\<close>

inductive pstep :: "pworld \<Rightarrow> pworld \<Rightarrow> bool" where
  ps_new: "(\<forall>p. pr = Some p \<longrightarrow> p < pfresh w) \<Longrightarrow> pstep w (p_new pr type fn w)"
| ps_spawn: "me < pfresh w \<Longrightarrow> pstep w (spawn me type w)"
| ps_cancel: "me < pfresh w \<Longrightarrow> p_cancel me w = Some w' \<Longrightarrow> pstep w w'"
| ps_destroy: "me < pfresh w \<Longrightarrow> p_destroy me w = Some w' \<Longrightarrow> pstep w w'"
| ps_finish: "me < pfresh w \<Longrightarrow> phase_of w me = P_ACT \<Longrightarrow> p_body run me w \<Longrightarrow> p_fin me w = Some w' \<Longrightarrow> pstep w w'"
| ps_rerun: "me < pfresh w \<Longrightarrow> phase_of w me = P_FIN \<Longrightarrow> p_fin me (pupd me (\<lambda>x. x\<lparr>p_wake := False\<rparr>) w) = Some w'
    \<Longrightarrow> pstep w w'"

definition p_start :: pworld where
  "p_start = \<lparr>pobjs = (\<lambda>_. \<lparr>p_next = None, p_root = 0, p_phase = P_ZOM, p_type = 0, p_fn = None, p_org = None,
      p_org_type = 0, p_cancelling = False, p_destroyed = False, p_wake = False\<rparr>), pfresh = 0, preturned = []\<rparr>"

inductive preach :: "pworld \<Rightarrow> bool" where
  pr_init: "preach p_start"
| pr_step: "preach w \<Longrightarrow> pstep w w' \<Longrightarrow> preach w'"

section \<open>Invariant\<close>

primrec linked :: "pworld \<Rightarrow> nat sptr \<Rightarrow> nat list \<Rightarrow> bool" where
  "linked w p [] \<longleftrightarrow> p = None"
| "linked w p (x # xs) \<longleftrightarrow> p = Some x \<and> linked w (next_of w x) xs"

text \<open>\<open>ch r\<close> are the siblings that the root \<open>r\<close> reaches.\<close>

definition member_ok :: "pworld \<Rightarrow> nat \<Rightarrow> bool" where
  "member_ok w i \<longleftrightarrow>
     root_of w i < pfresh w \<and> root_of w (root_of w i) = root_of w i
     \<and> (root_of w i \<noteq> i \<longrightarrow> phase_of w i \<noteq> P_FIN \<and> (phase_of w i = P_ACT \<longrightarrow> phase_of w (root_of w i) \<noteq> P_ZOM))
     \<and> (phase_of w i = P_ACT \<longrightarrow> p_fn (pobjs w i) = p_org (pobjs w (root_of w i)))"

definition root_ok :: "pworld \<Rightarrow> nat \<Rightarrow> nat list \<Rightarrow> bool" where
  "root_ok w r xs \<longleftrightarrow>
     linked w (next_of w r) xs \<and> distinct xs
     \<and> set xs = {i. i < pfresh w \<and> i \<noteq> r \<and> root_of w i = r \<and> phase_of w i = P_ACT}
     \<and> (phase_of w r = P_FIN \<and> xs = [] \<longrightarrow> p_wake (pobjs w r))
     \<and> (phase_of w r = P_ZOM \<longleftrightarrow> r \<in> set (preturned w))"

definition group_ok :: "pworld \<Rightarrow> (nat \<Rightarrow> nat list) \<Rightarrow> bool" where
  "group_ok w ch \<longleftrightarrow>
     (\<forall>i < pfresh w. member_ok w i)
     \<and> (\<forall>r < pfresh w. root_of w r = r \<longrightarrow> root_ok w r (ch r))
     \<and> distinct (preturned w) \<and> (\<forall>r \<in> set (preturned w). r < pfresh w \<and> root_of w r = r)"

lemma pupd_simps [simp]:
  "pobjs (pupd i f w) j = (if j = i then f (pobjs w i) else pobjs w j)" "pfresh (pupd i f w) = pfresh w"
  "preturned (pupd i f w) = preturned w"
  by (simp_all add: pupd_def)

lemma linked_cong: "(\<forall>x \<in> set xs. next_of w' x = next_of w x) \<Longrightarrow> linked w' p xs = linked w p xs"
  by (induction xs arbitrary: p) auto

lemma linked_append: "linked w p (xs @ y # ys) \<Longrightarrow> linked w (Some y) (y # ys)"
  by (induction xs arbitrary: p) auto

section \<open>Destroying a list\<close>

text \<open>Only flags change, and a wakeup is not taken back.\<close>

definition same_group :: "pworld \<Rightarrow> pworld \<Rightarrow> bool" where
  "same_group w w' \<longleftrightarrow>
     pfresh w' = pfresh w \<and> preturned w' = preturned w
     \<and> (\<forall>i. next_of w' i = next_of w i \<and> root_of w' i = root_of w i \<and> phase_of w' i = phase_of w i
        \<and> p_fn (pobjs w' i) = p_fn (pobjs w i) \<and> p_org (pobjs w' i) = p_org (pobjs w i)
        \<and> (p_wake (pobjs w i) \<longrightarrow> p_wake (pobjs w' i))
        \<and> (p_cancelling (pobjs w i) \<longrightarrow> p_cancelling (pobjs w' i)))"

lemma same_group_refl [simp]: "same_group w w"
  by (simp add: same_group_def)

lemma same_group_trans: "same_group w w' \<Longrightarrow> same_group w' w'' \<Longrightarrow> same_group w w''"
  by (simp add: same_group_def)

lemma same_group_base: "same_group w (base_destroy i w)"
  by (simp add: same_group_def base_destroy_def)

lemma same_group_fold: "same_group w (fold base_destroy xs w)"
proof (induction xs arbitrary: w)
  case (Cons x xs)
  from same_group_trans [OF same_group_base [of w x] Cons.IH] show ?case by simp
qed simp

lemma same_group_cancelling: "same_group w (pupd r (\<lambda>x. x\<lparr>p_cancelling := True\<rparr>) w)"
  by (simp add: same_group_def)

lemma linked_same: "same_group w w' \<Longrightarrow> linked w' p xs = linked w p xs"
  by (rule linked_cong) (simp add: same_group_def)

lemma group_ok_same: "group_ok w ch \<Longrightarrow> same_group w w' \<Longrightarrow> group_ok w' ch"
  using linked_same [of w w'] by (simp add: group_ok_def member_ok_def root_ok_def same_group_def) blast

lemma destroy_chain_all: "linked w p xs \<Longrightarrow> destroy_chain p w = Some (fold base_destroy xs w)"
proof (induction xs arbitrary: p w)
  case Nil
  then show ?case by (subst destroy_chain.simps) simp
next
  case (Cons x xs)
  then have "linked (base_destroy x w) (next_of (base_destroy x w) x) xs"
    using linked_same [OF same_group_base [of w x]] same_group_base [of w x] by (simp add: same_group_def)
  moreover have "next_of (base_destroy x w) x = next_of w x"
    using same_group_base [of w x] by (simp add: same_group_def)
  ultimately show ?case using Cons by (subst destroy_chain.simps) simp
qed

lemma destroyed_base: "p_destroyed (pobjs (base_destroy i w) j) \<longleftrightarrow> p_destroyed (pobjs w j) \<or> (i = j \<and> phase_of w j \<noteq> P_ZOM)"
  by (simp add: base_destroy_def)

lemma destroyed_fold:
  "p_destroyed (pobjs (fold base_destroy xs w) j) \<longleftrightarrow> p_destroyed (pobjs w j) \<or> (j \<in> set xs \<and> phase_of w j \<noteq> P_ZOM)"
proof (induction xs arbitrary: w)
  case (Cons x xs)
  have "phase_of (base_destroy x w) j = phase_of w j" using same_group_base [of w x] by (simp add: same_group_def)
  with Cons show ?case by (auto simp: destroyed_base)
qed simp

lemma group_okD:
  assumes "group_ok w ch" "i < pfresh w"
  shows "member_ok w i" "root_ok w (root_of w i) (ch (root_of w i))" "root_of w i < pfresh w"
    "root_of w (root_of w i) = root_of w i"
  using assms by (auto simp: group_ok_def member_ok_def)

lemma p_destroy_ok:
  assumes "group_ok w ch" "me < pfresh w"
  obtains w' where "p_destroy me w = Some w'" "same_group w w'"
    "p_destroyed (pobjs w' j) \<longleftrightarrow> p_destroyed (pobjs w j)
       \<or> phase_of w j \<noteq> P_ZOM \<and> (j = me \<or> root_of w me = me \<and> \<not> p_destroyed (pobjs w me) \<and> j \<in> set (ch me) \<and> phase_of w me \<noteq> P_ZOM)"
proof (cases "root_of w me = me \<and> \<not> (p_destroyed (pobjs w me) \<or> phase_of w me = P_ZOM)")
  case True
  then have "linked w (next_of w me) (ch me)" using group_okD(2) [OF assms] by (simp add: root_ok_def)
  from destroy_chain_all [OF this] True
  have "p_destroy me w = Some (base_destroy me (fold base_destroy (ch me) w))" by (simp add: p_destroy_def)
  moreover have g: "same_group w (fold base_destroy (ch me) w)" by (rule same_group_fold)
  moreover have "phase_of (fold base_destroy (ch me) w) j = phase_of w j" using g by (simp add: same_group_def)
  ultimately show ?thesis
    using that same_group_trans [OF g same_group_base] True by (auto simp: destroyed_base destroyed_fold)
next
  case False
  then have "p_destroy me w = Some (base_destroy me w)" by (auto simp: p_destroy_def)
  with that False show ?thesis using same_group_base by (auto simp: destroyed_base)
qed

lemma p_cancel_ok:
  assumes "group_ok w ch" "me < pfresh w"
  shows "\<exists>w'. p_cancel me w = Some w' \<and> same_group w w'
    \<and> (if phase_of w (root_of w me) = P_ZOM \<or> p_cancelling (pobjs w (root_of w me)) then w' = w
       else p_cancelling (pobjs w' (root_of w me))
         \<and> (\<forall>j. p_destroyed (pobjs w' j) \<longleftrightarrow>
              p_destroyed (pobjs w j) \<or> j = root_of w me \<or> j \<in> set (ch (root_of w me))))"
proof (cases "phase_of w (root_of w me) = P_ZOM \<or> p_cancelling (pobjs w (root_of w me))")
  case True
  then have "p_cancel me w = Some w" by (auto simp: p_cancel_def Let_def)
  with True show ?thesis by simp
next
  case False
  let ?r = "root_of w me"
  note r = group_okD [OF assms]
  define w1 where "w1 = pupd ?r (\<lambda>x. x\<lparr>p_cancelling := True\<rparr>) w"
  have g1: "same_group w w1" unfolding w1_def by (rule same_group_cancelling)
  define w2 where "w2 = fold base_destroy (ch ?r) w1"
  have g2: "same_group w w2" unfolding w2_def using same_group_trans [OF g1 same_group_fold] .
  have live: "phase_of w j \<noteq> P_ZOM" if "j \<in> set (ch ?r)" for j using r(2) that by (auto simp: root_ok_def)
  have "linked w1 (next_of w ?r) (ch ?r)" using r(2) linked_same [OF g1] by (simp add: root_ok_def)
  then have dc: "destroy_chain (next_of w ?r) w1 = Some w2" unfolding w2_def by (rule destroy_chain_all)
  have d2: "p_destroyed (pobjs w2 j) \<longleftrightarrow> p_destroyed (pobjs w j) \<or> j \<in> set (ch ?r)" for j
    using live g1 by (auto simp: w2_def destroyed_fold same_group_def w1_def)
  have c2: "p_cancelling (pobjs w2 ?r)"
    using same_group_fold [of w1 "ch ?r"] by (simp add: same_group_def w2_def w1_def)
  have "?r < pfresh w2" using r(3) g2 by (simp add: same_group_def)
  note pd = p_destroy_ok [OF group_ok_same [OF assms(1) g2] this]
  obtain w' where w': "p_destroy ?r w2 = Some w'" "same_group w2 w'" using pd by blast
  have "p_destroyed (pobjs w' j) \<longleftrightarrow> p_destroyed (pobjs w j) \<or> j = ?r \<or> j \<in> set (ch ?r)" for j
    using pd [of j] w'(1) d2 [of j] False live g2 by (auto simp: same_group_def)
  moreover have "p_cancel me w = Some w'" using False dc w'(1) by (simp add: p_cancel_def Let_def w1_def)
  moreover have "p_cancelling (pobjs w' ?r)" using w'(2) c2 by (simp add: same_group_def)
  ultimately show ?thesis using False same_group_trans [OF g2 w'(2)] by simp
qed

section \<open>Joining and leaving\<close>

definition unlinked :: "nat \<Rightarrow> nat \<Rightarrow> pworld \<Rightarrow> pworld" where
  "unlinked me prev w =
     pupd me (\<lambda>x. x\<lparr>p_next := None, p_phase := P_ZOM\<rparr>) (pupd prev (\<lambda>x. x\<lparr>p_next := next_of w me\<rparr>) w)"

lemma unlinked_simps [simp]:
  "next_of (unlinked me prev w) i = (if i = me then None else if i = prev then next_of w me else next_of w i)"
  "root_of (unlinked me prev w) i = root_of w i" "p_wake (pobjs (unlinked me prev w) i) = p_wake (pobjs w i)"
  "phase_of (unlinked me prev w) i = (if i = me then P_ZOM else phase_of w i)"
  "p_fn (pobjs (unlinked me prev w) i) = p_fn (pobjs w i)" "p_org (pobjs (unlinked me prev w) i) = p_org (pobjs w i)"
  "pfresh (unlinked me prev w) = pfresh w" "preturned (unlinked me prev w) = preturned w"
  by (simp_all add: unlinked_def)

lemma find_link_chain:
  assumes "linked w (next_of w r) xs" "distinct (r # xs)" "me \<in> set xs"
  shows "\<exists>q. find_link w me r = Some q \<and> q \<in> set (r # xs) \<and> q \<noteq> me
    \<and> linked (unlinked me q w) (next_of (unlinked me q w) r) (remove1 me xs)"
  using assms
proof (induction xs arbitrary: r)
  case (Cons x xs)
  show ?case
  proof (cases "x = me")
    case True
    with Cons.prems have "find_link w me r = Some r" by (subst find_link.simps) simp
    moreover have "linked (unlinked me r w) (next_of w me) xs = linked w (next_of w me) xs"
      using Cons.prems True by (intro linked_cong) auto
    ultimately show ?thesis using Cons.prems True by auto
  next
    case False
    obtain q where q: "find_link w me x = Some q" "q \<in> set (x # xs)" "q \<noteq> me"
      "linked (unlinked me q w) (next_of (unlinked me q w) x) (remove1 me xs)"
      using Cons.IH [of x] Cons.prems False by auto
    moreover have "find_link w me r = find_link w me x" using Cons.prems False by (subst find_link.simps) simp
    moreover have "next_of (unlinked me q w) r = Some x" using Cons.prems False q(2) by auto
    ultimately show ?thesis using False by auto
  qed
qed simp

lemma p_new_root_ok:
  assumes "group_ok w ch" "pr = None \<or> phase_of w (the pr) = P_ZOM"
  shows "group_ok (p_new pr type fn w) (ch(pfresh w := []))"
proof -
  let ?me = "pfresh w" and ?w = "p_new pr type fn w"
  have old: "pobjs ?w i = pobjs w i" if "i \<noteq> ?me" for i
    using that assms(2) by (auto simp: p_new_def Let_def pupd_def split: option.split)
  have new: "root_of ?w ?me = ?me" "phase_of ?w ?me = P_ACT" "next_of ?w ?me = None"
    "p_fn (pobjs ?w ?me) = p_org (pobjs ?w ?me)" "pfresh ?w = Suc ?me" "preturned ?w = preturned w"
    using assms(2) by (auto simp: p_new_def Let_def split: option.split)
  have ret: "?me \<notin> set (preturned w)" using assms(1) by (auto simp: group_ok_def)
  have "member_ok ?w i" if "i < Suc ?me" for i
  proof (cases "i = ?me")
    case False
    with that have "i < ?me" by simp
    from group_okD [OF assms(1) this] this show ?thesis by (simp add: member_ok_def old new(5))
  qed (simp add: member_ok_def new)
  moreover have "root_ok ?w r ((ch(?me := [])) r)" if "r < Suc ?me" "root_of ?w r = r" for r
  proof (cases "r = ?me")
    case True
    have "{i. i < Suc ?me \<and> i \<noteq> ?me \<and> root_of ?w i = ?me \<and> phase_of ?w i = P_ACT} = {}"
      using group_okD(3) [OF assms(1)] old by (auto simp: less_Suc_eq) (metis less_irrefl)
    with True show ?thesis by (simp add: root_ok_def new ret)
  next
    case False
    then have r: "r < ?me" "root_of w r = r" using that old by auto
    have ok: "root_ok w r (ch r)" using group_okD(2) [OF assms(1) r(1)] r(2) by simp
    have "linked ?w (next_of w r) (ch r) = linked w (next_of w r) (ch r)"
      using ok by (intro linked_cong) (auto simp: root_ok_def old)
    moreover have "{i. i < Suc ?me \<and> i \<noteq> r \<and> root_of ?w i = r \<and> phase_of ?w i = P_ACT}
        = {i. i < ?me \<and> i \<noteq> r \<and> root_of w i = r \<and> phase_of w i = P_ACT}"
      using False new(1) old by (auto simp: less_Suc_eq)
    ultimately show ?thesis using ok False by (simp add: root_ok_def old new(5,6))
  qed
  moreover have "\<forall>r \<in> set (preturned w). r < Suc ?me \<and> root_of ?w r = r"
    using assms(1) old by (fastforce simp: group_ok_def)
  ultimately show ?thesis using assms(1) by (simp add: group_ok_def new(5,6))
qed

lemma p_new_join_ok:
  assumes "group_ok w ch" "p < pfresh w" "phase_of w p \<noteq> P_ZOM"
  shows "group_ok (p_new (Some p) type fn w) (ch(root_of w p := pfresh w # ch (root_of w p), pfresh w := []))"
proof -
  let ?me = "pfresh w" and ?w = "p_new (Some p) type fn w" and ?r = "root_of w p"
  note r = group_okD [OF assms(1,2)]
  have rz: "phase_of w ?r \<noteq> P_ZOM" using r(1) assms(3) by (cases "phase_of w p") (auto simp: member_ok_def)
  have rm: "?r \<noteq> ?me" using r(3) by simp
  have old: "root_of ?w i = root_of w i" "phase_of ?w i = phase_of w i" "p_fn (pobjs ?w i) = p_fn (pobjs w i)"
    "p_org (pobjs ?w i) = p_org (pobjs w i)" "p_wake (pobjs ?w i) = p_wake (pobjs w i)"
    "next_of ?w i = (if i = ?r then Some ?me else next_of w i)" if "i \<noteq> ?me" for i
    using that assms(3) rm by (auto simp: p_new_def Let_def)
  have new: "root_of ?w ?me = ?r" "phase_of ?w ?me = P_ACT" "next_of ?w ?me = next_of w ?r"
    "p_fn (pobjs ?w ?me) = p_org (pobjs w ?r)" "pfresh ?w = Suc ?me" "preturned ?w = preturned w"
    using assms(3) rm by (auto simp: p_new_def Let_def)
  have "member_ok ?w i" if "i < Suc ?me" for i
  proof (cases "i = ?me")
    case False
    with that have "i < ?me" by simp
    from group_okD [OF assms(1) this] this False show ?thesis by (simp add: member_ok_def old new(5))
  next
    case True
    have "root_of ?w ?r = ?r" "phase_of ?w ?r \<noteq> P_ZOM" "p_org (pobjs ?w ?r) = p_org (pobjs w ?r)"
      using old rm r(4) rz by auto
    then show ?thesis using True r(3) by (simp add: member_ok_def new)
  qed
  moreover have "root_ok ?w q ((ch(?r := ?me # ch ?r, ?me := [])) q)" if "q < Suc ?me" "root_of ?w q = q" for q
  proof -
    have q: "q < ?me" using that new(1) rm by (cases "q = ?me") auto
    then have qr: "root_of w q = q" using that old by auto
    have ok: "root_ok w q (ch q)" using group_okD(2) [OF assms(1) q] qr by simp
    have "?r \<notin> set (ch q)" using ok r(4) by (auto simp: root_ok_def)
    then have l: "linked ?w (next_of w q) (ch q) = linked w (next_of w q) (ch q)"
      using ok by (intro linked_cong) (auto simp: root_ok_def old)
    have s: "{i. i < Suc ?me \<and> i \<noteq> q \<and> root_of ?w i = q \<and> phase_of ?w i = P_ACT}
        = (if q = ?r then insert ?me else id) {i. i < ?me \<and> i \<noteq> q \<and> root_of w i = q \<and> phase_of w i = P_ACT}"
      using q new(1,2) old by (auto simp: less_Suc_eq)
    have "?me \<notin> set (ch q)" using ok by (auto simp: root_ok_def)
    with ok l s q rz show ?thesis
      by (cases "q = ?r") (auto simp: root_ok_def old new)
  qed
  moreover have "\<forall>q \<in> set (preturned w). q < Suc ?me \<and> root_of ?w q = q"
    using assms(1) old by (fastforce simp: group_ok_def)
  ultimately show ?thesis using assms(1) by (simp add: group_ok_def new(5,6))
qed

lemma p_fin_sibling_ok:
  assumes "group_ok w ch" "me < pfresh w" "phase_of w me = P_ACT" "root_of w me \<noteq> me"
  obtains w' where "p_fin me w = Some w'" "group_ok w' (ch(root_of w me := remove1 me (ch (root_of w me))))"
proof -
  let ?r = "root_of w me"
  define w0 where "w0 = pupd me (\<lambda>x. x\<lparr>p_fn := None\<rparr>) w"
  have same0: "next_of w0 i = next_of w i" "root_of w0 i = root_of w i" "phase_of w0 i = phase_of w i"
    "p_org (pobjs w0 i) = p_org (pobjs w i)" "p_wake (pobjs w0 i) = p_wake (pobjs w i)"
    "i \<noteq> me \<Longrightarrow> p_fn (pobjs w0 i) = p_fn (pobjs w i)"
    "pfresh w0 = pfresh w" "preturned w0 = preturned w" for i by (simp_all add: w0_def)
  note r = group_okD [OF assms(1,2)]
  have rr: "root_ok w ?r (ch ?r)" by (rule r(2))
  then have "linked w0 (next_of w0 ?r) (ch ?r)" "distinct (?r # ch ?r)" "me \<in> set (ch ?r)"
    using linked_cong [of "ch ?r" w0 w] same0 assms(2-4) by (auto simp: root_ok_def)
  from find_link_chain [OF this] obtain q where q: "find_link w0 me ?r = Some q" "q \<in> set (?r # ch ?r)" "q \<noteq> me"
    "linked (unlinked me q w0) (next_of (unlinked me q w0) ?r) (remove1 me (ch ?r))" by blast
  define w1 where "w1 = unlinked me q w0"
  define w' where "w' = (if next_of w1 ?r = None then pupd ?r (\<lambda>x. x\<lparr>p_wake := True\<rparr>) w1 else w1)"
  have fin: "p_fin me w = Some w'"
    unfolding p_fin_def Let_def w0_def [symmetric] unlinked_def [symmetric] same0(2)
    by (simp only: assms(4) if_False q(1) option.case w'_def w1_def)
  have w1: "next_of w' i = (if i = me then None else if i = q then next_of w me else next_of w i)"
    "root_of w' i = root_of w i" "phase_of w' i = (if i = me then P_ZOM else phase_of w i)"
    "p_org (pobjs w' i) = p_org (pobjs w i)" "i \<noteq> me \<Longrightarrow> p_fn (pobjs w' i) = p_fn (pobjs w i)"
    "p_wake (pobjs w' i) = (p_wake (pobjs w i) \<or> i = ?r \<and> next_of w1 ?r = None)"
    "pfresh w' = pfresh w" "preturned w' = preturned w" for i
    by (auto simp: w'_def w1_def same0)
  have nx: "next_of w' i = next_of w1 i" for i by (simp add: w'_def)
  have mem: "member_ok w' i" if "i < pfresh w" for i
    using group_okD(1) [OF assms(1) that] assms(4) r(4) by (auto simp: member_ok_def w1)
  have root: "root_ok w' x ((ch(?r := remove1 me (ch ?r))) x)" if x: "x < pfresh w" "root_of w x = x" for x
  proof -
    have ok: "root_ok w x (ch x)" using group_okD(2) [OF assms(1) x(1)] x(2) by simp
    have xm: "x \<noteq> me" using x(2) assms(4) by auto
    show ?thesis
    proof (cases "x = ?r")
      case True
      have l: "linked w' (next_of w' ?r) (remove1 me (ch ?r))"
        using q(4) linked_cong [of "remove1 me (ch ?r)" w' w1] nx by (simp add: w1_def)
      have e: "remove1 me (ch ?r) = [] \<longleftrightarrow> next_of w1 ?r = None"
        using q(4) by (cases "remove1 me (ch ?r)") (auto simp: w1_def)
      have "set (remove1 me (ch ?r)) = set (ch ?r) - {me}" using rr by (simp add: root_ok_def)
      also have "\<dots> = {i. i < pfresh w' \<and> i \<noteq> ?r \<and> root_of w' i = ?r \<and> phase_of w' i = P_ACT}"
        using rr by (auto simp: root_ok_def w1)
      finally have "set (remove1 me (ch ?r)) = {i. i < pfresh w' \<and> i \<noteq> ?r \<and> root_of w' i = ?r \<and> phase_of w' i = P_ACT}" .
      then show ?thesis using rr l e True xm by (auto simp: root_ok_def w1)
    next
      case False
      have "root_of w q = ?r" using q(2) rr r(4) by (auto simp: root_ok_def)
      moreover have "root_of w y = x" if "y \<in> set (ch x)" for y using ok that by (simp add: root_ok_def)
      ultimately have nq: "q \<notin> set (ch x)" "x \<noteq> q" using False x(2) by auto
      have "next_of w' y = next_of w y" if "y \<in> insert x (set (ch x))" for y
        using that nq xm ok False by (auto simp: w1 root_ok_def)
      then have "linked w' (next_of w' x) (ch x) = linked w (next_of w x) (ch x)"
        using linked_cong [of "ch x" w' w] by simp
      moreover have "{i. i < pfresh w' \<and> i \<noteq> x \<and> root_of w' i = x \<and> phase_of w' i = P_ACT}
          = {i. i < pfresh w \<and> i \<noteq> x \<and> root_of w i = x \<and> phase_of w i = P_ACT}"
        using False by (auto simp: w1)
      ultimately show ?thesis using ok xm False by (auto simp: root_ok_def w1)
    qed
  qed
  have "group_ok w' (ch(?r := remove1 me (ch ?r)))"
    unfolding group_ok_def w1(7,8) w1(2) using mem root assms(1) by (simp add: group_ok_def)
  with fin that show ?thesis by blast
qed

lemma p_fin_root_ok:
  assumes "group_ok w ch" "me < pfresh w" "phase_of w me \<noteq> P_ZOM" "root_of w me = me"
  shows "\<exists>w'. p_fin me (pupd me (\<lambda>x. x\<lparr>p_wake := b\<rparr>) w) = Some w' \<and> group_ok w' ch
    \<and> (me \<in> set (preturned w')) = (ch me = [])"
proof -
  define w' where "w' = (let v = pupd me (\<lambda>x. x\<lparr>p_fn := None\<rparr>) (pupd me (\<lambda>x. x\<lparr>p_wake := b\<rparr>) w) in
    if next_of w me \<noteq> None then pupd me (\<lambda>x. x\<lparr>p_phase := P_FIN\<rparr>) v
    else (pupd me (\<lambda>x. x\<lparr>p_org := None, p_phase := P_ZOM\<rparr>) v)\<lparr>preturned := preturned w @ [me]\<rparr>)"
  have fin: "p_fin me (pupd me (\<lambda>x. x\<lparr>p_wake := b\<rparr>) w) = Some w'"
    using assms(4) by (simp add: p_fin_def Let_def w'_def)
  note r = group_okD [OF assms(1,2)]
  have rr: "root_ok w me (ch me)" using r(2) assms(4) by simp
  then have e: "next_of w me = None \<longleftrightarrow> ch me = []" by (cases "ch me") (auto simp: root_ok_def)
  have w': "next_of w' i = next_of w i" "root_of w' i = root_of w i"
    "phase_of w' i = (if i = me then if ch me = [] then P_ZOM else P_FIN else phase_of w i)"
    "p_org (pobjs w' i) = (if i = me \<and> ch me = [] then None else p_org (pobjs w i))"
    "i \<noteq> me \<Longrightarrow> p_fn (pobjs w' i) = p_fn (pobjs w i)"
    "i \<noteq> me \<Longrightarrow> p_wake (pobjs w' i) = p_wake (pobjs w i)"
    "pfresh w' = pfresh w" "preturned w' = preturned w @ (if ch me = [] then [me] else [])" for i
    using e by (auto simp: w'_def Let_def)
  have notret: "me \<notin> set (preturned w)" using rr assms(3) by (auto simp: root_ok_def)
  have none: "\<not> (i < pfresh w \<and> i \<noteq> me \<and> root_of w i = me \<and> phase_of w i = P_ACT)" if "ch me = []" for i
    using rr that by (auto simp: root_ok_def)
  have mem: "member_ok w' i" if "i < pfresh w" for i
    using group_okD(1) [OF assms(1) that] none [of i] assms(4) that
    by (cases "i = me") (auto simp: member_ok_def w')
  have root: "root_ok w' x (ch x)" if x: "x < pfresh w" "root_of w x = x" for x
  proof -
    have ok: "root_ok w x (ch x)" using group_okD(2) [OF assms(1) x(1)] x(2) by simp
    have l: "linked w' (next_of w' x) (ch x) = linked w (next_of w x) (ch x)"
      by (subst w'(1)) (auto intro!: linked_cong simp: w')
    have s: "{i. i < pfresh w' \<and> i \<noteq> x \<and> root_of w' i = x \<and> phase_of w' i = P_ACT}
        = {i. i < pfresh w \<and> i \<noteq> x \<and> root_of w i = x \<and> phase_of w i = P_ACT}"
      using x(2) assms(4) by (auto simp: w')
    show ?thesis using ok l s notret by (cases "x = me") (auto simp: root_ok_def w')
  qed
  have "distinct (preturned w')" "\<forall>x \<in> set (preturned w'). x < pfresh w \<and> root_of w x = x"
    using assms notret by (auto simp: w' group_ok_def)
  with mem root have "group_ok w' ch" unfolding group_ok_def by (simp add: w')
  moreover have "(me \<in> set (preturned w')) = (ch me = [])" using notret by (simp add: w')
  ultimately show ?thesis using fin by blast
qed

section \<open>Reachable groups\<close>

lemma finish_ok:
  assumes "group_ok w ch" "me < pfresh w" "phase_of w me = P_ACT"
  shows "\<exists>w' ch'. p_fin me w = Some w' \<and> group_ok w' ch'"
proof (cases "root_of w me = me")
  case True
  have "pupd me (\<lambda>x. x\<lparr>p_wake := p_wake (pobjs w me)\<rparr>) w = w" by (simp add: pupd_def)
  moreover have "phase_of w me \<noteq> P_ZOM" using assms(3) by simp
  ultimately show ?thesis using p_fin_root_ok [OF assms(1,2) _ True, of "p_wake (pobjs w me)"] by auto
next
  case False
  from p_fin_sibling_ok [OF assms False] show ?thesis by metis
qed

lemma p_new_ok:
  assumes "group_ok w ch" "\<forall>p. pr = Some p \<longrightarrow> p < pfresh w"
  shows "\<exists>ch'. group_ok (p_new pr type fn w) ch'"
proof (cases "pr = None \<or> phase_of w (the pr) = P_ZOM")
  case True
  then show ?thesis using p_new_root_ok [OF assms(1)] by blast
next
  case False
  then obtain p where "pr = Some p" by auto
  with False assms(2) show ?thesis using p_new_join_ok [OF assms(1), of p] by auto
qed

lemma pstep_ok: "pstep w w' \<Longrightarrow> group_ok w ch \<Longrightarrow> \<exists>ch'. group_ok w' ch'"
proof (induction rule: pstep.induct)
  case (ps_new pr w type fn)
  then show ?case using p_new_ok by blast
next
  case (ps_spawn me w type)
  have "root_of w me < pfresh w" using group_okD(3) [OF ps_spawn(2,1)] .
  then show ?case using p_new_ok [OF ps_spawn(2)] by (simp add: spawn_def)
next
  case (ps_cancel me w w')
  then obtain v where "p_cancel me w = Some v" "same_group w v" using p_cancel_ok [OF ps_cancel(3,1)] by blast
  with ps_cancel show ?case using group_ok_same by fastforce
next
  case (ps_destroy me w w')
  then show ?case using p_destroy_ok [OF ps_destroy(3,1)] group_ok_same by (metis option.inject)
next
  case (ps_finish me w run w')
  then show ?case using finish_ok [OF ps_finish(5,1,2)] by auto
next
  case (ps_rerun me w w')
  have "root_of w me = me" using group_okD(1) [OF ps_rerun(4,1)] ps_rerun(2) by (auto simp: member_ok_def)
  moreover have "phase_of w me \<noteq> P_ZOM" using ps_rerun(2) by simp
  ultimately show ?case using p_fin_root_ok [OF ps_rerun(4,1), of False] ps_rerun(3) by auto
qed

lemma preach_ok: "preach w \<Longrightarrow> \<exists>ch. group_ok w ch"
proof (induction rule: preach.induct)
  case pr_init
  show ?case by (rule exI [of _ "\<lambda>_. []"]) (simp add: group_ok_def p_start_def)
next
  case (pr_step w w')
  then show ?case using pstep_ok by blast
qed

text \<open>C16: Fork and join: the members of a group that lives run the body of its root; a root that has told its
  creator has done so once, is over, and so are all its siblings; a root that has not is told: if it waits
  and its last sibling has gone, a wakeup is pending.  And whatever a worker does when its body is done, it does
  without running off the list.\<close>

theorem fork_join:
  assumes "preach w" "r < pfresh w" "root_of w r = r"
  shows "distinct (preturned w) \<and> (r \<in> set (preturned w)) = (phase_of w r = P_ZOM)
    \<and> (phase_of w r = P_ZOM \<longrightarrow> (\<forall>i < pfresh w. root_of w i = r \<longrightarrow> phase_of w i = P_ZOM))
    \<and> (\<forall>i < pfresh w. root_of w i = r \<and> phase_of w i = P_ACT \<longrightarrow>
         p_fn (pobjs w i) = p_org (pobjs w r) \<and> (\<exists>w'. p_fin i w = Some w'))
    \<and> (phase_of w r = P_FIN \<and> (\<forall>i < pfresh w. i \<noteq> r \<and> root_of w i = r \<longrightarrow> phase_of w i = P_ZOM)
         \<longrightarrow> p_wake (pobjs w r) \<and> (\<exists>w'. p_fin r (pupd r (\<lambda>x. x\<lparr>p_wake := False\<rparr>) w) = Some w' \<and> r \<in> set (preturned w')))"
proof -
  obtain ch where ok: "group_ok w ch" using preach_ok [OF assms(1)] by blast
  have rr: "root_ok w r (ch r)" using group_okD(2) [OF ok assms(2)] assms(3) by simp
  have "phase_of w i = P_ZOM" if "phase_of w r = P_ZOM" "i < pfresh w" "root_of w i = r" for i
    using group_okD(1) [OF ok that(2)] that by (cases "phase_of w i") (auto simp: member_ok_def)
  moreover have "p_fn (pobjs w i) = p_org (pobjs w r) \<and> (\<exists>w'. p_fin i w = Some w')"
    if "i < pfresh w" "root_of w i = r" "phase_of w i = P_ACT" for i
    using group_okD(1) [OF ok that(1)] finish_ok [OF ok that(1,3)] that by (auto simp: member_ok_def)
  moreover have "p_wake (pobjs w r) \<and> (\<exists>w'. p_fin r (pupd r (\<lambda>x. x\<lparr>p_wake := False\<rparr>) w) = Some w' \<and> r \<in> set (preturned w'))"
    if "phase_of w r = P_FIN" "\<forall>i < pfresh w. i \<noteq> r \<and> root_of w i = r \<longrightarrow> phase_of w i = P_ZOM"
  proof -
    have m: "set (ch r) = {i. i < pfresh w \<and> i \<noteq> r \<and> root_of w i = r \<and> phase_of w i = P_ACT}"
      using rr by (simp add: root_ok_def)
    have "i \<notin> set (ch r)" for i unfolding m using that(2) by auto
    then have e: "ch r = []" by (cases "ch r") auto
    have nz: "phase_of w r \<noteq> P_ZOM" using that(1) by simp
    have "\<exists>w'. p_fin r (pupd r (\<lambda>x. x\<lparr>p_wake := False\<rparr>) w) = Some w' \<and> r \<in> set (preturned w')"
      using p_fin_root_ok [OF ok assms(2) nz assms(3), of False] e by blast
    moreover have "p_wake (pobjs w r)" using rr e that(1) by (simp add: root_ok_def)
    ultimately show ?thesis by blast
  qed
  moreover have "distinct (preturned w)" "(r \<in> set (preturned w)) = (phase_of w r = P_ZOM)"
    using ok rr by (simp_all add: group_ok_def root_ok_def)
  ultimately show ?thesis by blast
qed

text \<open>Cancelling from any worker of a group that lives always returns and marks the root and every sibling that
  is not done, and nobody else; it does nothing the second time or after the group has ended.\<close>

theorem cancel_reaches_all:
  assumes "preach w" "me < pfresh w"
  shows "\<exists>w'. p_cancel me w = Some w' \<and> same_group w w'
    \<and> (if phase_of w (root_of w me) = P_ZOM \<or> p_cancelling (pobjs w (root_of w me)) then w' = w
       else p_cancelling (pobjs w' (root_of w me))
         \<and> (\<forall>j < pfresh w. p_destroyed (pobjs w' j) =
              (p_destroyed (pobjs w j) \<or> root_of w j = root_of w me \<and> phase_of w j \<noteq> P_ZOM)))"
proof -
  obtain ch where ok: "group_ok w ch" using preach_ok [OF assms(1)] by blast
  note r = group_okD [OF ok assms(2)]
  have "(j = root_of w me \<or> j \<in> set (ch (root_of w me))) = (root_of w j = root_of w me \<and> phase_of w j \<noteq> P_ZOM)"
    if "phase_of w (root_of w me) \<noteq> P_ZOM" "j < pfresh w" for j
    using r group_okD(1) [OF ok that(2)] that by (cases "phase_of w j") (auto simp: root_ok_def member_ok_def)
  then show ?thesis using p_cancel_ok [OF ok assms(2)] by (auto split: if_splits)
qed

section \<open>A group of two\<close>

definition pair_group :: pworld where
  "pair_group = spawn 0 (- 1) (p_new None 0 (Some 5) p_start)"

lemma pair_group_reachable: "preach pair_group"
proof -
  have "preach (p_new None 0 (Some 5) p_start)" by (rule pr_step [OF pr_init]) (rule ps_new, simp)
  from pr_step [OF this ps_spawn [of 0 _ "- 1"]] show ?thesis by (simp add: pair_group_def p_new_def p_start_def Let_def)
qed

lemma pair_group_simps:
  "pfresh pair_group = 2" "next_of pair_group 0 = Some 1" "next_of pair_group 1 = None" "root_of pair_group 0 = 0"
  "root_of pair_group 1 = 0" "phase_of pair_group 0 = P_ACT" "phase_of pair_group 1 = P_ACT"
  "\<not> p_cancelling (pobjs pair_group 0)" "preturned pair_group = []"
  by (simp_all add: pair_group_def spawn_def p_new_def p_start_def Let_def)

text \<open>The root is done first and waits; its sibling leaves.\<close>

lemma pair_group_joined:
  obtains w where "preach w" "phase_of w 0 = P_FIN" "root_of w 0 = 0" "pfresh w = 2" "root_of w 1 = 0" "phase_of w 1 = P_ZOM"
proof -
  note [simp] = pair_group_simps pair_group_simps [unfolded One_nat_def]
  define w1 where "w1 = pupd 0 (\<lambda>x. x\<lparr>p_phase := P_FIN\<rparr>) (pupd 0 (\<lambda>x. x\<lparr>p_fn := None\<rparr>) pair_group)"
  have f1: "p_fin 0 pair_group = Some w1" by (simp add: p_fin_def w1_def Let_def)
  have r1: "preach w1"
    by (rule pr_step [OF pair_group_reachable], rule ps_finish [OF _ _ _ f1, of "\<lambda>_ _ _. True"])
      (simp_all add: p_body_def split: option.split)
  define w2 where "w2 = pupd 0 (\<lambda>x. x\<lparr>p_wake := True\<rparr>) (unlinked 1 0 (pupd 1 (\<lambda>x. x\<lparr>p_fn := None\<rparr>) w1))"
  have "find_link (pupd 1 (\<lambda>x. x\<lparr>p_fn := None\<rparr>) w1) 1 0 = Some 0" by (subst find_link.simps) (simp add: w1_def)
  then have f2: "p_fin 1 w1 = Some w2" by (simp add: p_fin_def w1_def w2_def Let_def unlinked_def)
  have "preach w2"
    by (rule pr_step [OF r1], rule ps_finish [OF _ _ _ f2, of "\<lambda>_ _ _. True"])
      (simp_all add: p_body_def w1_def split: option.split)
  then show ?thesis by (rule that) (simp_all add: w2_def w1_def)
qed

theorem fork_join_witness:
  "\<exists>w w'. preach w \<and> phase_of w 0 = P_FIN \<and> p_wake (pobjs w 0)
     \<and> p_fin 0 (pupd 0 (\<lambda>x. x\<lparr>p_wake := False\<rparr>) w) = Some w' \<and> 0 \<in> set (preturned w')"
proof -
  obtain w where w: "preach w" "phase_of w 0 = P_FIN" "root_of w 0 = 0" "pfresh w = 2" "root_of w 1 = 0" "phase_of w 1 = P_ZOM"
    by (rule pair_group_joined)
  have "i < pfresh w \<Longrightarrow> i \<noteq> 0 \<Longrightarrow> i = 1" for i using w(4) by simp
  then have "\<forall>i < pfresh w. i \<noteq> 0 \<and> root_of w i = 0 \<longrightarrow> phase_of w i = P_ZOM" using w(6) by auto
  then show ?thesis using fork_join [OF w(1), of 0] w(2-4) w(1) by auto
qed

theorem cancel_reaches_all_witness:
  "\<exists>w'. p_cancel 1 pair_group = Some w' \<and> p_destroyed (pobjs w' 0) \<and> p_destroyed (pobjs w' 1)"
  using cancel_reaches_all [OF pair_group_reachable, of 1]
  by (auto simp: pair_group_simps pair_group_simps [unfolded One_nat_def])

section \<open>Cancelling from a thread\<close>

text \<open>
  A body of type 1 runs outside the application mutex, and so does the loop of \<open>cancel\<close> it calls, while a
  sibling that ends unlinks itself under the mutex.  Between two turns of the loop the sibling that is next
  can be unlinked: its \<open>_next\<close> is null by then, and those behind it are not destroyed.
\<close>

definition walk_turn :: "nat sptr \<times> pworld \<Rightarrow> nat sptr \<times> pworld" where
  "walk_turn st =
     (case fst st of None \<Rightarrow> st | Some p \<Rightarrow> (next_of (snd st) p, base_destroy p (snd st)))"

theorem cancel_misses_sibling:
  "\<exists>w w1 p1 w2 p2 w3. preach w \<and> walk_turn (next_of w 0, w) = (Some p1, w1) \<and> p_fin p1 w1 = Some w2
     \<and> walk_turn (Some p1, w2) = (None, w3) \<and> phase_of w3 p2 = P_ACT \<and> root_of w3 p2 = 0 \<and> \<not> p_destroyed (pobjs w3 p2)"
proof -
  define w where "w = spawn 0 (- 1) (spawn 0 (- 1) pair_group)"
  have "preach (spawn 0 (- 1) pair_group)"
    by (rule pr_step [OF pair_group_reachable], rule ps_spawn) (simp add: pair_group_simps)
  moreover have f1: "pfresh (spawn 0 (- 1) pair_group) = 3"
    by (simp add: spawn_def p_new_def pair_group_simps Let_def)
  ultimately have "preach w" unfolding w_def by (elim pr_step) (rule ps_spawn, simp)
  have l: "next_of w 0 = Some 3" "next_of w 3 = Some 2" "next_of w 2 = Some 1" "root_of w 2 = 0" "root_of w 1 = 0"
    "root_of w 0 = 0" "phase_of w 3 = P_ACT" "phase_of w 1 = P_ACT" "\<not> p_destroyed (pobjs w 3)" "\<not> p_destroyed (pobjs w 1)"
    "phase_of w 2 = P_ACT"
    by (simp_all add: w_def pair_group_def spawn_def p_new_def p_start_def Let_def)
  define w1 where "w1 = base_destroy 3 w"
  define v where "v = pupd 2 (\<lambda>x. x\<lparr>p_fn := None\<rparr>) w1"
  define w2 where "w2 = unlinked 2 3 v"
  have v: "next_of v 0 = Some 3" "next_of v 3 = Some 2" "next_of v 2 = Some 1" "root_of v 2 = 0"
    using l by (simp_all add: v_def w1_def base_destroy_def)
  have "find_link v 2 0 = Some 3"
    by (subst find_link.simps, simp add: v, subst find_link.simps, simp add: v)
  then have "p_fin 2 w1 = Some w2"
    using v by (simp add: p_fin_def Let_def w2_def unlinked_def flip: v_def)
  moreover have "walk_turn (next_of w 0, w) = (Some 2, w1)" using l by (simp add: walk_turn_def w1_def)
  moreover have "walk_turn (Some 2, w2) = (None, w2)"
    by (simp add: walk_turn_def w2_def base_destroy_def)
  moreover have "phase_of w2 1 = P_ACT" "root_of w2 1 = 0" "\<not> p_destroyed (pobjs w2 1)"
    using l by (simp_all add: w2_def v_def w1_def base_destroy_def unlinked_def)
  ultimately show ?thesis using \<open>preach w\<close> by blast
qed

end
