(* ===== verification/StreamIO.thy ===== *)
theory StreamIO
  imports StdString
begin

text \<open>
  The byte stream \<open>ts2IO\<close> of \<open>src/src/classes/ts2/c++/ts2IO.cpp\<close>: the line reader \<open>read_s\<close> over its
  buffer \<open>sBuffer\<close>, and \<open>read_c\<close> and \<open>write_c\<close>, which transfer an exact number of bytes and are
  resumed, through the saved state of \<open>PS_STATEMENT\<close> (\<open>src/src/h/ts2/c++/sPicoState.h\<close>), after an
  exception has taken the caller away.

  \<open>read\<close> and \<open>write\<close> are virtual.  The source is the script of what the other side does: it
  has bytes for us, is at its end, fails, or has nothing now, which throws.  \<^term>\<open>None\<close> is a panic or an
  access outside the allocated block.
\<close>

section \<open>The two ends\<close>

datatype rd = Data string | At_end | Fails | Throws

type_synonym src = "rd list"

text \<open>\<open>read(buf,n)\<close>: at most \<open>n\<close> bytes; a stream that has ended stays at its end.\<close>

fun rd_read :: "nat \<Rightarrow> src \<Rightarrow> rd \<times> src" where
  "rd_read n [] = (Throws, [])"
| "rd_read n (Data bs # r) = (Data (take n bs), if drop n bs = [] then r else Data (drop n bs) # r)"
| "rd_read n (At_end # r) = (At_end, At_end # r)"
| "rd_read n (Fails # r) = (Fails, r)"
| "rd_read n (Throws # r) = (Throws, r)"

text \<open>The bytes a source still has, and a bound for what can happen on it.\<close>

fun src_bytes :: "src \<Rightarrow> string" where
  "src_bytes [] = []"
| "src_bytes (Data bs # r) = bs @ src_bytes r"
| "src_bytes (At_end # r) = []"
| "src_bytes (_ # r) = src_bytes r"

fun src_size :: "src \<Rightarrow> nat" where
  "src_size [] = 0"
| "src_size (Data bs # r) = Suc (length bs) + src_size r"
| "src_size (_ # r) = Suc (src_size r)"

section \<open>Reading lines\<close>

abbreviation CR :: char where "CR \<equiv> CHR 0x0D"
abbreviation LF :: char where "LF \<equiv> CHR 0x0A"

record sio =
  sBuffer :: "char sarr"
  sBuffer_length :: nat
  sBuffer_eof :: bool

definition new_sio :: sio where
  "new_sio = \<lparr>sBuffer = arr_new NUL 0, sBuffer_length = 0, sBuffer_eof = False\<rparr>"

definition pending :: "sio \<Rightarrow> string" where
  "pending st = take (sBuffer_length st) (store (sBuffer st))"

definition get_s :: "sio \<Rightarrow> int" where
  "get_s st =
     (let xs = pending st; i = length (takeWhile (\<lambda>c. c \<noteq> CR \<and> c \<noteq> LF) xs) in
      if i = length xs then (if sBuffer_eof st then int i else - 1)
      else if xs ! i = CR then
        (if i + 1 = length xs then int (i + 1)
         else if xs ! (i + 1) = LF then int (i + 2)
         else int (i + 1))
      else int (i + 1))"

text \<open>
  \<open>read(&sBuffer[sBuffer_length],sBuffer.length()-sBuffer_length)\<close>.  Indexing a full buffer grows it;
  C++ leaves open which argument comes first, so \<open>addr_first\<close> says whether the address does.
\<close>

definition read_more :: "bool \<Rightarrow> sio \<Rightarrow> src \<Rightarrow> (rd \<times> sio \<times> src) option" where
  "read_more addr_first st src =
     (case arr_at NUL (int (sBuffer_length st)) (sBuffer st) of
        None \<Rightarrow> None
      | Some a \<Rightarrow>
          let n = (if addr_first then leng a else leng (sBuffer st)) - sBuffer_length st;
              (r, src') = rd_read n src
          in case r of
               Data bs \<Rightarrow>
                 (if bs = [] then Some (r, st\<lparr>sBuffer := a, sBuffer_eof := True\<rparr>, src')
                  else map_option (\<lambda>m. (r, st\<lparr>sBuffer := a\<lparr>store := m\<rparr>, sBuffer_length := sBuffer_length st + length bs\<rparr>, src'))
                    (poke (sBuffer_length st) bs (store a)))
             | At_end \<Rightarrow> Some (r, st\<lparr>sBuffer := a, sBuffer_eof := True\<rparr>, src')
             | _ \<Rightarrow> Some (r, st\<lparr>sBuffer := a\<rparr>, src'))"

text \<open>The string is built and what is left moves to the front of the buffer.\<close>

definition take_line :: "int \<Rightarrow> sio \<Rightarrow> (cstr \<times> sio) option" where
  "take_line ret st =
     (case str_sub (store (sBuffer st)) 0 ret of
        None \<Rightarrow> None
      | Some str \<Rightarrow>
          (case arr_at NUL ret (sBuffer st) of
             None \<Rightarrow> None
           | Some a \<Rightarrow>
               let n = sBuffer_length st - nat ret
               in map_option (\<lambda>m. (str, st\<lparr>sBuffer := a\<lparr>store := m\<rparr>, sBuffer_length := n\<rparr>))
                    (poke 0 (take n (drop (nat ret) (store a))) (store a))))"

datatype line = Line cstr | Null_line | Thrown

lemma rd_read_size:
  "rd_read n src = (r, src') \<Longrightarrow> src_size src' \<le> src_size src
     \<and> (\<forall>bs. r = Data bs \<and> bs \<noteq> [] \<longrightarrow> src_size src' < src_size src)"
  by (induction n src rule: rd_read.induct) (auto split: if_splits)

lemma get_s_eof: "sBuffer_eof st \<Longrightarrow> 0 \<le> get_s st"
  by (simp add: get_s_def Let_def)

lemma read_more_size:
  assumes "read_more af st src = Some (r, st', src')" "r \<noteq> Fails" "r \<noteq> Throws"
  shows "sBuffer_eof st' \<and> src_size src' \<le> src_size src \<or> sBuffer_eof st' = sBuffer_eof st \<and> src_size src' < src_size src"
proof -
  obtain a where a: "arr_at NUL (int (sBuffer_length st)) (sBuffer st) = Some a"
    using assms(1) by (auto simp: read_more_def split: option.splits)
  define n where "n = (if af then leng a else leng (sBuffer st)) - sBuffer_length st"
  obtain r1 s1 where r: "rd_read n src = (r1, s1)" by (metis surj_pair)
  from assms a r rd_read_size [OF r] show ?thesis
    by (auto simp: read_more_def Let_def simp flip: n_def split: rd.splits if_splits)
qed

text \<open>The loop of \<open>read_s\<close>.  Once \<open>sBuffer_eof\<close> is set it does not read again.\<close>

function read_s_loop :: "bool \<Rightarrow> int \<Rightarrow> sio \<Rightarrow> src \<Rightarrow> (line \<times> sio \<times> src) option" where
  "read_s_loop af len st src =
     (let ret = get_s st in
      if ret > 0 then
        map_option (\<lambda>(l, st'). (Line l, st', src)) (take_line (if ret > len - 1 then len - 1 else ret) st)
      else if ret = 0 then map_option (\<lambda>l. (Line l, st, src)) (str_new (Some [NUL]))
      else
        case read_more af st src of
          None \<Rightarrow> None
        | Some (Fails, st', src') \<Rightarrow> Some (Null_line, st', src')
        | Some (Throws, st', src') \<Rightarrow> Some (Thrown, st', src')
        | Some (_, st', src') \<Rightarrow> read_s_loop af len st' src')"
  by pat_completeness auto
termination
  by (relation "measure (\<lambda>(af, len, st, src). if sBuffer_eof st then 0 else Suc (src_size src))")
    (auto dest!: read_more_size dest: get_s_eof)

declare read_s_loop.simps [simp del]

definition read_s :: "bool \<Rightarrow> int \<Rightarrow> sio \<Rightarrow> src \<Rightarrow> (line \<times> sio \<times> src) option" where
  "read_s af len st src =
     read_s_loop af len
       (if int (leng (sBuffer st)) < len then st\<lparr>sBuffer := arr_resize NUL len (sBuffer st)\<rparr> else st) src"

section \<open>Transfers of an exact length\<close>

text \<open>\<open>__state\<close>, \<open>bp\<close> and \<open>s\<close> of \<open>ps_read_c\<close> and \<open>ps_write_c\<close>; the addresses are indices into the caller's memory.\<close>

record pico =
  ps_do :: bool
  ps_bp :: nat
  ps_s :: nat

datatype transfer = Returns int | Interrupted

function rc_loop :: "nat \<Rightarrow> nat \<Rightarrow> nat \<Rightarrow> char list \<Rightarrow> src \<Rightarrow> (transfer \<times> nat \<times> nat \<times> char list \<times> src) option" where
  "rc_loop len bp s m src =
     (if s = 0 then Some (Returns (int len), bp, s, m, src)
      else case rd_read s src of
          (Data bs, src') \<Rightarrow>
            if bs = [] then Some (Returns 0, bp, s, m, src')
            else (case poke bp bs m of None \<Rightarrow> None | Some m' \<Rightarrow> rc_loop len (bp + length bs) (s - length bs) m' src')
        | (At_end, src') \<Rightarrow> Some (Returns 0, bp, s, m, src')
        | (Fails, src') \<Rightarrow> Some (Returns (- 1), bp, s, m, src')
        | (Throws, src') \<Rightarrow> Some (Interrupted, bp, s, m, src'))"
  by pat_completeness auto
termination by (relation "measure (\<lambda>(len, bp, s, m, src). s)") auto

declare rc_loop.simps [simp del]

definition read_c :: "nat \<Rightarrow> nat \<Rightarrow> pico \<Rightarrow> char list \<Rightarrow> src \<Rightarrow> (transfer \<times> pico \<times> char list \<times> src) option" where
  "read_c buf len p m src =
     (let (bp, s) = (if ps_do p then (ps_bp p, ps_s p) else (buf, len))
      in map_option (\<lambda>(r, bp', s', m', src'). (r, \<lparr>ps_do = (r = Interrupted), ps_bp = bp', ps_s = s'\<rparr>, m', src'))
           (rc_loop len bp s m src))"

text \<open>\<open>write\<close> takes some of the bytes, fails or throws; \<open>out\<close> is what the other side has got.\<close>

datatype wr = Takes nat | Refuses | Full

fun wr_write :: "string \<Rightarrow> wr list \<Rightarrow> (int + unit) \<times> wr list" where
  "wr_write bs [] = (Inr (), [])"
| "wr_write bs (Takes k # w) = (Inl (int (min k (length bs))), w)"
| "wr_write bs (Refuses # w) = (Inl (- 1), w)"
| "wr_write bs (Full # w) = (Inr (), w)"

function wc_loop :: "nat \<Rightarrow> nat \<Rightarrow> nat \<Rightarrow> char list \<Rightarrow> wr list \<Rightarrow> string \<Rightarrow> (transfer \<times> nat \<times> nat \<times> wr list \<times> string) option" where
  "wc_loop len bp s m w out =
     (if s = 0 then Some (Returns (int len), bp, s, w, out)
      else case peek (int bp) s m of
          None \<Rightarrow> None
        | Some bs \<Rightarrow>
            (case wr_write bs w of
               (Inr _, w') \<Rightarrow> Some (Interrupted, bp, s, w', out)
             | (Inl er, w') \<Rightarrow>
                 if er \<le> 0 then Some (Returns er, bp, s, w', out)
                 else wc_loop len (bp + nat er) (s - nat er) m w' (out @ take (nat er) bs)))"
  by pat_completeness auto
termination by (relation "measure (\<lambda>(len, bp, s, m, w, out). s)") auto

declare wc_loop.simps [simp del]

definition write_c :: "nat \<Rightarrow> nat \<Rightarrow> pico \<Rightarrow> char list \<Rightarrow> wr list \<Rightarrow> string \<Rightarrow> (transfer \<times> pico \<times> wr list \<times> string) option" where
  "write_c buf len p m w out =
     (let (bp, s) = (if ps_do p then (ps_bp p, ps_s p) else (buf, len))
      in map_option (\<lambda>(r, bp', s', w', out'). (r, \<lparr>ps_do = (r = Interrupted), ps_bp = bp', ps_s = s'\<rparr>, w', out'))
           (wc_loop len bp s m w out))"

text \<open>\<open>write_s\<close> of a \<open>stdString\<close>.\<close>

definition write_s :: "cstr \<Rightarrow> pico \<Rightarrow> wr list \<Rightarrow> string \<Rightarrow> (transfer \<times> pico \<times> wr list \<times> string) option" where
  "write_s str p w out =
     (case (mem str, str_length str) of (Some m, Some n) \<Rightarrow> write_c 0 n p m w out | _ \<Rightarrow> None)"

section \<open>The buffer\<close>











section \<open>Lines\<close>





















text \<open>A client that calls \<open>read_s\<close> \<open>k\<close> times.\<close>

fun read_lines :: "nat \<Rightarrow> int \<Rightarrow> sio \<Rightarrow> src \<Rightarrow> (string list \<times> sio \<times> src) option" where
  "read_lines 0 len st src = Some ([], st, src)"
| "read_lines (Suc k) len st src =
     (case read_s True len st src of
        Some (Line s, st', src') \<Rightarrow> map_option (\<lambda>(ts, r). (str_text s # ts, r)) (read_lines k len st' src')
      | _ \<Rightarrow> None)"









text \<open>
  A buffer that is full and holds no end of line.  When the length is computed before the address,
  the read asks for no bytes, its 0 is taken for the end of the stream, and what follows is never read.
\<close>

lemma full_buffer_ends_stream:
  "map_option (\<lambda>(_, st, src). (sBuffer_eof st, src_bytes src)) (read_s False 4 new_sio [Data ''abcdef'', Data [LF], At_end])
     = Some (True, ''ef'' @ [LF])"
  "map_option (\<lambda>(_, st, src). (sBuffer_eof st, src_bytes src)) (read_s True 4 new_sio [Data ''abcdef'', Data [LF], At_end])
     = Some (False, [])"
  by code_simp+

text \<open>A CR LF that arrives in two parts is read as two lines.\<close>

lemma split_crlf:
  "map_option (map length \<circ> fst) (read_lines 2 9 new_sio [Data [CHR ''a'', CR], Data [LF, CHR ''b'', LF], At_end]) = Some [2, 1]"
  "map_option (map length \<circ> fst) (read_lines 2 9 new_sio [Data [CHR ''a'', CR, LF, CHR ''b'', LF], At_end]) = Some [3, 2]"
  by code_simp+

text \<open>A NUL inside a line: the string stops there, and the rest of the line is dropped with it.\<close>

lemma nul_drops_rest:
  "map_option fst (read_lines 2 9 new_sio [Data ([CHR ''a'', NUL, CHR ''b'', LF] @ [CHR ''c'', LF]), At_end])
     = Some [''a'', [CHR ''c'', LF]]"
  by code_simp

section \<open>Interrupted transfers\<close>

text \<open>A caller that comes back with the saved state as often as it was interrupted.\<close>

fun drive_read :: "nat \<Rightarrow> nat \<Rightarrow> nat \<Rightarrow> pico \<Rightarrow> char list \<Rightarrow> src \<Rightarrow> (int \<times> pico \<times> char list \<times> src) option" where
  "drive_read 0 buf len p m src = None"
| "drive_read (Suc k) buf len p m src =
     (case read_c buf len p m src of
        None \<Rightarrow> None
      | Some (Returns v, p', m', src') \<Rightarrow> Some (v, p', m', src')
      | Some (Interrupted, p', m', src') \<Rightarrow> drive_read k buf len p' m' src')"

fun drive_write :: "nat \<Rightarrow> nat \<Rightarrow> nat \<Rightarrow> pico \<Rightarrow> char list \<Rightarrow> wr list \<Rightarrow> string \<Rightarrow> (int \<times> pico \<times> wr list \<times> string) option" where
  "drive_write 0 buf len p m w out = None"
| "drive_write (Suc k) buf len p m w out =
     (case write_c buf len p m w out of
        None \<Rightarrow> None
      | Some (Returns v, p', w', out') \<Rightarrow> Some (v, p', w', out')
      | Some (Interrupted, p', w', out') \<Rightarrow> drive_write k buf len p' m w' out')"

abbreviation calm :: "src \<Rightarrow> src" where "calm src \<equiv> filter (\<lambda>r. r \<noteq> Throws) src"
abbreviation calm_w :: "wr list \<Rightarrow> wr list" where "calm_w w \<equiv> filter (\<lambda>r. r \<noteq> Full) w"

lemma rd_read_calm:
  "rd_read n src = (r, src') \<Longrightarrow>
     (if r = Throws then calm src = calm src' \<and> (src = [] \<or> Suc (count_list src' Throws) = count_list src Throws)
      else rd_read n (calm src) = (r, calm src') \<and> count_list src' Throws = count_list src Throws)"
  by (induction n src rule: rd_read.induct) (auto split: if_splits)

lemma rc_loop_calm:
  assumes "rc_loop len bp s m src = Some (t, bp', s', m', src')"
  shows "if t = Interrupted
    then rc_loop len bp s m (calm src) = rc_loop len bp' s' m' (calm src') \<and>
      (src' = [] \<and> rc_loop len bp' s' m' [] = Some (Interrupted, bp', s', m', []) \<or> count_list src' Throws < count_list src Throws)
    else rc_loop len bp s m (calm src) = Some (t, bp', s', m', calm src')"
  using assms
proof (induction len bp s m src rule: rc_loop.induct)
  case (1 len bp s m src)
  obtain r s1 where rd: "rd_read s src = (r, s1)" by (metis surj_pair)
  note c = rd_read_calm [OF rd]
  show ?case
  proof (cases "s = 0")
    case True
    with "1.prems" show ?thesis by (subst (asm) rc_loop.simps, subst (1 2 4) rc_loop.simps) auto
  next
    case False
    show ?thesis
    proof (cases "\<exists>bs. r = Data bs \<and> bs \<noteq> []")
      case True
      then obtain bs m1 where b: "r = Data bs" "bs \<noteq> []" "poke bp bs m = Some m1"
        and "rc_loop len (bp + length bs) (s - length bs) m1 s1 = Some (t, bp', s', m', src')"
        using "1.prems" False rd by (subst (asm) rc_loop.simps) (auto split: option.splits)
      note ih = "1.IH" [OF False rd [symmetric] b this(4)]
      have "rc_loop len bp s m (calm src) = rc_loop len (bp + length bs) (s - length bs) m1 (calm s1)"
        using False b c by (subst rc_loop.simps) simp
      with ih c b show ?thesis by (auto split: if_splits)
    next
      case stop: False
      with "1.prems" False rd have t: "bp' = bp" "s' = s" "m' = m" "src' = s1" "t = Interrupted \<longleftrightarrow> r = Throws"
        "t = (case r of Data _ \<Rightarrow> Returns 0 | At_end \<Rightarrow> Returns 0 | Fails \<Rightarrow> Returns (- 1) | Throws \<Rightarrow> Interrupted)"
        by (subst (asm) rc_loop.simps; auto split: rd.splits)+
      show ?thesis
      proof (cases "r = Throws")
        case True
        moreover have "rc_loop len bp s m [] = Some (Interrupted, bp, s, m, [])"
          using False by (subst rc_loop.simps) simp
        ultimately show ?thesis using t c rd by (cases "src = []") auto
      next
        case no: False
        then have "rc_loop len bp s m (calm src) = Some (t, bp, s, m, calm s1)"
          using c stop t False by (subst rc_loop.simps) (auto split: rd.splits)
        with no t show ?thesis by simp
      qed
    qed
  qed
qed

lemma rc_loop_none: "rc_loop len bp s m src = None \<Longrightarrow> rc_loop len bp s m (calm src) = None"
proof (induction len bp s m src rule: rc_loop.induct)
  case (1 len bp s m src)
  obtain r s1 where rd: "rd_read s src = (r, s1)" by (metis surj_pair)
  from "1.prems" rd obtain bs where b: "s \<noteq> 0" "r = Data bs" "bs \<noteq> []"
    by (subst (asm) rc_loop.simps) (auto split: if_splits rd.splits)
  have c: "rd_read s (calm src) = (Data bs, calm s1)" using rd_read_calm [OF rd] b(2) by simp
  show ?case
  proof (cases "poke bp bs m")
    case None
    with b c show ?thesis by (subst rc_loop.simps) simp
  next
    case (Some m1)
    with "1.prems" rd b have "rc_loop len (bp + length bs) (s - length bs) m1 s1 = None"
      by (subst (asm) rc_loop.simps) simp
    with "1.IH" [OF b(1) rd [symmetric] b(2,3) Some] Some b c show ?thesis
      by (subst rc_loop.simps) simp
  qed
qed

abbreviation pico_at :: "nat \<Rightarrow> nat \<Rightarrow> pico \<Rightarrow> nat \<times> nat" where
  "pico_at buf len p \<equiv> (if ps_do p then (ps_bp p, ps_s p) else (buf, len))"

lemma drive_read_calm:
  assumes "rc_loop len bp s m (calm src) = Some (Returns v, bp', s', m', c)" "pico_at buf len p = (bp, s)"
    "count_list src Throws < k"
  shows "\<exists>src'. calm src' = c \<and> drive_read k buf len p m src = Some (v, \<lparr>ps_do = False, ps_bp = bp', ps_s = s'\<rparr>, m', src')"
  using assms
proof (induction k arbitrary: bp s m src p)
  case (Suc k)
  from Suc.prems(1) rc_loop_none [of len bp s m src] obtain t b1 s1 m1 src1 where
    r: "rc_loop len bp s m src = Some (t, b1, s1, m1, src1)" by (cases "rc_loop len bp s m src") auto
  have rc: "read_c buf len p m src = Some (t, \<lparr>ps_do = (t = Interrupted), ps_bp = b1, ps_s = s1\<rparr>, m1, src1)"
    using r Suc.prems(2) by (simp add: read_c_def)
  show ?case
  proof (cases t)
    case (Returns v')
    with r rc rc_loop_calm [OF r] Suc.prems(1) show ?thesis by auto
  next
    case Interrupted
    with rc_loop_calm [OF r] Suc.prems(1) have
      i: "rc_loop len b1 s1 m1 (calm src1) = Some (Returns v, bp', s', m', c)" "count_list src1 Throws < count_list src Throws"
      by auto
    from Suc.IH [OF i(1), of "\<lparr>ps_do = True, ps_bp = b1, ps_s = s1\<rparr>"] i(2) Suc.prems(3) rc Interrupted show ?thesis by simp
  qed
qed simp

text \<open>
  Resuming is transparent.  A \<open>read_c\<close> that exceptions interrupt at any points, and that its caller
  repeats until it returns, returns the same value, leaves the same memory and the same rest of
  the stream as one that is never interrupted: \<open>PS_DEF(bp)\<close> and \<open>PS_DEF(s)\<close> carry all that is needed,
  and no byte is read twice.  One repetition per exception is enough.
\<close>

lemma read_c_resumes:
  assumes "\<not> ps_do p" "read_c buf len p m (calm src) = Some (Returns v, p', m', c)"
  shows "\<exists>src'. calm src' = c \<and> drive_read (Suc (count_list src Throws)) buf len p m src = Some (v, p', m', src')"
proof -
  from assms obtain bp' s' where "rc_loop len buf len m (calm src) = Some (Returns v, bp', s', m', c)"
    "p' = \<lparr>ps_do = False, ps_bp = bp', ps_s = s'\<rparr>" by (auto simp: read_c_def)
  with assms(1) drive_read_calm [OF this(1), of p buf] show ?thesis by (simp del: drive_read.simps)
qed

lemma read_c_resumes_witness:
  "\<exists>src'. calm src' = [] \<and> drive_read 3 0 3 \<lparr>ps_do = False, ps_bp = 9, ps_s = 9\<rparr> ''.....''
     [Data ''a'', Throws, Throws, Data ''bc''] = Some (3, \<lparr>ps_do = False, ps_bp = 3, ps_s = 0\<rparr>, ''abc..'', src')"
proof -
  have "read_c 0 3 \<lparr>ps_do = False, ps_bp = 9, ps_s = 9\<rparr> ''.....'' (calm [Data ''a'', Throws, Throws, Data ''bc''])
      = Some (Returns 3, \<lparr>ps_do = False, ps_bp = 3, ps_s = 0\<rparr>, ''abc..'', [])"
    by code_simp
  from read_c_resumes [OF _ this] show ?thesis by (simp add: numeral_3_eq_3 del: drive_read.simps)
qed

text \<open>A partner that always takes something, or throws, and will take enough.\<close>

definition takes_all :: "nat \<Rightarrow> wr list \<Rightarrow> bool" where
  "takes_all n w \<longleftrightarrow> Refuses \<notin> set w \<and> Takes 0 \<notin> set w \<and> n \<le> length (calm_w w)"

lemma wc_loop_takes:
  assumes "bp + s \<le> length m" "takes_all s w"
  shows "\<exists>t b1 s1 w1 out1. wc_loop len bp s m w out = Some (t, b1, s1, w1, out1) \<and> b1 + s1 = bp + s \<and> s1 \<le> s
    \<and> out1 = out @ take (s - s1) (drop bp m) \<and> takes_all s1 w1
    \<and> (t = Returns (int len) \<and> s1 = 0 \<or> t = Interrupted \<and> count_list w1 Full < count_list w Full)"
  using assms
proof (induction w arbitrary: bp s out)
  case Nil
  then show ?case by (subst wc_loop.simps) (simp add: takes_all_def)
next
  case (Cons a w)
  show ?case
  proof (cases "s = 0")
    case True
    with Cons.prems show ?thesis by (subst wc_loop.simps) (simp add: takes_all_def)
  next
    case s: False
    have pk: "peek (int bp) s m = Some (take s (drop bp m))" using Cons.prems(1) by (simp add: peek_def)
    show ?thesis
    proof (cases a)
      case Full
      with Cons.prems s pk show ?thesis by (subst wc_loop.simps) (auto simp: takes_all_def)
    next
      case Refuses
      with Cons.prems show ?thesis by (simp add: takes_all_def)
    next
      case (Takes k)
      define j where "j = min k s"
      have j: "0 < j" "j \<le> s" using Takes s Cons.prems(2) by (auto simp: j_def takes_all_def)
      have lb: "length (take s (drop bp m)) = s" using Cons.prems(1) by simp
      have wl: "wc_loop len bp s m (a # w) out = wc_loop len (bp + j) (s - j) m w (out @ take j (drop bp m))"
        using Takes s pk lb j by (subst wc_loop.simps) (auto simp: j_def [symmetric])
      have "takes_all (s - j) w" "bp + j + (s - j) \<le> length m"
        using Cons.prems Takes j by (auto simp: takes_all_def)
      moreover have e: "bp + j + (s - j) = bp + s" using j(2) by simp
      ultimately have bound: "bp + s \<le> length m" and tw: "takes_all (s - j) w" using Cons.prems(1) by simp_all
      obtain t b1 s1 w1 out1 where
        r: "wc_loop len (bp + j) (s - j) m w (out @ take j (drop bp m)) = Some (t, b1, s1, w1, out1)" "b1 + s1 = bp + s" "s1 \<le> s - j"
        "out1 = out @ take j (drop bp m) @ take (s - j - s1) (drop (bp + j) m)" "takes_all s1 w1"
        "t = Returns (int len) \<and> s1 = 0 \<or> t = Interrupted \<and> count_list w1 Full < count_list w Full"
        using Cons.IH [of "bp + j" "s - j" "out @ take j (drop bp m)", unfolded e append_assoc, OF bound tw] by blast
      have "out1 = out @ take (s - s1) (drop bp m)"
        using r(3,4) j(2) take_add [of j "s - j - s1" "drop bp m"] by (simp add: add.commute)
      moreover have "wc_loop len bp s m (a # w) out = Some (t, b1, s1, w1, out1)" using wl r(1) by (rule trans)
      moreover have "s1 \<le> s" "count_list (a # w) Full = count_list w Full" using r(3) Takes by simp_all
      ultimately show ?thesis using r(2,5,6) by metis
    qed
  qed
qed

lemma drive_write_takes:
  assumes "pico_at buf len p = (bp, s)" "bp + s \<le> length m" "takes_all s w" "count_list w Full < k"
  shows "\<exists>w'. drive_write k buf len p m w out
    = Some (int len, \<lparr>ps_do = False, ps_bp = bp + s, ps_s = 0\<rparr>, w', out @ take s (drop bp m))"
  using assms
proof (induction k arbitrary: p bp s w out)
  case (Suc k)
  from wc_loop_takes [OF Suc.prems(2,3), of len out] obtain t b1 s1 w1 out1 where
    r: "wc_loop len bp s m w out = Some (t, b1, s1, w1, out1)" "b1 + s1 = bp + s" "s1 \<le> s"
    "out1 = out @ take (s - s1) (drop bp m)" "takes_all s1 w1"
    "t = Returns (int len) \<and> s1 = 0 \<or> t = Interrupted \<and> count_list w1 Full < count_list w Full"
    by blast
  have wc: "write_c buf len p m w out = Some (t, \<lparr>ps_do = (t = Interrupted), ps_bp = b1, ps_s = s1\<rparr>, w1, out1)"
    using r(1) Suc.prems(1) by (simp add: write_c_def)
  show ?case
  proof (cases t)
    case (Returns v)
    with wc r show ?thesis by auto
  next
    case Interrupted
    then have c: "count_list w1 Full < k" using r(6) Suc.prems(4) by auto
    have "b1 + s1 \<le> length m" using r(2) Suc.prems(2) by simp
    from Suc.IH [of "\<lparr>ps_do = True, ps_bp = b1, ps_s = s1\<rparr>" b1 s1 w1 out1, OF _ this r(5) c] obtain w' where
      "drive_write k buf len \<lparr>ps_do = True, ps_bp = b1, ps_s = s1\<rparr> m w1 out1
        = Some (int len, \<lparr>ps_do = False, ps_bp = b1 + s1, ps_s = 0\<rparr>, w', out1 @ take s1 (drop b1 m))" by auto
    moreover have "out1 @ take s1 (drop b1 m) = out @ take s (drop bp m)"
    proof -
      have "b1 = s - s1 + bp" using r(2,3) by simp
      then show ?thesis using r(3,4) take_add [of "s - s1" s1 "drop bp m"] by simp
    qed
    ultimately show ?thesis using wc Interrupted r(2) by simp
  qed
qed simp

text \<open>C23:
  Every byte is sent once.  A \<open>write_c\<close> whose partner always takes at least one byte or throws
  returns the length of the block after at most one call per exception and one more, and what the
  other side has got is exactly the block, however it was cut.
\<close>

lemma write_c_delivers:
  assumes "\<not> ps_do p" "buf + len \<le> length m" "takes_all len w"
  shows "\<exists>w'. drive_write (Suc (count_list w Full)) buf len p m w out
    = Some (int len, \<lparr>ps_do = False, ps_bp = buf + len, ps_s = 0\<rparr>, w', out @ take len (drop buf m))"
  using assms by (intro drive_write_takes) auto

lemma write_c_delivers_witness:
  "\<exists>w'. drive_write 2 1 3 \<lparr>ps_do = False, ps_bp = 0, ps_s = 0\<rparr> ''xabcy'' [Takes 1, Full, Takes 9, Takes 9] ''''
     = Some (3, \<lparr>ps_do = False, ps_bp = 4, ps_s = 0\<rparr>, w', ''abc'')"
  using write_c_delivers [of "\<lparr>ps_do = False, ps_bp = 0, ps_s = 0\<rparr>" 1 3 "''xabcy''" "[Takes 1, Full, Takes 9, Takes 9]" "''''"]
  by (simp add: takes_all_def eval_nat_numeral del: drive_write.simps)

end
