(* ===== verification/AppGlobals.thy ===== *)
theory AppGlobals
  imports StdQueueRefine
begin

text \<open>
  The named objects of an application, \<open>set_global\<close>, \<open>get_global\<close> and \<open>del_global\<close> of
  \<open>src/src/classes/ts2/c++/tsApplication.cpp\<close>: entries (\<open>tsApplicationGlobal\<close>) in a \<open>stdQueue\<close>, found
  by their name.  The three refine update, lookup and removal of a map.
\<close>

section \<open>The entries and the operations\<close>

text \<open>
  An entry is a number; \<open>g_heap\<close> gives its name and its pointer.  \<open>g_updated\<close> counts the
  \<open>TSE_UPDATED\<close> events sent to the listeners.
\<close>

record 'o app_globals =
  g_store :: "nat store"
  g_queue :: stdq
  g_heap :: "nat \<Rightarrow> string \<times> 'o sptr"
  g_next :: nat
  g_updated :: nat

definition new_globals :: "'o app_globals" where
  "new_globals = \<lparr>g_store = new_store, g_queue = new_stdQueue, g_heap = (\<lambda>_. ([], None)), g_next = 0, g_updated = 0\<rparr>"

definition cmp_app_global :: "'o app_globals \<Rightarrow> string \<Rightarrow> nat sptr \<Rightarrow> bool" where
  "cmp_app_global w name gr = (case gr of None \<Rightarrow> False | Some g \<Rightarrow> fst (g_heap w g) = name)"

definition set_global :: "string \<Rightarrow> 'o sptr \<Rightarrow> 'o app_globals \<Rightarrow> 'o app_globals option" where
  "set_global name data w =
     (case check_fun (cmp_app_global w name) (g_store w) (g_queue w) of
        None \<Rightarrow> None
      | Some (Some g) \<Rightarrow>
          Some (w\<lparr>g_heap := (g_heap w)(g := (fst (g_heap w g), data)), g_updated := Suc (g_updated w)\<rparr>)
      | Some None \<Rightarrow>
          (let g = g_next w in
           case ins 0 (Some g) (g_store w) (g_queue w) of
             None \<Rightarrow> None
           | Some (s, q) \<Rightarrow>
               Some (w\<lparr>g_store := s, g_queue := q, g_heap := (g_heap w)(g := (name, data)), g_next := Suc g,
                 g_updated := Suc (g_updated w)\<rparr>)))"

definition del_global :: "string \<Rightarrow> 'o app_globals \<Rightarrow> 'o app_globals option" where
  "del_global name w =
     map_option (\<lambda>(_, s, q). w\<lparr>g_store := s, g_queue := q\<rparr>)
       (del_fun (cmp_app_global w name) (g_store w) (g_queue w))"

definition get_global :: "string \<Rightarrow> 'o app_globals \<Rightarrow> 'o sptr option" where
  "get_global name w =
     map_option (\<lambda>gr. case gr of None \<Rightarrow> None | Some g \<Rightarrow> snd (g_heap w g))
       (check_fun (cmp_app_global w name) (g_store w) (g_queue w))"

section \<open>The interface\<close>

text \<open>A history of updates: a name and the pointer it is set to, or its removal.\<close>

fun replay :: "(string \<Rightarrow> 'o sptr \<Rightarrow> 'w \<Rightarrow> 'w option) \<Rightarrow> (string \<Rightarrow> 'w \<Rightarrow> 'w option)
    \<Rightarrow> (string \<times> 'o sptr option) list \<Rightarrow> 'w \<Rightarrow> 'w option" where
  "replay set_op del_op [] w = Some w"
| "replay set_op del_op ((n, Some d) # us) w = Option.bind (set_op n d w) (replay set_op del_op us)"
| "replay set_op del_op ((n, None) # us) w = Option.bind (del_op n w) (replay set_op del_op us)"

text \<open>What users of the named objects rely on.\<close>

locale named_objects =
  fixes rep :: "'w \<Rightarrow> (string \<rightharpoonup> 'o sptr) \<Rightarrow> bool"
    and new :: 'w
    and set_op :: "string \<Rightarrow> 'o sptr \<Rightarrow> 'w \<Rightarrow> 'w option"
    and get_op :: "string \<Rightarrow> 'w \<Rightarrow> 'o sptr option"
    and del_op :: "string \<Rightarrow> 'w \<Rightarrow> 'w option"
  assumes rep_new: "rep new Map.empty"
    and rep_set: "rep w m \<Longrightarrow> \<exists>w'. set_op n d w = Some w' \<and> rep w' (m(n \<mapsto> d))"
    and rep_get: "rep w m \<Longrightarrow> get_op n w = Some (Option.bind (m n) id)"
    and rep_del: "rep w m \<Longrightarrow> \<exists>w'. del_op n w = Some w' \<and> rep w' (m(n := None))"
begin

text \<open>After any updates a name gives what the last update of that name left.\<close>

lemma replay_rep:
  "rep w m \<Longrightarrow> \<exists>w'. replay set_op del_op us w = Some w' \<and> rep w' (foldl (\<lambda>m u. m(fst u := snd u)) m us)"
proof (induction us arbitrary: w m)
  case (Cons u us)
  obtain n d where u: "u = (n, d)" by (cases u)
  obtain w1 where "replay set_op del_op (u # us) w = replay set_op del_op us w1" "rep w1 (m(n := d))"
  proof (cases d)
    case None
    with rep_del [OF Cons.prems, of n] that show ?thesis unfolding u by auto
  next
    case (Some p)
    with rep_set [OF Cons.prems, of n p] that show ?thesis unfolding u by auto
  qed
  with Cons.IH show ?case unfolding u by (simp del: fun_upd_apply)
qed simp

end

section \<open>The operations refine a map\<close>

definition entries :: "'o app_globals \<Rightarrow> nat list \<Rightarrow> nat list" where
  "entries w as = map (\<lambda>e. the (snd e)) (contents (g_store w) as)"

definition globals_rep :: "'o app_globals \<Rightarrow> (string \<rightharpoonup> 'o sptr) \<Rightarrow> bool" where
  "globals_rep w m \<longleftrightarrow>
     (\<exists>as gs. queue_rep (g_store w) (g_queue w) as \<and> map snd (contents (g_store w) as) = map Some gs
       \<and> (\<forall>g\<in>set gs. g < g_next w) \<and> distinct (map (\<lambda>g. fst (g_heap w g)) gs)
       \<and> m = map_of (map (g_heap w) gs))"

lemma sq_find_some:
  assumes "map snd es = map Some gs"
  shows "sq_find f es = find (\<lambda>g. f (Some g)) gs"
  using assms
proof (induction es arbitrary: gs)
  case (Cons e es)
  then obtain g gs' where "gs = g # gs'" "snd e = Some g" "map snd es = map Some gs'" by (cases gs) auto
  with Cons.IH show ?case by simp
qed simp

lemma sq_remove_some:
  assumes "map snd es = map Some gs"
  shows "map snd (sq_remove f es) = map Some (remove_first (\<lambda>g. f (Some g)) gs)"
  using assms
proof (induction es arbitrary: gs)
  case (Cons e es)
  then obtain g gs' where "gs = g # gs'" "snd e = Some g" "map snd es = map Some gs'" by (cases gs) auto
  with Cons.IH show ?case by (simp add: sq_remove_def)
qed (simp add: sq_remove_def)

lemma find_name:
  assumes "distinct (map (\<lambda>g. fst (h g)) gs)"
  shows "map_of (map h gs) n = map_option (\<lambda>g. snd (h g)) (find (\<lambda>g. fst (h g) = n) gs)"
  using assms by (induction gs) auto

lemma map_of_remove:
  assumes "distinct (map (\<lambda>g. fst (h g)) gs)"
  shows "map_of (map h (remove_first (\<lambda>g. fst (h g) = n) gs)) = (map_of (map h gs))(n := None)"
  using assms
proof (induction gs)
  case (Cons g gs)
  then have "n = fst (h g) \<Longrightarrow> map_of (map h gs) n = None" by (auto simp: map_of_eq_None_iff)
  with Cons show ?case by (cases "h g") (auto simp: fun_upd_twist)
qed simp

lemma map_of_overwrite:
  assumes "distinct (map (\<lambda>g. fst (h g)) gs)" "g \<in> set gs"
  shows "map_of (map (h(g := (fst (h g), d))) gs) = (map_of (map h gs))(fst (h g) \<mapsto> d)"
  using assms
proof (induction gs)
  case (Cons x gs)
  show ?case
  proof (cases "x = g")
    case True
    let ?h = "h(g := (fst (h g), d))"
    have "map ?h gs = map h gs" using True Cons.prems(1) by (auto intro!: map_cong)
    then have "map_of (map ?h (x # gs)) = map_of (?h g # map h gs)" using True by (simp only: list.map)
    moreover have "map_of (?h g # map h gs) = (map_of (map h gs))(fst (h g) \<mapsto> d)" by simp
    moreover have "(map_of (map h (x # gs)))(fst (h g) \<mapsto> d) = (map_of (map h gs))(fst (h g) \<mapsto> d)"
      using True by (cases "h g") simp
    ultimately show ?thesis by (simp only:)
  next
    case False
    then have "fst (h x) \<noteq> fst (h g)" using Cons.prems by auto
    with Cons False show ?thesis by (cases "h x") (auto simp: fun_eq_iff)
  qed
qed simp

lemma map_of_middle:
  assumes "n \<notin> fst ` set (xs @ ys)"
  shows "map_of (xs @ (n, d) # ys) = (map_of (xs @ ys))(n \<mapsto> d)"
  using assms by (induction xs) (auto simp: fun_upd_twist)

lemma global_get_correct:
  assumes "globals_rep w m"
  shows "get_global n w = Some (Option.bind (m n) id)"
proof -
  from assms obtain as gs where g: "queue_rep (g_store w) (g_queue w) as" "map snd (contents (g_store w) as) = map Some gs"
    "distinct (map (\<lambda>g. fst (g_heap w g)) gs)" "m = map_of (map (g_heap w) gs)"
    unfolding globals_rep_def by blast
  show ?thesis
    unfolding get_global_def check_fun_refines [OF g(1)] sq_find_some [OF g(2)] g(4) find_name [OF g(3)]
    by (simp add: cmp_app_global_def split: option.split)
qed

lemma global_set_correct:
  assumes "globals_rep w m"
  shows "\<exists>w'. set_global n d w = Some w' \<and> globals_rep w' (m(n \<mapsto> d)) \<and> g_updated w' = Suc (g_updated w)"
proof -
  from assms obtain as gs where g: "queue_rep (g_store w) (g_queue w) as" "map snd (contents (g_store w) as) = map Some gs"
    "\<forall>g\<in>set gs. g < g_next w" "distinct (map (\<lambda>g. fst (g_heap w g)) gs)" "m = map_of (map (g_heap w) gs)"
    unfolding globals_rep_def by blast
  have chk: "check_fun (cmp_app_global w n) (g_store w) (g_queue w) = Some (find (\<lambda>g. fst (g_heap w g) = n) gs)"
    unfolding check_fun_refines [OF g(1)] sq_find_some [OF g(2)] by (simp add: cmp_app_global_def)
  show ?thesis
  proof (cases "find (\<lambda>g. fst (g_heap w g) = n) gs")
    case (Some g0)
    then have g0: "g0 \<in> set gs" "fst (g_heap w g0) = n" by (auto dest: find_SomeD)
    let ?w = "w\<lparr>g_heap := (g_heap w)(g0 := (fst (g_heap w g0), d)), g_updated := Suc (g_updated w)\<rparr>"
    have names: "(\<lambda>g. fst (g_heap ?w g)) = (\<lambda>g. fst (g_heap w g))" by auto
    have "globals_rep ?w (m(n \<mapsto> d))"
      unfolding globals_rep_def names using g(1-4) map_of_overwrite [OF g(4) g0(1), of d]
      by (intro exI [of _ as] exI [of _ gs]) (simp add: g(5) g0(2))
    with chk Some show ?thesis by (simp add: set_global_def)
  next
    case None
    let ?g = "g_next w"
    from ins_refines [OF g(1), of 0 "Some ?g"] obtain s' q' where
      i: "ins 0 (Some ?g) (g_store w) (g_queue w) = Some (s', q')" "ins_ok (g_store w) (g_queue w) as 0 (Some ?g) s' q'"
      by blast
    define P where "P = (\<lambda>e :: int \<times> nat sptr. key_passes (q_insNeq (g_queue w)) 0 (fst e))"
    define xs where "xs = takeWhile P (contents (g_store w) as)"
    define ys where "ys = dropWhile P (contents (g_store w) as)"
    have sp: "contents (g_store w) as = xs @ ys" "sq_ins (q_insNeq (g_queue w)) 0 (Some ?g) (contents (g_store w) as) = xs @ (0, Some ?g) # ys"
      by (simp_all add: xs_def ys_def sq_ins_def P_def max_integer64_def)
    have len: "length gs = length xs + length ys" using arg_cong [OF g(2), of length] sp(1) by simp
    define gx where "gx = take (length xs) gs"
    define gy where "gy = drop (length xs) gs"
    have gs: "gs = gx @ gy" "map snd xs = map Some gx" "map snd ys = map Some gy"
      using arg_cong [OF g(2), of "take (length xs)"] arg_cong [OF g(2), of "drop (length xs)"] sp(1) len
      by (simp_all add: gx_def gy_def take_map drop_map)
    let ?w = "w\<lparr>g_store := s', g_queue := q', g_heap := (g_heap w)(?g := (n, d)), g_next := Suc ?g, g_updated := Suc (g_updated w)\<rparr>"
    let ?gs = "gx @ ?g # gy" and ?as = "ins_at (g_queue w) 0 (g_store w) as"
    have heap: "map (g_heap ?w) gx = map (g_heap w) gx" "map (g_heap ?w) gy = map (g_heap w) gy"
      using g(3) by (auto simp: gs(1))
    have names: "map (\<lambda>g. fst (g_heap ?w g)) gx = map (\<lambda>g. fst (g_heap w g)) gx" "map (\<lambda>g. fst (g_heap ?w g)) gy = map (\<lambda>g. fst (g_heap w g)) gy"
      using g(3) by (auto simp: gs(1))
    have new: "n \<notin> (\<lambda>g. fst (g_heap w g)) ` set gs" using None by (auto simp: find_None_iff)
    have "queue_rep s' q' ?as" "contents s' ?as = xs @ (0, Some ?g) # ys"
      using i(2) sp(2) by (simp_all add: ins_ok_def)
    moreover have "\<forall>g\<in>set ?gs. g < g_next ?w" using g(3) by (auto simp: gs(1) less_Suc_eq)
    moreover have "distinct (map (\<lambda>g. fst (g_heap ?w g)) ?gs)"
      using g(4) new unfolding map_append list.map names gs(1) by auto
    moreover have "m(n \<mapsto> d) = map_of (map (g_heap ?w) ?gs)"
    proof -
      have "n \<notin> fst ` set (map (g_heap w) gx @ map (g_heap w) gy)" using new by (auto simp: gs(1) image_iff)
      from map_of_middle [OF this, of d] show ?thesis unfolding map_append list.map heap g(5) gs(1) by simp
    qed
    ultimately have "globals_rep ?w (m(n \<mapsto> d))"
      unfolding globals_rep_def using gs(2,3) by (intro exI [of _ ?as] exI [of _ ?gs]) simp
    with chk None i(1) show ?thesis by (simp add: set_global_def Let_def)
  qed
qed

lemma global_del_correct:
  assumes "globals_rep w m"
  shows "\<exists>w'. del_global n w = Some w' \<and> globals_rep w' (m(n := None))"
proof -
  from assms obtain as gs where g: "queue_rep (g_store w) (g_queue w) as" "map snd (contents (g_store w) as) = map Some gs"
    "\<forall>g\<in>set gs. g < g_next w" "distinct (map (\<lambda>g. fst (g_heap w g)) gs)" "m = map_of (map (g_heap w) gs)"
    unfolding globals_rep_def by blast
  let ?c = "cmp_app_global w n" and ?gs = "remove_first (\<lambda>g. fst (g_heap w g) = n) gs"
  from del_fun_refines [OF g(1), of ?c] obtain s' q' as' where
    d: "del_fun ?c (g_store w) (g_queue w) = Some (sq_find ?c (contents (g_store w) as), s', q')"
    "queue_rep s' q' as'" "contents s' as' = sq_remove ?c (contents (g_store w) as)" by blast
  let ?w = "w\<lparr>g_store := s', g_queue := q'\<rparr>"
  have "map snd (contents s' as') = map Some ?gs"
    unfolding d(3) sq_remove_some [OF g(2)] by (simp add: cmp_app_global_def)
  moreover have "distinct (map (\<lambda>g. fst (g_heap w g)) ?gs)"
    using g(4) by (induction gs) (auto dest: subsetD [OF set_remove_first])
  moreover have "\<forall>g\<in>set ?gs. g < g_next w" using g(3) set_remove_first by fastforce
  ultimately have "globals_rep ?w (m(n := None))"
    unfolding globals_rep_def using d(2) map_of_remove [OF g(4), of n]
    by (intro exI [of _ as'] exI [of _ ?gs]) (simp add: g(5))
  with d(1) show ?thesis by (simp add: del_global_def)
qed

lemma global_new_correct: "globals_rep new_globals Map.empty"
  unfolding globals_rep_def using queue_rep_new [of new_store]
  by (intro exI [of _ "[]"]) (simp add: new_globals_def)

interpretation globals: named_objects globals_rep new_globals set_global get_global del_global
  by unfold_locales (use global_new_correct global_set_correct global_get_correct global_del_correct in blast)+

text \<open>
  The named objects are a map.  From a new application, after any sequence of \<open>set_global\<close> and
  \<open>del_global\<close>, which always return, \<open>get_global\<close> of a name gives the object of the last update of
  that name, and nothing when it was deleted, never set, or set to null.
\<close>

theorem globals_are_map:
  "\<exists>w. replay set_global del_global us new_globals = Some w
     \<and> (\<forall>n. get_global n w = Some (Option.bind (foldl (\<lambda>m u. m(fst u := snd u)) Map.empty us n) id))"
  using globals.replay_rep [OF globals.rep_new] globals.rep_get by blast

end
