(* ===== verification/DeferralQueue.thy ===== *)
theory DeferralQueue
  imports HalfOrderQueue
begin

text \<open>
  The scheduler \<open>tsGC\<close> of \<open>src/src/classes/ts2/c++/tsGC.cpp\<close>: a state machine with a priority
  queue of objects that have given up the thread (\<open>exe(obj)\<close>) or whose event was deferred because
  \<open>eventHandler\<close> was nested too deep (\<open>exe(obj,ev)\<close>), and the automatic limit of that nesting
  (\<open>src/src/classes/ts2/c++/sCallSection.cpp\<close>).

  Objects are numbers; \<open>prio\<close> is the virtual \<open>priority\<close>.  An event of the scheduler is \<^term>\<open>True\<close> for
  \<open>TSE_RETURN\<close> and \<^term>\<open>False\<close> for any other.  \<^term>\<open>None\<close> is a panic or the use of \<open>thNULL\<close>.
\<close>

section \<open>The scheduler\<close>

datatype 'e gjob = Caller nat | Job nat 'e int

datatype gtag =
  G_INI_START | G_ACT_START | G_CHECK1 | G_CHECK2 | G_TS_START | G_ACT_RET | G_ACT_EXE | G_FIN_START | G_ZOM

text \<open>
  \<open>Out\<close>: no thread is in the handler.  \<open>Between\<close>: the handler is between two events.  \<open>Run r\<close>: it
  calls the state function with an event.  \<open>Sent\<close>: \<open>ACT_EXE\<close> has delivered and will look at the time.
  \<open>g_filed\<close> and \<open>g_log\<close> record what was queued and what was delivered.
\<close>

datatype gpc = Out | Between | Run bool | Sent

record 'e tsgc =
  g_que :: "'e gjob hoq option"
  budget_us :: int
  g_state :: gtag
  g_pc :: gpc
  g_inbox :: "bool list"
  g_timers :: nat
  g_enter :: int
  g_destroyed :: bool
  g_filed :: "(int \<times> 'e gjob) list"
  g_log :: "(int \<times> 'e gjob) list"

definition GC_BUDGET_US :: int where "GC_BUDGET_US = 100 * 1000"

definition gc_new :: "'e tsgc" where
  "gc_new = \<lparr>g_que = None, budget_us = 0, g_state = G_INI_START, g_pc = Out, g_inbox = [False], g_timers = 0,
     g_enter = 0, g_destroyed = False, g_filed = [], g_log = []\<rparr>"

definition gc_interval :: "'e tsgc \<Rightarrow> int" where
  "gc_interval g = budget_us g"

definition gc_set_interval :: "int \<Rightarrow> 'e tsgc \<Rightarrow> 'e tsgc" where
  "gc_set_interval intvl g = g\<lparr>budget_us := intvl\<rparr>"

text \<open>\<open>exe(caller,ev,seq)\<close>; without an event it is \<open>exe(caller)\<close>.  Both end with \<open>wakeup()\<close>.\<close>

definition gc_exe :: "(nat \<Rightarrow> int) \<Rightarrow> nat \<Rightarrow> 'e option \<Rightarrow> int \<Rightarrow> 'e tsgc \<Rightarrow> 'e tsgc option" where
  "gc_exe prio caller ev seq g =
     (let job = (case ev of None \<Rightarrow> Caller caller | Some e \<Rightarrow> Job caller e seq) in
      case g_que g of
        None \<Rightarrow> None
      | Some t \<Rightarrow>
          (case hoq_ins (prio caller) job t of
             None \<Rightarrow> None
           | Some t' \<Rightarrow> Some (g\<lparr>g_que := Some t', g_inbox := g_inbox g @ [False],
               g_filed := g_filed g @ [(prio caller, job)]\<rparr>)))"

subsection \<open>The state functions\<close>

definition g_rdo :: "gtag \<Rightarrow> 'e tsgc \<Rightarrow> 'e tsgc" where
  "g_rdo s g = g\<lparr>g_state := s\<rparr>"

definition g_ret :: "gtag \<Rightarrow> 'e tsgc \<Rightarrow> 'e tsgc" where
  "g_ret s g = g\<lparr>g_state := s, g_pc := Between\<rparr>"

definition gc_ini_start :: "'e tsgc \<Rightarrow> 'e tsgc" where
  "gc_ini_start g = g_rdo G_ACT_START (g\<lparr>budget_us := GC_BUDGET_US, g_que := Some Null\<rparr>)"

definition gc_act_start :: "'e tsgc \<Rightarrow> 'e tsgc option" where
  "gc_act_start g =
     (case g_que g of
        None \<Rightarrow> None
      | Some t \<Rightarrow>
          if hoq_count t = 0 then Some (g_rdo G_CHECK1 g)
          else Some (g_ret G_ACT_RET (g\<lparr>g_timers := g_timers g + 1\<rparr>)))"

definition gc_act_ret :: "bool \<Rightarrow> 'e tsgc \<Rightarrow> 'e tsgc" where
  "gc_act_ret r g = (if r then g_rdo G_ACT_EXE g else g_ret (g_state g) g)"

text \<open>\<open>limit\<close> is the nesting allowed, \<open>depth\<close> the nesting of this handler.\<close>

definition gc_act_exe :: "int \<Rightarrow> int \<Rightarrow> 'e tsgc \<Rightarrow> 'e tsgc option" where
  "gc_act_exe limit depth g =
     (if limit \<le> depth then None
      else case g_que g of
        None \<Rightarrow> None
      | Some t \<Rightarrow>
          (case hoq_del t of
             None \<Rightarrow> None
           | Some (None, t') \<Rightarrow> Some (g_rdo G_ACT_START (g\<lparr>g_que := Some t'\<rparr>))
           | Some (Some it, t') \<Rightarrow> Some (g\<lparr>g_que := Some t', g_log := g_log g @ [it], g_pc := Sent\<rparr>)))"

definition gc_act_exe_budget :: "int \<Rightarrow> 'e tsgc \<Rightarrow> 'e tsgc" where
  "gc_act_exe_budget now g =
     g_rdo (if now - g_enter g > budget_us g then G_ACT_START else G_ACT_EXE) (g\<lparr>g_pc := Run True\<rparr>)"

definition gc_fin_start :: "'e tsgc \<Rightarrow> 'e tsgc" where
  "gc_fin_start g = g_rdo G_ZOM (g\<lparr>g_que := None\<rparr>)"

text \<open>One call of a state function; those of the base class are the last four of the list.\<close>

definition gc_turn :: "int \<Rightarrow> int \<Rightarrow> int \<Rightarrow> 'e tsgc \<Rightarrow> 'e tsgc option" where
  "gc_turn limit depth now g =
     (case g_pc g of
        Run r \<Rightarrow>
          (case g_state g of
             G_INI_START \<Rightarrow> Some (gc_ini_start g)
           | G_ACT_START \<Rightarrow> gc_act_start g
           | G_ACT_RET \<Rightarrow> Some (gc_act_ret r g)
           | G_ACT_EXE \<Rightarrow> gc_act_exe limit depth g
           | G_FIN_START \<Rightarrow> Some (gc_fin_start g)
           | G_CHECK1 \<Rightarrow> Some (g_rdo (if g_destroyed g then G_FIN_START else G_CHECK2) g)
           | G_CHECK2 \<Rightarrow> Some (g_rdo (if g_destroyed g then G_FIN_START else G_TS_START) g)
           | G_TS_START \<Rightarrow> Some (g_ret G_ACT_START g)
           | G_ZOM \<Rightarrow> Some (g\<lparr>g_pc := Out\<rparr>))
      | Sent \<Rightarrow> Some (gc_act_exe_budget now g)
      | _ \<Rightarrow> Some g)"

text \<open>
  Anybody may queue, post an event, set the interval or destroy at any moment; a timer of
  \<open>ACT_START\<close> fires.  The time of entry is taken when the handler is entered, not per event.
\<close>

inductive gstep :: "(nat \<Rightarrow> int) \<Rightarrow> int \<Rightarrow> int \<Rightarrow> 'e tsgc \<Rightarrow> 'e tsgc \<Rightarrow> bool"
  for prio limit depth
  where
    File: "gc_exe prio c ev seq g = Some g' \<Longrightarrow> gstep prio limit depth g g'"
  | Post: "gstep prio limit depth g (g\<lparr>g_inbox := g_inbox g @ [r]\<rparr>)"
  | Fire: "g_timers g = Suc n \<Longrightarrow> gstep prio limit depth g (g\<lparr>g_timers := n, g_inbox := g_inbox g @ [True]\<rparr>)"
  | Destroy: "gstep prio limit depth g (g\<lparr>g_destroyed := True, g_inbox := g_inbox g @ [False]\<rparr>)"
  | Interval: "gstep prio limit depth g (gc_set_interval i g)"
  | Enter: "g_pc g = Out \<Longrightarrow> g_state g \<noteq> G_ZOM \<Longrightarrow> g_inbox g \<noteq> [] \<Longrightarrow>
      gstep prio limit depth g (g\<lparr>g_pc := Between, g_enter := now\<rparr>)"
  | Take: "g_pc g = Between \<Longrightarrow> g_inbox g = r # rs \<Longrightarrow> gstep prio limit depth g (g\<lparr>g_pc := Run r, g_inbox := rs\<rparr>)"
  | Leave: "g_pc g = Between \<Longrightarrow> g_inbox g = [] \<Longrightarrow> gstep prio limit depth g (g\<lparr>g_pc := Out\<rparr>)"
  | Turn: "gc_turn limit depth now g = Some g' \<Longrightarrow> gstep prio limit depth g g'"

inductive greach :: "(nat \<Rightarrow> int) \<Rightarrow> int \<Rightarrow> int \<Rightarrow> 'e tsgc \<Rightarrow> bool" for prio limit depth where
  init: "greach prio limit depth gc_new"
| step: "greach prio limit depth g \<Longrightarrow> gstep prio limit depth g g' \<Longrightarrow> greach prio limit depth g'"

section \<open>Nothing is stranded\<close>

definition g_items :: "'e tsgc \<Rightarrow> (int \<times> 'e gjob) multiset" where
  "g_items g = (case g_que g of None \<Rightarrow> {#} | Some t \<Rightarrow> hitems t)"

text \<open>The scheduler is at work on its queue or has an event or a timer that will bring it there.\<close>

definition under_way :: "'e tsgc \<Rightarrow> bool" where
  "under_way g \<longleftrightarrow>
     (case g_pc g of
        Sent \<Rightarrow> True
      | Run r \<Rightarrow> g_state g \<in> {G_ACT_START, G_ACT_EXE} \<or> (if g_state g = G_ACT_RET then r \<or> 0 < g_timers g \<or> True \<in> set (g_inbox g) else g_inbox g \<noteq> [])
      | _ \<Rightarrow> g_state g = G_ACT_START \<and> g_inbox g \<noteq> [] \<or> g_state g = G_ACT_RET \<and> (0 < g_timers g \<or> True \<in> set (g_inbox g)))"

definition g_inv :: "'e tsgc \<Rightarrow> bool" where
  "g_inv g \<longleftrightarrow>
     (g_que g = None \<longleftrightarrow> g_state g \<in> {G_INI_START, G_ZOM})
     \<and> (g_pc g \<in> {Out, Between} \<longrightarrow> g_state g \<in> {G_INI_START, G_ACT_START, G_ACT_RET, G_ZOM})
     \<and> (g_pc g = Sent \<longrightarrow> g_state g = G_ACT_EXE)
     \<and> (\<forall>t. g_que g = Some t \<longrightarrow> hoq_inv t \<and> mset (g_filed g) = mset (g_log g) + hitems t)
     \<and> (g_state g = G_INI_START \<longrightarrow> g_filed g = [] \<and> g_log g = [])
     \<and> (g_state g = G_ACT_RET \<and> g_pc g \<noteq> Run True \<longrightarrow> 0 < g_timers g \<or> True \<in> set (g_inbox g))
     \<and> (g_items g \<noteq> {#} \<longrightarrow> under_way g)"

lemma g_items_frame [simp]:
  "g_items (g\<lparr>g_inbox := x\<rparr>) = g_items g" "g_items (g\<lparr>g_timers := n\<rparr>) = g_items g" "g_items (g\<lparr>g_pc := c\<rparr>) = g_items g"
  "g_items (g\<lparr>g_state := s\<rparr>) = g_items g" "g_items (g\<lparr>budget_us := i\<rparr>) = g_items g" "g_items (g\<lparr>g_enter := i\<rparr>) = g_items g"
  "g_items (g\<lparr>g_destroyed := b\<rparr>) = g_items g" "g_items (g\<lparr>g_log := es\<rparr>) = g_items g" "g_items (g\<lparr>g_filed := es\<rparr>) = g_items g"
  "g_items (g\<lparr>g_que := Some t\<rparr>) = hitems t" "g_items (g\<lparr>g_que := None\<rparr>) = {#}"
  by (simp_all add: g_items_def)

lemma g_items_que: "g_que g = Some t \<Longrightarrow> g_items g = hitems t" "g_que g = None \<Longrightarrow> g_items g = {#}"
  by (simp_all add: g_items_def)

lemmas g_defs = g_inv_def under_way_def g_rdo_def g_ret_def

lemma gc_exe_inv:
  assumes "g_inv g" "gc_exe prio c ev seq g = Some g'"
  shows "g_inv g'"
proof -
  define job where "job = (case ev of None \<Rightarrow> Caller c | Some e \<Rightarrow> Job c e seq)"
  obtain t where t: "g_que g = Some t" using assms(2) by (auto simp: gc_exe_def Let_def split: option.splits)
  then have "hoq_inv t" using assms(1) by (simp add: g_inv_def)
  from hoq.insert [OF this, of "prio c" job] obtain t' where
    i: "hoq_ins (prio c) job t = Some t'" "hoq_inv t'" "hitems t' = add_mset (prio c, job) (hitems t)" by blast
  then have "g' = g\<lparr>g_que := Some t', g_inbox := g_inbox g @ [False], g_filed := g_filed g @ [(prio c, job)]\<rparr>"
    using assms(2) t by (auto simp: gc_exe_def Let_def simp flip: job_def)
  with assms(1) t i show ?thesis by (cases "g_pc g") (auto simp: g_defs)
qed

lemma gc_act_start_inv:
  assumes "g_inv g" "g_pc g = Run r" "g_state g = G_ACT_START" "gc_act_start g = Some g'"
  shows "g_inv g'"
proof -
  from assms obtain t where t: "g_que g = Some t" "hoq_inv t" by (auto simp: g_inv_def)
  then have "hoq_count t = 0 \<longleftrightarrow> hitems t = {#}" by (simp add: hoq_count_items)
  with assms t g_items_que(1) [OF t(1)] show ?thesis by (auto simp: gc_act_start_def g_defs split: if_splits)
qed

lemma gc_act_exe_cases:
  assumes "gc_act_exe limit depth g = Some g'" "g_que g = Some t" "hoq_inv t"
  obtains (Empty) "t = Null" "g' = g_rdo G_ACT_START g"
  | (Sent) k d t' where "g' = g\<lparr>g_que := Some t', g_log := g_log g @ [(k, d)], g_pc := Sent\<rparr>" "hoq_inv t'"
      "hitems t = add_mset (k, d) (hitems t')" "\<forall>e\<in>#hitems t. k \<le> fst e"
proof (cases "t = Null")
  case True
  with assms show ?thesis by (intro Empty) (auto simp: gc_act_exe_def hoq_del_def g_rdo_def split: if_splits)
next
  case False
  then have "hitems t \<noteq> {#}" by simp
  from hoq.delete [OF assms(3) this] obtain k d t' where
    d: "hoq_del t = Some (Some (k, d), t')" "hoq_inv t'" "hitems t = add_mset (k, d) (hitems t')" "\<forall>e\<in>#hitems t. k \<le> fst e"
    by blast
  with assms show ?thesis by (intro Sent) (auto simp: gc_act_exe_def split: if_splits)
qed

lemma gc_act_exe_inv:
  assumes "g_inv g" "g_pc g = Run r" "g_state g = G_ACT_EXE" "gc_act_exe limit depth g = Some g'"
  shows "g_inv g'"
proof -
  from assms obtain t where t: "g_que g = Some t" "hoq_inv t" by (auto simp: g_inv_def)
  from assms(4) t show ?thesis
  proof (cases rule: gc_act_exe_cases)
    case Empty
    with assms(1-3) t show ?thesis by (auto simp: g_defs)
  next
    case (Sent k d t')
    with assms(1-3) t show ?thesis by (auto simp: g_defs)
  qed
qed

lemma gc_turn_inv: "g_inv g \<Longrightarrow> gc_turn limit depth now g = Some g' \<Longrightarrow> g_inv g'"
proof (cases "g_pc g")
  case (Run r)
  assume *: "g_inv g" "gc_turn limit depth now g = Some g'"
  show ?thesis
  proof (cases "g_state g")
    case G_ACT_START
    with * Run gc_act_start_inv [OF *(1) Run] show ?thesis by (simp add: gc_turn_def)
  next
    case G_ACT_EXE
    with * Run gc_act_exe_inv [OF *(1) Run] show ?thesis by (simp add: gc_turn_def)
  next
    case G_ACT_RET
    with * Run show ?thesis by (cases r; clarsimp simp: gc_turn_def gc_act_ret_def g_defs)
  next
    case G_INI_START
    with * Run show ?thesis by (auto simp: gc_turn_def gc_ini_start_def g_defs hoq.invar_empty)
  next
    case G_CHECK1
    with * Run show ?thesis by (clarsimp simp: gc_turn_def g_defs)
  next
    case G_CHECK2
    with * Run show ?thesis by (clarsimp simp: gc_turn_def g_defs)
  next
    case G_TS_START
    with * Run show ?thesis by (clarsimp simp: gc_turn_def g_defs)
  next
    case G_FIN_START
    with * Run show ?thesis by (clarsimp simp: gc_turn_def gc_fin_start_def g_defs)
  next
    case G_ZOM
    with * Run show ?thesis by (clarsimp simp: gc_turn_def g_defs g_items_que)
  qed
next
  case Sent
  assume *: "g_inv g" "gc_turn limit depth now g = Some g'"
  with Sent show ?thesis by (clarsimp simp: gc_turn_def gc_act_exe_budget_def g_defs)
qed (simp_all add: gc_turn_def)

lemma gstep_inv: "gstep prio limit depth g g' \<Longrightarrow> g_inv g \<Longrightarrow> g_inv g'"
proof (induction rule: gstep.induct)
  case (File c ev seq g g')
  then show ?case by (blast intro: gc_exe_inv)
next
  case (Turn now g g')
  then show ?case by (blast intro: gc_turn_inv)
next
  case (Post g r)
  then show ?case by (cases "g_pc g") (auto simp: g_defs)
next
  case (Fire g n)
  then show ?case by (cases "g_pc g") (auto simp: g_defs)
next
  case (Destroy g)
  then show ?case by (cases "g_pc g") (auto simp: g_defs)
next
  case (Interval g i)
  then show ?case by (cases "g_pc g") (auto simp: g_defs gc_set_interval_def)
next
  case (Enter g now)
  then show ?case by (simp add: g_defs)
next
  case (Take g r rs)
  then show ?case by (auto simp: g_defs)
next
  case (Leave g)
  then show ?case by (simp add: g_defs)
qed

lemma greach_inv: "greach prio limit depth g \<Longrightarrow> g_inv g"
proof (induction rule: greach.induct)
  case init
  show ?case by (simp add: gc_new_def g_defs g_items_que)
next
  case (step g g')
  then show ?case by (blast intro: gstep_inv)
qed



section \<open>One dispatch\<close>

fun gc_run :: "int \<Rightarrow> int \<Rightarrow> int list \<Rightarrow> 'e tsgc \<Rightarrow> 'e tsgc option" where
  "gc_run limit depth [] g = Some g"
| "gc_run limit depth (now # ts) g =
     (if g_pc g \<in> {Out, Between} then Some g
      else case gc_turn limit depth now g of None \<Rightarrow> None | Some g' \<Rightarrow> gc_run limit depth ts g')"

lemma gc_run_stop: "g_pc g = Between \<Longrightarrow> gc_run limit depth ts g = Some g"
  by (cases ts) auto

text \<open>From \<open>ACT_START\<close> back to waiting.\<close>

lemma gc_settle:
  assumes "g_pc g = Run r" "g_state g = G_ACT_START" "g_que g = Some t" "hoq_inv t" "\<not> g_destroyed g" "4 \<le> length ts"
  shows "gc_run limit depth ts g = Some (g\<lparr>g_pc := Between, g_state := (if t = Null then G_ACT_START else G_ACT_RET),
    g_timers := (if t = Null then g_timers g else g_timers g + 1)\<rparr>)"
proof -
  obtain t1 t2 t3 t4 ts' where ts: "ts = t1 # t2 # t3 # t4 # ts'"
    using assms(6) by (metis Suc_le_length_iff numeral_eq_Suc pred_numeral_simps(2) semiring_norm(26,27) pred_numeral_simps(3))
  have "hoq_count t = 0 \<longleftrightarrow> t = Null" using assms(4) by (simp add: hoq_count_items)
  then show ?thesis using assms(1-3,5)
    by (auto simp: ts gc_turn_def gc_act_start_def g_rdo_def g_ret_def gc_run_stop)
qed

text \<open>What a dispatch that started its work at \<open>ACT_EXE\<close> leaves.\<close>

definition dispatched :: "'e tsgc \<Rightarrow> 'e tsgc \<Rightarrow> (int \<times> 'e gjob) list \<Rightarrow> bool" where
  "dispatched g g' es \<longleftrightarrow>
     g_log g' = g_log g @ es \<and> g_items g = mset es + g_items g' \<and> g_que g' \<noteq> None
     \<and> sorted (map fst es) \<and> (\<forall>e\<in>set es. \<forall>e'\<in>#g_items g'. fst e \<le> fst e')
     \<and> g_pc g' = Between \<and> g_filed g' = g_filed g
     \<and> (if g_items g' = {#} then g_state g' = G_ACT_START \<and> g_timers g' = g_timers g
        else g_state g' = G_ACT_RET \<and> g_timers g' = g_timers g + 1)"

lemma gc_exe_run:
  assumes "g_pc g = Run r" "g_state g = G_ACT_EXE" "g_que g = Some t" "hoq_inv t" "\<not> g_destroyed g" "depth < limit"
    "2 * size (hitems t) + 5 \<le> length ts"
  shows "\<exists>g' es. gc_run limit depth ts g = Some g' \<and> dispatched g g' es \<and> (t \<noteq> Null \<longrightarrow> es \<noteq> [])
    \<and> ((\<forall>now\<in>set ts. now - g_enter g \<le> budget_us g) \<longrightarrow> g_items g' = {#})
    \<and> ((\<forall>now\<in>set ts. now - g_enter g > budget_us g) \<longrightarrow> length es \<le> 1)"
  using assms
proof (induction "size (hitems t)" arbitrary: g r t ts rule: less_induct)
  case less
  obtain t1 t2 us where ts: "ts = t1 # t2 # us"
    using less.prems(7) by (cases ts; cases "tl ts") auto
  show ?case
  proof (cases "t = Null")
    case True
    then have "gc_turn limit depth t1 g = Some (g\<lparr>g_state := G_ACT_START\<rparr>)"
      using less.prems by (simp add: gc_turn_def gc_act_exe_def hoq_del_def g_rdo_def)
    moreover from gc_settle [of "g\<lparr>g_state := G_ACT_START\<rparr>" r t "t2 # us" limit depth] less.prems True ts
    have "gc_run limit depth (t2 # us) (g\<lparr>g_state := G_ACT_START\<rparr>)
        = Some (g\<lparr>g_state := G_ACT_START, g_pc := Between, g_state := G_ACT_START, g_timers := g_timers g\<rparr>)" by simp
    ultimately have "gc_run limit depth ts g = Some (g\<lparr>g_state := G_ACT_START, g_pc := Between\<rparr>)"
      using less.prems(1) ts by simp
    with True less.prems(3) show ?thesis by (auto simp: dispatched_def g_items_def intro!: exI [of _ "[]"])
  next
    case False
    then have "hitems t \<noteq> {#}" by simp
    from hoq.delete [OF less.prems(4) this] obtain k d t' where
      d: "hoq_del t = Some (Some (k, d), t')" "hoq_inv t'" "hitems t = add_mset (k, d) (hitems t')" "\<forall>e\<in>#hitems t. k \<le> fst e"
      by blast
    define g1 where "g1 = g\<lparr>g_que := Some t', g_log := g_log g @ [(k, d)], g_pc := Sent\<rparr>"
    have turn1: "gc_turn limit depth t1 g = Some g1"
      using less.prems d by (simp add: gc_turn_def gc_act_exe_def g1_def)
    define late where "late = (t2 - g_enter g > budget_us g)"
    define g2 where "g2 = g1\<lparr>g_pc := Run True, g_state := (if late then G_ACT_START else G_ACT_EXE)\<rparr>"
    have turn2: "gc_turn limit depth t2 g1 = Some g2"
      by (simp add: gc_turn_def gc_act_exe_budget_def g1_def g2_def late_def g_rdo_def)
    have run: "gc_run limit depth ts g = gc_run limit depth us g2"
      using less.prems(1) turn1 turn2 by (simp add: ts) (simp add: g1_def)
    have it: "g_items g = add_mset (k, d) (hitems t')" using less.prems(3) d(3) by (simp add: g_items_que)
    show ?thesis
    proof (cases late)
      case True
      have "4 \<le> length us" using less.prems(7) ts d(3) by simp
      from gc_settle [of g2 True t' us limit depth, OF _ _ _ d(2) _ this] True less.prems(5)
      have r: "gc_run limit depth ts g = Some (g2\<lparr>g_pc := Between, g_state := (if t' = Null then G_ACT_START else G_ACT_RET),
          g_timers := (if t' = Null then g_timers g else g_timers g + 1)\<rparr>)" (is "_ = Some ?g'")
        unfolding run by (simp add: g2_def g1_def)
      have "dispatched g ?g' [(k, d)]" using it d(3,4) by (auto simp: dispatched_def g2_def g1_def)
      moreover have "\<not> (\<forall>now\<in>set ts. now - g_enter g \<le> budget_us g)" using True ts by (auto simp: late_def)
      ultimately show ?thesis using r by (intro exI [of _ ?g'] exI [of _ "[(k, d)]"]) auto
    next
      case l: False
      have "size (hitems t') < size (hitems t)" "2 * size (hitems t') + 5 \<le> length us" using less.prems(7) ts d(3) by simp_all
      from less.hyps [OF this(1), of g2 True us, OF _ _ _ d(2) _ less.prems(6) this(2)] l less.prems(5)
      obtain g' es where ih: "gc_run limit depth us g2 = Some g'" "dispatched g2 g' es"
        "(\<forall>now\<in>set us. now - g_enter g \<le> budget_us g) \<longrightarrow> g_items g' = {#}"
        by (auto simp: g2_def g1_def)
      have "dispatched g g' ((k, d) # es)"
        using ih(2) it d(3,4) l by (auto simp: dispatched_def g2_def g1_def)
      moreover have "\<not> (\<forall>now\<in>set ts. now - g_enter g > budget_us g)" using l ts by (auto simp: late_def)
      ultimately show ?thesis using ih(1,3) run ts by (intro exI [of _ g'] exI [of _ "(k, d) # es"]) auto
    qed
  qed
qed

text \<open>
  One dispatch of the scheduler.  Woken in \<open>ACT_RET\<close> by a \<open>TSE_RETURN\<close> at an allowed depth it
  returns after at most two calls per queued job and six more; it has delivered at least one job
  if there was one, smallest keys first, each taken out of the queue; all of them when the budget
  is never used up, and exactly one when the time is up at once, as with an interval below zero.
  If jobs are left it has registered the timer that continues.
\<close>

theorem gc_dispatch:
  assumes "greach prio limit depth g" "g_pc g = Run True" "g_state g = G_ACT_RET" "\<not> g_destroyed g" "depth < limit"
    "2 * size (g_items g) + 6 \<le> length ts"
  shows "\<exists>g' es. gc_run limit depth ts g = Some g' \<and> dispatched g g' es \<and> (g_items g \<noteq> {#} \<longrightarrow> es \<noteq> [])
    \<and> ((\<forall>now\<in>set ts. now - g_enter g \<le> budget_us g) \<longrightarrow> g_items g' = {#})
    \<and> ((\<forall>now\<in>set ts. now - g_enter g > budget_us g) \<longrightarrow> length es \<le> 1)"
proof -
  from greach_inv [OF assms(1)] assms(3) obtain t where t: "g_que g = Some t" "hoq_inv t"
    by (auto simp: g_inv_def)
  obtain t1 us where ts: "ts = t1 # us" using assms(6) by (cases ts) auto
  let ?g = "g\<lparr>g_state := G_ACT_EXE\<rparr>"
  have turn: "gc_run limit depth ts g = gc_run limit depth us ?g"
    using assms(2,3) ts by (simp add: gc_turn_def gc_act_ret_def g_rdo_def)
  have "2 * size (hitems t) + 5 \<le> length us" using assms(6) ts t(1) by (simp add: g_items_que)
  from gc_exe_run [of ?g True t, OF _ _ _ t(2) _ assms(5) this] assms(2,4) t(1)
  obtain g' es where r: "gc_run limit depth us ?g = Some g'" "dispatched ?g g' es" "t \<noteq> Null \<longrightarrow> es \<noteq> []"
    "(\<forall>now\<in>set us. now - g_enter g \<le> budget_us g) \<longrightarrow> g_items g' = {#}"
    "(\<forall>now\<in>set us. now - g_enter g > budget_us g) \<longrightarrow> length es \<le> 1" by auto
  have "dispatched g g' es" using r(2) by (simp add: dispatched_def)
  moreover have "g_items g \<noteq> {#} \<longleftrightarrow> t \<noteq> Null" using t(1) by (simp add: g_items_que)
  ultimately show ?thesis using r ts turn by auto
qed

text \<open>\<open>gc_new\<close> entered, started, and one object queued.\<close>

definition gc_demo :: "string tsgc" where
  "gc_demo = \<lparr>g_que = Some (new_hnode 1 (Job 7 ''ev'' 0)), budget_us = 100000, g_state = G_ACT_RET, g_pc = Run True,
     g_inbox = [], g_timers = 0, g_enter = 0, g_destroyed = False, g_filed = [(1, Job 7 ''ev'' 0)], g_log = []\<rparr>"

lemma gc_demo_reach: "greach (\<lambda>_. 1) 5 2 gc_demo"
proof -
  let ?R = "greach (\<lambda>_. 1) 5 2"
  note defs = gc_new_def gc_turn_def gc_ini_start_def gc_act_start_def g_rdo_def g_ret_def
  have s: "?R g \<Longrightarrow> gstep (\<lambda>_. 1) 5 2 g g' \<Longrightarrow> ?R g'" for g g' :: "string tsgc" by (rule greach.step)
  let ?g = "\<lambda>q st pc ib tm b fl. \<lparr>g_que = q, budget_us = b, g_state = st, g_pc = pc, g_inbox = ib, g_timers = tm,
     g_enter = 0, g_destroyed = False, g_filed = fl, g_log = []\<rparr> :: string tsgc"
  let ?q = "Some (new_hnode 1 (Job 7 ''ev'' 0))" and ?f = "[(1, Job 7 ''ev'' 0)]"
  have "?R (?g None G_INI_START Out [False] 0 0 [])" using greach.init by (simp add: gc_new_def)
  from s [OF this Enter [of _ _ _ _ 0]] have "?R (?g None G_INI_START Between [False] 0 0 [])" by simp
  from s [OF this Take [of _ False "[]"]] have "?R (?g None G_INI_START (Run False) [] 0 0 [])" by simp
  from s [OF this Turn [of _ _ 0]] have "?R (?g (Some Null) G_ACT_START (Run False) [] 0 100000 [])" by (simp add: defs GC_BUDGET_US_def)
  from s [OF this File [of _ 7 "Some ''ev''" 0]] have "?R (?g ?q G_ACT_START (Run False) [False] 0 100000 ?f)"
    by (simp add: gc_exe_def hoq_ins_def Let_def)
  from s [OF this Turn [of _ _ 0]] have "?R (?g ?q G_ACT_RET Between [False] 1 100000 ?f)"
    by (simp add: defs hoq_count_def new_hnode_def)
  from s [OF this Take [of _ False "[]"]] have "?R (?g ?q G_ACT_RET (Run False) [] 1 100000 ?f)" by simp
  from s [OF this Turn [of _ _ 0]] have "?R (?g ?q G_ACT_RET Between [] 1 100000 ?f)"
    by (simp add: defs gc_act_ret_def)
  from s [OF this Fire [of _ 0]] have "?R (?g ?q G_ACT_RET Between [True] 0 100000 ?f)" by simp
  from s [OF this Take [of _ True "[]"]] show ?thesis by (simp add: gc_demo_def)
qed


theorem gc_dispatch_witness:
  "\<exists>g' es. gc_run 5 2 [0, 1, 2, 3, 4, 5, 6, 7] gc_demo = Some g' \<and> dispatched gc_demo g' es \<and> es \<noteq> []"
  using gc_dispatch [OF gc_demo_reach, of "[0, 1, 2, 3, 4, 5, 6, 7]"]
  by (auto simp: gc_demo_def g_items_def new_hnode_def)

section \<open>Teardown\<close>

text \<open>
  \<open>FIN_START\<close> releases the queue: a job queued between the look at the count and the end is gone, and
  \<open>exe\<close> on the ended scheduler, which the application still names, uses \<open>thNULL\<close>.
\<close>

lemma exe_after_end: "gc_exe prio c ev seq (gc_fin_start g) = None"
  by (simp add: gc_exe_def gc_fin_start_def g_rdo_def Let_def)

lemma gc_fin_drops:
  assumes "greach prio limit depth g" "g_pc g = Run r" "g_state g = G_FIN_START"
  shows "\<exists>g'. gstep prio limit depth g g' \<and> g_que g' = None \<and> g_log g' = g_log g \<and> g_filed g' = g_filed g
    \<and> mset (g_filed g') - mset (g_log g') = g_items g"
proof -
  note inv = greach_inv [OF assms(1)]
  obtain t where t: "g_que g = Some t" using inv assms(3) by (auto simp: g_inv_def)
  then have m: "mset (g_filed g) = mset (g_log g) + g_items g"
    using inv by (simp add: g_inv_def g_items_que)
  have f: "g_log (gc_fin_start g) = g_log g" "g_filed (gc_fin_start g) = g_filed g" "g_que (gc_fin_start g) = None"
    by (simp_all add: gc_fin_start_def g_rdo_def)
  have "gstep prio limit depth g (gc_fin_start g)"
    using assms(2,3) by (intro gstep.Turn [of _ _ 0]) (simp add: gc_turn_def)
  moreover have "mset (g_filed (gc_fin_start g)) - mset (g_log (gc_fin_start g)) = g_items g"
    unfolding f m by simp
  ultimately show ?thesis using f by blast
qed

section \<open>The automatic limit\<close>

definition TS_EVH_DEPTH_MAX :: int where "TS_EVH_DEPTH_MAX = 1500"
definition TS_EVH_FRAME_BUDGET :: int where "TS_EVH_FRAME_BUDGET = 4096"

text \<open>
  \<open>sCallSection::depthLimit\<close>: \<open>sz\<close> is what the system says of the stack; the answer is remembered
  (0: not asked yet).  C++ divides towards zero, and \<open>sz\<close> is positive there.
\<close>

definition depthLimit :: "int \<Rightarrow> int \<Rightarrow> int \<times> int" where
  "depthLimit sz depth_limit =
     (if depth_limit \<noteq> 0 then (depth_limit, depth_limit)
      else
        let n = (if sz \<le> 0 then TS_EVH_DEPTH_MAX else sz div TS_EVH_FRAME_BUDGET);
            n = (if n > TS_EVH_DEPTH_MAX then TS_EVH_DEPTH_MAX else n);
            n = (if n < 1 then 1 else n)
        in (n, n))"

lemma depthLimit_range: "1 \<le> fst (depthLimit sz 0)" "fst (depthLimit sz 0) \<le> 1500"
    "4096 \<le> sz \<Longrightarrow> fst (depthLimit sz 0) * 4096 \<le> sz"
  by (auto simp: depthLimit_def Let_def TS_EVH_DEPTH_MAX_def TS_EVH_FRAME_BUDGET_def)

lemma depthLimit_once: "fst (depthLimit sz' (snd (depthLimit sz 0))) = fst (depthLimit sz 0)"
  using depthLimit_range(1) [of sz] by (auto simp: depthLimit_def Let_def)

text \<open>With the smallest limit the scheduler, which is never at depth 0, cannot deliver at all.\<close>

lemma smallest_limit_panics:
  assumes "0 < sz" "sz < 8192" "1 \<le> depth"
  shows "gc_act_exe (fst (depthLimit sz 0)) depth g = None"
proof -
  have "sz div 4096 \<le> 1" using assms(2) by simp
  with assms show ?thesis
    by (auto simp: gc_act_exe_def depthLimit_def Let_def TS_EVH_DEPTH_MAX_def TS_EVH_FRAME_BUDGET_def)
qed

text \<open>The nesting of one thread, the counter of \<open>sCallSectionDepth\<close>, and the stack of the machines in progress.\<close>

record csection =
  cs_list :: "nat list"
  cs_depth :: int
  cs_limit :: int

definition cs_enter :: "csection \<Rightarrow> csection" where
  "cs_enter c = c\<lparr>cs_depth := cs_depth c + 1\<rparr>"

definition cs_exit :: "csection \<Rightarrow> csection" where
  "cs_exit c = c\<lparr>cs_depth := cs_depth c - 1\<rparr>"

definition cs_push :: "nat \<Rightarrow> csection \<Rightarrow> csection" where
  "cs_push ts c = c\<lparr>cs_list := ts # cs_list c\<rparr>"

definition cs_pop :: "nat \<Rightarrow> csection \<Rightarrow> (nat \<times> csection) option" where
  "cs_pop ts c = (case cs_list c of [] \<Rightarrow> None | t # r \<Rightarrow> if t \<noteq> ts then None else Some (t, c\<lparr>cs_list := r\<rparr>))"

definition cs_caller :: "csection \<Rightarrow> nat option" where
  "cs_caller c = (case cs_list c of [] \<Rightarrow> None | t # _ \<Rightarrow> Some t)"

text \<open>
  A tree of nested entries: each entry counts itself, pushes, makes its calls, and pops, in that
  order; an early return leaves out the rest.
\<close>

datatype entry = Entry nat bool "entry list"

fun cs_run :: "entry \<Rightarrow> csection \<Rightarrow> csection option" and cs_runs :: "entry list \<Rightarrow> csection \<Rightarrow> csection option" where
  "cs_run (Entry ts early es) c =
     (if early then Some (cs_exit (cs_enter c))
      else case cs_runs es (cs_push ts (cs_enter c)) of
        None \<Rightarrow> None
      | Some c' \<Rightarrow> (case cs_pop ts c' of None \<Rightarrow> None | Some (_, c'') \<Rightarrow> Some (cs_exit c'')))"
| "cs_runs [] c = Some c"
| "cs_runs (e # es) c = (case cs_run e c of None \<Rightarrow> None | Some c' \<Rightarrow> cs_runs es c')"

text \<open>The nesting is balanced: no panic of \<open>pop\<close>, and counter and stack are as before.\<close>

lemma cs_balanced: "cs_run e c = Some c" "cs_runs es c = Some c"
  by (induction e c and es c rule: cs_run_cs_runs.induct)
    (auto simp: cs_enter_def cs_exit_def cs_push_def cs_pop_def)

end
