(* ===== verification/Application.thy ===== *)
theory Application
  imports TinyState DeferralQueue
begin

text \<open>
  The root machine \<open>tsApplication\<close> of \<open>src/src/classes/ts2/c++/tsApplication.cpp\<close>: start, the turn of the
  reactor, and the order of the shutdown (reactor idle, pool, last worker, scheduler, reactor);
  and how the scheduler of \<open>DeferralQueue\<close> fits to the depth gate of \<open>TinyState\<close> and to this shutdown.

  The pool and the scheduler are seen by their life only (\<open>phase\<close>); between two turns, and wherever a
  state function gives the application mutex back, they and the workers go on.
\<close>

section \<open>The root machine\<close>

datatype phase = Absent | Live | Ending | Zombie

text \<open>
  \<open>A_ROOT_CHECK\<close>, \<open>A_ROOT_STABLE\<close> and \<open>A_ROOT_WORKERS\<close> are the points inside \<open>FIN_THREAD_ROOT_LOOP\<close> where
  the mutex has been released and taken again.
\<close>

datatype atag =
  A_INI_START | A_INI_APPLICATION | A_INI_FINISH | A_ACT_START | A_CHECK1 | A_CHECK2 | A_ACT_TINYSTATE
  | A_FIN_START | A_FIN_TS | A_ROOT_LOOP | A_ROOT_CHECK | A_ROOT_STABLE | A_WAIT | A_WAIT2 | A_FIN_TINYSTATE

datatype blocking = B_loop | B_wait_stable | B_usleep | B_finish

record app =
  a_state :: atag
  eventHandler_flag :: bool
  restart_flag :: bool
  a_destroyed :: bool
  fwClass :: bool
  a_gc :: bool
  threadQueue :: bool
  a_global :: bool
  pool_phase :: phase
  pool_latched :: bool
  gc_phase :: phase
  tsThreadLiveWorkers :: nat
  mtx_held :: bool
  blocked :: "(blocking \<times> bool) list"

definition app_new :: app where
  "app_new = \<lparr>a_state = A_INI_START, eventHandler_flag = False, restart_flag = False, a_destroyed = False, fwClass = False,
     a_gc = False, threadQueue = False, a_global = False, pool_phase = Absent, pool_latched = False, gc_phase = Absent,
     tsThreadLiveWorkers = 0, mtx_held = True, blocked = []\<rparr>"

text \<open>\<open>sThreadMutexHandleRelease\<close> around a call that may block; the call is recorded with what it holds.\<close>

definition block :: "blocking \<Rightarrow> app \<Rightarrow> app" where
  "block c w = w\<lparr>blocked := blocked w @ [(c, mtx_held w)]\<rparr>"

definition released :: "(app \<Rightarrow> app) \<Rightarrow> app \<Rightarrow> app" where
  "released f w = (f (w\<lparr>mtx_held := False\<rparr>))\<lparr>mtx_held := True\<rparr>"

text \<open>\<open>eventHandler\<close>: does the entry reach the base class?\<close>

definition a_eventHandler :: "app \<Rightarrow> bool" where
  "a_eventHandler w = (\<not> eventHandler_flag w)"

subsection \<open>The state functions\<close>

definition a_ini_start :: "app \<Rightarrow> app" where
  "a_ini_start w = w\<lparr>a_global := True, eventHandler_flag := True, fwClass := True, a_gc := True, gc_phase := Live,
     threadQueue := True, pool_phase := Live, pool_latched := False, a_state := A_INI_APPLICATION\<rparr>"

definition a_act_tinystate_start :: "int \<Rightarrow> app \<Rightarrow> app" where
  "a_act_tinystate_start r w =
     released (\<lambda>w. if fwClass w then block B_loop w else w) w
       \<lparr>a_state := (if fwClass w \<and> r > 0 then A_ACT_START else A_FIN_START)\<rparr>"

definition a_fin_ts_application_start :: "app \<Rightarrow> app" where
  "a_fin_ts_application_start w =
     w\<lparr>pool_phase := (if pool_phase w = Live then Ending else pool_phase w), a_state := A_ROOT_LOOP\<rparr>"

text \<open>\<open>FIN_THREAD_ROOT_LOOP\<close>, piece by piece: \<open>r\<close> is the answer of \<open>loop\<close>, \<open>f\<close> that of \<open>finish\<close>.\<close>

definition a_root_loop :: "int \<Rightarrow> app \<Rightarrow> app" where
  "a_root_loop r w =
     released (\<lambda>w. if fwClass w then block B_loop w else w) w
       \<lparr>a_state := (if fwClass w \<and> r > 0 then A_ROOT_LOOP else A_ROOT_CHECK)\<rparr>"

definition a_root_check :: "app \<Rightarrow> app" where
  "a_root_check w =
     (if pool_phase w \<noteq> Zombie then (released (block B_wait_stable) w)\<lparr>a_state := A_ROOT_STABLE\<rparr>
      else if tsThreadLiveWorkers w \<noteq> 0 then (released (block B_usleep) w)\<lparr>a_state := A_ROOT_LOOP\<rparr>
      else w\<lparr>threadQueue := False, eventHandler_flag := False,
        gc_phase := (if gc_phase w = Live then Ending else gc_phase w), a_state := A_WAIT\<rparr>)"

definition a_root_stable :: "int \<Rightarrow> app \<Rightarrow> app" where
  "a_root_stable f w =
     (if f = 0 then (released (block B_usleep) w)\<lparr>a_state := A_ROOT_LOOP\<rparr>
      else w\<lparr>pool_latched := True, a_state := A_ROOT_LOOP\<rparr>)"

definition a_wait :: "app \<Rightarrow> app" where
  "a_wait w = (if gc_phase w = Zombie then w\<lparr>a_state := A_WAIT2\<rparr> else w)"

definition a_wait2 :: "app \<Rightarrow> app" where
  "a_wait2 w =
     (let w1 = w\<lparr>fwClass := False, a_global := False, a_gc := False, threadQueue := False\<rparr> in
      if restart_flag w1 then w1\<lparr>restart_flag := False, a_state := A_INI_START\<rparr>
      else (released (block B_finish) w1)\<lparr>a_state := A_FIN_TINYSTATE\<rparr>)"

definition a_turn :: "int \<Rightarrow> int \<Rightarrow> app \<Rightarrow> app" where
  "a_turn r f w =
     (case a_state w of
        A_INI_START \<Rightarrow> a_ini_start w
      | A_INI_APPLICATION \<Rightarrow> w\<lparr>a_state := A_INI_FINISH\<rparr>
      | A_INI_FINISH \<Rightarrow> w\<lparr>a_state := A_ACT_START\<rparr>
      | A_ACT_START \<Rightarrow> w\<lparr>a_state := A_CHECK1\<rparr>
      | A_CHECK1 \<Rightarrow> w\<lparr>a_state := (if a_destroyed w then A_FIN_START else A_CHECK2)\<rparr>
      | A_CHECK2 \<Rightarrow> w\<lparr>a_state := (if a_destroyed w then A_FIN_START else A_ACT_TINYSTATE)\<rparr>
      | A_ACT_TINYSTATE \<Rightarrow> a_act_tinystate_start r w
      | A_FIN_START \<Rightarrow> w\<lparr>a_state := A_FIN_TS\<rparr>
      | A_FIN_TS \<Rightarrow> a_fin_ts_application_start w
      | A_ROOT_LOOP \<Rightarrow> a_root_loop r w
      | A_ROOT_CHECK \<Rightarrow> a_root_check w
      | A_ROOT_STABLE \<Rightarrow> a_root_stable f w
      | A_WAIT \<Rightarrow> a_wait w
      | A_WAIT2 \<Rightarrow> a_wait2 w
      | A_FIN_TINYSTATE \<Rightarrow> w)"

text \<open>
  The others: workers come while the pool is not a zombie and leave at any time; the pool becomes
  a zombie after it was told to end and \<open>finish\<close> has latched; the scheduler after it was destroyed.
\<close>

inductive astep :: "app \<Rightarrow> app \<Rightarrow> bool" where
  Turn: "astep w (a_turn r f w)"
| Spawn: "pool_phase w \<in> {Live, Ending} \<Longrightarrow> astep w (w\<lparr>tsThreadLiveWorkers := tsThreadLiveWorkers w + 1\<rparr>)"
| Retire: "tsThreadLiveWorkers w = Suc n \<Longrightarrow> astep w (w\<lparr>tsThreadLiveWorkers := n\<rparr>)"
| Pool_ends: "pool_phase w = Ending \<Longrightarrow> pool_latched w \<Longrightarrow> astep w (w\<lparr>pool_phase := Zombie\<rparr>)"
| Gc_ends: "gc_phase w = Ending \<Longrightarrow> astep w (w\<lparr>gc_phase := Zombie\<rparr>)"
| Destroy_app: "astep w (w\<lparr>a_destroyed := True\<rparr>)"
| Ask_restart: "astep w (w\<lparr>restart_flag := True\<rparr>)"

inductive areach :: "app \<Rightarrow> bool" where
  init: "areach app_new"
| step: "areach w \<Longrightarrow> astep w w' \<Longrightarrow> areach w'"

section \<open>The order of the shutdown\<close>

definition running_states :: "atag set" where
  "running_states = {A_INI_APPLICATION, A_INI_FINISH, A_ACT_START, A_CHECK1, A_CHECK2, A_ACT_TINYSTATE,
     A_FIN_START, A_FIN_TS, A_ROOT_LOOP, A_ROOT_CHECK, A_ROOT_STABLE}"

definition pool_gone :: "app \<Rightarrow> bool" where
  "pool_gone w \<longleftrightarrow> pool_phase w \<in> {Absent, Zombie} \<and> tsThreadLiveWorkers w = 0"

definition a_inv :: "app \<Rightarrow> bool" where
  "a_inv w \<longleftrightarrow>
     mtx_held w \<and> (\<forall>c\<in>set (blocked w). \<not> snd c)
     \<and> (eventHandler_flag w \<longleftrightarrow> a_state w \<in> running_states)
     \<and> (a_state w \<in> running_states \<longrightarrow> fwClass w \<and> a_gc w \<and> threadQueue w \<and> a_global w \<and> gc_phase w = Live \<and> pool_phase w \<noteq> Absent)
     \<and> (a_state w \<notin> running_states \<longrightarrow> \<not> threadQueue w \<and> pool_gone w)
     \<and> (a_state w \<in> {A_WAIT, A_WAIT2} \<longrightarrow> fwClass w \<and> a_gc w \<and> a_global w \<and> gc_phase w \<in> {Ending, Zombie})
     \<and> (a_state w = A_WAIT2 \<longrightarrow> gc_phase w = Zombie)
     \<and> (a_state w \<in> {A_INI_START, A_FIN_TINYSTATE} \<longrightarrow> \<not> fwClass w \<and> \<not> a_gc w \<and> \<not> a_global w \<and> gc_phase w \<in> {Absent, Zombie})
     \<and> (tsThreadLiveWorkers w > 0 \<longrightarrow> pool_phase w \<noteq> Absent)"

lemmas a_defs = a_inv_def running_states_def pool_gone_def released_def block_def

lemmas a_turns = a_turn_def a_ini_start_def a_act_tinystate_start_def a_fin_ts_application_start_def a_root_loop_def
  a_root_check_def a_root_stable_def a_wait_def a_wait2_def released_def block_def Let_def

lemma a_turn_inv: "a_inv w \<Longrightarrow> a_inv (a_turn r f w)"
  by (cases "a_state w")
    (auto simp: a_turns a_defs)

lemma areach_inv: "areach w \<Longrightarrow> a_inv w"
proof (induction rule: areach.induct)
  case init
  show ?case by (simp add: app_new_def a_defs)
next
  case (step w w')
  from step(2,3) show ?case
  proof (induction rule: astep.induct)
    case (Turn w r f)
    then show ?case by (rule a_turn_inv)
  qed (auto simp: a_inv_def pool_gone_def)
qed

lemma shutdown_order_parts:
  assumes "areach w"
  shows "threadQueue w \<longrightarrow> fwClass w \<and> a_gc w \<and> a_global w \<and> gc_phase w = Live"
    and "\<not> threadQueue w \<or> gc_phase w \<in> {Ending, Zombie} \<longrightarrow> pool_phase w \<in> {Absent, Zombie} \<and> tsThreadLiveWorkers w = 0"
    and "\<not> fwClass w \<longrightarrow> gc_phase w \<in> {Absent, Zombie}"
    and "a_eventHandler w \<longleftrightarrow> \<not> threadQueue w"
    and "mtx_held w \<and> (\<forall>c\<in>set (blocked w). \<not> snd c)"
proof -
  have i: "a_inv w" by (rule areach_inv [OF assms])
  have st: "a_state w \<in> running_states \<or> a_state w \<in> {A_WAIT, A_WAIT2} \<or> a_state w \<in> {A_INI_START, A_FIN_TINYSTATE}"
    by (cases "a_state w") (simp_all add: running_states_def)
  show "threadQueue w \<longrightarrow> fwClass w \<and> a_gc w \<and> a_global w \<and> gc_phase w = Live"
    "\<not> threadQueue w \<or> gc_phase w \<in> {Ending, Zombie} \<longrightarrow> pool_phase w \<in> {Absent, Zombie} \<and> tsThreadLiveWorkers w = 0"
    "\<not> fwClass w \<longrightarrow> gc_phase w \<in> {Absent, Zombie}" "a_eventHandler w \<longleftrightarrow> \<not> threadQueue w"
    "mtx_held w \<and> (\<forall>c\<in>set (blocked w). \<not> snd c)"
    using i st by (auto simp: a_inv_def pool_gone_def a_eventHandler_def)
qed

text \<open>C10:
  The shutdown releases things in the right order.  At every moment of any run, with workers,
  pool and scheduler going on between any two pieces: while the pool is named, the reactor, the
  scheduler and the named objects exist and the scheduler has not been told to end; the pool is
  let go, and the scheduler told to end, only when the pool is a zombie and its last worker is
  gone; the reactor goes only when the scheduler is a zombie too; events for the root are dropped
  exactly as long as it drives the reactor; and no call that may block, \<open>loop\<close>, \<open>wait_stable\<close>,
  \<open>usleep\<close> and \<open>finish\<close>, is made with the application mutex held.
\<close>

theorem shutdown_order:
  assumes "areach w"
  shows "(threadQueue w \<longrightarrow> fwClass w \<and> a_gc w \<and> a_global w \<and> gc_phase w = Live) \<and>
    (\<not> threadQueue w \<or> gc_phase w \<in> {Ending, Zombie} \<longrightarrow> pool_phase w \<in> {Absent, Zombie} \<and> tsThreadLiveWorkers w = 0) \<and>
    (\<not> fwClass w \<longrightarrow> gc_phase w \<in> {Absent, Zombie}) \<and>
    (a_eventHandler w \<longleftrightarrow> \<not> threadQueue w) \<and>
    (mtx_held w \<and> (\<forall>c\<in>set (blocked w). \<not> snd c))"
  using shutdown_order_parts [OF assms] by blast

text \<open>A run to the end: one worker, which leaves; the reactor is idle from the start.\<close>

definition app_demo :: app where
  "app_demo = \<lparr>a_state = A_FIN_TINYSTATE, eventHandler_flag = False, restart_flag = False, a_destroyed = False, fwClass = False,
     a_gc = False, threadQueue = False, a_global = False, pool_phase = Zombie, pool_latched = True, gc_phase = Zombie,
     tsThreadLiveWorkers = 0, mtx_held = True,
     blocked = [(B_loop, False), (B_loop, False), (B_wait_stable, False), (B_loop, False), (B_finish, False)]\<rparr>"

lemma areach_turns: "areach w \<Longrightarrow> areach (((\<lambda>w. a_turn r f w) ^^ n) w)"
  by (induction n) (auto intro: areach.step astep.Turn)

lemma app_demo_reach: "areach app_demo"
proof -
  have t: "areach w \<Longrightarrow> areach (a_turn r f w)" for w r f by (rule areach.step [OF _ astep.Turn])
  define w1 where "w1 = ((\<lambda>w. a_turn 0 1 w) ^^ 12) app_new"
  have r1: "areach w1" unfolding w1_def by (rule areach_turns [OF areach.init])
  have w1: "w1 = \<lparr>a_state = A_ROOT_LOOP, eventHandler_flag = True, restart_flag = False, a_destroyed = False, fwClass = True,
     a_gc = True, threadQueue = True, a_global = True, pool_phase = Ending, pool_latched = True, gc_phase = Live,
     tsThreadLiveWorkers = 0, mtx_held = True, blocked = [(B_loop, False), (B_loop, False), (B_wait_stable, False)]\<rparr>"
    by (simp add: w1_def app_new_def numeral_eq_Suc a_turns)
  from areach.step [OF r1 astep.Pool_ends [of w1]] have "areach (w1\<lparr>pool_phase := Zombie\<rparr>)" by (simp add: w1)
  from t [OF t [OF this], of 0 1 0 1] have r2: "areach (a_turn 0 1 (a_turn 0 1 (w1\<lparr>pool_phase := Zombie\<rparr>)))" .
  have w2: "a_turn 0 1 (a_turn 0 1 (w1\<lparr>pool_phase := Zombie\<rparr>)) = w1\<lparr>pool_phase := Zombie, a_state := A_WAIT, eventHandler_flag := False,
     threadQueue := False, gc_phase := Ending, blocked := blocked w1 @ [(B_loop, False)]\<rparr>"
    by (simp add: w1 a_turns)
  note r3 = r2 [unfolded w2]
  from areach.step [OF r3 astep.Gc_ends] have "areach (w1\<lparr>pool_phase := Zombie, a_state := A_WAIT, eventHandler_flag := False,
     threadQueue := False, gc_phase := Zombie, blocked := blocked w1 @ [(B_loop, False)]\<rparr>)" by (simp add: w1)
  from t [OF t [OF this], of 0 1 0 1] show ?thesis
    by (simp add: w1 app_demo_def a_turns)
qed

theorem shutdown_order_witness:
  "pool_phase app_demo \<in> {Absent, Zombie} \<and> tsThreadLiveWorkers app_demo = 0 \<and> gc_phase app_demo \<in> {Absent, Zombie}
    \<and> a_eventHandler app_demo"
  using shutdown_order [OF app_demo_reach] by (simp add: app_demo_def)

text \<open>Once the pool and the scheduler have ended and the workers are gone, four turns end the root, or start it again.\<close>

lemma shutdown_ends:
  assumes "areach w" "a_state w = A_ROOT_LOOP" "pool_phase w = Zombie" "tsThreadLiveWorkers w = 0"
  shows "a_state (a_turn 0 f (a_turn 0 f w)) = A_WAIT"
    and "gc_phase v = Zombie \<Longrightarrow> a_state v = A_WAIT \<Longrightarrow>
      a_state (a_turn 0 f (a_turn 0 f v)) = (if restart_flag v then A_INI_START else A_FIN_TINYSTATE)"
  using assms
  by (simp_all add: a_turns)

text \<open>
  A restart keeps \<open>destroy_flag\<close>: an application that was destroyed and asked to start again passes
  its start states and ends without a turn of the reactor.
\<close>

lemma restart_after_destroy:
  assumes "a_state w = A_INI_START" "a_destroyed w"
  shows "a_state (((\<lambda>w. a_turn r f w) ^^ 5) w) = A_FIN_START" "blocked (((\<lambda>w. a_turn r f w) ^^ 5) w) = blocked w"
  using assms by (simp_all add: numeral_eq_Suc a_turn_def a_ini_start_def)

section \<open>The scheduler under this root\<close>



text \<open>
  What the root relies on when it destroys the scheduler: with no event and no timer left, as when the
  reactor has nothing registered, its queue is empty, and the entry of \<open>destroy()\<close> ends it at once
  with everything delivered.
\<close>

lemma gc_teardown:
  assumes "greach prio limit depth g" "g_pc g = Out" "g_inbox g = []" "g_timers g = 0" "g_state g \<noteq> G_INI_START" "g_state g \<noteq> G_ZOM"
  shows "g_items g = {#}" "mset (g_filed g) = mset (g_log g)"
    and "\<exists>g'. gc_run limit depth [0, 0, 0] (g\<lparr>g_destroyed := True, g_pc := Run False\<rparr>) = Some g' \<and> g_state g' = G_ZOM"
proof -
  have i: "g_inv g" by (rule greach_inv [OF assms(1)])
  have st: "g_state g = G_ACT_START" using i assms(2-6) by (auto simp: g_inv_def)
  show e: "g_items g = {#}" using i assms(2-4) st by (auto simp: g_inv_def under_way_def)
  obtain t where t: "g_que g = Some t" "hoq_inv t" using i assms(5,6) by (auto simp: g_inv_def)
  then show "mset (g_filed g) = mset (g_log g)" using i e by (simp add: g_inv_def g_items_que)
  have "hoq_count t = 0" using t e by (simp add: hoq_count_items g_items_que)
  then show "\<exists>g'. gc_run limit depth [0, 0, 0] (g\<lparr>g_destroyed := True, g_pc := Run False\<rparr>) = Some g' \<and> g_state g' = G_ZOM"
    using t st by (simp add: gc_turn_def gc_act_start_def gc_fin_start_def g_rdo_def)
qed

end
