(* ===== verification/MemAccount.thy ===== *)
theory MemAccount
  imports Prelude
begin

text \<open>
  The bookkeeping of \<open>sObject\<close> (\<open>src/src/classes/ts2/c++/sObject.cpp\<close>): which place in the program
  allocated how many bytes (\<open>CODE_POS\<close>, a hash table of 53 chains, and the list of the ten largest),
  which place opened which file descriptor, and the recursive mutex \<open>refLock\<close> under which it is done.
  \<^term>\<open>None\<close> is a panic or an access outside a table.
\<close>

section \<open>Places in the program\<close>

record codepos =
  cp_file :: string
  cp_line :: nat
  cp_subline :: nat
  cp_size :: int

definition CP_HASH_SIZE :: nat where "CP_HASH_SIZE = 53"
definition CP_TOP_LEN :: nat where "CP_TOP_LEN = 10"

text \<open>A table of places: the objects, and the chains.\<close>

record cptab =
  cps :: "nat \<Rightarrow> codepos"
  cp_fresh :: nat
  cp_hash :: "nat \<Rightarrow> nat list"

definition new_tab :: cptab where
  "new_tab = \<lparr>cps = (\<lambda>_. \<lparr>cp_file = [], cp_line = 0, cp_subline = 0, cp_size = 0\<rparr>), cp_fresh = 0, cp_hash = (\<lambda>_. [])\<rparr>"

definition get_cp_hash :: "nat \<Rightarrow> nat" where
  "get_cp_hash line = line mod CP_HASH_SIZE"

definition get_cp :: "string \<Rightarrow> nat \<Rightarrow> nat \<Rightarrow> cptab \<Rightarrow> nat \<times> cptab" where
  "get_cp file line subline t =
     (let key = get_cp_hash line in
      case find (\<lambda>c. cp_line (cps t c) = line \<and> cp_subline (cps t c) = subline \<and> cp_file (cps t c) = file) (cp_hash t key) of
        Some c \<Rightarrow> (c, t)
      | None \<Rightarrow>
          let c = cp_fresh t in
          (c, t\<lparr>cps := (cps t)(c := \<lparr>cp_file = file, cp_line = line, cp_subline = subline, cp_size = 0\<rparr>),
                cp_fresh := Suc c, cp_hash := (cp_hash t)(key := c # cp_hash t key)\<rparr>))"

definition add_size :: "nat \<Rightarrow> int \<Rightarrow> cptab \<Rightarrow> cptab" where
  "add_size c n t = t\<lparr>cps := (cps t)(c := (cps t c)\<lparr>cp_size := cp_size (cps t c) + n\<rparr>)\<rparr>"

text \<open>The two loops of \<open>cp_set_size\<close> over \<open>cp_top\<close>, with their \<open>memmove\<close>.\<close>

fun top_del :: "nat \<Rightarrow> nat option list \<Rightarrow> nat option list" where
  "top_del c [] = []"
| "top_del c (x # xs) = (if x = Some c then xs @ [None] else x # top_del c xs)"

fun top_ins :: "(nat \<Rightarrow> int) \<Rightarrow> nat \<Rightarrow> nat option list \<Rightarrow> nat option list" where
  "top_ins sz c [] = []"
| "top_ins sz c (None # xs) = Some c # xs"
| "top_ins sz c (Some d # xs) = (if sz d < sz c then Some c # butlast (Some d # xs) else Some d # top_ins sz c xs)"

section \<open>Memory\<close>

text \<open>\<open>blocks\<close>: the live blocks, their \<open>size\<close> and \<open>cp\<close> (\<open>MEM_HEADER\<close>), by address.\<close>

record acct =
  tab :: cptab
  cp_top :: "nat option list"
  total_size :: int
  total_mem_cnt :: int
  total_mem_max :: int
  blocks :: "nat \<rightharpoonup> nat \<times> nat"

definition new_acct :: "int \<Rightarrow> acct" where
  "new_acct mx = \<lparr>tab = new_tab, cp_top = replicate CP_TOP_LEN None, total_size = 0, total_mem_cnt = 0, total_mem_max = mx,
     blocks = Map.empty\<rparr>"

definition cp_set_size :: "nat \<Rightarrow> int \<Rightarrow> acct \<Rightarrow> acct option" where
  "cp_set_size c n w =
     (let t = add_size c n (tab w); total = total_size w + n in
      if total_mem_max w \<noteq> 0 \<and> total > total_mem_max w then None
      else Some (w\<lparr>tab := t, total_size := total,
        cp_top := top_ins (\<lambda>d. cp_size (cps t d)) c (top_del c (cp_top w))\<rparr>))"

text \<open>\<open>operator new\<close>: \<open>a\<close> is the address \<open>malloc\<close> gives.\<close>

definition mem_new :: "nat \<Rightarrow> nat \<Rightarrow> string \<Rightarrow> nat \<Rightarrow> nat \<Rightarrow> acct \<Rightarrow> acct option" where
  "mem_new a cbSize file line subline w =
     (let (c, t) = get_cp file line subline (tab w) in
      map_option (\<lambda>w1. w1\<lparr>total_mem_cnt := total_mem_cnt w1 + 1\<rparr>)
        (cp_set_size c (int cbSize) (w\<lparr>tab := t, blocks := (blocks w)(a \<mapsto> (cbSize, c))\<rparr>)))"

definition mem_delete :: "nat \<Rightarrow> acct \<Rightarrow> acct option" where
  "mem_delete a w =
     (case blocks w a of
        None \<Rightarrow> None
      | Some (n, c) \<Rightarrow>
          map_option (\<lambda>w1. w1\<lparr>total_mem_cnt := total_mem_cnt w1 - 1, blocks := (blocks w1)(a := None)\<rparr>)
            (cp_set_size c (- int n) w))"

definition refine_sobj :: "nat \<Rightarrow> string \<Rightarrow> nat \<Rightarrow> acct \<Rightarrow> acct option" where
  "refine_sobj a file line w =
     (case blocks w a of
        None \<Rightarrow> None
      | Some (n, c) \<Rightarrow>
          (case cp_set_size c (- int n) w of
             None \<Rightarrow> None
           | Some w1 \<Rightarrow>
               let (c', t) = get_cp file line 0 (tab w1)
               in cp_set_size c' (int n) (w1\<lparr>tab := t, blocks := (blocks w1)(a \<mapsto> (n, c'))\<rparr>)))"

definition get_sobj :: "nat \<Rightarrow> acct \<Rightarrow> (string \<times> nat) option" where
  "get_sobj a w = map_option (\<lambda>(n, c). (cp_file (cps (tab w) c), cp_line (cps (tab w) c))) (blocks w a)"

datatype mem_op = New nat nat string nat nat | Delete nat | Refine nat string nat

fun mem_do :: "mem_op \<Rightarrow> acct \<Rightarrow> acct option" where
  "mem_do (New a n f l s) w = mem_new a n f l s w"
| "mem_do (Delete a) w = mem_delete a w"
| "mem_do (Refine a f l) w = refine_sobj a f l w"

section \<open>The table finds what it made\<close>

definition tab_ok :: "cptab \<Rightarrow> bool" where
  "tab_ok t \<longleftrightarrow>
     (\<forall>k. \<forall>c\<in>set (cp_hash t k). c < cp_fresh t \<and> get_cp_hash (cp_line (cps t c)) = k)
     \<and> (\<forall>c<cp_fresh t. c \<in> set (cp_hash t (get_cp_hash (cp_line (cps t c)))))
     \<and> inj_on (\<lambda>c. (cp_file (cps t c), cp_line (cps t c), cp_subline (cps t c))) {..<cp_fresh t}"

definition place :: "cptab \<Rightarrow> nat \<Rightarrow> string \<times> nat \<times> nat" where
  "place t c = (cp_file (cps t c), cp_line (cps t c), cp_subline (cps t c))"

lemma tab_ok_new: "tab_ok new_tab" by (simp add: tab_ok_def new_tab_def)

lemma add_size_simps [simp]:
  "cp_file (cps (add_size c n t) d) = cp_file (cps t d)" "cp_line (cps (add_size c n t) d) = cp_line (cps t d)"
  "cp_subline (cps (add_size c n t) d) = cp_subline (cps t d)"
  "cp_size (cps (add_size c n t) d) = cp_size (cps t d) + (if d = c then n else 0)"
  "cp_fresh (add_size c n t) = cp_fresh t" "cp_hash (add_size c n t) = cp_hash t"
  by (simp_all add: add_size_def)

lemma tab_ok_add_size [simp]: "tab_ok (add_size c n t) = tab_ok t"
  by (simp add: tab_ok_def)

lemma place_add_size [simp]: "place (add_size c n t) d = place t d"
  by (simp add: place_def)

lemma get_cp_ok:
  assumes "tab_ok t" "get_cp f l s t = (c, t')"
  shows "tab_ok t'" "c < cp_fresh t'" "place t' c = (f, l, s)" "cp_fresh t \<le> cp_fresh t'"
    "\<forall>d<cp_fresh t. cps t' d = cps t d" "\<forall>d. cp_fresh t \<le> d \<and> d < cp_fresh t' \<longrightarrow> cp_size (cps t' d) = 0"
proof -
  let ?k = "get_cp_hash l"
  let ?P = "\<lambda>c. cp_line (cps t c) = l \<and> cp_subline (cps t c) = s \<and> cp_file (cps t c) = f"
  have "tab_ok t' \<and> c < cp_fresh t' \<and> place t' c = (f, l, s) \<and> cp_fresh t \<le> cp_fresh t' \<and> (\<forall>d<cp_fresh t. cps t' d = cps t d)
    \<and> (\<forall>d. cp_fresh t \<le> d \<and> d < cp_fresh t' \<longrightarrow> cp_size (cps t' d) = 0)"
  proof (cases "find ?P (cp_hash t ?k)")
    case (Some c0)
    then have "c0 \<in> set (cp_hash t ?k)" "?P c0" using find_SomeD [OF Some] by auto
    with assms Some show ?thesis by (auto simp: get_cp_def place_def tab_ok_def)
  next
    case None
    let ?c = "cp_fresh t"
    let ?t = "t\<lparr>cps := (cps t)(?c := \<lparr>cp_file = f, cp_line = l, cp_subline = s, cp_size = 0\<rparr>),
                cp_fresh := Suc ?c, cp_hash := (cp_hash t)(?k := ?c # cp_hash t ?k)\<rparr>"
    have r: "c = ?c" "t' = ?t" using None assms(2) by (auto simp: get_cp_def Let_def)
    have ch: "\<forall>k. \<forall>c\<in>set (cp_hash t k). c < ?c \<and> get_cp_hash (cp_line (cps t c)) = k"
      and all: "\<forall>c<?c. c \<in> set (cp_hash t (get_cp_hash (cp_line (cps t c))))"
      and inj: "inj_on (\<lambda>c. (cp_file (cps t c), cp_line (cps t c), cp_subline (cps t c))) {..<?c}"
      using assms(1) by (auto simp: tab_ok_def)
    have new: "(cp_file (cps t d), cp_line (cps t d), cp_subline (cps t d)) \<noteq> (f, l, s)" if "d < ?c" for d
      using None all that by (auto simp: find_None_iff)
    have "inj_on (\<lambda>c. (cp_file (cps ?t c), cp_line (cps ?t c), cp_subline (cps ?t c))) {..<Suc ?c}"
      unfolding lessThan_Suc
    proof (rule inj_on_insert [THEN iffD2], intro conjI)
      show "inj_on (\<lambda>c. (cp_file (cps ?t c), cp_line (cps ?t c), cp_subline (cps ?t c))) {..<?c}"
        using inj by (subst inj_on_cong [of _ _ "\<lambda>c. (cp_file (cps t c), cp_line (cps t c), cp_subline (cps t c))"]) auto
      show "(cp_file (cps ?t ?c), cp_line (cps ?t ?c), cp_subline (cps ?t ?c))
          \<notin> (\<lambda>c. (cp_file (cps ?t c), cp_line (cps ?t c), cp_subline (cps ?t c))) ` ({..<?c} - {?c})"
        using new by force
    qed
    moreover have "\<forall>k. \<forall>c\<in>set (cp_hash ?t k). c < Suc ?c \<and> get_cp_hash (cp_line (cps ?t c)) = k"
      using ch by (auto simp: less_Suc_eq)
    moreover have "\<forall>c<Suc ?c. c \<in> set (cp_hash ?t (get_cp_hash (cp_line (cps ?t c))))"
      using all by (auto simp: less_Suc_eq)
    ultimately have "tab_ok ?t" unfolding tab_ok_def by simp
    with r show ?thesis by (simp add: place_def)
  qed
  then show "tab_ok t'" "c < cp_fresh t'" "place t' c = (f, l, s)" "cp_fresh t \<le> cp_fresh t'"
    "\<forall>d<cp_fresh t. cps t' d = cps t d" "\<forall>d. cp_fresh t \<le> d \<and> d < cp_fresh t' \<longrightarrow> cp_size (cps t' d) = 0" by blast+
qed

section \<open>The accounts are right\<close>

definition held :: "(nat \<rightharpoonup> nat \<times> nat) \<Rightarrow> nat \<Rightarrow> int" where
  "held B c = (\<Sum>a\<in>dom B. if snd (the (B a)) = c then int (fst (the (B a))) else 0)"

definition held_all :: "(nat \<rightharpoonup> nat \<times> nat) \<Rightarrow> int" where
  "held_all B = (\<Sum>a\<in>dom B. int (fst (the (B a))))"

lemma held_add:
  assumes "finite (dom B)" "a \<notin> dom B"
  shows "held (B(a \<mapsto> (n, c))) d = held B d + (if c = d then int n else 0)" "held_all (B(a \<mapsto> (n, c))) = held_all B + int n"
  using assms by (auto simp: held_def held_all_def intro!: sum.cong)

lemma held_remove:
  assumes "finite (dom B)" "B a = Some (n, c)"
  shows "held (B(a := None)) d = held B d - (if c = d then int n else 0)" "held_all (B(a := None)) = held_all B - int n"
proof -
  have B: "B = (B(a := None))(a \<mapsto> (n, c))" using assms(2) by auto
  have "finite (dom (B(a := None)))" "a \<notin> dom (B(a := None))" using assms(1) by simp_all
  note h = held_add [OF this, of n c, folded B]
  show "held (B(a := None)) d = held B d - (if c = d then int n else 0)" using h(1) [of d] by simp
  show "held_all (B(a := None)) = held_all B - int n" using h(2) by simp
qed

definition top_ok :: "(nat \<Rightarrow> int) \<Rightarrow> nat option list \<Rightarrow> bool" where
  "top_ok sz xs \<longleftrightarrow> length xs = CP_TOP_LEN \<and> (\<exists>cs n. xs = map Some cs @ replicate n None \<and> distinct cs \<and> sorted_wrt (\<lambda>c d. sz c \<ge> sz d) cs)"

definition acct_inv :: "acct \<Rightarrow> bool" where
  "acct_inv w \<longleftrightarrow>
     tab_ok (tab w) \<and> finite (dom (blocks w))
     \<and> (\<forall>a n c. blocks w a = Some (n, c) \<longrightarrow> c < cp_fresh (tab w))
     \<and> (\<forall>c<cp_fresh (tab w). cp_size (cps (tab w) c) = held (blocks w) c)
     \<and> total_size w = held_all (blocks w) \<and> total_mem_cnt w = int (card (dom (blocks w)))
     \<and> 0 \<le> total_mem_max w \<and> (total_mem_max w \<noteq> 0 \<longrightarrow> total_size w \<le> total_mem_max w)
     \<and> top_ok (\<lambda>c. cp_size (cps (tab w) c)) (cp_top w) \<and> (\<forall>c. Some c \<in> set (cp_top w) \<longrightarrow> c < cp_fresh (tab w))"

text \<open>A packed list of places, falling in size.\<close>

abbreviation falling :: "(nat \<Rightarrow> int) \<Rightarrow> nat list \<Rightarrow> bool" where
  "falling sz cs \<equiv> distinct cs \<and> sorted_wrt (\<lambda>c d. sz c \<ge> sz d) cs"

abbreviation packed :: "nat list \<Rightarrow> nat \<Rightarrow> nat option list" where
  "packed cs n \<equiv> map Some cs @ replicate n None"

lemma falling_butlast: "falling sz cs \<Longrightarrow> falling sz (butlast cs)"
  by (cases cs rule: rev_cases) (auto simp: sorted_wrt_append)

lemma top_ins_packed:
  assumes "falling sz ds" "c \<notin> set ds"
  shows "\<exists>es k. top_ins sz c (packed ds m) = packed es k \<and> falling sz es \<and> set es \<subseteq> insert c (set ds)
    \<and> length es + k = length ds + m"
  using assms
proof (induction ds)
  case Nil
  show ?case
  proof (cases m)
    case 0
    then show ?thesis by (intro exI [of _ "[]"] exI [of _ 0]) simp
  next
    case (Suc k)
    then show ?thesis by (intro exI [of _ "[c]"] exI [of _ k]) simp
  qed
next
  case (Cons d ds)
  show ?case
  proof (cases "sz d < sz c")
    case True
    have f: "falling sz (c # d # ds)" using Cons.prems True by auto
    show ?thesis
    proof (cases m)
      case 0
      have "top_ins sz c (packed (d # ds) m) = packed (c # butlast (d # ds)) 0"
        using True 0 by (simp add: map_butlast)
      moreover have "falling sz (c # butlast (d # ds))" using falling_butlast [OF f] by simp
      moreover have "set (c # butlast (d # ds)) \<subseteq> insert c (set (d # ds))" by (auto dest!: in_set_butlastD split: if_splits)
      ultimately show ?thesis using 0 by (intro exI [of _ "c # butlast (d # ds)"] exI [of _ 0]) simp
    next
      case (Suc k)
      have "butlast (Some d # packed ds m) = Some d # packed ds k"
        using Suc by (simp add: butlast_append replicate_append_same [symmetric] del: replicate.simps) (metis butlast_snoc replicate_Suc replicate_append_same)
      then have "top_ins sz c (packed (d # ds) m) = packed (c # d # ds) k" using True by simp
      with f Suc show ?thesis by (intro exI [of _ "c # d # ds"] exI [of _ k]) auto
    qed
  next
    case False
    from Cons obtain es k where e: "top_ins sz c (packed ds m) = packed es k" "falling sz es" "set es \<subseteq> insert c (set ds)"
      "length es + k = length ds + m" by auto
    have "\<forall>e\<in>set es. sz e \<le> sz d" "d \<notin> set es" using e(3) Cons.prems False by auto
    with e have "falling sz (d # es)" by auto
    with e False show ?thesis by (intro exI [of _ "d # es"] exI [of _ k]) auto
  qed
qed

lemma top_del_packed:
  assumes "distinct cs"
  shows "\<exists>k. top_del c (packed cs n) = packed (remove1 c cs) k \<and> length (remove1 c cs) + k = length cs + n"
  using assms
proof (induction cs)
  case Nil
  have "top_del c (replicate n None) = replicate n None" by (induction n) auto
  then show ?case by simp
next
  case (Cons d cs)
  then obtain k where "top_del c (packed cs n) = packed (remove1 c cs) k" "length (remove1 c cs) + k = length cs + n" by auto
  then show ?case by (cases "c = d") (auto simp: replicate_append_same intro: exI [of _ "Suc n"])
qed

lemma falling_remove1: "falling sz cs \<Longrightarrow> falling sz (remove1 c cs)"
  by (induction cs) (auto dest: notin_set_remove1 set_mp [OF set_remove1_subset])

lemma falling_cong: "(\<And>c. c \<in> set cs \<Longrightarrow> sz c = sz' c) \<Longrightarrow> falling sz cs = falling sz' cs"
  by (induction cs) auto

lemma top_step:
  assumes "top_ok sz xs" "\<And>d. d \<noteq> c \<Longrightarrow> sz' d = sz d"
  shows "top_ok sz' (top_ins sz' c (top_del c xs))"
    and "Some d \<in> set (top_ins sz' c (top_del c xs)) \<Longrightarrow> d = c \<or> Some d \<in> set xs"
proof -
  obtain cs n where xs: "xs = packed cs n" "falling sz cs" "length cs + n = CP_TOP_LEN"
    using assms(1) by (auto simp: top_ok_def)
  obtain m where m: "top_del c xs = packed (remove1 c cs) m" "length (remove1 c cs) + m = length cs + n"
    using top_del_packed [of cs c n] xs by blast
  have nc: "c \<notin> set (remove1 c cs)" using xs(2) by simp
  have "falling sz (remove1 c cs)" using falling_remove1 [OF xs(2)] .
  moreover have "falling sz (remove1 c cs) = falling sz' (remove1 c cs)"
    using nc assms(2) by (intro falling_cong) metis
  ultimately have "falling sz' (remove1 c cs)" by blast
  from top_ins_packed [OF this nc, of m] obtain es k where
    e: "top_ins sz' c (packed (remove1 c cs) m) = packed es k" "falling sz' es" "set es \<subseteq> insert c (set (remove1 c cs))"
      "length es + k = length (remove1 c cs) + m" by blast
  have "length (top_ins sz' c (top_del c xs)) = CP_TOP_LEN" using e(1,4) m xs(3) by simp
  with e show "top_ok sz' (top_ins sz' c (top_del c xs))" unfolding top_ok_def m(1) by blast
  show "Some d \<in> set (top_ins sz' c (top_del c xs)) \<Longrightarrow> d = c \<or> Some d \<in> set xs"
    using e(1,3) m(1) xs(1) set_remove1_subset [of c cs] by auto
qed

text \<open>What is right about an account whose table, totals and list are to match the blocks \<open>B\<close>.\<close>

definition acct_for :: "(nat \<rightharpoonup> nat \<times> nat) \<Rightarrow> int \<Rightarrow> acct \<Rightarrow> bool" where
  "acct_for B cnt w \<longleftrightarrow>
     tab_ok (tab w) \<and> (\<forall>c<cp_fresh (tab w). cp_size (cps (tab w) c) = held B c) \<and> total_size w = held_all B
     \<and> total_mem_cnt w = cnt \<and> 0 \<le> total_mem_max w
     \<and> top_ok (\<lambda>c. cp_size (cps (tab w) c)) (cp_top w) \<and> (\<forall>c. Some c \<in> set (cp_top w) \<longrightarrow> c < cp_fresh (tab w))"

lemma acct_inv_for:
  "acct_inv w \<longleftrightarrow> acct_for (blocks w) (int (card (dom (blocks w)))) w \<and> finite (dom (blocks w))
     \<and> (\<forall>a n c. blocks w a = Some (n, c) \<longrightarrow> c < cp_fresh (tab w)) \<and> (total_mem_max w \<noteq> 0 \<longrightarrow> total_size w \<le> total_mem_max w)"
  by (auto simp: acct_inv_def acct_for_def)

lemma cp_set_size_for:
  assumes "acct_for B cnt w" "c < cp_fresh (tab w)" "\<And>d. held B' d = held B d + (if c = d then n else 0)" "held_all B' = held_all B + n"
  shows "case cp_set_size c n w of
      None \<Rightarrow> total_mem_max w \<noteq> 0 \<and> held_all B' > total_mem_max w
    | Some w' \<Rightarrow> acct_for B' cnt w' \<and> tab w' = add_size c n (tab w) \<and> blocks w' = blocks w \<and> total_mem_max w' = total_mem_max w
        \<and> (total_mem_max w \<noteq> 0 \<longrightarrow> held_all B' \<le> total_mem_max w)"
proof -
  let ?t = "add_size c n (tab w)"
  have tot: "total_size w + n = held_all B'" using assms(1,4) by (simp add: acct_for_def)
  show ?thesis
  proof (cases "total_mem_max w \<noteq> 0 \<and> held_all B' > total_mem_max w")
    case True
    then show ?thesis by (simp add: cp_set_size_def Let_def tot)
  next
    case False
    let ?w = "w\<lparr>tab := ?t, total_size := held_all B', cp_top := top_ins (\<lambda>d. cp_size (cps ?t d)) c (top_del c (cp_top w))\<rparr>"
    have r: "cp_set_size c n w = Some ?w" using False by (simp add: cp_set_size_def Let_def tot)
    have "top_ok (\<lambda>d. cp_size (cps (tab w) d)) (cp_top w)" using assms(1) by (simp add: acct_for_def)
    note top = top_step [OF this, of c "\<lambda>d. cp_size (cps ?t d)"]
    have "acct_for B' cnt ?w"
      unfolding acct_for_def using assms top by (auto simp: acct_for_def)
    with r False show ?thesis by auto
  qed
qed

lemma get_cp_for:
  assumes "acct_for B cnt w" "get_cp f l s (tab w) = (c, t)" "\<And>d. cp_fresh (tab w) \<le> d \<Longrightarrow> held B d = 0"
  shows "acct_for B cnt (w\<lparr>tab := t\<rparr>)" "c < cp_fresh t" "place t c = (f, l, s)" "cp_fresh (tab w) \<le> cp_fresh t"
proof -
  have "tab_ok (tab w)" using assms(1) by (simp add: acct_for_def)
  note g = get_cp_ok [OF this assms(2)]
  show "c < cp_fresh t" "place t c = (f, l, s)" "cp_fresh (tab w) \<le> cp_fresh t" using g(2,3,4) .
  have size: "cp_size (cps t d) = held B d" if "d < cp_fresh t" for d
    using assms(1,3) g(5,6) that by (cases "d < cp_fresh (tab w)") (auto simp: acct_for_def)
  have low: "\<forall>d. Some d \<in> set (cp_top w) \<longrightarrow> d < cp_fresh (tab w)" using assms(1) by (simp add: acct_for_def)
  obtain cs n where cs: "cp_top w = packed cs n" "falling (\<lambda>c. cp_size (cps (tab w) c)) cs" "length (cp_top w) = CP_TOP_LEN"
    using assms(1) by (auto simp: acct_for_def top_ok_def)
  have "falling (\<lambda>c. cp_size (cps t c)) cs = falling (\<lambda>c. cp_size (cps (tab w) c)) cs"
    using low g(5) cs(1) by (intro falling_cong) simp
  with cs have "top_ok (\<lambda>c. cp_size (cps t c)) (cp_top w)" unfolding top_ok_def by blast
  then show "acct_for B cnt (w\<lparr>tab := t\<rparr>)" using assms(1) g(1,4) size low by (auto simp: acct_for_def)
qed

lemma held_outside:
  assumes "\<forall>a n c. B a = Some (n, c) \<longrightarrow> c < m" "m \<le> d"
  shows "held B d = 0"
  unfolding held_def using assms by (intro sum.neutral) fastforce

lemma acct_for_count: "acct_for B cnt w \<Longrightarrow> acct_for B (cnt + k) (w\<lparr>total_mem_cnt := total_mem_cnt w + k\<rparr>)"
  and acct_for_blocks: "acct_for B cnt (w\<lparr>blocks := X\<rparr>) = acct_for B cnt w"
  by (simp_all add: acct_for_def)

lemma mem_new_ok:
  assumes "acct_inv w" "blocks w a = None"
  shows "case mem_new a n f l s w of
      None \<Rightarrow> total_mem_max w \<noteq> 0 \<and> held_all (blocks w) + int n > total_mem_max w
    | Some w' \<Rightarrow> acct_inv w' \<and> get_sobj a w' = Some (f, l) \<and> (\<exists>c. blocks w' = (blocks w)(a \<mapsto> (n, c)))
        \<and> total_mem_max w' = total_mem_max w"
proof -
  let ?B = "blocks w" and ?cnt = "int (card (dom (blocks w)))"
  have i: "acct_for ?B ?cnt w" "finite (dom ?B)" "\<forall>a n c. ?B a = Some (n, c) \<longrightarrow> c < cp_fresh (tab w)"
    using assms(1) by (simp_all add: acct_inv_for)
  obtain c t where g: "get_cp f l s (tab w) = (c, t)" by (metis surj_pair)
  note gc = get_cp_for [OF i(1) g held_outside [OF i(3)]]
  let ?B' = "?B(a \<mapsto> (n, c))"
  let ?w = "w\<lparr>tab := t, blocks := ?B'\<rparr>"
  have "a \<notin> dom ?B" using assms(2) by auto
  note h = held_add [OF i(2) this, of n c]
  have "acct_for ?B ?cnt ?w" using gc(1) by (simp add: acct_for_def)
  note st = cp_set_size_for [OF this _ h, simplified, OF gc(2)]
  show ?thesis
  proof (cases "cp_set_size c (int n) ?w")
    case None
    with st g h(2) show ?thesis by (simp add: mem_new_def)
  next
    case (Some w1)
    with st h(2) have w1: "acct_for ?B' ?cnt w1" "tab w1 = add_size c (int n) t" "blocks w1 = ?B'" "total_mem_max w1 = total_mem_max w"
      "total_mem_max w \<noteq> 0 \<longrightarrow> held_all ?B' \<le> total_mem_max w" by simp_all
    let ?w1 = "w1\<lparr>total_mem_cnt := total_mem_cnt w1 + 1\<rparr>"
    have "card (dom ?B') = Suc (card (dom ?B))" using i(2) assms(2) by (simp add: domIff)
    then have "acct_for ?B' (int (card (dom ?B'))) ?w1" using acct_for_count [OF w1(1), of 1] by (simp add: add.commute)
    moreover have "total_size w1 = held_all ?B'" using w1(1) by (simp add: acct_for_def)
    moreover have "\<forall>a' n' c'. ?B' a' = Some (n', c') \<longrightarrow> c' < cp_fresh t" using i(3) gc(2,4) by (auto dest: less_le_trans split: if_splits)
    ultimately have "acct_inv ?w1" unfolding acct_inv_for using w1 i(2) by simp
    moreover have "get_sobj a ?w1 = Some (f, l)" using w1(2,3) gc(3) by (simp add: get_sobj_def place_def)
    ultimately show ?thesis using Some g w1(3,4) by (auto simp: mem_new_def)
  qed
qed

lemma mem_delete_ok:
  assumes "acct_inv w" "blocks w a = Some (n, c)"
  shows "\<exists>w'. mem_delete a w = Some w' \<and> acct_inv w' \<and> blocks w' = (blocks w)(a := None) \<and> total_mem_max w' = total_mem_max w"
proof -
  let ?B = "blocks w" and ?cnt = "int (card (dom (blocks w)))"
  have i: "acct_for ?B ?cnt w" "finite (dom ?B)" "\<forall>a n c. ?B a = Some (n, c) \<longrightarrow> c < cp_fresh (tab w)"
    "total_mem_max w \<noteq> 0 \<longrightarrow> total_size w \<le> total_mem_max w"
    using assms(1) by (simp_all add: acct_inv_for)
  let ?B' = "?B(a := None)"
  have h: "held ?B' d = held ?B d + (if c = d then - int n else 0)" "held_all ?B' = held_all ?B + - int n" for d
    by (simp_all add: held_remove [OF i(2) assms(2)])
  have "c < cp_fresh (tab w)" using i(3) assms(2) by blast
  note st = cp_set_size_for [OF i(1) this h]
  have "held_all ?B = total_size w" using i(1) by (simp add: acct_for_def)
  then obtain w1 where w1: "cp_set_size c (- int n) w = Some w1" "acct_for ?B' ?cnt w1" "tab w1 = add_size c (- int n) (tab w)"
    "blocks w1 = ?B" "total_mem_max w1 = total_mem_max w" "total_mem_max w \<noteq> 0 \<longrightarrow> held_all ?B' \<le> total_mem_max w"
    using st i(4) h(2) by (cases "cp_set_size c (- int n) w") auto
  let ?w1 = "w1\<lparr>total_mem_cnt := total_mem_cnt w1 - 1, blocks := ?B'\<rparr>"
  have "a \<in> dom ?B" using assms(2) by auto
  then have "card (dom ?B) = Suc (card (dom ?B'))" using card_Suc_Diff1 [OF i(2)] by simp
  then have "acct_for ?B' (int (card (dom ?B'))) ?w1" using w1(2) by (simp add: acct_for_def)
  moreover have "total_size w1 = held_all ?B'" using w1(2) by (simp add: acct_for_def)
  ultimately have "acct_inv ?w1" unfolding acct_inv_for using w1(3-6) i(2,3) by auto
  with w1 show ?thesis by (auto simp: mem_delete_def assms(2))
qed

lemma refine_sobj_ok:
  assumes "acct_inv w" "blocks w a = Some (n, c)"
  shows "\<exists>w' c'. refine_sobj a f l w = Some w' \<and> acct_inv w' \<and> blocks w' = (blocks w)(a \<mapsto> (n, c')) \<and> get_sobj a w' = Some (f, l)
    \<and> total_mem_max w' = total_mem_max w"
proof -
  let ?B = "blocks w" and ?cnt = "int (card (dom (blocks w)))"
  have i: "acct_for ?B ?cnt w" "finite (dom ?B)" "\<forall>a n c. ?B a = Some (n, c) \<longrightarrow> c < cp_fresh (tab w)"
    "total_mem_max w \<noteq> 0 \<longrightarrow> total_size w \<le> total_mem_max w"
    using assms(1) by (simp_all add: acct_inv_for)
  let ?R = "?B(a := None)"
  have h: "held ?R d = held ?B d + (if c = d then - int n else 0)" "held_all ?R = held_all ?B + - int n" for d
    by (simp_all add: held_remove [OF i(2) assms(2)])
  have tot: "held_all ?B = total_size w" using i(1) by (simp add: acct_for_def)
  have "c < cp_fresh (tab w)" using i(3) assms(2) by blast
  note st = cp_set_size_for [OF i(1) this h]
  then obtain w1 where w1: "cp_set_size c (- int n) w = Some w1" "acct_for ?R ?cnt w1" "tab w1 = add_size c (- int n) (tab w)"
    "blocks w1 = ?B" "total_mem_max w1 = total_mem_max w"
    using i(4) h(2) tot by (cases "cp_set_size c (- int n) w") auto
  obtain c' t where g: "get_cp f l 0 (tab w1) = (c', t)" by (metis surj_pair)
  have low: "\<forall>a n c. ?R a = Some (n, c) \<longrightarrow> c < cp_fresh (tab w1)" using i(3) w1(3) by auto
  note gc = get_cp_for [OF w1(2) g held_outside [of ?R, OF low]]
  let ?B' = "?B(a \<mapsto> (n, c'))"
  have "finite (dom ?R)" "a \<notin> dom ?R" using i(2) by simp_all
  note h' = held_add [OF this, of n c', simplified]
  let ?w1 = "w1\<lparr>tab := t, blocks := ?B'\<rparr>"
  have "acct_for ?R ?cnt ?w1" using gc(1) by (simp add: acct_for_def)
  note st' = cp_set_size_for [OF this _ h', simplified, OF gc(2)]
  have "held_all ?B' = held_all ?B" using h'(2) h(2) by simp
  then obtain w2 where w2: "cp_set_size c' (int n) ?w1 = Some w2" "acct_for ?B' ?cnt w2" "tab w2 = add_size c' (int n) t"
    "blocks w2 = ?B'" "total_mem_max w2 = total_mem_max w" "total_mem_max w \<noteq> 0 \<longrightarrow> held_all ?B' \<le> total_mem_max w"
    using st' i(4) tot w1(4,5) h' h(2) by (cases "cp_set_size c' (int n) ?w1") auto
  have "dom ?B' = dom ?B" using assms(2) by auto
  moreover have "total_size w2 = held_all ?B'" using w2(2) by (simp add: acct_for_def)
  moreover have "\<forall>a' n' c''. ?B' a' = Some (n', c'') \<longrightarrow> c'' < cp_fresh t"
    using i(3) gc(2,4) w1(3) by (auto dest: less_le_trans split: if_splits)
  ultimately have "acct_inv w2" unfolding acct_inv_for using w2(2-6) i(2) by simp
  moreover have "get_sobj a w2 = Some (f, l)" using w2(3,4) gc(3) by (simp add: get_sobj_def place_def)
  moreover have "refine_sobj a f l w = Some w2" using w1(1) g w2(1) w1(4) by (simp add: refine_sobj_def assms(2))
  ultimately show ?thesis using w2(4,5) by blast
qed

text \<open>\<open>malloc\<close> gives an address that is not in use; what is deleted or refined is a live block.\<close>

fun mem_fits :: "mem_op \<Rightarrow> acct \<Rightarrow> bool" where
  "mem_fits (New a n f l s) w = (blocks w a = None)"
| "mem_fits (Delete a) w = (blocks w a \<noteq> None)"
| "mem_fits (Refine a f l) w = (blocks w a \<noteq> None)"

lemma new_acct_inv: "0 \<le> mx \<Longrightarrow> acct_inv (new_acct mx)"
proof -
  assume "0 \<le> mx"
  moreover have "top_ok (\<lambda>c. cp_size (cps new_tab c)) (replicate CP_TOP_LEN None)"
    unfolding top_ok_def by (intro conjI exI [of _ "[]"] exI [of _ CP_TOP_LEN]) simp_all
  ultimately show ?thesis
    by (simp add: acct_inv_def new_acct_def tab_ok_new held_all_def) (simp add: new_tab_def)
qed

lemma accounts_right_parts:
  assumes "0 \<le> mx" "acct_inv w" "mem_fits op w"
  shows "acct_inv (new_acct mx)"
    and "case mem_do op w of
        None \<Rightarrow> (\<exists>a n f l s. op = New a n f l s \<and> total_mem_max w \<noteq> 0 \<and> total_size w + int n > total_mem_max w)
      | Some w' \<Rightarrow> acct_inv w' \<and> total_mem_max w' = total_mem_max w
          \<and> (case op of
               New a n f l s \<Rightarrow> get_sobj a w' = Some (f, l) \<and> dom (blocks w') = insert a (dom (blocks w))
             | Delete a \<Rightarrow> blocks w' = (blocks w)(a := None)
             | Refine a f l \<Rightarrow> get_sobj a w' = Some (f, l) \<and> dom (blocks w') = dom (blocks w))"
proof -
  show "acct_inv (new_acct mx)" by (rule new_acct_inv [OF assms(1)])
  show "case mem_do op w of
        None \<Rightarrow> (\<exists>a n f l s. op = New a n f l s \<and> total_mem_max w \<noteq> 0 \<and> total_size w + int n > total_mem_max w)
      | Some w' \<Rightarrow> acct_inv w' \<and> total_mem_max w' = total_mem_max w
          \<and> (case op of
               New a n f l s \<Rightarrow> get_sobj a w' = Some (f, l) \<and> dom (blocks w') = insert a (dom (blocks w))
             | Delete a \<Rightarrow> blocks w' = (blocks w)(a := None)
             | Refine a f l \<Rightarrow> get_sobj a w' = Some (f, l) \<and> dom (blocks w') = dom (blocks w))"
  proof (cases op)
    case (New a n f l s)
    have "total_size w = held_all (blocks w)" using assms(2) by (simp add: acct_inv_def)
    with mem_new_ok [OF assms(2), of a n f l s] assms(3) New show ?thesis by (auto split: option.splits)
  next
    case (Delete a)
    then obtain n c where "blocks w a = Some (n, c)" using assms(3) by auto
    from mem_delete_ok [OF assms(2) this] Delete show ?thesis by auto
  next
    case (Refine a f l)
    then obtain n c where "blocks w a = Some (n, c)" using assms(3) by auto
    with refine_sobj_ok [OF assms(2) this, of f l] Refine show ?thesis by auto
  qed
qed

text \<open>
  The allocation accounts are right at any time.  Every operation on a live block returns, only
  \<open>new\<close> may panic, and exactly when the limit is set and the new block would pass it; afterwards
  each place in the program has one object, whose size is the sum of the live blocks allocated or
  refined there, the totals are the number and the sum of the live blocks, and the list of ten
  names distinct places in falling order of size, without gaps.  \<open>new\<close> and \<open>refine_sobj\<close> record the
  place they were given.
\<close>

theorem accounts_right:
  assumes "0 \<le> mx" "acct_inv w" "mem_fits op w"
  shows "(acct_inv (new_acct mx)) \<and>
    (case mem_do op w of None \<Rightarrow> (\<exists>a n f l s. op = New a n f l s \<and> total_mem_max w \<noteq> 0 \<and> total_size w + int n > total_mem_max w) | Some w' \<Rightarrow> acct_inv w' \<and> total_mem_max w' = total_mem_max w \<and> (case op of New a n f l s \<Rightarrow> get_sobj a w' = Some (f, l) \<and> dom (blocks w') = insert a (dom (blocks w)) | Delete a \<Rightarrow> blocks w' = (blocks w)(a := None) | Refine a f l \<Rightarrow> get_sobj a w' = Some (f, l) \<and> dom (blocks w') = dom (blocks w)))"
  using accounts_right_parts [OF assms] by blast

theorem accounts_right_witness:
  "acct_inv (new_acct 100) \<and> (case mem_do (New 7 60 ''f.cpp'' 12 0) (new_acct 100) of None \<Rightarrow> False | Some w' \<Rightarrow> acct_inv w')"
  using accounts_right [OF _ new_acct_inv [of 100], of 100 "New 7 60 ''f.cpp'' 12 0"]
  by (auto simp: new_acct_def split: option.splits)

section \<open>File descriptors\<close>

text \<open>\<open>descriptor_list\<close>: which place opened a descriptor; \<open>FD_SETSIZE\<close> is 1024 here.\<close>

definition FD_SETSIZE :: int where "FD_SETSIZE = 1024"

record fdtab =
  ftab :: cptab
  descriptor_list :: "int \<rightharpoonup> nat"
  descriptor_top :: "nat option"

definition new_fdtab :: fdtab where
  "new_fdtab = \<lparr>ftab = new_tab, descriptor_list = Map.empty, descriptor_top = None\<rparr>"

definition enter_fd :: "int \<Rightarrow> string \<Rightarrow> nat \<Rightarrow> fdtab \<Rightarrow> fdtab" where
  "enter_fd s file line w =
     (let (c, t) = get_cp file line 0 (ftab w); t' = add_size c 1 t
      in w\<lparr>ftab := t', descriptor_list := (descriptor_list w)(s \<mapsto> c),
           descriptor_top := (case descriptor_top w of
              None \<Rightarrow> Some c
            | Some d \<Rightarrow> if cp_size (cps t' d) < cp_size (cps t' c) then Some c else Some d)\<rparr>)"

definition set_open_hash :: "int \<Rightarrow> string \<Rightarrow> nat \<Rightarrow> fdtab \<Rightarrow> fdtab option" where
  "set_open_hash s file line w =
     (if s < 0 \<or> s \<ge> FD_SETSIZE then Some w
      else if descriptor_list w s \<noteq> None then None
      else Some (enter_fd s file line w))"

definition leave_fd :: "int \<Rightarrow> nat \<Rightarrow> fdtab \<Rightarrow> fdtab" where
  "leave_fd s c w = w\<lparr>ftab := add_size c (- 1) (ftab w), descriptor_list := (descriptor_list w)(s := None)\<rparr>"

definition flush_open_hash :: "int \<Rightarrow> fdtab \<Rightarrow> fdtab option" where
  "flush_open_hash s w =
     (if s < 0 \<or> s \<ge> FD_SETSIZE then Some w
      else map_option (\<lambda>c. leave_fd s c w) (descriptor_list w s))"

definition refine_fd :: "int \<Rightarrow> string \<Rightarrow> nat \<Rightarrow> fdtab \<Rightarrow> fdtab option" where
  "refine_fd s file line w =
     (if s < 0 \<or> s \<ge> FD_SETSIZE then Some w
      else map_option (\<lambda>c. enter_fd s file line (leave_fd s c w)) (descriptor_list w s))"

text \<open>\<open>__open\<close>, \<open>__socket\<close>, \<open>__accept\<close> with the answer \<open>ret\<close> of the system; \<open>__pipe\<close> and \<open>__openpty\<close> with two descriptors.\<close>

definition sys_open :: "int \<Rightarrow> string \<Rightarrow> nat \<Rightarrow> fdtab \<Rightarrow> (int \<times> fdtab) option" where
  "sys_open ret file line w = (if ret < 0 then Some (ret, w) else map_option (Pair ret) (set_open_hash ret file line w))"

definition sys_pipe :: "int \<Rightarrow> int \<Rightarrow> int \<Rightarrow> string \<Rightarrow> nat \<Rightarrow> fdtab \<Rightarrow> (int \<times> fdtab) option" where
  "sys_pipe ret r0 r1 file line w =
     (if ret < 0 then Some (ret, w)
      else map_option (Pair ret) (Option.bind (set_open_hash r0 file line w) (set_open_hash r1 file line)))"

text \<open>
  \<open>__close\<close> and \<open>__fclose\<close>.  The answers of \<open>close\<close> are a list: 0, \<open>EINTR\<close>, or another error, which ends
  the loop.  A descriptor from \<open>FD_SETSIZE\<close> on is outside the array.
\<close>

datatype close_answer = Closed | Eintr | Failed int

fun close_loop :: "close_answer list \<Rightarrow> int \<Rightarrow> string \<Rightarrow> nat \<Rightarrow> fdtab \<Rightarrow> (int \<times> fdtab) option" where
  "close_loop [] s file line w = None"
| "close_loop (Closed # as) s file line w = Some (0, w)"
| "close_loop (Eintr # as) s file line w = close_loop as s file line w"
| "close_loop (Failed er # as) s file line w = map_option (Pair er) (set_open_hash s file line w)"

definition sys_close :: "close_answer list \<Rightarrow> int \<Rightarrow> fdtab \<Rightarrow> (int \<times> fdtab) option" where
  "sys_close as s w =
     (if s < 0 then Some (- 1, w)
      else if s \<ge> FD_SETSIZE then None
      else case descriptor_list w s of
        None \<Rightarrow> None
      | Some c \<Rightarrow>
          let file = cp_file (cps (ftab w) c); line = cp_line (cps (ftab w) c)
          in Option.bind (flush_open_hash s w) (close_loop as s file line))"

definition fd_stdio :: "string \<Rightarrow> nat \<Rightarrow> fdtab \<Rightarrow> fdtab option" where
  "fd_stdio file line w =
     Option.bind (set_open_hash 0 file line w) (\<lambda>w. Option.bind (set_open_hash 1 file line w) (set_open_hash 2 file line))"

text \<open>The table tracks the set of open descriptors: those below \<open>FD_SETSIZE\<close>, each counted at its place.\<close>

definition tracks :: "int set \<Rightarrow> fdtab \<Rightarrow> bool" where
  "tracks opened w \<longleftrightarrow>
     tab_ok (ftab w) \<and> dom (descriptor_list w) = {s\<in>opened. 0 \<le> s \<and> s < FD_SETSIZE}
     \<and> (\<forall>s c. descriptor_list w s = Some c \<longrightarrow> c < cp_fresh (ftab w))
     \<and> (\<forall>c<cp_fresh (ftab w). cp_size (cps (ftab w) c) = int (card {s. descriptor_list w s = Some c}))"

definition opened_at :: "fdtab \<Rightarrow> int \<Rightarrow> (string \<times> nat) option" where
  "opened_at w s = map_option (\<lambda>c. (cp_file (cps (ftab w) c), cp_line (cps (ftab w) c))) (descriptor_list w s)"

lemma finite_fds: "tracks opened w \<Longrightarrow> finite {s. descriptor_list w s = Some c}"
  by (rule finite_subset [of _ "{0..<FD_SETSIZE}"]) (auto simp: tracks_def dom_def)

lemma enter_fd_tracks:
  assumes "tracks opened w" "descriptor_list w s = None" "0 \<le> s" "s < FD_SETSIZE"
  shows "tracks (insert s opened) (enter_fd s f l w)" "opened_at (enter_fd s f l w) s = Some (f, l)"
    "r \<noteq> s \<Longrightarrow> opened_at (enter_fd s f l w) r = opened_at w r"
proof -
  obtain c t where g: "get_cp f l 0 (ftab w) = (c, t)" by (metis surj_pair)
  have ok: "tab_ok (ftab w)" using assms(1) by (simp add: tracks_def)
  note gc = get_cp_ok [OF ok g]
  let ?w = "enter_fd s f l w"
  have e: "ftab ?w = add_size c 1 t" "descriptor_list ?w = (descriptor_list w)(s \<mapsto> c)"
    by (simp_all add: enter_fd_def g Let_def)
  have low: "\<forall>r d. descriptor_list w r = Some d \<longrightarrow> d < cp_fresh (ftab w)" using assms(1) by (simp add: tracks_def)
  have sz: "cp_size (cps t d) = int (card {r. descriptor_list w r = Some d})" if "d < cp_fresh t" for d
  proof (cases "d < cp_fresh (ftab w)")
    case True
    with assms(1) gc(5) show ?thesis by (simp add: tracks_def)
  next
    case False
    then have "{r. descriptor_list w r = Some d} = {}" using low by auto
    with False gc(6) that show ?thesis by simp
  qed
  have sets: "{r. ((descriptor_list w)(s \<mapsto> c)) r = Some d} = (if d = c then insert s {r. descriptor_list w r = Some d} else {r. descriptor_list w r = Some d})" for d
    using assms(2) by auto
  have "cp_size (cps (ftab ?w) d) = int (card {r. descriptor_list ?w r = Some d})" if "d < cp_fresh (ftab ?w)" for d
    using sz [of d] that finite_fds [OF assms(1), of d] assms(2) unfolding e sets by (auto simp: card_insert_if)
  moreover have "\<forall>r d. descriptor_list ?w r = Some d \<longrightarrow> d < cp_fresh (ftab ?w)"
    using low gc(2,4) unfolding e by (auto dest: less_le_trans split: if_splits)
  ultimately show "tracks (insert s opened) ?w" using assms gc(1) by (auto simp: tracks_def e)
  show "opened_at ?w s = Some (f, l)" using gc(3) by (simp add: opened_at_def e place_def)
  show "opened_at ?w r = opened_at w r" if "r \<noteq> s"
    using that low gc(5) by (auto simp: opened_at_def e split: option.split intro!: option.map_cong)
qed

lemma leave_fd_tracks:
  assumes "tracks opened w" "descriptor_list w s = Some c"
  shows "tracks (opened - {s}) (leave_fd s c w)" "r \<noteq> s \<Longrightarrow> opened_at (leave_fd s c w) r = opened_at w r"
proof -
  have sets: "{r. ((descriptor_list w)(s := None)) r = Some d} = {r. descriptor_list w r = Some d} - (if d = c then {s} else {})" for d
    using assms(2) by auto
  have "cp_size (cps (ftab w) d) + (if d = c then - 1 else 0) = int (card {r. ((descriptor_list w)(s := None)) r = Some d})"
    if "d < cp_fresh (ftab w)" for d
  proof (cases "d = c")
    case True
    have "int (card {r. descriptor_list w r = Some c}) = int (card ({r. descriptor_list w r = Some c} - {s})) + 1"
      using card_Suc_Diff1 [OF finite_fds [OF assms(1), of c], of s] assms(2) by simp
    then show ?thesis unfolding sets using True assms(1) that by (simp add: tracks_def)
  next
    case False
    then show ?thesis unfolding sets using assms(1) that by (simp add: tracks_def)
  qed
  then show "tracks (opened - {s}) (leave_fd s c w)"
    using assms by (auto simp: tracks_def leave_fd_def split: if_splits)
  show "r \<noteq> s \<Longrightarrow> opened_at (leave_fd s c w) r = opened_at w r"
    by (simp add: opened_at_def leave_fd_def)
qed

lemma close_loop_eintr: "close_loop (replicate k Eintr @ as) s f l w = close_loop as s f l w"
  by (induction k) auto

lemma sys_close_run:
  assumes "descriptor_list w s = Some c" "0 \<le> s" "s < FD_SETSIZE"
  shows "sys_close (replicate k Eintr @ as) s w = close_loop as s (cp_file (cps (ftab w) c)) (cp_line (cps (ftab w) c)) (leave_fd s c w)"
  using assms by (simp add: sys_close_def flush_open_hash_def Let_def close_loop_eintr)

lemma descriptors_tracked_parts:
  assumes "tracks opened w" "ret \<notin> opened" "0 \<le> ret" "s \<in> opened" "0 \<le> s" "s < FD_SETSIZE" "er \<noteq> 0"
  shows "\<exists>w'. sys_open ret f l w = Some (ret, w') \<and> tracks (insert ret opened) w' \<and> (ret < FD_SETSIZE \<longrightarrow> opened_at w' ret = Some (f, l))
      \<and> (\<forall>r. r \<noteq> ret \<longrightarrow> opened_at w' r = opened_at w r)"
    and "\<exists>w'. sys_close (replicate k Eintr @ [Closed]) s w = Some (0, w') \<and> tracks (opened - {s}) w' \<and> (\<forall>r. r \<noteq> s \<longrightarrow> opened_at w' r = opened_at w r)"
    and "\<exists>w'. sys_close (replicate k Eintr @ [Failed er]) s w = Some (er, w') \<and> tracks opened w' \<and> (\<forall>r. opened_at w' r = opened_at w r)"
    and "\<exists>w'. refine_fd s f l w = Some w' \<and> tracks opened w' \<and> opened_at w' s = Some (f, l) \<and> (\<forall>r. r \<noteq> s \<longrightarrow> opened_at w' r = opened_at w r)"
proof -
  have "s \<in> dom (descriptor_list w)" using assms(1,4-6) by (simp add: tracks_def)
  then obtain c where c: "descriptor_list w s = Some c" by blast
  note le = leave_fd_tracks [OF assms(1) c]
  have gone: "descriptor_list (leave_fd s c w) s = None" by (simp add: leave_fd_def)
  note en = enter_fd_tracks [OF le(1) gone assms(5,6)]
  have again: "insert s (opened - {s}) = opened" using assms(4) by blast
  show "\<exists>w'. sys_open ret f l w = Some (ret, w') \<and> tracks (insert ret opened) w' \<and> (ret < FD_SETSIZE \<longrightarrow> opened_at w' ret = Some (f, l))
      \<and> (\<forall>r. r \<noteq> ret \<longrightarrow> opened_at w' r = opened_at w r)"
  proof (cases "ret < FD_SETSIZE")
    case True
    have "descriptor_list w ret = None" using assms(1,2) by (auto simp: tracks_def)
    with enter_fd_tracks [OF assms(1) this assms(3) True] True assms(3) show ?thesis
      by (simp add: sys_open_def set_open_hash_def)
  next
    case False
    then have "tracks (insert ret opened) w" using assms(1) by (auto simp: tracks_def)
    with False assms(3) show ?thesis by (simp add: sys_open_def set_open_hash_def)
  qed
  show "\<exists>w'. sys_close (replicate k Eintr @ [Closed]) s w = Some (0, w') \<and> tracks (opened - {s}) w' \<and> (\<forall>r. r \<noteq> s \<longrightarrow> opened_at w' r = opened_at w r)"
    using le by (simp add: sys_close_run [OF c assms(5,6)])
  show "\<exists>w'. sys_close (replicate k Eintr @ [Failed er]) s w = Some (er, w') \<and> tracks opened w' \<and> (\<forall>r. opened_at w' r = opened_at w r)"
  proof -
    let ?f = "cp_file (cps (ftab w) c)" and ?l = "cp_line (cps (ftab w) c)"
    let ?w = "enter_fd s ?f ?l (leave_fd s c w)"
    have "sys_close (replicate k Eintr @ [Failed er]) s w = Some (er, ?w)"
      using gone assms(5,6) by (simp add: sys_close_run [OF c assms(5,6)] set_open_hash_def)
    moreover have "opened_at ?w r = opened_at w r" for r
      using en(2) [of ?f ?l] en(3) [of r ?f ?l] le(2) c by (cases "r = s") (auto simp: opened_at_def)
    ultimately show ?thesis using en(1) [of ?f ?l] unfolding again by blast
  qed
  show "\<exists>w'. refine_fd s f l w = Some w' \<and> tracks opened w' \<and> opened_at w' s = Some (f, l) \<and> (\<forall>r. r \<noteq> s \<longrightarrow> opened_at w' r = opened_at w r)"
    using en(1,2) [of f l] en(3) [where f = f and l = l] le(2) c assms(5,6) unfolding again by (simp add: refine_fd_def)
qed

text \<open>
  The descriptor table follows the open descriptors.  A descriptor the system newly gives is
  entered without a panic at the place of the call; closing one, however often interrupted, takes
  it out, or when the system refuses puts it back at the same place; \<open>refine_fd\<close> changes its place only.
  Each place counts the descriptors it has open, and descriptors of others are not touched.
\<close>

theorem descriptors_tracked:
  assumes "tracks opened w" "ret \<notin> opened" "0 \<le> ret" "s \<in> opened" "0 \<le> s" "s < FD_SETSIZE" "er \<noteq> 0"
  shows "(\<exists>w'. sys_open ret f l w = Some (ret, w') \<and> tracks (insert ret opened) w' \<and> (ret < FD_SETSIZE \<longrightarrow> opened_at w' ret = Some (f, l)) \<and> (\<forall>r. r \<noteq> ret \<longrightarrow> opened_at w' r = opened_at w r)) \<and>
    (\<exists>w'. sys_close (replicate k Eintr @ [Closed]) s w = Some (0, w') \<and> tracks (opened - {s}) w' \<and> (\<forall>r. r \<noteq> s \<longrightarrow> opened_at w' r = opened_at w r)) \<and>
    (\<exists>w'. sys_close (replicate k Eintr @ [Failed er]) s w = Some (er, w') \<and> tracks opened w' \<and> (\<forall>r. opened_at w' r = opened_at w r)) \<and>
    (\<exists>w'. refine_fd s f l w = Some w' \<and> tracks opened w' \<and> opened_at w' s = Some (f, l) \<and> (\<forall>r. r \<noteq> s \<longrightarrow> opened_at w' r = opened_at w r))"
  using descriptors_tracked_parts [OF assms] by blast

lemma tracks_new: "tracks {} new_fdtab"
  by (simp add: tracks_def new_fdtab_def tab_ok_new) (simp add: new_tab_def)

lemma tracks_stdin: "tracks {0} (enter_fd 0 ''s'' 1 new_fdtab)"
  using enter_fd_tracks(1) [OF tracks_new, of 0] by (simp add: new_fdtab_def FD_SETSIZE_def)

theorem descriptors_tracked_witness:
  "(\<exists>w'. sys_open 3 ''f'' 7 (enter_fd 0 ''s'' 1 new_fdtab) = Some (3, w') \<and> tracks {3, 0} w' \<and> opened_at w' 3 = Some (''f'', 7))
    \<and> (\<exists>w'. sys_close [Eintr, Closed] 0 (enter_fd 0 ''s'' 1 new_fdtab) = Some (0, w') \<and> tracks {} w')"
  using descriptors_tracked [OF tracks_stdin, where ret = 3 and s = 0 and er = 1 and f = "''f''" and l = 7]
    descriptors_tracked [OF tracks_stdin, where ret = 3 and s = 0 and er = 1 and k = 1]
  by (simp add: FD_SETSIZE_def) blast

text \<open>
  Where \<open>EINTR\<close> means that the descriptor is already closed, as on Linux, the retry fails, the closed
  descriptor is entered again, and the next \<open>open\<close> that gets its number panics.
\<close>

lemma eintr_close_panics:
  assumes "tracks {0} w"
  shows "\<exists>w'. sys_close [Eintr, Failed (- 1)] 0 w = Some (- 1, w') \<and> sys_open 0 f l w' = None"
proof -
  have "0 \<in> dom (descriptor_list w)" using assms by (simp add: tracks_def FD_SETSIZE_def)
  then obtain c where c: "descriptor_list w 0 = Some c" by blast
  have n: "(0::int) < FD_SETSIZE" by (simp add: FD_SETSIZE_def)
  let ?w = "enter_fd 0 (cp_file (cps (ftab w) c)) (cp_line (cps (ftab w) c)) (leave_fd 0 c w)"
  have "sys_close [Eintr, Failed (- 1)] 0 w = Some (- 1, ?w)"
    using sys_close_run [OF c order_refl n, of 1 "[Failed (- 1)]"] n by (simp add: set_open_hash_def leave_fd_def)
  moreover have "descriptor_list ?w 0 \<noteq> None" by (simp add: enter_fd_def Let_def split: prod.split)
  ultimately show ?thesis using n by (auto simp: sys_open_def set_open_hash_def)
qed

text \<open>A descriptor from \<open>FD_SETSIZE\<close> on is opened without being entered, and closing it reads outside the array.\<close>

lemma close_beyond_table: "FD_SETSIZE \<le> s \<Longrightarrow> sys_open s f l w = Some (s, w) \<and> sys_close as s w = None"
  by (simp add: sys_open_def set_open_hash_def sys_close_def FD_SETSIZE_def)

section \<open>The mutex\<close>

text \<open>
  \<open>refLock\<close> and \<open>refUnlock\<close> where the system has no recursive mutex (\<open>refMutex_init\<close> is 2): the recursion is
  counted by hand over a plain one.  \<open>rl_owner\<close> is the holder of the plain mutex, \<open>rl_depth\<close> how often each
  thread has locked and not unlocked.  \<open>R_check\<close>: about to compare \<open>refMutex_thread\<close> with itself, without a lock;
  \<open>R_acquire\<close>: waits for the plain mutex; \<open>R_locked\<close>: has got it; \<open>R_release\<close>: has cleared the thread and will unlock.
\<close>

datatype rpc = R_out | R_check | R_acquire | R_locked | R_release

record rlock =
  refMutex_thread :: "nat option"
  refMutex_count :: nat
  rl_owner :: "nat option"
  rl_pc :: "nat \<Rightarrow> rpc"
  rl_depth :: "nat \<Rightarrow> nat"
  rl_panic :: bool

definition new_rlock :: rlock where
  "new_rlock = \<lparr>refMutex_thread = None, refMutex_count = 0, rl_owner = None, rl_pc = (\<lambda>_. R_out), rl_depth = (\<lambda>_. 0), rl_panic = False\<rparr>"

definition rl_go :: "nat \<Rightarrow> rpc \<Rightarrow> rlock \<Rightarrow> rlock" where
  "rl_go t c w = w\<lparr>rl_pc := (rl_pc w)(t := c)\<rparr>"

definition rl_entered :: "nat \<Rightarrow> rlock \<Rightarrow> rlock" where
  "rl_entered t w = rl_go t R_out (w\<lparr>refMutex_count := Suc (refMutex_count w), rl_depth := (rl_depth w)(t := Suc (rl_depth w t))\<rparr>)"

text \<open>The pieces of \<open>refLock\<close>, and \<open>refUnlock\<close> up to its own unlock.\<close>

definition refLock_check :: "nat \<Rightarrow> rlock \<Rightarrow> rlock" where
  "refLock_check t w = (if refMutex_thread w = Some t then rl_entered t w else rl_go t R_acquire w)"

definition refLock_locked :: "nat \<Rightarrow> rlock \<Rightarrow> rlock" where
  "refLock_locked t w =
     (if (if refMutex_count w \<noteq> 0 then refMutex_thread w \<noteq> Some t else refMutex_thread w \<noteq> None) then w\<lparr>rl_panic := True\<rparr>
      else rl_entered t (w\<lparr>refMutex_thread := Some t\<rparr>))"

definition refUnlock :: "nat \<Rightarrow> rlock \<Rightarrow> rlock" where
  "refUnlock t w =
     (if refMutex_count w = 0 \<or> refMutex_thread w \<noteq> Some t then w\<lparr>rl_panic := True\<rparr>
      else
        let w1 = w\<lparr>refMutex_count := refMutex_count w - 1, rl_depth := (rl_depth w)(t := rl_depth w t - 1)\<rparr> in
        if refMutex_count w1 = 0 then rl_go t R_release (w1\<lparr>refMutex_thread := None\<rparr>) else w1)"

inductive rl_step :: "rlock \<Rightarrow> rlock \<Rightarrow> bool" where
  Call: "rl_pc w t = R_out \<Longrightarrow> rl_step w (rl_go t R_check w)"
| Check: "rl_pc w t = R_check \<Longrightarrow> rl_step w (refLock_check t w)"
| Acquire: "rl_pc w t = R_acquire \<Longrightarrow> rl_owner w = None \<Longrightarrow> rl_step w (rl_go t R_locked (w\<lparr>rl_owner := Some t\<rparr>))"
| Locked: "rl_pc w t = R_locked \<Longrightarrow> rl_step w (refLock_locked t w)"
| Unlock: "rl_pc w t = R_out \<Longrightarrow> 0 < rl_depth w t \<Longrightarrow> rl_step w (refUnlock t w)"
| Release: "rl_pc w t = R_release \<Longrightarrow> rl_step w (rl_go t R_out (w\<lparr>rl_owner := None\<rparr>))"

inductive rl_reach :: "rlock \<Rightarrow> bool" where
  init: "rl_reach new_rlock"
| step: "rl_reach w \<Longrightarrow> rl_step w w' \<Longrightarrow> rl_reach w'"

definition rl_inv :: "rlock \<Rightarrow> bool" where
  "rl_inv w \<longleftrightarrow>
     \<not> rl_panic w
     \<and> (case refMutex_thread w of
          None \<Rightarrow> refMutex_count w = 0 \<and> (\<forall>t. rl_depth w t = 0)
        | Some t \<Rightarrow> 0 < refMutex_count w \<and> rl_owner w = Some t \<and> rl_depth w t = refMutex_count w \<and> (\<forall>u. u \<noteq> t \<longrightarrow> rl_depth w u = 0))
     \<and> (\<forall>t. rl_pc w t = R_locked \<or> rl_pc w t = R_release \<longrightarrow> rl_owner w = Some t \<and> refMutex_thread w = None)
     \<and> (\<forall>t. rl_pc w t = R_acquire \<longrightarrow> refMutex_thread w \<noteq> Some t)
     \<and> (\<forall>t. rl_owner w = Some t \<and> refMutex_thread w = None \<longrightarrow> rl_pc w t = R_locked \<or> rl_pc w t = R_release)"

lemmas rl_defs = rl_inv_def rl_go_def rl_entered_def refLock_check_def refLock_locked_def refUnlock_def Let_def

lemma rl_holder: "rl_inv w \<Longrightarrow> 0 < rl_depth w t \<Longrightarrow> refMutex_thread w = Some t"
  by (cases "refMutex_thread w") (auto simp: rl_inv_def, metis less_numeral_extra(3))

lemma rl_step_inv: "rl_step w w' \<Longrightarrow> rl_inv w \<Longrightarrow> rl_inv w'"
proof (induction rule: rl_step.induct)
  case (Check w t)
  then show ?case by (cases "refMutex_thread w") (auto simp: rl_defs)
next
  case (Locked w t)
  then have "rl_pc w u = R_locked \<or> rl_pc w u = R_release \<Longrightarrow> u = t" for u unfolding rl_inv_def by (metis option.inject)
  with Locked show ?case by (cases "refMutex_thread w") (auto simp: rl_defs)
next
  case (Unlock w t)
  then have "refMutex_thread w = Some t" by (blast intro: rl_holder)
  with Unlock show ?case by (cases "refMutex_thread w") (auto simp: rl_defs split: if_splits)
next
  case (Acquire w t)
  then show ?case by (cases "refMutex_thread w") (auto simp: rl_defs)
next
  case (Release w t)
  then have "rl_pc w u = R_locked \<or> rl_pc w u = R_release \<Longrightarrow> u = t" for u unfolding rl_inv_def by (metis option.inject)
  with Release show ?case by (cases "refMutex_thread w") (auto simp: rl_defs)
next
  case (Call w t)
  then show ?case by (cases "refMutex_thread w") (auto simp: rl_defs)
qed

lemma rl_reach_inv: "rl_reach w \<Longrightarrow> rl_inv w"
  by (induction rule: rl_reach.induct) (auto simp: rl_inv_def new_rlock_def dest: rl_step_inv [unfolded rl_inv_def])

lemma refLock_exclusive_parts:
  assumes "rl_reach w"
  shows "\<not> rl_panic w" and "rl_depth w t > 0 \<Longrightarrow> rl_depth w u > 0 \<Longrightarrow> t = u"
    and "rl_depth w t > 0 \<Longrightarrow> refMutex_count w = rl_depth w t \<and> rl_owner w = Some t"
    and "rl_depth w t > 0 \<Longrightarrow> rl_pc w t = R_check \<Longrightarrow> rl_depth (refLock_check t w) t = Suc (rl_depth w t)"
proof -
  have i: "rl_inv w" by (rule rl_reach_inv [OF assms])
  note h = rl_holder [OF i]
  show "\<not> rl_panic w" using i by (simp add: rl_inv_def)
  show "rl_depth w t > 0 \<Longrightarrow> rl_depth w u > 0 \<Longrightarrow> t = u" using h [of t] h [of u] by simp
  show "rl_depth w t > 0 \<Longrightarrow> refMutex_count w = rl_depth w t \<and> rl_owner w = Some t"
    using h [of t] i by (simp add: rl_inv_def)
  show "rl_depth w t > 0 \<Longrightarrow> rl_pc w t = R_check \<Longrightarrow> rl_depth (refLock_check t w) t = Suc (rl_depth w t)"
    using h [of t] by (simp add: refLock_check_def rl_entered_def rl_go_def)
qed

text \<open>C24:
  The hand-made recursive mutex is one.  With any threads, each unlocking only what it has locked,
  no thread is inside while another is, none of the four panics is reached, the count is the depth
  of the holder, and a thread that is inside enters again at once, whatever the others do.
\<close>

theorem refLock_exclusive:
  assumes "rl_reach w"
  shows "(\<not> rl_panic w) \<and>
    (rl_depth w t > 0 \<longrightarrow> rl_depth w u > 0 \<longrightarrow> t = u) \<and>
    (rl_depth w t > 0 \<longrightarrow> refMutex_count w = rl_depth w t \<and> rl_owner w = Some t) \<and>
    (rl_depth w t > 0 \<longrightarrow> rl_pc w t = R_check \<longrightarrow> rl_depth (refLock_check t w) t = Suc (rl_depth w t))"
  using refLock_exclusive_parts [OF assms] by blast

lemma rl_demo: "\<exists>w. rl_reach w \<and> rl_depth w 1 = 1 \<and> rl_pc w 1 = R_out"
proof -
  have s: "rl_reach w \<Longrightarrow> rl_step w w' \<Longrightarrow> rl_reach w'" for w w' by (rule rl_reach.step)
  from s [OF rl_reach.init rl_step.Call [of _ 1]] have "rl_reach (rl_go 1 R_check new_rlock)" by (simp add: new_rlock_def)
  from s [OF this rl_step.Check [of _ 1]] have "rl_reach (refLock_check 1 (rl_go 1 R_check new_rlock))"
    by (simp add: rl_go_def)
  from s [OF this rl_step.Acquire [of _ 1]]
  have "rl_reach (rl_go 1 R_locked ((refLock_check 1 (rl_go 1 R_check new_rlock))\<lparr>rl_owner := Some 1\<rparr>))"
    by (simp add: new_rlock_def rl_go_def refLock_check_def)
  from s [OF this rl_step.Locked [of _ 1]]
  have "rl_reach (refLock_locked 1 (rl_go 1 R_locked ((refLock_check 1 (rl_go 1 R_check new_rlock))\<lparr>rl_owner := Some 1\<rparr>)))" (is "rl_reach ?w")
    by (simp add: rl_go_def)
  moreover have "rl_depth ?w 1 = 1" "rl_pc ?w 1 = R_out"
    by (simp_all add: new_rlock_def rl_go_def refLock_check_def refLock_locked_def rl_entered_def)
  ultimately show ?thesis by blast
qed

theorem refLock_exclusive_witness: "\<exists>w. rl_reach w \<and> refMutex_count w = 1 \<and> rl_owner w = Some 1"
proof -
  obtain w where "rl_reach w" "rl_depth w 1 = 1" using rl_demo by blast
  with refLock_exclusive [of w 1] show ?thesis by auto
qed

end
