(* ===== verification/ByteRing.thy ===== *)
theory ByteRing
  imports Prelude
begin

text \<open>
  The byte ring \<open>ts2io_ring\<close> of \<open>src/arch/posix_MinGW/src/classes/ts2/c++/ts2IOdescriptor.cpp\<close>: a buffer
  shared by a consumer or producer and by the operating system, which owns the posted region until its
  completion.  Each operation runs under the mutex of the ring.  Positions stay below twice the
  capacity, far from the 32 bits of a \<open>DWORD\<close>, and are natural numbers.
\<close>

section \<open>The ring\<close>

record 'a ring =
  rg_buf :: "'a list option"
  rg_cap :: nat
  rg_head :: nat
  rg_valid :: nat
  rg_posted :: nat
  rg_eof :: bool
  rg_err :: int

definition ring_new :: "'a ring" where
  "ring_new = \<lparr>rg_buf = None, rg_cap = 0, rg_head = 0, rg_valid = 0, rg_posted = 0, rg_eof = False, rg_err = 0\<rparr>"

text \<open>\<open>mem\<close> is what \<open>malloc\<close> gives, if anything; its contents are arbitrary.\<close>

definition ring_alloc :: "'a list option \<Rightarrow> 'a ring \<Rightarrow> int \<times> 'a ring" where
  "ring_alloc mem r =
     (if rg_buf r \<noteq> None then (0, r)
      else case mem of None \<Rightarrow> (- 1, r) | Some m \<Rightarrow> (0, r\<lparr>rg_buf := Some m, rg_cap := length m\<rparr>))"

definition free_buf :: "'a ring \<Rightarrow> 'a ring" where
  "free_buf r = r\<lparr>rg_buf := None\<rparr>"

text \<open>\<open>memcpy\<close> into a list.\<close>

definition overlay :: "nat \<Rightarrow> 'a list \<Rightarrow> 'a list \<Rightarrow> 'a list" where
  "overlay i xs m = take i m @ xs @ drop (i + length xs) m"

definition copy_out :: "nat \<Rightarrow> 'a ring \<Rightarrow> 'a list \<times> 'a ring" where
  "copy_out len r =
     (case rg_buf r of
        None \<Rightarrow> ([], r)
      | Some m \<Rightarrow>
          if rg_valid r = 0 then ([], r)
          else
            let n = (if rg_valid r < len then rg_valid r else len);
                first = rg_cap r - rg_head r; first = (if first > n then n else first)
            in (take first (drop (rg_head r) m) @ (if n > first then take (n - first) m else []),
                r\<lparr>rg_head := (rg_head r + n) mod rg_cap r, rg_valid := rg_valid r - n\<rparr>))"

definition reserve_fill :: "'a ring \<Rightarrow> (nat \<times> nat) option \<times> 'a ring" where
  "reserve_fill r =
     (if rg_buf r = None \<or> rg_posted r \<noteq> 0 \<or> rg_eof r \<or> rg_err r \<noteq> 0 then (None, r)
      else
        let fill = (rg_head r + rg_valid r) mod rg_cap r;
            cfree = rg_cap r - fill; tfree = rg_cap r - rg_valid r;
            cfree = (if cfree > tfree then tfree else cfree)
        in if cfree = 0 then (None, r) else (Some (fill, cfree), r\<lparr>rg_posted := cfree\<rparr>))"

definition ERROR_OPERATION_ABORTED :: int where "ERROR_OPERATION_ABORTED = 995"
definition ERROR_HANDLE_EOF :: int where "ERROR_HANDLE_EOF = 38"
definition ERROR_BROKEN_PIPE :: int where "ERROR_BROKEN_PIPE = 109"

definition complete_fill :: "nat \<Rightarrow> int \<Rightarrow> 'a ring \<Rightarrow> 'a ring" where
  "complete_fill bytes res r0 =
     (let r = r0\<lparr>rg_posted := 0\<rparr> in
      if res = 0 then (if bytes \<noteq> 0 then r\<lparr>rg_valid := rg_valid r + bytes\<rparr> else r\<lparr>rg_eof := True\<rparr>)
      else if res = ERROR_OPERATION_ABORTED then r
      else if res = ERROR_HANDLE_EOF \<or> res = ERROR_BROKEN_PIPE then r\<lparr>rg_eof := True\<rparr>
      else r\<lparr>rg_err := res\<rparr>)"

definition copy_in :: "'a list \<Rightarrow> 'a ring \<Rightarrow> nat \<times> 'a ring" where
  "copy_in src r =
     (case rg_buf r of
        None \<Rightarrow> (0, r)
      | Some m \<Rightarrow>
          let tfree = rg_cap r - rg_valid r; n = (if tfree < length src then tfree else length src) in
          if n = 0 then (0, r)
          else
            let fill = (rg_head r + rg_valid r) mod rg_cap r;
                first = rg_cap r - fill; first = (if first > n then n else first);
                m1 = overlay fill (take first src) m;
                m2 = (if n > first then overlay 0 (take (n - first) (drop first src)) m1 else m1)
            in (n, r\<lparr>rg_buf := Some m2, rg_valid := rg_valid r + n\<rparr>))"

definition reserve_drain :: "'a ring \<Rightarrow> (nat \<times> nat) option \<times> 'a ring" where
  "reserve_drain r =
     (if rg_buf r = None \<or> rg_posted r \<noteq> 0 \<or> rg_err r \<noteq> 0 \<or> rg_valid r = 0 then (None, r)
      else
        let cdata = rg_cap r - rg_head r; cdata = (if cdata > rg_valid r then rg_valid r else cdata)
        in (Some (rg_head r, cdata), r\<lparr>rg_posted := cdata\<rparr>))"

definition complete_drain :: "nat \<Rightarrow> int \<Rightarrow> 'a ring \<Rightarrow> 'a ring" where
  "complete_drain bytes res r0 =
     (let r = r0\<lparr>rg_posted := 0\<rparr> in
      if res = 0 then r\<lparr>rg_head := (rg_head r + bytes) mod rg_cap r, rg_valid := rg_valid r - bytes\<rparr>
      else if res = ERROR_OPERATION_ABORTED then r
      else r\<lparr>rg_err := res\<rparr>)"

definition has_data :: "'a ring \<Rightarrow> bool" where "has_data r = (rg_valid r > 0)"
definition has_space :: "'a ring \<Rightarrow> bool" where "has_space r = (rg_buf r \<noteq> None \<and> rg_cap r - rg_valid r > 0)"
definition is_eof :: "'a ring \<Rightarrow> bool" where "is_eof r = rg_eof r"
definition error :: "'a ring \<Rightarrow> int" where "error r = rg_err r"

text \<open>The operating system writes into the region of a posted read, at any time before the completion.\<close>

definition os_write :: "nat \<Rightarrow> 'a list \<Rightarrow> 'a ring \<Rightarrow> 'a ring" where
  "os_write i xs r = r\<lparr>rg_buf := map_option (overlay i xs) (rg_buf r)\<rparr>"

section \<open>The ring as a queue of bytes\<close>

definition ring_ok :: "'a ring \<Rightarrow> bool" where
  "ring_ok r \<longleftrightarrow> (case rg_buf r of
      None \<Rightarrow> rg_valid r = 0 \<and> rg_posted r = 0 \<and> rg_head r = 0
    | Some m \<Rightarrow> 0 < rg_cap r \<and> length m = rg_cap r \<and> rg_head r < rg_cap r \<and> rg_valid r \<le> rg_cap r)"

definition ring_list :: "'a ring \<Rightarrow> 'a list" where
  "ring_list r = (case rg_buf r of None \<Rightarrow> [] | Some m \<Rightarrow> take (rg_valid r) (rotate (rg_head r) m))"

text \<open>The region of a posted read is free space after the valid bytes, the region of a posted write is valid.\<close>

definition fill_ok :: "'a ring \<Rightarrow> bool" where
  "fill_ok r \<longleftrightarrow> ring_ok r \<and> (rg_posted r \<noteq> 0 \<longrightarrow>
     rg_posted r \<le> rg_cap r - (rg_head r + rg_valid r) mod rg_cap r \<and> rg_valid r + rg_posted r \<le> rg_cap r)"

definition drain_ok :: "'a ring \<Rightarrow> bool" where
  "drain_ok r \<longleftrightarrow> ring_ok r \<and> (rg_posted r \<noteq> 0 \<longrightarrow> rg_posted r \<le> rg_valid r \<and> rg_posted r \<le> rg_cap r - rg_head r)"

lemma length_overlay [simp]: "i + length xs \<le> length m \<Longrightarrow> length (overlay i xs m) = length m"
  by (simp add: overlay_def)

lemma nth_overlay:
  "i + length xs \<le> length m \<Longrightarrow> k < length m \<Longrightarrow>
     overlay i xs m ! k = (if i \<le> k \<and> k < i + length xs then xs ! (k - i) else m ! k)"
  by (auto simp: overlay_def nth_append min_def)

lemma length_ring_list: "ring_ok r \<Longrightarrow> length (ring_list r) = rg_valid r"
  by (auto simp: ring_list_def ring_ok_def split: option.splits)

lemma nth_ring_list:
  "ring_ok r \<Longrightarrow> rg_buf r = Some m \<Longrightarrow> k < rg_valid r \<Longrightarrow> ring_list r ! k = m ! ((rg_head r + k) mod rg_cap r)"
  by (auto simp: ring_list_def ring_ok_def nth_rotate)

lemma mod_wrap: "a < 2 * (c::nat) \<Longrightarrow> a mod c = (if a < c then a else a - c)"
  by (simp add: mod_if)

lemma rotate_take: "n \<le> v \<Longrightarrow> v \<le> length ys \<Longrightarrow> take (v - n) (rotate n ys) = drop n (take v ys)"
proof (cases "n = length ys")
  case False
  assume "n \<le> v" "v \<le> length ys"
  with False show ?thesis by (simp add: rotate_drop_take drop_take)
qed simp

lemma copy_out_ok:
  assumes "ring_ok r" "copy_out len r = (bs, r')"
  shows "ring_ok r'" "bs = take len (ring_list r)" "ring_list r' = drop len (ring_list r)"
    "rg_posted r' = rg_posted r" "rg_eof r' = rg_eof r" "rg_err r' = rg_err r" "rg_cap r' = rg_cap r"
    "rg_buf r' = rg_buf r" "(rg_head r' + rg_valid r') mod rg_cap r = (rg_head r + rg_valid r) mod rg_cap r"
    "rg_valid r' \<le> rg_valid r"
proof -
  have "ring_ok r' \<and> bs = take len (ring_list r) \<and> ring_list r' = drop len (ring_list r)
    \<and> rg_posted r' = rg_posted r \<and> rg_eof r' = rg_eof r \<and> rg_err r' = rg_err r \<and> rg_cap r' = rg_cap r
    \<and> rg_buf r' = rg_buf r \<and> (rg_head r' + rg_valid r') mod rg_cap r = (rg_head r + rg_valid r) mod rg_cap r
    \<and> rg_valid r' \<le> rg_valid r"
  proof (cases "rg_buf r")
    case None
    with assms show ?thesis by (auto simp: copy_out_def ring_list_def)
  next
    case (Some m)
    show ?thesis
    proof (cases "rg_valid r = 0")
      case True
      with assms Some show ?thesis by (auto simp: copy_out_def ring_list_def)
    next
      case False
      let ?h = "rg_head r" and ?v = "rg_valid r" and ?c = "rg_cap r"
      define n where "n = (if ?v < len then ?v else len)"
      define f where "f = (if ?c - ?h > n then n else ?c - ?h)"
      have ok: "length m = ?c" "?h < ?c" "?v \<le> ?c" "0 < ?c" using assms(1) Some by (simp_all add: ring_ok_def)
      have "copy_out len r = (take f (drop ?h m) @ (if n > f then take (n - f) m else []), r\<lparr>rg_head := (?h + n) mod ?c, rg_valid := ?v - n\<rparr>)"
        by (simp only: copy_out_def Some option.case Let_def False if_False n_def f_def)
      then have b: "bs = take f (drop ?h m) @ (if n > f then take (n - f) m else [])" and
        r': "r' = r\<lparr>rg_head := (?h + n) mod ?c, rg_valid := ?v - n\<rparr>"
        using assms(2) by simp_all
      have rot: "rotate ?h m = drop ?h m @ take ?h m" using ok by (simp add: rotate_drop_take)
      have n: "n \<le> ?v" "take n (ring_list r) = take len (ring_list r)" "drop n (ring_list r) = drop len (ring_list r)"
        using length_ring_list [OF assms(1)] by (auto simp: n_def)
      have "bs = take n (rotate ?h m)" unfolding b rot using ok n(1) by (auto simp: f_def min_def)
      also have "\<dots> = take n (ring_list r)" using n(1) Some by (simp add: ring_list_def min_def)
      finally have "bs = take len (ring_list r)" using n(2) by simp
      moreover have "ring_list r' = drop n (ring_list r)"
      proof -
        have "rotate ((?h + n) mod ?c) m = rotate n (rotate ?h m)"
          using ok(1) by (metis rotate_rotate rotate_conv_mod add.commute)
        also have "take (?v - n) \<dots> = drop n (take ?v (rotate ?h m))" using ok n(1) by (intro rotate_take) simp_all
        finally show ?thesis using Some by (simp add: ring_list_def r')
      qed
      moreover have "((?h + n) mod ?c + (?v - n)) mod ?c = (?h + ?v) mod ?c"
        unfolding mod_add_left_eq using n(1) by simp
      ultimately show ?thesis using n ok Some by (simp add: r' ring_ok_def)
    qed
  qed
  then show "ring_ok r'" "bs = take len (ring_list r)" "ring_list r' = drop len (ring_list r)"
    "rg_posted r' = rg_posted r" "rg_eof r' = rg_eof r" "rg_err r' = rg_err r" "rg_cap r' = rg_cap r"
    "rg_buf r' = rg_buf r" "(rg_head r' + rg_valid r') mod rg_cap r = (rg_head r + rg_valid r) mod rg_cap r"
    "rg_valid r' \<le> rg_valid r" by blast+
qed

lemma mod_differs: "a < b \<Longrightarrow> b < a + c \<Longrightarrow> a mod c \<noteq> b mod (c::nat)"
proof
  assume "a < b" "b < a + c" "a mod c = b mod c"
  then have "c dvd b - a" by (metis less_imp_le_nat mod_eq_dvd_iff_nat)
  moreover have "0 < b - a" "b - a < c" using \<open>a < b\<close> \<open>b < a + c\<close> by simp_all
  ultimately show False by (simp add: nat_dvd_not_less)
qed

text \<open>The two \<open>memcpy\<close> of \<open>copy_in\<close> put byte \<open>j\<close> at the position \<open>j\<close> after the fill position and change nothing else.\<close>

lemma wrap_write:
  assumes "length m = c" "fill < c" "n \<le> c" "n \<le> length src"
  defines "f \<equiv> (if c - fill > n then n else c - fill)"
  defines "m1 \<equiv> overlay fill (take f src) m"
  defines "m2 \<equiv> (if n > f then overlay 0 (take (n - f) (drop f src)) m1 else m1)"
  shows "length m2 = c" and "j < n \<Longrightarrow> m2 ! ((fill + j) mod c) = src ! j"
    and "p < c \<Longrightarrow> (\<And>j. j < n \<Longrightarrow> p \<noteq> (fill + j) mod c) \<Longrightarrow> m2 ! p = m ! p"
proof -
  have f: "f \<le> n" "fill + f \<le> c" using assms(2) by (auto simp: f_def)
  have l1: "length (take f src) = f" using f(1) assms(4) by simp
  have l2: "length (take (n - f) (drop f src)) = n - f" using assms(4) by simp
  have nf: "n - f \<le> c" using assms(3) by simp
  have lm1: "length m1 = c" unfolding m1_def using l1 f(2) assms(1) by simp
  then show "length m2 = c" unfolding m2_def using l2 nf by simp
  have g1: "m1 ! p = (if fill \<le> p \<and> p < fill + f then src ! (p - fill) else m ! p)" if "p < c" for p
    unfolding m1_def using that l1 f(2) assms(1) by (subst nth_overlay) auto
  have g2: "m2 ! p = (if p < n - f then src ! (f + p) else m1 ! p)" if "p < c" for p
    unfolding m2_def using that l2 nf lm1 assms(4) by (auto simp: nth_overlay)
  have wrap: "(fill + j) mod c = (if fill + j < c then fill + j else fill + j - c)" if "j < n" for j
    using that assms(2,3) by (intro mod_wrap) simp
  show "m2 ! ((fill + j) mod c) = src ! j" if j: "j < n"
  proof (cases "fill + j < c")
    case True
    then have "j < f" using j by (auto simp: f_def)
    moreover have "\<not> fill + j < n - f" using True f assms(3) by (auto simp: f_def split: if_splits)
    ultimately show ?thesis using True wrap [OF j] g1 [of "fill + j"] g2 [of "fill + j"] by simp
  next
    case False
    then have "f = c - fill" using j by (auto simp: f_def)
    with False j wrap [OF j] g2 [of "fill + j - c"] assms(2,3) show ?thesis by auto
  qed
  show "m2 ! p = m ! p" if p: "p < c" "\<And>j. j < n \<Longrightarrow> p \<noteq> (fill + j) mod c"
  proof -
    have "\<not> p < n - f"
    proof
      assume a: "p < n - f"
      then have e: "f = c - fill" by (auto simp: f_def split: if_splits)
      have "p + f < n" using a by simp
      from p(2) [OF this] wrap [OF this] e assms(2) show False by auto
    qed
    moreover have "\<not> (fill \<le> p \<and> p < fill + f)"
    proof
      assume a: "fill \<le> p \<and> p < fill + f"
      then have "p - fill < n" using f(1) by linarith
      from p(2) [OF this] wrap [OF this] a p(1) show False by auto
    qed
    ultimately show ?thesis using g1 [OF p(1)] g2 [OF p(1)] by auto
  qed
qed

lemma copy_in_ok:
  assumes "ring_ok r" "copy_in src r = (n, r')"
  shows "ring_ok r'" "n \<le> length src" "ring_list r' = ring_list r @ take n src"
    "n = 0 \<longrightarrow> rg_buf r = None \<or> rg_valid r = rg_cap r \<or> src = []"
    "rg_posted r' = rg_posted r" "rg_err r' = rg_err r" "rg_head r' = rg_head r" "rg_cap r' = rg_cap r" "rg_valid r' = rg_valid r + n"
    "rg_eof r' = rg_eof r" "rg_buf r' = None \<longleftrightarrow> rg_buf r = None"
proof -
  have "ring_ok r' \<and> n \<le> length src \<and> ring_list r' = ring_list r @ take n src
    \<and> (n = 0 \<longrightarrow> rg_buf r = None \<or> rg_valid r = rg_cap r \<or> src = [])
    \<and> rg_posted r' = rg_posted r \<and> rg_err r' = rg_err r \<and> rg_head r' = rg_head r \<and> rg_cap r' = rg_cap r \<and> rg_valid r' = rg_valid r + n
    \<and> rg_eof r' = rg_eof r \<and> (rg_buf r' = None \<longleftrightarrow> rg_buf r = None)"
  proof (cases "rg_buf r")
    case None
    with assms show ?thesis by (auto simp: copy_in_def ring_list_def)
  next
    case (Some m)
    let ?h = "rg_head r" and ?v = "rg_valid r" and ?c = "rg_cap r"
    have ok: "length m = ?c" "?h < ?c" "?v \<le> ?c" "0 < ?c" using assms(1) Some by (simp_all add: ring_ok_def)
    define k where "k = (if ?c - ?v < length src then ?c - ?v else length src)"
    show ?thesis
    proof (cases "k = 0")
      case True
      then have "copy_in src r = (0, r)" by (simp only: copy_in_def Some option.case Let_def k_def if_True simp_thms)
      with assms True Some ok show ?thesis by (auto simp: k_def split: if_splits)
    next
      case False
      let ?fill = "(?h + ?v) mod ?c"
      define f where "f = (if ?c - ?fill > k then k else ?c - ?fill)"
      define m1 where "m1 = overlay ?fill (take f src) m"
      define m2 where "m2 = (if k > f then overlay 0 (take (k - f) (drop f src)) m1 else m1)"
      have "copy_in src r = (k, r\<lparr>rg_buf := Some m2, rg_valid := ?v + k\<rparr>)"
        using False by (simp only: copy_in_def Some option.case Let_def k_def m2_def m1_def f_def if_False)
      then have r': "n = k" "r' = r\<lparr>rg_buf := Some m2, rg_valid := ?v + k\<rparr>" using assms(2) by simp_all
      have k: "k \<le> length src" "?v + k \<le> ?c" using ok by (auto simp: k_def)
      have fl: "?fill < ?c" using ok(4) by simp
      note w = wrap_write [OF ok(1) fl _ k(1), folded f_def, folded m1_def, folded m2_def]
      have kc: "k \<le> ?c" using k(2) by simp
      have ok': "ring_ok r'" using ok k w(1) [OF kc] by (simp add: r' ring_ok_def)
      have "ring_list r' = ring_list r @ take k src"
      proof (rule nth_equalityI)
        show "length (ring_list r') = length (ring_list r @ take k src)"
          using length_ring_list [OF ok'] length_ring_list [OF assms(1)] k(1) by (simp add: r')
      next
        fix i assume "i < length (ring_list r')"
        then have i: "i < ?v + k" using length_ring_list [OF ok'] by (simp add: r')
        have get: "ring_list r' ! i = m2 ! ((?h + i) mod ?c)"
          using nth_ring_list [OF ok', of m2 i] i by (simp add: r')
        show "ring_list r' ! i = (ring_list r @ take k src) ! i"
        proof (cases "i < ?v")
          case True
          have "(?h + i) mod ?c \<noteq> (?fill + j) mod ?c" if "j < k" for j
            using mod_differs [of "?h + i" "?h + ?v + j" ?c] that True k(2) by (simp add: mod_add_left_eq)
          from w(3) [OF kc mod_less_divisor [OF ok(4)] this] nth_ring_list [OF assms(1) Some True] True length_ring_list [OF assms(1)]
          show ?thesis unfolding get by (simp add: nth_append)
        next
          case False
          have "(?fill + (i - ?v)) mod ?c = (?h + i) mod ?c" unfolding mod_add_left_eq using False by simp
          with w(2) [OF kc, of "i - ?v"] False i length_ring_list [OF assms(1)] show ?thesis
            unfolding get by (simp add: nth_append)
        qed
      qed
      with ok' k False Some show ?thesis by (simp add: r')
    qed
  qed
  then show "ring_ok r'" "n \<le> length src" "ring_list r' = ring_list r @ take n src"
    "n = 0 \<longrightarrow> rg_buf r = None \<or> rg_valid r = rg_cap r \<or> src = []"
    "rg_posted r' = rg_posted r" "rg_err r' = rg_err r" "rg_head r' = rg_head r" "rg_cap r' = rg_cap r" "rg_valid r' = rg_valid r + n"
    "rg_eof r' = rg_eof r" "rg_buf r' = None \<longleftrightarrow> rg_buf r = None" by blast+
qed

section \<open>The regions of the system\<close>

lemma ring_list_fields:
  "ring_list (r\<lparr>rg_posted := p\<rparr>) = ring_list r" "ring_list (r\<lparr>rg_eof := e\<rparr>) = ring_list r" "ring_list (r\<lparr>rg_err := x\<rparr>) = ring_list r"
  "ring_ok (r\<lparr>rg_posted := p\<rparr>) \<longleftrightarrow> (if rg_buf r = None then rg_valid r = 0 \<and> p = 0 \<and> rg_head r = 0 else ring_ok r)"
  "ring_ok (r\<lparr>rg_eof := e\<rparr>) = ring_ok r" "ring_ok (r\<lparr>rg_err := x\<rparr>) = ring_ok r"
  by (auto simp: ring_list_def ring_ok_def split: option.splits)

text \<open>The content of a region that starts at the head is a prefix of the queue.\<close>

lemma head_region:
  assumes "ring_ok r" "rg_buf r = Some m" "n \<le> rg_valid r" "n \<le> rg_cap r - rg_head r"
  shows "take n (drop (rg_head r) m) = take n (ring_list r)"
proof -
  have "rotate (rg_head r) m = drop (rg_head r) m @ take (rg_head r) m"
    using assms(1,2) by (simp add: ring_ok_def rotate_drop_take)
  then show ?thesis using assms by (auto simp: ring_list_def ring_ok_def min_def)
qed

lemma reserve_fill_ok:
  assumes "ring_ok r" "rg_posted r = 0" "reserve_fill r = (x, r')"
  shows "ring_list r' = ring_list r" "rg_buf r' = rg_buf r" "rg_eof r' = rg_eof r" "rg_err r' = rg_err r" "rg_valid r' = rg_valid r"
    "rg_head r' = rg_head r" "rg_cap r' = rg_cap r" "fill_ok r'"
    "x = None \<Longrightarrow> r' = r \<and> (rg_buf r = None \<or> rg_eof r \<or> rg_err r \<noteq> 0 \<or> rg_valid r = rg_cap r)"
    "x = Some (p, n) \<Longrightarrow> 0 < n \<and> rg_posted r' = n \<and> p = (rg_head r + rg_valid r) mod rg_cap r"
proof -
  show "ring_list r' = ring_list r" "rg_buf r' = rg_buf r" "rg_eof r' = rg_eof r" "rg_err r' = rg_err r" "rg_valid r' = rg_valid r"
    "rg_head r' = rg_head r" "rg_cap r' = rg_cap r"
    using assms(3) by (auto simp: reserve_fill_def Let_def ring_list_fields split: if_splits)
  show "fill_ok r'"
    using assms by (auto simp: reserve_fill_def Let_def fill_ok_def ring_list_fields split: if_splits)
  show "x = None \<Longrightarrow> r' = r \<and> (rg_buf r = None \<or> rg_eof r \<or> rg_err r \<noteq> 0 \<or> rg_valid r = rg_cap r)"
  proof -
    assume "x = None"
    moreover have "(rg_head r + rg_valid r) mod rg_cap r < rg_cap r \<and> rg_valid r \<le> rg_cap r" if "rg_buf r \<noteq> None"
      using assms(1) that by (auto simp: ring_ok_def)
    ultimately show ?thesis using assms(2,3) by (auto simp: reserve_fill_def Let_def split: if_splits)
  qed
  show "x = Some (p, n) \<Longrightarrow> 0 < n \<and> rg_posted r' = n \<and> p = (rg_head r + rg_valid r) mod rg_cap r"
    using assms(3) by (auto simp: reserve_fill_def Let_def split: if_splits)
qed

lemma os_write_ok:
  assumes "fill_ok r" "rg_posted r \<noteq> 0" "(rg_head r + rg_valid r) mod rg_cap r \<le> i"
    "i + length xs \<le> (rg_head r + rg_valid r) mod rg_cap r + rg_posted r"
  shows "ring_list (os_write i xs r) = ring_list r" "fill_ok (os_write i xs r)"
proof -
  let ?f = "(rg_head r + rg_valid r) mod rg_cap r" and ?c = "rg_cap r"
  have ok: "ring_ok r" using assms(1) by (simp add: fill_ok_def)
  obtain m where m: "rg_buf r = Some m" using ok assms(2) by (auto simp: ring_ok_def split: option.splits)
  have l: "length m = ?c" "rg_head r < ?c" "rg_valid r \<le> ?c" using ok m by (simp_all add: ring_ok_def)
  have reg: "rg_posted r \<le> ?c - ?f" "rg_valid r + rg_posted r \<le> ?c" using assms(1,2) by (simp_all add: fill_ok_def)
  have fc: "?f < ?c" using l(2) by simp
  have il: "i + length xs \<le> length m" using assms(4) reg(1) fc l(1) by simp
  have ok': "ring_ok (os_write i xs r)" using ok m il by (simp add: ring_ok_def os_write_def)
  show "fill_ok (os_write i xs r)" using assms(1) ok' by (simp add: fill_ok_def os_write_def)
  show "ring_list (os_write i xs r) = ring_list r"
  proof (rule nth_equalityI)
    show "length (ring_list (os_write i xs r)) = length (ring_list r)"
      using length_ring_list [OF ok'] length_ring_list [OF ok] by (simp add: os_write_def)
  next
    fix k assume "k < length (ring_list (os_write i xs r))"
    then have k: "k < rg_valid r" using length_ring_list [OF ok'] by (simp add: os_write_def)
    let ?p = "(rg_head r + k) mod ?c"
    have "\<not> (i \<le> ?p \<and> ?p < i + length xs)"
    proof
      assume "i \<le> ?p \<and> ?p < i + length xs"
      then have p: "?f \<le> ?p" "?p < ?f + rg_posted r" using assms(3,4) by auto
      define j where "j = ?p - ?f"
      have j: "j < rg_posted r" "?p = ?f + j" using p by (auto simp: j_def)
      have "(rg_head r + rg_valid r + j) mod ?c = (?f + j) mod ?c" by (simp add: mod_add_left_eq)
      also have "\<dots> = ?p" unfolding j(2) [symmetric] using l(2) by simp
      finally show False using mod_differs [of "rg_head r + k" "rg_head r + rg_valid r + j" ?c] k j(1) reg(2) by simp
    qed
    moreover have "?p < length m" using l by simp
    ultimately show "ring_list (os_write i xs r) ! k = ring_list r ! k"
      using nth_ring_list [OF ok' _ _, of "overlay i xs m" k] nth_ring_list [OF ok m k] k m il
      by (auto simp: os_write_def nth_overlay)
  qed
qed

lemma complete_fill_ok:
  assumes "fill_ok r" "rg_buf r = Some m" "rg_posted r \<noteq> 0" "bytes \<le> rg_posted r"
  shows "ring_list (complete_fill bytes res r)
      = ring_list r @ (if res = 0 then take bytes (drop ((rg_head r + rg_valid r) mod rg_cap r) m) else [])"
    and "ring_ok (complete_fill bytes res r)" "rg_posted (complete_fill bytes res r) = 0" "rg_buf (complete_fill bytes res r) = Some m"
    and "has_data (complete_fill bytes res r) \<or> is_eof (complete_fill bytes res r) \<or> error (complete_fill bytes res r) \<noteq> 0
      \<or> res = ERROR_OPERATION_ABORTED"
proof -
  let ?f = "(rg_head r + rg_valid r) mod rg_cap r" and ?c = "rg_cap r" and ?r = "complete_fill bytes res r"
  have ok: "ring_ok r" using assms(1) by (simp add: fill_ok_def)
  have l: "length m = ?c" "rg_head r < ?c" "rg_valid r \<le> ?c" "0 < ?c" using ok assms(2) by (simp_all add: ring_ok_def)
  have reg: "rg_posted r \<le> ?c - ?f" "rg_valid r + rg_posted r \<le> ?c" using assms(1,3) by (simp_all add: fill_ok_def)
  show ok': "ring_ok ?r" using ok assms(2,4) reg by (auto simp: complete_fill_def Let_def ring_ok_def)
  show "rg_posted ?r = 0" "rg_buf ?r = Some m" using assms(2) by (simp_all add: complete_fill_def Let_def)
  show "has_data ?r \<or> is_eof ?r \<or> error ?r \<noteq> 0 \<or> res = ERROR_OPERATION_ABORTED"
    by (auto simp: complete_fill_def Let_def has_data_def is_eof_def error_def)
  show "ring_list ?r = ring_list r @ (if res = 0 then take bytes (drop ?f m) else [])"
  proof (cases "res = 0 \<and> bytes \<noteq> 0")
    case False
    then show ?thesis by (auto simp: complete_fill_def Let_def ring_list_fields)
  next
    case True
    have fc: "?f < ?c" using l(4) by simp
    have v: "rg_valid ?r = rg_valid r + bytes" "rg_head ?r = rg_head r" "rg_cap ?r = ?c" "rg_buf ?r = Some m"
      using True assms(2) by (simp_all add: complete_fill_def Let_def)
    show ?thesis
    proof (rule nth_equalityI)
      show "length (ring_list ?r) = length (ring_list r @ (if res = 0 then take bytes (drop ?f m) else []))"
        using length_ring_list [OF ok'] length_ring_list [OF ok] v(1) True l(1) fc assms(4) reg(1) by simp
    next
      fix k assume "k < length (ring_list ?r)"
      then have k: "k < rg_valid r + bytes" using length_ring_list [OF ok'] v(1) by simp
      have get: "ring_list ?r ! k = m ! ((rg_head r + k) mod ?c)"
        using nth_ring_list [OF ok' v(4), of k] k v by simp
      show "ring_list ?r ! k = (ring_list r @ (if res = 0 then take bytes (drop ?f m) else [])) ! k"
      proof (cases "k < rg_valid r")
        case True
        then show ?thesis using get nth_ring_list [OF ok assms(2) True] length_ring_list [OF ok] by (simp add: nth_append)
      next
        case False
        then obtain j where j: "k = rg_valid r + j" "j < bytes" using k by (metis add_less_cancel_left le_Suc_ex not_less)
        have "(rg_head r + k) mod ?c = (?f + j) mod ?c" using j(1) by (simp add: mod_add_left_eq add.assoc)
        also have "\<dots> = ?f + j" using j(2) assms(4) reg(1) fc by simp
        finally show ?thesis using get j True l(1) fc length_ring_list [OF ok] by (simp add: nth_append)
      qed
    qed
  qed
qed

lemma copy_out_fill: "fill_ok r \<Longrightarrow> copy_out len r = (bs, r') \<Longrightarrow> fill_ok r'"
  using copy_out_ok [of r len bs r'] by (auto simp: fill_ok_def)

lemma reserve_drain_ok:
  assumes "ring_ok r" "rg_posted r = 0" "reserve_drain r = (x, r')"
  shows "ring_list r' = ring_list r" "rg_buf r' = rg_buf r" "rg_err r' = rg_err r" "rg_valid r' = rg_valid r"
    "rg_head r' = rg_head r" "rg_cap r' = rg_cap r" "drain_ok r'"
    "x = None \<Longrightarrow> r' = r \<and> (rg_err r \<noteq> 0 \<or> rg_valid r = 0)"
    "x = Some (p, n) \<Longrightarrow> 0 < n \<and> rg_posted r' = n \<and> p = rg_head r"
proof -
  show "ring_list r' = ring_list r" "rg_buf r' = rg_buf r" "rg_err r' = rg_err r" "rg_valid r' = rg_valid r"
    "rg_head r' = rg_head r" "rg_cap r' = rg_cap r"
    using assms(3) by (auto simp: reserve_drain_def Let_def ring_list_fields split: if_splits)
  show "drain_ok r'"
    using assms by (auto simp: reserve_drain_def Let_def drain_ok_def ring_list_fields split: if_splits)
  show "x = None \<Longrightarrow> r' = r \<and> (rg_err r \<noteq> 0 \<or> rg_valid r = 0)"
    using assms by (auto simp: reserve_drain_def Let_def ring_ok_def split: if_splits option.splits)
  show "x = Some (p, n) \<Longrightarrow> 0 < n \<and> rg_posted r' = n \<and> p = rg_head r"
    using assms by (auto simp: reserve_drain_def Let_def ring_ok_def split: if_splits option.splits)
qed

lemma copy_in_buf:
  assumes "copy_in src r = (n, r')"
  shows "rg_buf r' = None \<longleftrightarrow> rg_buf r = None"
proof -
  have "rg_buf (snd (copy_in src r)) = None \<longleftrightarrow> rg_buf r = None"
    by (cases "rg_buf r") (simp_all add: copy_in_def Let_def)
  with assms show ?thesis by simp
qed

lemma copy_in_drain: "drain_ok r \<Longrightarrow> copy_in src r = (n, r') \<Longrightarrow> drain_ok r'"
  using copy_in_ok [of r src n r'] by (auto simp: drain_ok_def)

lemma complete_drain_ok:
  assumes "drain_ok r" "rg_buf r = Some m" "rg_posted r \<noteq> 0" "bytes \<le> rg_posted r"
  shows "take bytes (drop (rg_head r) m) = take bytes (ring_list r)"
    and "ring_list (complete_drain bytes res r) = (if res = 0 then drop bytes (ring_list r) else ring_list r)"
    and "ring_ok (complete_drain bytes res r)" "rg_posted (complete_drain bytes res r) = 0" "rg_buf (complete_drain bytes res r) = Some m"
proof -
  let ?c = "rg_cap r" and ?r = "complete_drain bytes res r"
  have ok: "ring_ok r" using assms(1) by (simp add: drain_ok_def)
  have l: "length m = ?c" "rg_head r < ?c" "rg_valid r \<le> ?c" using ok assms(2) by (simp_all add: ring_ok_def)
  have reg: "rg_posted r \<le> rg_valid r" "rg_posted r \<le> ?c - rg_head r" using assms(1,3) by (simp_all add: drain_ok_def)
  show "take bytes (drop (rg_head r) m) = take bytes (ring_list r)"
    using head_region [OF ok assms(2), of bytes] assms(4) reg by simp
  show "ring_ok ?r" using ok assms(2) by (auto simp: complete_drain_def Let_def ring_ok_def)
  show "rg_posted ?r = 0" "rg_buf ?r = Some m" using assms(2) by (simp_all add: complete_drain_def Let_def)
  have "rotate ((rg_head r + bytes) mod ?c) m = rotate bytes (rotate (rg_head r) m)"
    using l(1) by (metis rotate_rotate rotate_conv_mod add.commute)
  then have "take (rg_valid r - bytes) (rotate ((rg_head r + bytes) mod ?c) m) = drop bytes (take (rg_valid r) (rotate (rg_head r) m))"
    using rotate_take [of bytes "rg_valid r" "rotate (rg_head r) m"] l assms(4) reg(1) by simp
  then show "ring_list ?r = (if res = 0 then drop bytes (ring_list r) else ring_list r)"
    using assms(2) by (auto simp: complete_drain_def Let_def ring_list_def)
qed

end
