(* ===== verification/Descriptor.thy ===== *)
theory Descriptor
  imports ByteRing "HOL-Library.Sublist"
begin

text \<open>
  The descriptor \<open>ts2IOdescriptor_\<close> of \<open>src/arch/posix_MinGW/src/classes/ts2/c++/ts2IOdescriptor.cpp\<close>: a
  state machine that moves bytes between its callers and a Windows \<open>HANDLE\<close> through one ring per
  direction.  \<open>read\<close> and \<open>write\<close> copy, park the caller or fail; the pump (\<open>ACT_START\<close>) wakes callers
  and posts reads and writes; \<open>io_cb\<close> runs on a thread of the operating system when a posted operation
  completes, also while the teardown thread flushes and waits.  The operating system is the environment:
  what \<open>malloc\<close>, \<open>CreateThreadpoolIo\<close>, \<open>ReadFile\<close> and \<open>WriteFile\<close> answer are arguments of the
  operations, completions are steps that may come at any time while an operation is outstanding.
\<close>

section \<open>The descriptor\<close>

datatype io_state = TS2IO_ACTIVE | TS2IO_ERROR | TS2IO_CLOSE

text \<open>Where the machine stands: resting in \<open>ACT_START\<close>, or at a line of the teardown.\<close>

datatype dpc = Act | Fin_start | Wait_inflight | Flush_loop | Wait_drain | Cancel_all | Release | Wake_rest | Finished

record 'a desc =
  d_fd :: bool
  d_io :: bool
  d_tpio :: bool
  d_closing :: bool
  d_rbuf :: "'a ring option"
  d_wbuf :: "'a ring option"
  d_rwait :: "nat list"
  d_wwait :: "nat list"
  d_err :: int
  d_state :: io_state
  d_refio :: nat
  d_kick :: bool
  d_destroyed :: bool
  d_pc :: dpc
  d_rop :: bool
  d_wop :: bool

text \<open>\<open>d_rop\<close>, \<open>d_wop\<close>: a read, a write is posted and its callback has not run.  What an operation does to
  the outside is a list of events.\<close>

datatype 'a dev =
    Delivered nat "'a list"
  | Accepted nat "'a list"
  | Filled "'a list"
  | Drained "'a list"
  | Read_failed int
  | Write_failed int
  | Write_error int
  | Woken nat

definition desc_new :: "bool \<Rightarrow> bool \<Rightarrow> 'a desc" where
  "desc_new fd io = \<lparr>d_fd = fd, d_io = io, d_tpio = False, d_closing = False, d_rbuf = None, d_wbuf = None,
     d_rwait = [], d_wwait = [], d_err = 0, d_state = TS2IO_ACTIVE, d_refio = 0, d_kick = False,
     d_destroyed = False, d_pc = Act, d_rop = False, d_wop = False\<rparr>"

definition EBADF :: int where "EBADF = 9"
definition ENOMEM :: int where "ENOMEM = 12"
definition ENOTSUP :: int where "ENOTSUP = 129"
definition TS2IO_RING_CAP :: nat where "TS2IO_RING_CAP = 64 * 1024"

definition dword :: "int \<Rightarrow> nat" where "dword i = nat (i mod 2 ^ 32)"

definition ensure_tpio :: "bool \<Rightarrow> 'a desc \<Rightarrow> int \<times> 'a desc" where
  "ensure_tpio created d =
     (if d_tpio d then (0, d)
      else if \<not> d_fd d then (- 1, d)
      else if created then (0, d\<lparr>d_tpio := True\<rparr>) else (- 1, d))"

definition wakeup :: "'a desc \<Rightarrow> 'a desc" where "wakeup d = d\<lparr>d_kick := True\<rparr>"

datatype 'a result = Bytes "'a list" | Count nat | End_of_file | Failed | Parked

definition park :: "nat \<Rightarrow> nat list \<Rightarrow> nat list" where
  "park c ws = filter (\<lambda>x. x \<noteq> c) ws @ [c]"

definition read_d :: "'a list option \<Rightarrow> bool \<Rightarrow> nat \<Rightarrow> int \<Rightarrow> 'a desc \<Rightarrow> 'a result \<times> 'a desc" where
  "read_d mem created c len d0 =
     (if d_pc d0 \<noteq> Act then (Failed, d0\<lparr>d_err := EBADF\<rparr>)
      else
        let r0 = (case d_rbuf d0 of None \<Rightarrow> ring_new | Some r \<Rightarrow> r);
            (e, r) = ring_alloc mem r0;
            d = d0\<lparr>d_rbuf := Some r\<rparr>
        in if e < 0 then (Failed, d\<lparr>d_err := ENOMEM\<rparr>)
        else
          let (e, d) = ensure_tpio created d
          in if e < 0 then (Failed, d\<lparr>d_err := ENOTSUP, d_state := TS2IO_ERROR\<rparr>)
          else
            let (bs, r) = copy_out (dword len) r;
                d = d\<lparr>d_rbuf := Some r\<rparr>
            in if bs \<noteq> [] then (Bytes bs, wakeup d)
            else if is_eof r then (End_of_file, d)
            else if error r \<noteq> 0 then (Failed, d\<lparr>d_err := error r, d_state := TS2IO_ERROR\<rparr>)
            else (Parked, wakeup (d\<lparr>d_rwait := park c (d_rwait d)\<rparr>)))"

text \<open>\<open>write\<close> kicks the pump before it parks its caller.\<close>

definition write_try :: "'a list option \<Rightarrow> bool \<Rightarrow> 'a list \<Rightarrow> 'a desc \<Rightarrow> 'a result option \<times> 'a desc" where
  "write_try mem created src d0 =
     (if d_pc d0 \<noteq> Act then (Some Failed, d0\<lparr>d_err := EBADF\<rparr>)
      else
        let r0 = (case d_wbuf d0 of None \<Rightarrow> ring_new | Some r \<Rightarrow> r);
            (e, r) = ring_alloc mem r0;
            d = d0\<lparr>d_wbuf := Some r\<rparr>
        in if e < 0 then (Some Failed, d\<lparr>d_err := ENOMEM\<rparr>)
        else
          let (e, d) = ensure_tpio created d
          in if e < 0 then (Some Failed, d\<lparr>d_err := ENOTSUP, d_state := TS2IO_ERROR\<rparr>)
          else if error r \<noteq> 0 then (Some Failed, d\<lparr>d_err := error r, d_state := TS2IO_ERROR\<rparr>)
          else
            let (n, r) = copy_in src r;
                d = wakeup (d\<lparr>d_wbuf := Some r\<rparr>)
            in (if n > 0 then Some (Count n) else None, d))"

definition write_park :: "nat \<Rightarrow> 'a desc \<Rightarrow> 'a desc" where
  "write_park c d = d\<lparr>d_wwait := park c (d_wwait d)\<rparr>"

definition write_d :: "'a list option \<Rightarrow> bool \<Rightarrow> nat \<Rightarrow> 'a list \<Rightarrow> 'a desc \<Rightarrow> 'a result \<times> 'a desc" where
  "write_d mem created c src d0 =
     (case write_try mem created src d0 of
        (Some x, d) \<Rightarrow> (x, d)
      | (None, d) \<Rightarrow> (Parked, write_park c d))"

definition addRefio :: "'a desc \<Rightarrow> 'a desc" where
  "addRefio d = (if d_io d then d\<lparr>d_refio := d_refio d + 1\<rparr> else d)"

definition delRefio :: "'a desc \<Rightarrow> 'a desc" where
  "delRefio d = (if d_io d then d\<lparr>d_refio := d_refio d - 1\<rparr> else d)"

section \<open>Completions\<close>

definition on_complete :: "bool \<Rightarrow> int \<Rightarrow> nat \<Rightarrow> 'a desc \<Rightarrow> 'a desc" where
  "on_complete rd res bytes d =
     (if rd then d\<lparr>d_rbuf := map_option (complete_fill bytes res) (d_rbuf d)\<rparr>
      else d\<lparr>d_wbuf := map_option (complete_drain bytes res) (d_wbuf d)\<rparr>)"

definition io_cb :: "bool \<Rightarrow> int \<Rightarrow> nat \<Rightarrow> 'a desc \<Rightarrow> 'a desc" where
  "io_cb rd res bytes d =
     delRefio (wakeup (on_complete rd res bytes (if rd then d\<lparr>d_rop := False\<rparr> else d\<lparr>d_wop := False\<rparr>)))"

section \<open>The pump\<close>

definition wake_readers :: "'a desc \<Rightarrow> 'a dev list \<times> 'a desc" where
  "wake_readers d =
     (case d_rbuf d of
        None \<Rightarrow> ([], d)
      | Some r \<Rightarrow>
          if d_rwait d \<noteq> [] \<and> (has_data r \<or> is_eof r \<or> error r \<noteq> 0)
          then (map Woken (d_rwait d), d\<lparr>d_rwait := []\<rparr>) else ([], d))"

definition wake_writers :: "'a desc \<Rightarrow> 'a dev list \<times> 'a desc" where
  "wake_writers d =
     (case d_wbuf d of
        None \<Rightarrow> ([], d)
      | Some r \<Rightarrow>
          if d_wwait d \<noteq> [] \<and> (has_space r \<or> error r \<noteq> 0)
          then (map Woken (d_wwait d), d\<lparr>d_wwait := []\<rparr>) else ([], d))"

text \<open>\<open>ReadFile\<close> and \<open>WriteFile\<close> answer \<open>None\<close> when a completion will come and \<open>Some e\<close> when the call failed
  at once with the error \<open>e\<close>.\<close>

definition post_read :: "int option \<Rightarrow> 'a desc \<Rightarrow> 'a dev list \<times> 'a desc" where
  "post_read answer d =
     (case d_rbuf d of
        None \<Rightarrow> ([], d)
      | Some r \<Rightarrow>
          if d_rwait d = [] then ([], d)
          else (case reserve_fill r of
              (None, r) \<Rightarrow> ([], d\<lparr>d_rbuf := Some r\<rparr>)
            | (Some _, r) \<Rightarrow>
                let d = addRefio (d\<lparr>d_rbuf := Some r\<rparr>)
                in (case answer of
                      None \<Rightarrow> ([], d\<lparr>d_rop := True\<rparr>)
                    | Some e \<Rightarrow> ([Read_failed e], (delRefio d)\<lparr>d_rbuf := Some (complete_fill 0 e r)\<rparr>))))"

definition post_write :: "int option \<Rightarrow> 'a desc \<Rightarrow> bool \<times> 'a dev list \<times> 'a desc" where
  "post_write answer d =
     (case d_wbuf d of
        None \<Rightarrow> (False, [], d)
      | Some r \<Rightarrow>
          (case reserve_drain r of
              (None, r) \<Rightarrow> (False, [], d\<lparr>d_wbuf := Some r\<rparr>)
            | (Some _, r) \<Rightarrow>
                let d = addRefio (d\<lparr>d_wbuf := Some r\<rparr>)
                in (case answer of
                      None \<Rightarrow> (True, [], d\<lparr>d_wop := True\<rparr>)
                    | Some e \<Rightarrow> (False, [Write_failed e], (delRefio d)\<lparr>d_wbuf := Some (complete_drain 0 e r)\<rparr>))))"

definition pump_io :: "int option \<Rightarrow> int option \<Rightarrow> 'a desc \<Rightarrow> 'a dev list \<times> 'a desc" where
  "pump_io rd wr d =
     (let (e1, d) = wake_readers d; (e2, d) = wake_writers d
      in if d_tpio d
         then let (e3, d) = post_read rd d; (_, e4, d) = post_write wr d in (e1 @ e2 @ e3 @ e4, d)
         else (e1 @ e2, d))"

definition act_start :: "int option \<Rightarrow> int option \<Rightarrow> 'a desc \<Rightarrow> 'a dev list \<times> 'a desc" where
  "act_start rd wr d =
     (if d_destroyed d then ([], d\<lparr>d_pc := Fin_start\<rparr>) else pump_io rd wr d)"

section \<open>The teardown\<close>

text \<open>\<open>FIN_ts2IOdescriptor_START\<close> runs on its own thread without the mutex of the application; each line
  below is one of its segments between two waits.  \<open>CancelIoEx\<close> only makes completions come, with
  \<open>ERROR_OPERATION_ABORTED\<close> or with the result they already had.\<close>

definition fin_begin :: "'a desc \<Rightarrow> 'a desc" where
  "fin_begin d = d\<lparr>d_state := TS2IO_CLOSE, d_closing := True, d_pc := (if d_tpio d then Wait_inflight else Release)\<rparr>"

text \<open>One round of the loop of \<open>io_teardown_flush\<close>.\<close>

definition flush_round :: "int option \<Rightarrow> 'a desc \<Rightarrow> 'a dev list \<times> 'a desc" where
  "flush_round answer d =
     (case d_wbuf d of
        None \<Rightarrow> ([], d\<lparr>d_pc := Cancel_all\<rparr>)
      | Some r \<Rightarrow>
          if has_data r \<and> error r = 0
          then let (posted, es, d) = post_write answer d
               in (es, d\<lparr>d_pc := (if posted then Wait_drain else Cancel_all)\<rparr>)
          else ([], d\<lparr>d_pc := Cancel_all\<rparr>))"

text \<open>\<open>WaitForThreadpoolIoCallbacks(tpio,TRUE)\<close> drops callbacks that have not started.\<close>

definition cancel_all :: "'a desc \<Rightarrow> 'a desc" where
  "cancel_all d = d\<lparr>d_rop := False, d_wop := False, d_tpio := False, d_pc := Release\<rparr>"

definition io_free_buffers :: "'a desc \<Rightarrow> 'a desc" where
  "io_free_buffers d = d\<lparr>d_rbuf := None, d_wbuf := None\<rparr>"

definition fin_release :: "'a desc \<Rightarrow> 'a desc" where
  "fin_release d = (io_free_buffers (d\<lparr>d_fd := False\<rparr>))\<lparr>d_pc := Wake_rest\<rparr>"

definition fin_wake :: "'a desc \<Rightarrow> 'a dev list \<times> 'a desc" where
  "fin_wake d = (map Woken (d_rwait d) @ map Woken (d_wwait d), d\<lparr>d_rwait := [], d_wwait := [], d_pc := Finished\<rparr>)"

section \<open>The steps\<close>

definition fill_pos :: "'a ring \<Rightarrow> nat" where "fill_pos r = (rg_head r + rg_valid r) mod rg_cap r"

text \<open>The bytes an operating system that completes with \<open>bytes\<close> and \<open>res\<close> has put into the read region, or
  taken from the write region.\<close>

definition region_bytes :: "nat \<Rightarrow> int \<Rightarrow> nat \<Rightarrow> 'a ring \<Rightarrow> 'a list" where
  "region_bytes pos res bytes r =
     (case rg_buf r of None \<Rightarrow> [] | Some m \<Rightarrow> if res = 0 then take bytes (drop pos m) else [])"

definition mem_ok :: "'a list option \<Rightarrow> bool" where
  "mem_ok mem \<longleftrightarrow> (case mem of None \<Rightarrow> True | Some m \<Rightarrow> length m = TS2IO_RING_CAP)"

inductive dstep :: "'a desc \<Rightarrow> 'a dev list \<Rightarrow> 'a desc \<Rightarrow> bool" where
  reads: "mem_ok mem \<Longrightarrow> read_d mem created c len d = (x, d') \<Longrightarrow>
    dstep d (case x of Bytes bs \<Rightarrow> [Delivered c bs] | _ \<Rightarrow> []) d'"
| writes: "mem_ok mem \<Longrightarrow> write_d mem created c src d = (x, d') \<Longrightarrow>
    dstep d (case x of Count n \<Rightarrow> [Accepted c (take n src)] | _ \<Rightarrow> []) d'"
| stores: "d_rop d \<Longrightarrow> d_rbuf d = Some r \<Longrightarrow> fill_pos r \<le> i \<Longrightarrow> i + length xs \<le> fill_pos r + rg_posted r \<Longrightarrow>
    dstep d [] (d\<lparr>d_rbuf := Some (os_write i xs r)\<rparr>)"
| read_completes: "d_rop d \<Longrightarrow> d_rbuf d = Some r \<Longrightarrow> bytes \<le> rg_posted r \<Longrightarrow>
    dstep d [Filled (region_bytes (fill_pos r) res bytes r)] (io_cb True res bytes d)"
| write_completes: "d_wop d \<Longrightarrow> d_wbuf d = Some r \<Longrightarrow> bytes \<le> rg_posted r \<Longrightarrow>
    dstep d (Drained (region_bytes (rg_head r) res bytes r)
      # (if res = 0 \<or> res = ERROR_OPERATION_ABORTED then [] else [Write_error res])) (io_cb False res bytes d)"
| pumps: "d_pc d = Act \<Longrightarrow> d_kick d \<Longrightarrow> act_start rd wr (d\<lparr>d_kick := False\<rparr>) = (es, d') \<Longrightarrow> dstep d es d'"
| destroys: "dstep d [] (wakeup (d\<lparr>d_destroyed := True\<rparr>))"
| fin_begins: "d_pc d = Fin_start \<Longrightarrow> dstep d [] (fin_begin d)"
| inflight_done: "d_pc d = Wait_inflight \<Longrightarrow> \<not> d_rop d \<Longrightarrow> \<not> d_wop d \<Longrightarrow> dstep d [] (d\<lparr>d_pc := Flush_loop\<rparr>)"
| flushes: "d_pc d = Flush_loop \<Longrightarrow> flush_round answer d = (es, d') \<Longrightarrow> dstep d es d'"
| drain_done: "d_pc d = Wait_drain \<Longrightarrow> \<not> d_rop d \<Longrightarrow> \<not> d_wop d \<Longrightarrow> dstep d [] (d\<lparr>d_pc := Flush_loop\<rparr>)"
| cancels: "d_pc d = Cancel_all \<Longrightarrow> dstep d [] (cancel_all d)"
| releases: "d_pc d = Release \<Longrightarrow> dstep d [] (fin_release d)"
| wakes_rest: "d_pc d = Wake_rest \<Longrightarrow> fin_wake d = (es, d') \<Longrightarrow> dstep d es d'"

inductive druns :: "'a desc \<Rightarrow> 'a dev list \<Rightarrow> 'a desc \<Rightarrow> bool" for d0 where
  start: "druns d0 [] d0"
| next_step: "druns d0 es d \<Longrightarrow> dstep d es' d' \<Longrightarrow> druns d0 (es @ es') d'"

fun filled :: "'a dev list \<Rightarrow> 'a list" where
  "filled [] = []"
| "filled (Filled bs # es) = bs @ filled es"
| "filled (_ # es) = filled es"

fun delivered :: "'a dev list \<Rightarrow> 'a list" where
  "delivered [] = []"
| "delivered (Delivered c bs # es) = bs @ delivered es"
| "delivered (_ # es) = delivered es"

fun accepted :: "'a dev list \<Rightarrow> 'a list" where
  "accepted [] = []"
| "accepted (Accepted c bs # es) = bs @ accepted es"
| "accepted (_ # es) = accepted es"

fun drained :: "'a dev list \<Rightarrow> 'a list" where
  "drained [] = []"
| "drained (Drained bs # es) = bs @ drained es"
| "drained (_ # es) = drained es"

definition write_failed :: "'a dev list \<Rightarrow> bool" where "write_failed es \<longleftrightarrow> (\<exists>e. Write_failed e \<in> set es)"
definition write_error :: "'a dev list \<Rightarrow> bool" where "write_error es \<longleftrightarrow> (\<exists>e. Write_error e \<in> set es)"
definition read_failed :: "'a dev list \<Rightarrow> bool" where "read_failed es \<longleftrightarrow> (\<exists>e. Read_failed e \<in> set es)"

lemma filled_append [simp]: "filled (xs @ ys) = filled xs @ filled ys"
  by (induction xs rule: filled.induct) auto
lemma delivered_append [simp]: "delivered (xs @ ys) = delivered xs @ delivered ys"
  by (induction xs rule: delivered.induct) auto
lemma accepted_append [simp]: "accepted (xs @ ys) = accepted xs @ accepted ys"
  by (induction xs rule: accepted.induct) auto
lemma drained_append [simp]: "drained (xs @ ys) = drained xs @ drained ys"
  by (induction xs rule: drained.induct) auto

lemma woken_silent [simp]:
  "filled (map Woken ws) = []" "delivered (map Woken ws) = []" "accepted (map Woken ws) = []" "drained (map Woken ws) = []"
  by (induction ws) auto

lemma failed_append [simp]:
  "write_failed (xs @ ys) \<longleftrightarrow> write_failed xs \<or> write_failed ys"
  "write_error (xs @ ys) \<longleftrightarrow> write_error xs \<or> write_error ys"
  "read_failed (xs @ ys) \<longleftrightarrow> read_failed xs \<or> read_failed ys"
  by (auto simp: write_failed_def write_error_def read_failed_def)

lemma failed_simps [simp]:
  "\<not> write_failed []" "\<not> read_failed []" "\<not> write_error []"
  "\<not> write_failed (map Woken ws)" "\<not> read_failed (map Woken ws)" "\<not> write_error (map Woken ws)"
  by (auto simp: write_failed_def write_error_def read_failed_def)

lemma failed_Cons [simp]:
  "write_failed (x # es) \<longleftrightarrow> (case x of Write_failed e \<Rightarrow> True | _ \<Rightarrow> write_failed es)"
  "write_error (x # es) \<longleftrightarrow> (case x of Write_error e \<Rightarrow> True | _ \<Rightarrow> write_error es)"
  "read_failed (x # es) \<longleftrightarrow> (case x of Read_failed e \<Rightarrow> True | _ \<Rightarrow> read_failed es)"
  by (cases x; auto simp: write_failed_def write_error_def read_failed_def)+

section \<open>What holds in every state\<close>

definition rlist :: "'a ring option \<Rightarrow> 'a list" where
  "rlist b = (case b of None \<Rightarrow> [] | Some r \<Rightarrow> ring_list r)"

text \<open>The read side, the write side and the counts.  \<open>freed\<close>: the rings are gone.\<close>

definition freed :: "'a desc \<Rightarrow> bool" where "freed d \<longleftrightarrow> d_pc d \<in> {Wake_rest, Finished}"

definition rd_ring :: "bool \<Rightarrow> 'a ring option \<Rightarrow> bool" where
  "rd_ring out b \<longleftrightarrow> (case b of None \<Rightarrow> \<not> out | Some r \<Rightarrow> fill_ok r \<and> (out \<longleftrightarrow> rg_posted r \<noteq> 0))"

definition wr_ring :: "bool \<Rightarrow> 'a ring option \<Rightarrow> bool" where
  "wr_ring out b \<longleftrightarrow> (case b of None \<Rightarrow> \<not> out | Some r \<Rightarrow> drain_ok r \<and> (out \<longleftrightarrow> rg_posted r \<noteq> 0))"

definition rd_inv :: "'a dev list \<Rightarrow> 'a desc \<Rightarrow> bool" where
  "rd_inv es d \<longleftrightarrow> rd_ring (d_rop d) (d_rbuf d) \<and>
     (if freed d then prefix (delivered es) (filled es) else filled es = delivered es @ rlist (d_rbuf d))"

definition wr_err :: "'a ring option \<Rightarrow> bool" where
  "wr_err b \<longleftrightarrow> (case b of None \<Rightarrow> False | Some r \<Rightarrow> rg_err r \<noteq> 0)"

definition wr_inv :: "'a dev list \<Rightarrow> 'a desc \<Rightarrow> bool" where
  "wr_inv es d \<longleftrightarrow> wr_ring (d_wop d) (d_wbuf d) \<and> prefix (drained es) (accepted es) \<and>
     (\<not> freed d \<longrightarrow> accepted es = drained es @ rlist (d_wbuf d)) \<and>
     (wr_err (d_wbuf d) \<longrightarrow> write_failed es \<or> write_error es) \<and>
     (d_pc d \<in> {Cancel_all, Release, Wake_rest, Finished} \<longrightarrow> accepted es = drained es \<or> write_failed es \<or> write_error es)"

definition cnt_inv :: "'a desc \<Rightarrow> bool" where
  "cnt_inv d \<longleftrightarrow> d_refio d = (if d_io d then of_bool (d_rop d) + of_bool (d_wop d) else 0) \<and>
     (d_rop d \<or> d_wop d \<longrightarrow> d_tpio d) \<and>
     (d_pc d \<in> {Flush_loop, Cancel_all, Release, Wake_rest, Finished} \<longrightarrow> \<not> d_rop d \<and> \<not> d_wop d) \<and>
     (d_pc d = Wait_drain \<longrightarrow> \<not> d_rop d) \<and>
     (d_pc d \<in> {Wake_rest, Finished} \<longrightarrow> d_rbuf d = None \<and> d_wbuf d = None \<and> \<not> d_tpio d \<and> \<not> d_fd d) \<and>
     (d_pc d \<in> {Act, Fin_start} \<longrightarrow> rlist (d_wbuf d) \<noteq> [] \<longrightarrow> d_tpio d) \<and>
     (d_pc d = Release \<longrightarrow> \<not> d_tpio d) \<and>
     (d_pc d \<in> {Wait_inflight, Flush_loop, Wait_drain, Cancel_all} \<longrightarrow> d_tpio d)"

definition buffered :: "'a ring option \<Rightarrow> bool" where
  "buffered b \<longleftrightarrow> (\<exists>r m. b = Some r \<and> rg_buf r = Some m)"

definition wait_inv :: "'a dev list \<Rightarrow> 'a desc \<Rightarrow> bool" where
  "wait_inv es d \<longleftrightarrow>
     (d_pc d = Act \<longrightarrow>
        (d_rwait d \<noteq> [] \<longrightarrow> d_tpio d \<and> buffered (d_rbuf d) \<and> (d_kick d \<or> d_rop d \<or> read_failed es)) \<and>
        (d_wwait d \<noteq> [] \<longrightarrow> d_tpio d \<and> buffered (d_wbuf d) \<and> (d_kick d \<or> d_wop d \<or> write_failed es)) \<and>
        (d_destroyed d \<longrightarrow> d_kick d)) \<and>
     (d_pc d = Finished \<longrightarrow> d_rwait d = [] \<and> d_wwait d = [])"

lemma ring_alloc_ok:
  assumes "mem_ok mem" "ring_alloc mem r = (e, r')" "ring_ok r"
  shows "ring_ok r' \<and> ring_list r' = ring_list r \<and> rg_posted r' = rg_posted r \<and> rg_err r' = rg_err r \<and> rg_eof r' = rg_eof r
    \<and> (\<not> e < 0 \<longrightarrow> (\<exists>m. rg_buf r' = Some m)) \<and> (rg_buf r \<noteq> None \<longrightarrow> r' = r)"
  using assms
  by (cases "rg_buf r"; cases mem)
    (auto simp: ring_alloc_def ring_ok_def mem_ok_def ring_list_def TS2IO_RING_CAP_def split: option.splits)

lemma ring_new_ok [simp]:
  "ring_ok ring_new" "ring_list ring_new = []" "fill_ok ring_new" "drain_ok ring_new" "rg_posted ring_new = 0" "rg_err ring_new = 0"
  "rg_buf ring_new = None"
  by (simp_all add: ring_new_def ring_ok_def ring_list_def fill_ok_def drain_ok_def)

lemma ring_ok_unposted: "ring_ok r \<Longrightarrow> rg_buf r = None \<Longrightarrow> rg_posted r = 0"
  by (simp add: ring_ok_def)

lemma rd_alloc:
  assumes "mem_ok mem" "rd_ring out b" "ring_alloc mem (case b of None \<Rightarrow> ring_new | Some r \<Rightarrow> r) = (e, r)"
  shows "fill_ok r \<and> (out \<longleftrightarrow> rg_posted r \<noteq> 0) \<and> ring_list r = rlist b \<and> (\<not> e < 0 \<longrightarrow> (\<exists>m. rg_buf r = Some m))
    \<and> ((\<exists>r0 m. b = Some r0 \<and> rg_buf r0 = Some m) \<longrightarrow> (\<exists>m. rg_buf r = Some m))"
proof (cases b)
  case None
  with assms ring_alloc_ok [of mem ring_new e r] show ?thesis by (auto simp: rd_ring_def rlist_def fill_ok_def)
next
  case (Some r0)
  with assms ring_alloc_ok [of mem r0 e r] ring_ok_unposted [of r0] show ?thesis
    by (cases "rg_buf r0") (auto simp: rd_ring_def rlist_def fill_ok_def)
qed

lemma wr_alloc:
  assumes "mem_ok mem" "wr_ring out b" "ring_alloc mem (case b of None \<Rightarrow> ring_new | Some r \<Rightarrow> r) = (e, r)"
  shows "drain_ok r \<and> (out \<longleftrightarrow> rg_posted r \<noteq> 0) \<and> ring_list r = rlist b \<and> (\<not> e < 0 \<longrightarrow> (\<exists>m. rg_buf r = Some m))
    \<and> ((\<exists>r0 m. b = Some r0 \<and> rg_buf r0 = Some m) \<longrightarrow> (\<exists>m. rg_buf r = Some m)) \<and> (wr_err (Some r) \<longleftrightarrow> wr_err b)"
proof (cases b)
  case None
  with assms ring_alloc_ok [of mem ring_new e r] show ?thesis by (auto simp: wr_ring_def rlist_def drain_ok_def wr_err_def)
next
  case (Some r0)
  with assms ring_alloc_ok [of mem r0 e r] ring_ok_unposted [of r0] show ?thesis
    by (cases "rg_buf r0") (auto simp: wr_ring_def rlist_def drain_ok_def wr_err_def)
qed

text \<open>What \<open>read\<close> and \<open>write\<close> do to a descriptor whose rings are in order.\<close>

abbreviation read_frame :: "'a desc \<Rightarrow> 'a desc \<Rightarrow> bool" where
  "read_frame d d' \<equiv> d_rop d' = d_rop d \<and> d_wop d' = d_wop d \<and> d_wbuf d' = d_wbuf d \<and> d_wwait d' = d_wwait d \<and>
     d_refio d' = d_refio d \<and> d_io d' = d_io d \<and> d_pc d' = d_pc d \<and> d_fd d' = d_fd d \<and>
     d_destroyed d' = d_destroyed d \<and> (d_tpio d \<longrightarrow> d_tpio d') \<and> (d_kick d \<longrightarrow> d_kick d')"

lemma ensure_tpio_cases:
  assumes "ensure_tpio created d = (e, d')"
  obtains t where "d' = d\<lparr>d_tpio := t\<rparr>" "d_tpio d \<longrightarrow> t" "\<not> e < 0 \<longrightarrow> t"
proof -
  from assms have "d' = d\<lparr>d_tpio := d_tpio d'\<rparr> \<and> (d_tpio d \<longrightarrow> d_tpio d') \<and> (\<not> e < 0 \<longrightarrow> d_tpio d')"
    by (auto simp: ensure_tpio_def split: if_splits)
  then show ?thesis using that by blast
qed

lemma read_d_effect:
  assumes "mem_ok mem" "rd_ring (d_rop d) (d_rbuf d)" "read_d mem created c len d = (x, d')"
  shows "read_frame d d' \<and> rd_ring (d_rop d') (d_rbuf d')
    \<and> rlist (d_rbuf d) = (case x of Bytes bs \<Rightarrow> bs | _ \<Rightarrow> []) @ rlist (d_rbuf d')
    \<and> (buffered (d_rbuf d) \<longrightarrow> buffered (d_rbuf d'))
    \<and> (if x = Parked then d_rwait d' = park c (d_rwait d) \<and> d_kick d' \<and> d_tpio d' \<and> buffered (d_rbuf d')
       else d_rwait d' = d_rwait d)
    \<and> (d_pc d \<noteq> Act \<longrightarrow> x = Failed \<and> d_err d' = EBADF \<and> d_rbuf d' = d_rbuf d \<and> d_tpio d' = d_tpio d)"
proof (cases "d_pc d = Act")
  case False
  then show ?thesis using assms by (auto simp: read_d_def)
next
  case act: True
  obtain e r where al: "ring_alloc mem (case d_rbuf d of None \<Rightarrow> ring_new | Some r \<Rightarrow> r) = (e, r)" by fastforce
  note R = rd_alloc [OF assms(1,2) al]
  obtain e2 d2 where et: "ensure_tpio created (d\<lparr>d_rbuf := Some r\<rparr>) = (e2, d2)" by fastforce
  obtain t where D: "d2 = d\<lparr>d_rbuf := Some r, d_tpio := t\<rparr>" "d_tpio d \<longrightarrow> t" "\<not> e2 < 0 \<longrightarrow> t"
    by (rule ensure_tpio_cases [OF et]) simp
  obtain bs r2 where co: "copy_out (dword len) r = (bs, r2)" by fastforce
  have okr: "ring_ok r" using R by (simp add: fill_ok_def)
  note C = copy_out_ok [OF okr co]
  have fr2: "fill_ok r2" using copy_out_fill [OF _ co] R by blast
  have split: "ring_list r = bs @ ring_list r2" using C(2,3) by simp
  have same: "read_d mem created c len d =
     (if e < 0 then (Failed, d\<lparr>d_rbuf := Some r, d_err := ENOMEM\<rparr>)
      else if e2 < 0 then (Failed, d2\<lparr>d_err := ENOTSUP, d_state := TS2IO_ERROR\<rparr>)
      else if bs \<noteq> [] then (Bytes bs, wakeup (d2\<lparr>d_rbuf := Some r2\<rparr>))
      else if is_eof r2 then (End_of_file, d2\<lparr>d_rbuf := Some r2\<rparr>)
      else if error r2 \<noteq> 0 then (Failed, d2\<lparr>d_rbuf := Some r2, d_err := error r2, d_state := TS2IO_ERROR\<rparr>)
      else (Parked, wakeup (d2\<lparr>d_rbuf := Some r2, d_rwait := park c (d_rwait d2)\<rparr>)))"
    using act by (simp add: read_d_def Let_def al et co)
  show ?thesis
  proof (cases "e < 0")
    case True
    then have "x = Failed" "d' = d\<lparr>d_rbuf := Some r, d_err := ENOMEM\<rparr>" using assms(3) unfolding same by simp_all
    then show ?thesis using R act by (simp add: rlist_def rd_ring_def buffered_def)
  next
    case e: False
    show ?thesis
    proof (cases "e2 < 0")
      case True
      then have "x = Failed" "d' = d2\<lparr>d_err := ENOTSUP, d_state := TS2IO_ERROR\<rparr>" using e assms(3) unfolding same by simp_all
      then show ?thesis using R D act by (simp add: rlist_def rd_ring_def buffered_def)
    next
      case e2: False
      have buf: "\<exists>m. rg_buf r2 = Some m" using R e C(8) by simp
      have posted: "rg_posted r2 = rg_posted r" using C(4) .
      show ?thesis
      proof (cases "bs = []")
        case False
        then have "x = Bytes bs" "d' = wakeup (d2\<lparr>d_rbuf := Some r2\<rparr>)" using e e2 assms(3) unfolding same by simp_all
        then show ?thesis using R D act e2 posted fr2 buf split by (simp add: rlist_def rd_ring_def wakeup_def buffered_def)
      next
        case bs: True
        show ?thesis
        proof (cases "is_eof r2 \<or> error r2 \<noteq> 0")
          case True
          define s where "s = (if is_eof r2 then (d_err d2, d_state d2) else (error r2, TS2IO_ERROR))"
          have "x = (if is_eof r2 then End_of_file else Failed)"
            "d' = d2\<lparr>d_rbuf := Some r2, d_err := fst s, d_state := snd s\<rparr>"
            using True bs e e2 assms(3) unfolding same s_def by auto
          then show ?thesis using R D act e2 posted fr2 buf split bs by (simp add: rlist_def rd_ring_def buffered_def)
        next
          case False
          then have "x = Parked" "d' = wakeup (d2\<lparr>d_rbuf := Some r2, d_rwait := park c (d_rwait d2)\<rparr>)"
            using bs e e2 assms(3) unfolding same by simp_all
          then show ?thesis using R D act e2 posted fr2 buf split bs by (simp add: rlist_def rd_ring_def wakeup_def buffered_def)
        qed
      qed
    qed
  qed
qed

abbreviation write_frame :: "'a desc \<Rightarrow> 'a desc \<Rightarrow> bool" where
  "write_frame d d' \<equiv> d_rop d' = d_rop d \<and> d_wop d' = d_wop d \<and> d_rbuf d' = d_rbuf d \<and> d_rwait d' = d_rwait d \<and>
     d_refio d' = d_refio d \<and> d_io d' = d_io d \<and> d_pc d' = d_pc d \<and> d_fd d' = d_fd d \<and>
     d_destroyed d' = d_destroyed d \<and> (d_tpio d \<longrightarrow> d_tpio d') \<and> (d_kick d \<longrightarrow> d_kick d')"

abbreviation count_of :: "'a result \<Rightarrow> nat" where
  "count_of x \<equiv> (case x of Count n \<Rightarrow> n | _ \<Rightarrow> 0)"

lemma write_try_effect:
  assumes "mem_ok mem" "wr_ring (d_wop d) (d_wbuf d)" "write_try mem created src d = (y, d')"
  defines "n \<equiv> (case y of None \<Rightarrow> 0 | Some x \<Rightarrow> count_of x)"
  shows "write_frame d d' \<and> wr_ring (d_wop d') (d_wbuf d') \<and> d_wwait d' = d_wwait d
    \<and> rlist (d_wbuf d') = rlist (d_wbuf d) @ take n src \<and> n \<le> length src
    \<and> (y = Some (Count n) \<or> rlist (d_wbuf d') = rlist (d_wbuf d) \<and> n = 0) \<and> (wr_err (d_wbuf d') \<longrightarrow> wr_err (d_wbuf d))
    \<and> (buffered (d_wbuf d) \<longrightarrow> buffered (d_wbuf d'))
    \<and> (y = None \<or> n > 0 \<longrightarrow> d_kick d' \<and> d_tpio d' \<and> buffered (d_wbuf d'))
    \<and> (y = None \<longrightarrow> d_pc d = Act) \<and> y \<noteq> Some Parked
    \<and> (d_pc d \<noteq> Act \<longrightarrow> y = Some Failed \<and> d_err d' = EBADF \<and> d_wbuf d' = d_wbuf d \<and> d_tpio d' = d_tpio d)"
proof (cases "d_pc d = Act")
  case False
  then have "y = Some Failed" "d' = d\<lparr>d_err := EBADF\<rparr>" using assms(3) by (simp_all add: write_try_def)
  then show ?thesis using False assms(2) by (simp add: n_def)
next
  case act: True
  obtain e r where al: "ring_alloc mem (case d_wbuf d of None \<Rightarrow> ring_new | Some r \<Rightarrow> r) = (e, r)" by fastforce
  note R = wr_alloc [OF assms(1,2) al]
  obtain e2 d2 where et: "ensure_tpio created (d\<lparr>d_wbuf := Some r\<rparr>) = (e2, d2)" by fastforce
  obtain t where D: "d2 = d\<lparr>d_wbuf := Some r, d_tpio := t\<rparr>" "d_tpio d \<longrightarrow> t" "\<not> e2 < 0 \<longrightarrow> t"
    by (rule ensure_tpio_cases [OF et]) simp
  obtain k r2 where ci: "copy_in src r = (k, r2)" by fastforce
  have okr: "ring_ok r" using R by (simp add: drain_ok_def)
  note C = copy_in_ok [OF okr ci]
  have dr2: "drain_ok r2" using copy_in_drain [OF _ ci] R by blast
  have same: "write_try mem created src d =
     (if e < 0 then (Some Failed, d\<lparr>d_wbuf := Some r, d_err := ENOMEM\<rparr>)
      else if e2 < 0 then (Some Failed, d2\<lparr>d_err := ENOTSUP, d_state := TS2IO_ERROR\<rparr>)
      else if error r \<noteq> 0 then (Some Failed, d2\<lparr>d_err := error r, d_state := TS2IO_ERROR\<rparr>)
      else (if k > 0 then Some (Count k) else None, wakeup (d2\<lparr>d_wbuf := Some r2\<rparr>)))"
    using act by (simp add: write_try_def Let_def al et ci)
  show ?thesis
  proof (cases "e < 0")
    case True
    then have "y = Some Failed" "d' = d\<lparr>d_wbuf := Some r, d_err := ENOMEM\<rparr>" using assms(3) unfolding same by simp_all
    then show ?thesis using R act by (simp add: rlist_def wr_ring_def n_def buffered_def)
  next
    case e: False
    show ?thesis
    proof (cases "e2 < 0 \<or> error r \<noteq> 0")
      case True
      define s where "s = (if e2 < 0 then ENOTSUP else error r)"
      have "y = Some Failed" "d' = d2\<lparr>d_err := s, d_state := TS2IO_ERROR\<rparr>"
        using True e assms(3) unfolding same s_def by (auto split: if_splits)
      then show ?thesis using R D act by (simp add: rlist_def wr_ring_def n_def buffered_def)
    next
      case e2: False
      then have y: "y = (if k > 0 then Some (Count k) else None)" and d': "d' = wakeup (d2\<lparr>d_wbuf := Some r2\<rparr>)"
        using e assms(3) unfolding same by simp_all
      have n: "n = k" by (simp add: n_def y)
      have "\<exists>m. rg_buf r2 = Some m" using copy_in_buf [OF ci] R e by auto
      moreover have "wr_err (Some r2) = wr_err (Some r)" using C(6) by (simp add: wr_err_def)
      ultimately show ?thesis using R D act e2 C(2,3,5) dr2 y n unfolding d' by (simp add: rlist_def wr_ring_def wakeup_def buffered_def)
    qed
  qed
qed

lemma write_d_effect:
  assumes "mem_ok mem" "wr_ring (d_wop d) (d_wbuf d)" "write_d mem created c src d = (x, d')"
  shows "write_frame d d' \<and> wr_ring (d_wop d') (d_wbuf d')
    \<and> rlist (d_wbuf d') = rlist (d_wbuf d) @ (case x of Count n \<Rightarrow> take n src | _ \<Rightarrow> []) \<and> (wr_err (d_wbuf d') \<longrightarrow> wr_err (d_wbuf d))
    \<and> (buffered (d_wbuf d) \<longrightarrow> buffered (d_wbuf d'))
    \<and> (rlist (d_wbuf d') \<noteq> rlist (d_wbuf d) \<longrightarrow> d_tpio d')
    \<and> (if x = Parked then d_wwait d' = park c (d_wwait d) \<and> d_kick d' \<and> d_tpio d' \<and> buffered (d_wbuf d')
       else d_wwait d' = d_wwait d)
    \<and> (d_pc d \<noteq> Act \<longrightarrow> x = Failed \<and> d_err d' = EBADF \<and> d_wbuf d' = d_wbuf d \<and> d_tpio d' = d_tpio d)"
proof -
  obtain y d1 where wt: "write_try mem created src d = (y, d1)" by fastforce
  note W = write_try_effect [OF assms(1,2) wt]
  show ?thesis
  proof (cases y)
    case None
    then have "x = Parked" "d' = write_park c d1" using assms(3) wt by (simp_all add: write_d_def)
    then show ?thesis using W None by (clarsimp simp: write_park_def)
  next
    case (Some z)
    then have x: "x = z" "d' = d1" using assms(3) wt by (simp_all add: write_d_def)
    show ?thesis
    proof (cases z)
      case (Count n)
      then have y: "y = Some (Count n)" using Some by simp
      from W show ?thesis unfolding y x Count option.case result.case by (cases "n = 0") clarsimp+
    next
      case (Bytes bs)
      from W show ?thesis unfolding Some x Bytes option.case result.case by clarsimp
    next
      case End_of_file
      from W show ?thesis unfolding Some x End_of_file option.case result.case by clarsimp
    next
      case Failed
      from W show ?thesis unfolding Some x Failed option.case result.case by clarsimp
    next
      case Parked
      from W show ?thesis unfolding Some x Parked option.case result.case by clarsimp
    qed
  qed
qed

section \<open>The parts of the pump\<close>

lemma desc_same [simp]:
  "d_rbuf d = b \<Longrightarrow> d\<lparr>d_rbuf := b\<rparr> = d" "d_wbuf d = b \<Longrightarrow> d\<lparr>d_wbuf := b\<rparr> = d"
  by (cases d; simp)+

lemma wake_readers_effect:
  assumes "wake_readers d = (es, d')"
  obtains ws where "d' = d\<lparr>d_rwait := ws\<rparr>" "es = [] \<and> ws = d_rwait d \<or> es = map Woken (d_rwait d) \<and> ws = []"
    "ws \<noteq> [] \<longrightarrow> (\<forall>r. d_rbuf d = Some r \<longrightarrow> \<not> has_data r \<and> \<not> is_eof r \<and> error r = 0)"
proof (rule that [of "d_rwait d'"])
qed (use assms in \<open>auto simp: wake_readers_def split: option.splits if_splits\<close>)

lemma wake_writers_effect:
  assumes "wake_writers d = (es, d')"
  obtains ws where "d' = d\<lparr>d_wwait := ws\<rparr>" "es = [] \<and> ws = d_wwait d \<or> es = map Woken (d_wwait d) \<and> ws = []"
    "ws \<noteq> [] \<longrightarrow> (\<forall>r. d_wbuf d = Some r \<longrightarrow> \<not> has_space r \<and> error r = 0)"
proof (rule that [of "d_wwait d'"])
qed (use assms in \<open>auto simp: wake_writers_def split: option.splits if_splits\<close>)

definition silent :: "'a dev list \<Rightarrow> bool" where
  "silent es \<longleftrightarrow> filled es = [] \<and> delivered es = [] \<and> accepted es = [] \<and> drained es = [] \<and> \<not> write_error es"

lemma silent_simps [simp]:
  "silent []" "silent (map Woken ws)" "silent [Read_failed e]" "silent [Write_failed e]"
  "silent xs \<Longrightarrow> silent ys \<Longrightarrow> silent (xs @ ys)"
  by (simp_all add: silent_def)

lemma fail_fill_ok:
  assumes "fill_ok r" "rg_buf r = Some m" "rg_posted r \<noteq> 0"
  shows "rd_ring False (Some (complete_fill 0 e r))" "rlist (Some (complete_fill 0 e r)) = rlist (Some r)"
    "buffered (Some (complete_fill 0 e r))"
  using complete_fill_ok(1-4) [OF assms, where bytes = 0 and res = e] by (auto simp: rd_ring_def fill_ok_def rlist_def buffered_def)

lemma fail_drain_ok:
  assumes "drain_ok r" "rg_buf r = Some m" "rg_posted r \<noteq> 0"
  shows "wr_ring False (Some (complete_drain 0 e r))" "rlist (Some (complete_drain 0 e r)) = rlist (Some r)"
    "buffered (Some (complete_drain 0 e r))"
  using complete_drain_ok(2-5) [OF assms, where bytes = 0 and res = e] by (auto simp: wr_ring_def drain_ok_def rlist_def buffered_def)

lemma refio_back [simp]: "delRefio (addRefio d) = d"
  by (simp add: addRefio_def delRefio_def)

lemma post_read_effect:
  assumes "rd_ring (d_rop d) (d_rbuf d)" "post_read answer d = (es, d')"
  obtains b out where
    "d' = d\<lparr>d_rbuf := b, d_rop := out, d_refio := d_refio d + of_bool (d_io d \<and> out \<and> \<not> d_rop d)\<rparr>"
    "rd_ring out b" "rlist b = rlist (d_rbuf d)" "d_rop d \<longrightarrow> out" "silent es" "\<not> write_failed es"
    "buffered (d_rbuf d) \<longrightarrow> buffered b"
    "d_rwait d \<noteq> [] \<and> d_rbuf d = Some r \<and> rg_buf r = Some m \<and> \<not> has_data r \<and> \<not> is_eof r \<and> error r = 0 \<longrightarrow> out \<or> read_failed es"
proof -
  have "\<exists>b out. d' = d\<lparr>d_rbuf := b, d_rop := out, d_refio := d_refio d + of_bool (d_io d \<and> out \<and> \<not> d_rop d)\<rparr> \<and>
    rd_ring out b \<and> rlist b = rlist (d_rbuf d) \<and> (d_rop d \<longrightarrow> out) \<and> silent es \<and> \<not> write_failed es \<and> (buffered (d_rbuf d) \<longrightarrow> buffered b) \<and>
    (d_rwait d \<noteq> [] \<and> d_rbuf d = Some r \<and> rg_buf r = Some m \<and> \<not> has_data r \<and> \<not> is_eof r \<and> error r = 0 \<longrightarrow> out \<or> read_failed es)"
  proof (cases "d_rbuf d = None \<or> d_rwait d = []")
    case True
    then have "es = []" "d' = d" using assms(2) by (auto simp: post_read_def split: option.splits)
    then show ?thesis using True assms(1) by (intro exI [of _ "d_rbuf d"] exI [of _ "d_rop d"]) auto
  next
    case False
    then obtain r1 where r1: "d_rbuf d = Some r1" "d_rwait d \<noteq> []" by auto
    have R: "fill_ok r1" "ring_ok r1" "d_rop d \<longleftrightarrow> rg_posted r1 \<noteq> 0" using assms(1) r1 by (auto simp: rd_ring_def fill_ok_def)
    obtain y r2 where rf: "reserve_fill r1 = (y, r2)" by fastforce
    show ?thesis
    proof (cases "d_rop d")
      case True
      then have "reserve_fill r1 = (None, r1)" using R by (simp add: reserve_fill_def)
      then have "es = []" "d' = d" using assms(2) r1 by (simp_all add: post_read_def)
      then show ?thesis using True assms(1) by (intro exI [of _ "d_rbuf d"] exI [of _ "d_rop d"]) auto
    next
      case nop: False
      have p0: "rg_posted r1 = 0" using nop R by simp
      note F = reserve_fill_ok [OF R(2) p0 rf]
      show ?thesis
      proof (cases y)
        case None
        then have "es = []" "d' = d" using assms(2) r1 rf F(9) by (simp_all add: post_read_def)
        moreover have "rg_buf r1 = None \<or> rg_eof r1 \<or> rg_err r1 \<noteq> 0 \<or> rg_valid r1 = rg_cap r1" using F(9) None by blast
        moreover have "0 < rg_cap r1" if "rg_buf r1 = Some m" using R(2) that by (simp add: ring_ok_def)
        ultimately show ?thesis using nop assms(1) r1
          by (intro exI [of _ "d_rbuf d"] exI [of _ "d_rop d"]) (auto simp: has_data_def is_eof_def error_def)
      next
        case (Some pn)
        then obtain p n where pn: "y = Some (p, n)" by (cases pn) simp
        have posted: "rg_posted r2 \<noteq> 0" using F(10) pn by simp
        obtain m2 where m2: "rg_buf r2 = Some m2" using F(8) posted by (cases "rg_buf r2") (auto simp: fill_ok_def ring_ok_def)
        have rl: "rlist (Some r2) = rlist (d_rbuf d)" using F(1) r1 by (simp add: rlist_def)
        show ?thesis
        proof (cases answer)
          case None
          then have "es = []" "d' = (addRefio (d\<lparr>d_rbuf := Some r2\<rparr>))\<lparr>d_rop := True\<rparr>"
            using assms(2) r1 rf Some by (simp_all add: post_read_def Let_def)
          then show ?thesis using nop F(8) posted rl m2
            by (intro exI [of _ "Some r2"] exI [of _ True]) (simp add: addRefio_def rd_ring_def buffered_def)
        next
          case ans: (Some e)
          then have "es = [Read_failed e]" "d' = d\<lparr>d_rbuf := Some (complete_fill 0 e r2)\<rparr>"
            using assms(2) r1 rf Some by (simp_all add: post_read_def Let_def)
          then show ?thesis using nop fail_fill_ok [OF F(8) m2 posted, of e] rl
            by (intro exI [of _ "Some (complete_fill 0 e r2)"] exI [of _ False]) simp
        qed
      qed
    qed
  qed
  then show ?thesis using that by blast
qed

lemma post_write_effect:
  assumes "wr_ring (d_wop d) (d_wbuf d)" "post_write answer d = (posted, es, d')"
  obtains b out where
    "d' = d\<lparr>d_wbuf := b, d_wop := out, d_refio := d_refio d + of_bool (d_io d \<and> out \<and> \<not> d_wop d)\<rparr>"
    "wr_ring out b" "rlist b = rlist (d_wbuf d)" "d_wop d \<longrightarrow> out" "silent es" "\<not> read_failed es" "posted \<longleftrightarrow> out \<and> \<not> d_wop d"
    "buffered (d_wbuf d) \<longrightarrow> buffered b" "wr_err b \<longrightarrow> wr_err (d_wbuf d) \<or> write_failed es"
    "rlist (d_wbuf d) \<noteq> [] \<and> \<not> wr_err (d_wbuf d) \<longrightarrow> out \<or> write_failed es"
proof -
  have "\<exists>b out. d' = d\<lparr>d_wbuf := b, d_wop := out, d_refio := d_refio d + of_bool (d_io d \<and> out \<and> \<not> d_wop d)\<rparr> \<and>
    wr_ring out b \<and> rlist b = rlist (d_wbuf d) \<and> (d_wop d \<longrightarrow> out) \<and> silent es \<and> \<not> read_failed es \<and> (posted \<longleftrightarrow> out \<and> \<not> d_wop d) \<and>
    (buffered (d_wbuf d) \<longrightarrow> buffered b) \<and> (wr_err b \<longrightarrow> wr_err (d_wbuf d) \<or> write_failed es) \<and>
    (rlist (d_wbuf d) \<noteq> [] \<and> \<not> wr_err (d_wbuf d) \<longrightarrow> out \<or> write_failed es)"
  proof (cases "d_wbuf d")
    case None
    then have "es = []" "d' = d" "\<not> posted" using assms(2) by (simp_all add: post_write_def)
    then show ?thesis using None assms(1) by (intro exI [of _ None] exI [of _ "d_wop d"]) (simp add: rlist_def)
  next
    case r1: (Some r1)
    have R: "drain_ok r1" "ring_ok r1" "d_wop d \<longleftrightarrow> rg_posted r1 \<noteq> 0" using assms(1) r1 by (auto simp: wr_ring_def drain_ok_def)
    obtain y r2 where rf: "reserve_drain r1 = (y, r2)" by fastforce
    show ?thesis
    proof (cases "d_wop d")
      case True
      then have "reserve_drain r1 = (None, r1)" using R by (simp add: reserve_drain_def)
      then have "es = []" "d' = d" "\<not> posted" using assms(2) r1 by (simp_all add: post_write_def)
      then show ?thesis using True assms(1) by (intro exI [of _ "d_wbuf d"] exI [of _ "d_wop d"]) auto
    next
      case nop: False
      have p0: "rg_posted r1 = 0" using nop R by simp
      note F = reserve_drain_ok [OF R(2) p0 rf]
      show ?thesis
      proof (cases y)
        case None
        then have "es = []" "d' = d" "\<not> posted" using assms(2) r1 rf F(8) by (simp_all add: post_write_def)
        moreover have "rg_err r1 \<noteq> 0 \<or> rg_valid r1 = 0" using F(8) None by simp
        moreover have "rg_valid r1 = 0 \<longrightarrow> rlist (d_wbuf d) = []" using r1 length_ring_list [OF R(2)] by (auto simp: rlist_def)
        ultimately show ?thesis using nop assms(1) r1
          by (intro exI [of _ "d_wbuf d"] exI [of _ "d_wop d"]) (auto simp: wr_err_def)
      next
        case (Some pn)
        then obtain p n where pn: "y = Some (p, n)" by (cases pn) simp
        have posted: "rg_posted r2 \<noteq> 0" using F(9) pn by simp
        obtain m2 where m2: "rg_buf r2 = Some m2" using F(7) posted by (cases "rg_buf r2") (auto simp: drain_ok_def ring_ok_def)
        have rl: "rlist (Some r2) = rlist (d_wbuf d)" using F(1) r1 by (simp add: rlist_def)
        have er: "wr_err (Some r2) \<longleftrightarrow> wr_err (d_wbuf d)" using F(3) r1 by (simp add: wr_err_def)
        show ?thesis
        proof (cases answer)
          case None
          then have "es = []" "d' = (addRefio (d\<lparr>d_wbuf := Some r2\<rparr>))\<lparr>d_wop := True\<rparr>" "posted = True"
            using assms(2) r1 rf Some by (simp_all add: post_write_def Let_def)
          then show ?thesis using nop F(7) \<open>rg_posted r2 \<noteq> 0\<close> rl m2 er
            by (intro exI [of _ "Some r2"] exI [of _ True]) (simp add: addRefio_def wr_ring_def buffered_def)
        next
          case ans: (Some e)
          then have "es = [Write_failed e]" "d' = d\<lparr>d_wbuf := Some (complete_drain 0 e r2)\<rparr>" "posted = False"
            using assms(2) r1 rf Some by (simp_all add: post_write_def Let_def)
          then show ?thesis using nop fail_drain_ok [OF F(7) m2 \<open>rg_posted r2 \<noteq> 0\<close>, of e] rl
            by (intro exI [of _ "Some (complete_drain 0 e r2)"] exI [of _ False]) simp
        qed
      qed
    qed
  qed
  then show ?thesis using that by blast
qed

section \<open>Every step keeps the invariant\<close>

definition dinv :: "'a dev list \<Rightarrow> 'a desc \<Rightarrow> bool" where
  "dinv es d \<longleftrightarrow> rd_inv es d \<and> wr_inv es d \<and> cnt_inv d \<and> wait_inv es d"

lemma park_not_Nil [simp]: "park c ws \<noteq> []" by (simp add: park_def)

lemma dinv_read:
  assumes "dinv es d" "mem_ok mem" "read_d mem created c len d = (x, d')"
  shows "dinv (es @ (case x of Bytes bs \<Rightarrow> [Delivered c bs] | _ \<Rightarrow> [])) d'"
proof -
  have rr: "rd_ring (d_rop d) (d_rbuf d)" using assms(1) by (simp add: dinv_def rd_inv_def)
  note E = read_d_effect [OF assms(2) rr assms(3)]
  define ev where "ev = (case x of Bytes bs \<Rightarrow> [Delivered c bs] | _ \<Rightarrow> [])"
  have ev: "filled ev = []" "accepted ev = []" "drained ev = []" "\<not> write_failed ev" "\<not> write_error ev" "\<not> read_failed ev"
    "delivered ev = (case x of Bytes bs \<Rightarrow> bs | _ \<Rightarrow> [])"
    by (simp_all add: ev_def split: result.splits)
  have F: "read_frame d d'" "rd_ring (d_rop d') (d_rbuf d')" "rlist (d_rbuf d) = delivered ev @ rlist (d_rbuf d')"
    "buffered (d_rbuf d) \<longrightarrow> buffered (d_rbuf d')"
    "if x = Parked then d_rwait d' = park c (d_rwait d) \<and> d_kick d' \<and> d_tpio d' \<and> buffered (d_rbuf d') else d_rwait d' = d_rwait d"
    "d_pc d \<noteq> Act \<longrightarrow> x = Failed \<and> d_rbuf d' = d_rbuf d \<and> d_tpio d' = d_tpio d"
    using E unfolding ev(7) by blast+
  have fr: "freed d' = freed d" using F(1) by (simp add: freed_def)
  have fz: "delivered ev = []" if "freed d" using F(6) that ev(7) by (auto simp: freed_def)
  have rd: "rd_inv es d" and wr: "wr_inv es d" and cn: "cnt_inv d" and wa: "wait_inv es d" using assms(1) by (simp_all add: dinv_def)
  have "rd_inv (es @ ev) d'"
  proof (cases "freed d")
    case True
    with rd F(2) fz fr show ?thesis by (simp add: rd_inv_def ev(1))
  next
    case False
    with rd F(2,3) fr show ?thesis by (simp add: rd_inv_def ev(1))
  qed
  moreover have "wr_inv (es @ ev) d'" using wr F(1) fr by (simp add: wr_inv_def ev)
  moreover have "cnt_inv d'" using cn F(1,6) unfolding cnt_inv_def by (cases "d_pc d") simp_all
  moreover have "wait_inv (es @ ev) d'"
  proof (cases "x = Parked")
    case True
    with wa F show ?thesis by (auto simp: wait_inv_def ev)
  next
    case False
    with wa F show ?thesis by (auto simp: wait_inv_def ev)
  qed
  ultimately show ?thesis by (simp add: dinv_def ev_def)
qed

lemma dinv_write:
  assumes "dinv es d" "mem_ok mem" "write_d mem created c src d = (x, d')"
  shows "dinv (es @ (case x of Count n \<Rightarrow> [Accepted c (take n src)] | _ \<Rightarrow> [])) d'"
proof -
  have rr: "wr_ring (d_wop d) (d_wbuf d)" using assms(1) by (simp add: dinv_def wr_inv_def)
  note E = write_d_effect [OF assms(2) rr assms(3)]
  define ev where "ev = (case x of Count n \<Rightarrow> [Accepted c (take n src)] | _ \<Rightarrow> [])"
  have ev: "filled ev = []" "delivered ev = []" "drained ev = []" "\<not> write_failed ev" "\<not> write_error ev" "\<not> read_failed ev"
    "accepted ev = (case x of Count n \<Rightarrow> take n src | _ \<Rightarrow> [])"
    by (simp_all add: ev_def split: result.splits)
  have F: "write_frame d d'" "wr_ring (d_wop d') (d_wbuf d')" "rlist (d_wbuf d') = rlist (d_wbuf d) @ accepted ev"
    "buffered (d_wbuf d) \<longrightarrow> buffered (d_wbuf d')"
    "if x = Parked then d_wwait d' = park c (d_wwait d) \<and> d_kick d' \<and> d_tpio d' \<and> buffered (d_wbuf d') else d_wwait d' = d_wwait d"
    "d_pc d \<noteq> Act \<longrightarrow> x = Failed \<and> d_wbuf d' = d_wbuf d \<and> d_tpio d' = d_tpio d"
    "wr_err (d_wbuf d') \<longrightarrow> wr_err (d_wbuf d)" "rlist (d_wbuf d') \<noteq> rlist (d_wbuf d) \<longrightarrow> d_tpio d'"
    unfolding ev(7) by (insert E, elim conjE, (intro conjI)?; blast)+
  have fr: "freed d' = freed d" using F(1) by (simp add: freed_def)
  have fz: "accepted ev = []" if "d_pc d \<noteq> Act" using F(6) that ev(7) by auto
  have rd: "rd_inv es d" and wr: "wr_inv es d" and cn: "cnt_inv d" and wa: "wait_inv es d" using assms(1) by (simp_all add: dinv_def)
  have "wr_inv (es @ ev) d'"
  proof (cases "d_pc d = Act")
    case True
    with wr F(1,2,3,7) show ?thesis by (clarsimp simp: wr_inv_def ev(1-6) freed_def)
  next
    case False
    with wr F(1,2,6,7) fz fr show ?thesis by (simp add: wr_inv_def ev(1-6))
  qed
  moreover have "rd_inv (es @ ev) d'" using rd F(1) fr by (simp add: rd_inv_def ev(1-6))
  moreover have "cnt_inv d'" using cn F(1,6,8) unfolding cnt_inv_def by (cases "d_pc d") auto
  moreover have "wait_inv (es @ ev) d'"
  proof (cases "x = Parked")
    case True
    with wa F show ?thesis by (auto simp: wait_inv_def ev(1-6))
  next
    case False
    with wa F show ?thesis by (cases "d_pc d = Act") (simp_all add: wait_inv_def ev(1-6), blast)
  qed
  ultimately show ?thesis by (simp add: dinv_def ev_def)
qed

lemma dinv_store:
  assumes "dinv es d" "d_rop d" "d_rbuf d = Some r" "fill_pos r \<le> i" "i + length xs \<le> fill_pos r + rg_posted r"
  shows "dinv es (d\<lparr>d_rbuf := Some (os_write i xs r)\<rparr>)"
proof -
  have r: "fill_ok r" "rg_posted r \<noteq> 0" using assms(1,2,3) by (auto simp: dinv_def rd_inv_def rd_ring_def)
  note W = os_write_ok [OF r, of i xs, folded fill_pos_def, OF assms(4,5)]
  have "buffered (Some (os_write i xs r)) \<longleftrightarrow> buffered (Some r)" by (auto simp: buffered_def os_write_def)
  then show ?thesis using assms(1-3) W
    by (auto simp: dinv_def rd_inv_def wr_inv_def cnt_inv_def wait_inv_def rd_ring_def rlist_def freed_def os_write_def)
qed

lemma io_cb_simps [simp]:
  "d_rop (io_cb rd res n d) = (if rd then False else d_rop d)" "d_wop (io_cb rd res n d) = (if rd then d_wop d else False)"
  "d_rbuf (io_cb rd res n d) = (if rd then map_option (complete_fill n res) (d_rbuf d) else d_rbuf d)"
  "d_wbuf (io_cb rd res n d) = (if rd then d_wbuf d else map_option (complete_drain n res) (d_wbuf d))"
  "d_kick (io_cb rd res n d)" "d_pc (io_cb rd res n d) = d_pc d" "d_tpio (io_cb rd res n d) = d_tpio d" "d_fd (io_cb rd res n d) = d_fd d"
  "d_io (io_cb rd res n d) = d_io d" "d_rwait (io_cb rd res n d) = d_rwait d" "d_wwait (io_cb rd res n d) = d_wwait d"
  "d_refio (io_cb rd res n d) = (if d_io d then d_refio d - 1 else d_refio d)" "d_destroyed (io_cb rd res n d) = d_destroyed d"
  by (simp_all add: io_cb_def on_complete_def wakeup_def delRefio_def)

lemma dinv_read_completes:
  assumes "dinv es d" "d_rop d" "d_rbuf d = Some r" "n \<le> rg_posted r"
  shows "dinv (es @ [Filled (region_bytes (fill_pos r) res n r)]) (io_cb True res n d)"
proof -
  have r: "fill_ok r" "rg_posted r \<noteq> 0" using assms(1,2,3) by (auto simp: dinv_def rd_inv_def rd_ring_def)
  then obtain m where m: "rg_buf r = Some m" by (cases "rg_buf r") (auto simp: fill_ok_def ring_ok_def)
  note C = complete_fill_ok [OF r(1) m r(2) assms(4), where res = res]
  have nf: "\<not> freed d" using assms(1,2) by (auto simp: dinv_def cnt_inv_def freed_def)
  have rd: "rd_inv es d" and wr: "wr_inv es d" and cn: "cnt_inv d" and wa: "wait_inv es d" using assms(1) by (simp_all add: dinv_def)
  have "rd_inv (es @ [Filled (region_bytes (fill_pos r) res n r)]) (io_cb True res n d)"
    using rd nf assms(3) C m
    by (simp add: rd_inv_def freed_def rd_ring_def fill_ok_def rlist_def region_bytes_def fill_pos_def)
  moreover have "wr_inv (es @ [Filled (region_bytes (fill_pos r) res n r)]) (io_cb True res n d)"
    using wr by (auto simp: wr_inv_def freed_def)
  moreover have "cnt_inv (io_cb True res n d)" using cn assms(2) by (auto simp: cnt_inv_def)
  moreover have "wait_inv (es @ [Filled (region_bytes (fill_pos r) res n r)]) (io_cb True res n d)"
    using wa assms(3) m C(4) by (auto simp: wait_inv_def buffered_def)
  ultimately show ?thesis by (simp add: dinv_def)
qed

lemma dinv_write_completes:
  assumes "dinv es d" "d_wop d" "d_wbuf d = Some r" "n \<le> rg_posted r"
  shows "dinv (es @ Drained (region_bytes (rg_head r) res n r)
      # (if res = 0 \<or> res = ERROR_OPERATION_ABORTED then [] else [Write_error res])) (io_cb False res n d)"
proof -
  define ev where "ev = Drained (region_bytes (rg_head r) res n r)
      # (if res = 0 \<or> res = ERROR_OPERATION_ABORTED then [] else [Write_error res])"
  have r: "drain_ok r" "rg_posted r \<noteq> 0" using assms(1,2,3) by (auto simp: dinv_def wr_inv_def wr_ring_def)
  then obtain m where m: "rg_buf r = Some m" by (cases "rg_buf r") (auto simp: drain_ok_def ring_ok_def)
  note C = complete_drain_ok [OF r(1) m r(2) assms(4)]
  have pc: "d_pc d \<notin> {Cancel_all, Release, Wake_rest, Finished}" using assms(1,2) by (auto simp: dinv_def cnt_inv_def)
  have err: "wr_err (Some (complete_drain n res r)) \<longrightarrow> wr_err (Some r) \<or> write_error ev"
    by (auto simp: wr_err_def complete_drain_def Let_def ev_def split: if_splits)
  have bytes: "region_bytes (rg_head r) res n r @ rlist (Some (complete_drain n res r)) = rlist (Some r)"
    using C(1) C(2) [of res] m by (simp add: region_bytes_def rlist_def)
  have ev: "filled ev = []" "accepted ev = []" "delivered ev = []" "drained ev = region_bytes (rg_head r) res n r" "\<not> read_failed ev" "\<not> write_failed ev"
    by (auto simp: ev_def)
  have rd: "rd_inv es d" and wr: "wr_inv es d" and cn: "cnt_inv d" and wa: "wait_inv es d" using assms(1) by (simp_all add: dinv_def)
  have "rd_inv (es @ ev) (io_cb False res n d)" using rd by (simp add: rd_inv_def freed_def ev)
  moreover have "wr_inv (es @ ev) (io_cb False res n d)"
  proof -
    have "accepted es = drained es @ region_bytes (rg_head r) res n r @ rlist (Some (complete_drain n res r))"
      using wr assms(3) pc bytes by (simp add: wr_inv_def freed_def)
    moreover have "prefix (region_bytes (rg_head r) res n r) (rlist (Some r))" using bytes by (metis prefixI)
    moreover have "wr_ring False (Some (complete_drain n res r))" using C(3) [of res] C(4) [of res] by (simp add: wr_ring_def drain_ok_def)
    ultimately show ?thesis using wr pc err assms(3) by (auto simp: wr_inv_def freed_def ev)
  qed
  moreover have "cnt_inv (io_cb False res n d)"
  proof -
    have "rlist (Some (complete_drain n res r)) \<noteq> [] \<longrightarrow> rlist (d_wbuf d) \<noteq> []" using bytes assms(3) by auto
    then show ?thesis using cn assms(2,3) unfolding cnt_inv_def by auto
  qed
  moreover have "wait_inv (es @ ev) (io_cb False res n d)"
    using wa assms(3) m C(5) [of res] by (auto simp: wait_inv_def buffered_def)
  ultimately show ?thesis by (simp add: dinv_def ev_def)
qed

lemma full_not_empty:
  assumes "ring_ok r" "rg_buf r = Some m" "\<not> has_space r"
  shows "ring_list r \<noteq> []"
proof -
  have "rg_valid r = rg_cap r" "0 < rg_cap r" using assms by (auto simp: has_space_def ring_ok_def)
  then have "length (ring_list r) \<noteq> 0" using length_ring_list [OF assms(1)] by simp
  then show ?thesis by auto
qed

lemma silent_append:
  assumes "silent ev"
  shows "rd_inv (es @ ev) d = rd_inv es d" "write_error (es @ ev) = write_error es"
    "filled (es @ ev) = filled es" "delivered (es @ ev) = delivered es" "accepted (es @ ev) = accepted es" "drained (es @ ev) = drained es"
  using assms by (simp_all add: silent_def rd_inv_def)

lemma dinv_pump_io:
  assumes "dinv es d" "d_pc d = Act" "\<not> d_destroyed d" "pump_io rd wr (d\<lparr>d_kick := False\<rparr>) = (ev, d')"
  shows "dinv (es @ ev) d'"
proof -
  have rdi: "rd_inv es d" and wri: "wr_inv es d" and cn: "cnt_inv d" and wa: "wait_inv es d" using assms(1) by (simp_all add: dinv_def)
  have rr: "rd_ring (d_rop d) (d_rbuf d)" and wr0: "wr_ring (d_wop d) (d_wbuf d)" using rdi wri by (simp_all add: rd_inv_def wr_inv_def)
  obtain e1 d1 where w1: "wake_readers (d\<lparr>d_kick := False\<rparr>) = (e1, d1)" by fastforce
  obtain ws1 where D1: "d1 = d\<lparr>d_kick := False, d_rwait := ws1\<rparr>" and e1: "e1 = [] \<and> ws1 = d_rwait d \<or> e1 = map Woken (d_rwait d) \<and> ws1 = []"
    and c1: "ws1 \<noteq> [] \<longrightarrow> (\<forall>r. d_rbuf d = Some r \<longrightarrow> \<not> has_data r \<and> \<not> is_eof r \<and> error r = 0)"
    by (rule wake_readers_effect [OF w1]) simp
  obtain e2 d2 where w2: "wake_writers d1 = (e2, d2)" by fastforce
  obtain ws2 where D2: "d2 = d\<lparr>d_kick := False, d_rwait := ws1, d_wwait := ws2\<rparr>"
    and e2: "e2 = [] \<and> ws2 = d_wwait d \<or> e2 = map Woken (d_wwait d) \<and> ws2 = []"
    and c2: "ws2 \<noteq> [] \<longrightarrow> (\<forall>r. d_wbuf d = Some r \<longrightarrow> \<not> has_space r \<and> error r = 0)"
    by (rule wake_writers_effect [OF w2]) (simp add: D1)
  have sil: "silent e1" "silent e2" "\<not> write_failed e1" "\<not> write_failed e2" using e1 e2 by auto
  have sub1: "ws1 \<noteq> [] \<Longrightarrow> d_tpio d \<and> buffered (d_rbuf d)" and sub2: "ws2 \<noteq> [] \<Longrightarrow> d_tpio d \<and> buffered (d_wbuf d)"
    using e1 e2 wa assms(2) by (auto simp: wait_inv_def)
  show ?thesis
  proof (cases "d_tpio d")
    case False
    then have "ev = e1 @ e2" "d' = d2" using assms(4) w1 w2 D2 by (simp_all add: pump_io_def)
    moreover have "ws1 = []" "ws2 = []" using sub1 sub2 False by auto
    ultimately show ?thesis using rdi wri cn sil assms(2,3)
      by (simp add: D2 dinv_def silent_def rd_inv_def wr_inv_def cnt_inv_def wait_inv_def freed_def)
  next
    case tp: True
    obtain e3 d3 where w3: "post_read rd d2 = (e3, d3)" by fastforce
    obtain b out where D3: "d3 = d2\<lparr>d_rbuf := b, d_rop := out, d_refio := d_refio d2 + of_bool (d_io d2 \<and> out \<and> \<not> d_rop d2)\<rparr>"
      and R: "rd_ring out b" "rlist b = rlist (d_rbuf d)" "d_rop d \<longrightarrow> out" "silent e3" "\<not> write_failed e3" "buffered (d_rbuf d) \<longrightarrow> buffered b"
      and posted: "ws1 \<noteq> [] \<longrightarrow> out \<or> read_failed e3"
    proof (cases "buffered (d_rbuf d)")
      case False
      then have "ws1 = []" using sub1 by blast
      show ?thesis
      proof (rule post_read_effect [OF _ w3])
        show "rd_ring (d_rop d2) (d_rbuf d2)" using rr by (simp add: D2)
      next
        fix b out
        assume "d3 = d2\<lparr>d_rbuf := b, d_rop := out, d_refio := d_refio d2 + of_bool (d_io d2 \<and> out \<and> \<not> d_rop d2)\<rparr>"
          "rd_ring out b" "rlist b = rlist (d_rbuf d2)" "d_rop d2 \<longrightarrow> out" "silent e3" "\<not> write_failed e3" "buffered (d_rbuf d2) \<longrightarrow> buffered b"
        then show thesis by (intro that [of out b]) (simp_all add: D2 \<open>ws1 = []\<close>)
      qed
    next
      case True
      then obtain r m where rm: "d_rbuf d = Some r" "rg_buf r = Some m" by (auto simp: buffered_def)
      show ?thesis
      proof (rule post_read_effect [OF _ w3, of r m])
        show "rd_ring (d_rop d2) (d_rbuf d2)" using rr by (simp add: D2)
      next
        fix b out
        assume "d3 = d2\<lparr>d_rbuf := b, d_rop := out, d_refio := d_refio d2 + of_bool (d_io d2 \<and> out \<and> \<not> d_rop d2)\<rparr>"
          "rd_ring out b" "rlist b = rlist (d_rbuf d2)" "d_rop d2 \<longrightarrow> out" "silent e3" "\<not> write_failed e3" "buffered (d_rbuf d2) \<longrightarrow> buffered b"
          "d_rwait d2 \<noteq> [] \<and> d_rbuf d2 = Some r \<and> rg_buf r = Some m \<and> \<not> has_data r \<and> \<not> is_eof r \<and> error r = 0 \<longrightarrow> out \<or> read_failed e3"
        then show thesis using c1 rm by (intro that [of out b]) (simp_all add: D2)
      qed
    qed
    obtain p e4 where w4: "post_write wr d3 = (p, e4, d')" and ev: "ev = e1 @ e2 @ e3 @ e4"
      using assms(4) tp w1 w2 w3 D2 by (auto simp: pump_io_def split: prod.splits)
    obtain b2 out2 where D4: "d' = d3\<lparr>d_wbuf := b2, d_wop := out2, d_refio := d_refio d3 + of_bool (d_io d3 \<and> out2 \<and> \<not> d_wop d3)\<rparr>"
      and W: "wr_ring out2 b2" "rlist b2 = rlist (d_wbuf d)" "d_wop d \<longrightarrow> out2" "silent e4" "buffered (d_wbuf d) \<longrightarrow> buffered b2"
        "wr_err b2 \<longrightarrow> wr_err (d_wbuf d) \<or> write_failed e4" "rlist (d_wbuf d) \<noteq> [] \<and> \<not> wr_err (d_wbuf d) \<longrightarrow> out2 \<or> write_failed e4"
    proof (rule post_write_effect [OF _ w4])
      show "wr_ring (d_wop d3) (d_wbuf d3)" using wr0 by (simp add: D3 D2)
    next
      fix b2 out2
      assume "d' = d3\<lparr>d_wbuf := b2, d_wop := out2, d_refio := d_refio d3 + of_bool (d_io d3 \<and> out2 \<and> \<not> d_wop d3)\<rparr>"
        "wr_ring out2 b2" "rlist b2 = rlist (d_wbuf d3)" "d_wop d3 \<longrightarrow> out2" "silent e4" "buffered (d_wbuf d3) \<longrightarrow> buffered b2"
        "wr_err b2 \<longrightarrow> wr_err (d_wbuf d3) \<or> write_failed e4"
        "rlist (d_wbuf d3) \<noteq> [] \<and> \<not> wr_err (d_wbuf d3) \<longrightarrow> out2 \<or> write_failed e4"
      then show thesis by (intro that [of out2 b2]) (simp_all add: D3 D2)
    qed
    have full: "rlist (d_wbuf d) \<noteq> [] \<and> \<not> wr_err (d_wbuf d)" if w: "ws2 \<noteq> []"
    proof -
      obtain r m where rm: "d_wbuf d = Some r" "rg_buf r = Some m" using sub2 w by (auto simp: buffered_def)
      then have "ring_ok r" using wr0 by (simp add: wr_ring_def drain_ok_def)
      then show ?thesis using full_not_empty rm c2 w by (auto simp: rlist_def wr_err_def error_def)
    qed
    have sev: "silent ev" using sil R(4) W(4) by (simp add: ev)
    have d': "d_rop d' = out" "d_wop d' = out2" "d_rbuf d' = b" "d_wbuf d' = b2" "d_rwait d' = ws1" "d_wwait d' = ws2" "d_pc d' = Act"
      "d_tpio d'" "d_io d' = d_io d" "d_refio d' = d_refio d + of_bool (d_io d \<and> out \<and> \<not> d_rop d) + of_bool (d_io d \<and> out2 \<and> \<not> d_wop d)"
      "\<not> d_destroyed d'"
      using tp assms(2,3) by (simp_all add: D4 D3 D2)
    have "rd_inv es d'" using rdi R(1,2) assms(2) by (simp add: rd_inv_def d' freed_def)
    moreover have "wr_inv (es @ ev) d'" using wri W(1,2,6) assms(2) sev [unfolded silent_def] by (auto simp: wr_inv_def d' freed_def ev)
    moreover have "cnt_inv d'" using cn R(3) W(3) assms(2) by (cases "d_rop d"; cases "d_wop d") (simp_all add: cnt_inv_def d')
    moreover have "wait_inv (es @ ev) d'" using posted full W(5,7) R(6) sub1 sub2 by (auto simp: wait_inv_def d' ev)
    ultimately show ?thesis by (simp add: dinv_def silent_append [OF sev])
  qed
qed

lemma dinv_pump:
  assumes "dinv es d" "d_pc d = Act" "act_start rd wr (d\<lparr>d_kick := False\<rparr>) = (ev, d')"
  shows "dinv (es @ ev) d'"
proof (cases "d_destroyed d")
  case True
  then have "ev = []" "d' = d\<lparr>d_kick := False, d_pc := Fin_start\<rparr>" using assms(3) by (simp_all add: act_start_def)
  then show ?thesis using assms(1,2)
    by (simp add: dinv_def rd_inv_def wr_inv_def cnt_inv_def wait_inv_def freed_def)
next
  case False
  then show ?thesis using dinv_pump_io [OF assms(1,2) False] assms(3) by (simp add: act_start_def)
qed

text \<open>The teardown.\<close>

lemma dinv_fin_begin:
  assumes "dinv es d" "d_pc d = Fin_start"
  shows "dinv es (fin_begin d)"
proof -
  have rd: "rd_inv es d" and wr: "wr_inv es d" and cn: "cnt_inv d" using assms(1) by (simp_all add: dinv_def)
  show ?thesis
  proof (cases "d_tpio d")
    case True
    with rd wr cn assms(2) show ?thesis
      by (simp add: fin_begin_def dinv_def rd_inv_def wr_inv_def cnt_inv_def wait_inv_def freed_def)
  next
    case False
    with cn assms(2) have "rlist (d_wbuf d) = []" "\<not> d_rop d" "\<not> d_wop d" by (auto simp: cnt_inv_def)
    with False rd wr cn assms(2) show ?thesis
      by (simp add: fin_begin_def dinv_def rd_inv_def wr_inv_def cnt_inv_def wait_inv_def freed_def)
  qed
qed

lemma dinv_waited:
  assumes "dinv es d" "d_pc d \<in> {Wait_inflight, Wait_drain}" "\<not> d_rop d" "\<not> d_wop d"
  shows "dinv es (d\<lparr>d_pc := Flush_loop\<rparr>)"
proof (cases "d_pc d = Wait_drain")
  case True
  with assms show ?thesis by (simp add: dinv_def rd_inv_def wr_inv_def cnt_inv_def wait_inv_def freed_def)
next
  case False
  with assms(2) have "d_pc d = Wait_inflight" by simp
  with assms show ?thesis by (simp add: dinv_def rd_inv_def wr_inv_def cnt_inv_def wait_inv_def freed_def)
qed

lemma dinv_flush:
  assumes "dinv es d" "d_pc d = Flush_loop" "flush_round answer d = (ev, d')"
  shows "dinv (es @ ev) d'"
proof -
  have rd: "rd_inv es d" and wr: "wr_inv es d" and cn: "cnt_inv d" using assms(1) by (simp_all add: dinv_def)
  have ops: "\<not> d_rop d" "\<not> d_wop d" "d_tpio d" using cn assms(2) by (auto simp: cnt_inv_def)
  have acc: "accepted es = drained es @ rlist (d_wbuf d)" using wr assms(2) by (simp add: wr_inv_def freed_def)
  show ?thesis
  proof (cases "\<exists>r. d_wbuf d = Some r \<and> has_data r \<and> error r = 0")
    case False
    then have e: "ev = []" "d' = d\<lparr>d_pc := Cancel_all\<rparr>" using assms(3) by (auto simp: flush_round_def split: option.splits)
    have "rlist (d_wbuf d) = [] \<or> wr_err (d_wbuf d)"
    proof (cases "d_wbuf d")
      case (Some r)
      then have "ring_ok r" using wr by (simp add: wr_inv_def wr_ring_def drain_ok_def)
      then show ?thesis using False Some length_ring_list [of r] by (auto simp: rlist_def wr_err_def has_data_def error_def)
    qed (simp add: rlist_def)
    then have "accepted es = drained es \<or> write_failed es \<or> write_error es" using wr acc by (auto simp: wr_inv_def)
    then show ?thesis using rd wr cn ops assms(2)
      by (simp add: e dinv_def rd_inv_def wr_inv_def cnt_inv_def wait_inv_def freed_def)
  next
    case True
    then obtain r where r: "d_wbuf d = Some r" "has_data r" "error r = 0" by blast
    obtain p d1 where pw: "post_write answer d = (p, ev, d1)" and d': "d' = d1\<lparr>d_pc := (if p then Wait_drain else Cancel_all)\<rparr>"
      using assms(3) r by (auto simp: flush_round_def Let_def split: prod.splits)
    have wr0: "wr_ring (d_wop d) (d_wbuf d)" using wr by (simp add: wr_inv_def)
    obtain b out where D: "d1 = d\<lparr>d_wbuf := b, d_wop := out, d_refio := d_refio d + of_bool (d_io d \<and> out \<and> \<not> d_wop d)\<rparr>"
      and W: "wr_ring out b" "rlist b = rlist (d_wbuf d)" "silent ev" "p \<longleftrightarrow> out \<and> \<not> d_wop d"
        "wr_err b \<longrightarrow> wr_err (d_wbuf d) \<or> write_failed ev" "rlist (d_wbuf d) \<noteq> [] \<and> \<not> wr_err (d_wbuf d) \<longrightarrow> out \<or> write_failed ev"
      by (rule post_write_effect [OF wr0 pw]) simp
    have p: "p = out" using W(4) ops by simp
    have or: "ring_ok r" using wr0 r by (simp add: wr_ring_def drain_ok_def)
    have ne: "rlist (d_wbuf d) \<noteq> [] \<and> \<not> wr_err (d_wbuf d)"
      using r length_ring_list [OF or] by (auto simp: rlist_def wr_err_def has_data_def error_def)
    have "rd_inv es d'" using rd assms(2) by (simp add: rd_inv_def d' D freed_def)
    moreover have "wr_inv (es @ ev) d'" using wr W(1,2,5,6) ne p assms(2) W(3) [unfolded silent_def]
      by (auto simp: wr_inv_def d' D freed_def)
    moreover have "cnt_inv d'" using cn ops p W(2) assms(2) by (simp add: cnt_inv_def d' D)
    moreover have "wait_inv (es @ ev) d'" by (simp add: wait_inv_def d' D)
    ultimately show ?thesis by (simp add: dinv_def silent_append [OF W(3)])
  qed
qed

lemma dinv_cancel:
  assumes "dinv es d" "d_pc d = Cancel_all"
  shows "dinv es (cancel_all d)"
  using assms by (auto simp: dinv_def cancel_all_def rd_inv_def wr_inv_def cnt_inv_def wait_inv_def freed_def)

lemma dinv_release:
  assumes "dinv es d" "d_pc d = Release"
  shows "dinv es (fin_release d)"
  using assms by (auto simp: dinv_def fin_release_def io_free_buffers_def rd_inv_def wr_inv_def cnt_inv_def wait_inv_def freed_def
      rd_ring_def wr_ring_def wr_err_def)

lemma dinv_wake:
  assumes "dinv es d" "d_pc d = Wake_rest" "fin_wake d = (ev, d')"
  shows "dinv (es @ ev) d'"
proof -
  have "ev = map Woken (d_rwait d) @ map Woken (d_wwait d)" "d' = d\<lparr>d_rwait := [], d_wwait := [], d_pc := Finished\<rparr>"
    using assms(3) by (simp_all add: fin_wake_def)
  then show ?thesis using assms(1,2)
    by (simp add: dinv_def rd_inv_def wr_inv_def cnt_inv_def wait_inv_def freed_def rd_ring_def wr_ring_def)
qed

lemma dinv_step:
  assumes "dstep d ev d'" "dinv es d"
  shows "dinv (es @ ev) d'"
  using assms
proof (cases rule: dstep.cases)
  case (reads mem created c len x)
  with dinv_read assms(2) show ?thesis by blast
next
  case (writes mem created c src x)
  with dinv_write assms(2) show ?thesis by blast
next
  case (stores r i xs)
  with dinv_store assms(2) show ?thesis by (metis append_Nil2)
next
  case (read_completes r bytes res)
  with dinv_read_completes assms(2) show ?thesis by blast
next
  case (write_completes r bytes res)
  with dinv_write_completes assms(2) show ?thesis by blast
next
  case (pumps rd wr)
  with dinv_pump assms(2) show ?thesis by blast
next
  case destroys
  have "wr_inv es (wakeup (d\<lparr>d_destroyed := True\<rparr>)) = wr_inv es d" by (simp add: wakeup_def wr_inv_def freed_def)
  moreover have "rd_inv es (wakeup (d\<lparr>d_destroyed := True\<rparr>)) = rd_inv es d" by (simp add: wakeup_def rd_inv_def freed_def)
  moreover have "cnt_inv (wakeup (d\<lparr>d_destroyed := True\<rparr>)) = cnt_inv d" by (simp add: wakeup_def cnt_inv_def)
  moreover have "wait_inv es d \<longrightarrow> wait_inv es (wakeup (d\<lparr>d_destroyed := True\<rparr>))" by (simp add: wakeup_def wait_inv_def)
  ultimately show ?thesis using assms(2) destroys by (simp add: dinv_def)
next
  case fin_begins
  with dinv_fin_begin assms(2) show ?thesis by simp
next
  case inflight_done
  with dinv_waited [of es d] assms(2) show ?thesis by simp
next
  case (flushes answer)
  with dinv_flush assms(2) show ?thesis by blast
next
  case drain_done
  with dinv_waited [of es d] assms(2) show ?thesis by simp
next
  case cancels
  with dinv_cancel assms(2) show ?thesis by simp
next
  case releases
  with dinv_release assms(2) show ?thesis by simp
next
  case wakes_rest
  with dinv_wake assms(2) show ?thesis by blast
qed

lemma dinv_new: "dinv [] (desc_new fd io)"
  by (simp add: dinv_def desc_new_def rd_inv_def wr_inv_def cnt_inv_def wait_inv_def freed_def rd_ring_def wr_ring_def rlist_def wr_err_def)

lemma dinv_runs: "druns (desc_new fd io) es d \<Longrightarrow> dinv es d"
  by (induction rule: druns.induct) (auto intro: dinv_new dinv_step)

section \<open>The descriptor as its users see it\<close>

lemma posted_region:
  assumes "dinv es d"
  shows "d_rop d \<Longrightarrow> \<exists>r m. d_rbuf d = Some r \<and> rg_buf r = Some m \<and> 0 < rg_posted r \<and> fill_pos r + rg_posted r \<le> length m
      \<and> rg_valid r + rg_posted r \<le> length m"
    and "d_wop d \<Longrightarrow> \<exists>r m. d_wbuf d = Some r \<and> rg_buf r = Some m \<and> 0 < rg_posted r \<and> rg_head r + rg_posted r \<le> length m
      \<and> rg_posted r \<le> rg_valid r"
proof -
  assume "d_rop d"
  with assms obtain r where r: "d_rbuf d = Some r" "fill_ok r" "rg_posted r \<noteq> 0"
    by (auto simp: dinv_def rd_inv_def rd_ring_def split: option.splits)
  moreover from r(2,3) obtain m where "rg_buf r = Some m" by (cases "rg_buf r") (auto simp: fill_ok_def ring_ok_def)
  moreover have "fill_pos r < rg_cap r" if "0 < rg_cap r" using that by (simp add: fill_pos_def)
  ultimately show "\<exists>r m. d_rbuf d = Some r \<and> rg_buf r = Some m \<and> 0 < rg_posted r \<and> fill_pos r + rg_posted r \<le> length m
      \<and> rg_valid r + rg_posted r \<le> length m"
    by (auto simp: fill_ok_def ring_ok_def fill_pos_def)
next
  assume "d_wop d"
  with assms obtain r where r: "d_wbuf d = Some r" "drain_ok r" "rg_posted r \<noteq> 0"
    by (auto simp: dinv_def wr_inv_def wr_ring_def split: option.splits)
  moreover from r(2,3) obtain m where "rg_buf r = Some m" by (cases "rg_buf r") (auto simp: drain_ok_def ring_ok_def)
  ultimately show "\<exists>r m. d_wbuf d = Some r \<and> rg_buf r = Some m \<and> 0 < rg_posted r \<and> rg_head r + rg_posted r \<le> length m
      \<and> rg_posted r \<le> rg_valid r"
    by (auto simp: drain_ok_def ring_ok_def)
qed

text \<open>Each ring is a queue of bytes: \<open>copy_out\<close> takes the first bytes, at most as many as asked and present;
  \<open>copy_in\<close> appends a prefix of the caller's bytes, as long as the free space allows.\<close>

theorem ring_is_queue:
  assumes "ring_ok r" "copy_out len r = (bs, r1)" "copy_in src r = (n, r2)"
  shows "ring_list r = bs @ ring_list r1 \<and> length bs = min len (length (ring_list r)) \<and> ring_ok r1 \<and>
    ring_list r2 = ring_list r @ take n src \<and> n \<le> length src \<and> ring_ok r2 \<and>
    (n < length src \<longrightarrow> rg_buf r = None \<or> length (ring_list r2) = rg_cap r)"
proof -
  note O = copy_out_ok [OF assms(1,2)] and I = copy_in_ok [OF assms(1,3)]
  have "n < length src \<longrightarrow> rg_buf r = None \<or> rg_valid r + n = rg_cap r"
  proof (cases "rg_buf r")
    case (Some m)
    then have "rg_valid r \<le> rg_cap r" using assms(1) by (simp add: ring_ok_def)
    moreover have "fst (copy_in src r) = (if rg_cap r - rg_valid r < length src then rg_cap r - rg_valid r else length src)"
      using Some by (simp add: copy_in_def Let_def)
    ultimately show ?thesis using assms(3) by simp
  qed simp
  then have "n < length src \<longrightarrow> rg_buf r = None \<or> length (ring_list r2) = rg_cap r"
    using length_ring_list [OF I(1)] I(9) by simp
  moreover have "ring_list r = bs @ ring_list r1" using O(2,3) by simp
  moreover have "length bs = min len (length (ring_list r))" using O(2) by (simp add: min.commute)
  ultimately show ?thesis using O(1) I(1,2,3) by blast
qed

theorem ring_is_queue_witness:
  "ring_list \<lparr>rg_buf = Some [3, 0, 1, 2 :: nat], rg_cap = 4, rg_head = 2, rg_valid = 3, rg_posted = 0, rg_eof = False, rg_err = 0\<rparr>
     = [1, 2] @ ring_list \<lparr>rg_buf = Some [3, 0, 1, 2 :: nat], rg_cap = 4, rg_head = 0, rg_valid = 1, rg_posted = 0, rg_eof = False, rg_err = 0\<rparr>"
  using ring_is_queue [of "\<lparr>rg_buf = Some [3, 0, 1, 2 :: nat], rg_cap = 4, rg_head = 2, rg_valid = 3, rg_posted = 0, rg_eof = False, rg_err = 0\<rparr>"
      2 "[1, 2]" "\<lparr>rg_buf = Some [3, 0, 1, 2 :: nat], rg_cap = 4, rg_head = 0, rg_valid = 1, rg_posted = 0, rg_eof = False, rg_err = 0\<rparr>"
      "[7, 8]" 1 "\<lparr>rg_buf = Some [3, 7, 1, 2 :: nat], rg_cap = 4, rg_head = 2, rg_valid = 4, rg_posted = 0, rg_eof = False, rg_err = 0\<rparr>"]
  by (simp add: ring_ok_def copy_out_def copy_in_def overlay_def)

text \<open>C19: No byte is lost, repeated or reordered between the operating system and the callers: what readers got is
  the beginning of what the handle delivered and the ring holds the rest; what the handle took is the
  beginning of what writers were told was accepted and the ring holds the rest.\<close>

theorem descriptor_bytes:
  assumes "druns (desc_new fd io) es d"
  shows "prefix (delivered es) (filled es) \<and> prefix (drained es) (accepted es) \<and>
    (d_pc d \<notin> {Wake_rest, Finished} \<longrightarrow>
       filled es = delivered es @ rlist (d_rbuf d) \<and> accepted es = drained es @ rlist (d_wbuf d))"
proof -
  have i: "dinv es d" using assms by (rule dinv_runs)
  then show ?thesis by (cases "freed d") (auto simp: dinv_def rd_inv_def wr_inv_def freed_def)
qed

text \<open>C18: The reactor is held open exactly by the posted operations, and while one is posted its region lies
  inside an allocated ring, beyond the bytes waiting for readers (read) or inside the bytes accepted from
  writers (write): a completion never finds a freed ring.\<close>

theorem descriptor_operations:
  assumes "druns (desc_new fd io) es d"
  shows "d_refio d = (if d_io d then of_bool (d_rop d) + of_bool (d_wop d) else 0) \<and>
    (d_rop d \<longrightarrow> d_tpio d \<and> (\<exists>r m. d_rbuf d = Some r \<and> rg_buf r = Some m \<and> 0 < rg_posted r \<and>
       fill_pos r + rg_posted r \<le> length m \<and> rg_valid r + rg_posted r \<le> length m)) \<and>
    (d_wop d \<longrightarrow> d_tpio d \<and> (\<exists>r m. d_wbuf d = Some r \<and> rg_buf r = Some m \<and> 0 < rg_posted r \<and>
       rg_head r + rg_posted r \<le> length m \<and> rg_posted r \<le> rg_valid r)) \<and>
    (d_pc d \<in> {Cancel_all, Release, Wake_rest, Finished} \<longrightarrow> \<not> d_rop d \<and> \<not> d_wop d \<and> d_refio d = 0)"
proof -
  have i: "dinv es d" using assms by (rule dinv_runs)
  then have "cnt_inv d" by (simp add: dinv_def)
  then have "d_refio d = (if d_io d then of_bool (d_rop d) + of_bool (d_wop d) else 0)" "d_rop d \<or> d_wop d \<longrightarrow> d_tpio d"
    "d_pc d \<in> {Cancel_all, Release, Wake_rest, Finished} \<longrightarrow> \<not> d_rop d \<and> \<not> d_wop d"
    unfolding cnt_inv_def by blast+
  then show ?thesis using posted_region [OF i] by (cases "d_rop d"; cases "d_wop d") simp_all
qed


text \<open>C20: A graceful close loses nothing: when the teardown is past its flush, every byte a writer was told was
  accepted has been taken by the handle, unless the handle reported an error.\<close>

theorem descriptor_graceful_close:
  assumes "druns (desc_new fd io) es d" "d_pc d \<in> {Cancel_all, Release, Wake_rest, Finished}"
    "\<not> write_failed es" "\<not> write_error es"
  shows "drained es = accepted es"
  using dinv_runs [OF assms(1)] assms(2-4) by (auto simp: dinv_def wr_inv_def)

section \<open>Runs\<close>

abbreviation d_first :: "nat desc" where "d_first \<equiv> desc_new True True"

abbreviation mem0 :: "nat list" where "mem0 \<equiv> replicate TS2IO_RING_CAP 0"

lemma cap_pos [simp]: "0 < TS2IO_RING_CAP" "TS2IO_RING_CAP \<noteq> 0" by (simp_all add: TS2IO_RING_CAP_def)

abbreviation ring0 :: "nat ring" where
  "ring0 \<equiv> \<lparr>rg_buf = Some mem0, rg_cap = TS2IO_RING_CAP, rg_head = 0, rg_valid = 0, rg_posted = 0, rg_eof = False, rg_err = 0\<rparr>"

abbreviation d_parked :: "nat desc" where
  "d_parked \<equiv> d_first\<lparr>d_rbuf := Some ring0, d_tpio := True, d_rwait := [1], d_kick := True\<rparr>"

lemma run_park: "druns d_first [] d_parked"
proof -
  have "read_d (Some mem0) True 1 5 d_first = (Parked, d_parked)"
    by (simp add: read_d_def desc_new_def ring_alloc_def ring_new_def ensure_tpio_def copy_out_def Let_def is_eof_def error_def wakeup_def park_def)
  from druns.next_step [OF druns.start dstep.reads [OF _ this]] show ?thesis by (simp add: mem_ok_def)
qed

text \<open>A reader parks, its read fails at once because the pipe is broken, and nothing will wake the reader:
  the ring is at the end of the file, no event is pending and no operation is posted.\<close>

lemma broken_pipe_strands_reader:
  "\<exists>es d. druns d_first es d \<and> d_pc d = Act \<and> d_rwait d = [1] \<and> \<not> d_kick d \<and> \<not> d_rop d \<and> \<not> d_wop d \<and>
     (\<exists>r. d_rbuf d = Some r \<and> is_eof r)"
proof -
  let ?d = "d_first\<lparr>d_rbuf := Some (ring0\<lparr>rg_eof := True\<rparr>), d_tpio := True, d_rwait := [1]\<rparr>"
  have "act_start (Some ERROR_BROKEN_PIPE) None (d_parked\<lparr>d_kick := False\<rparr>) = ([Read_failed ERROR_BROKEN_PIPE], ?d)"
    by (simp add: act_start_def pump_io_def wake_readers_def wake_writers_def post_read_def post_write_def desc_new_def
        reserve_fill_def Let_def has_data_def is_eof_def error_def addRefio_def delRefio_def complete_fill_def
        ERROR_BROKEN_PIPE_def ERROR_OPERATION_ABORTED_def ERROR_HANDLE_EOF_def)
  then have "dstep d_parked [Read_failed ERROR_BROKEN_PIPE] ?d" by (intro dstep.pumps) (simp_all add: desc_new_def)
  from druns.next_step [OF run_park this] show ?thesis
    by (intro exI [of _ "[Read_failed ERROR_BROKEN_PIPE]"] exI [of _ ?d]) (simp add: desc_new_def is_eof_def)
qed

text \<open>A writer on a thread of its own finds the ring full and kicks the pump; the posted write completes and
  the pump runs before the writer has parked: the ring is empty and nothing will wake the writer.\<close>

lemma kick_before_park_strands_writer:
  assumes "r = \<lparr>rg_buf = Some [7], rg_cap = 1, rg_head = 0, rg_valid = 1, rg_posted = 1, rg_eof = False, rg_err = 0\<rparr>"
    "d = d_first\<lparr>d_tpio := True, d_wbuf := Some r, d_wop := True, d_refio := 1\<rparr>"
  shows "\<exists>d1 d2. write_try None True [8] d = (None, d1) \<and>
    act_start None None ((io_cb False 0 1 d1)\<lparr>d_kick := False\<rparr>) = ([], d2) \<and>
    d_wwait (write_park 5 d2) = [5] \<and> \<not> d_kick (write_park 5 d2) \<and> \<not> d_wop (write_park 5 d2) \<and>
    (\<exists>r. d_wbuf (write_park 5 d2) = Some r \<and> has_space r)"
  using assms
  by (simp add: write_try_def desc_new_def ring_alloc_def ensure_tpio_def copy_in_def error_def wakeup_def io_cb_def on_complete_def
      complete_drain_def delRefio_def act_start_def pump_io_def wake_readers_def wake_writers_def post_read_def post_write_def
      reserve_drain_def write_park_def park_def has_space_def)

text \<open>A call for no bytes at all parks its caller, also when the ring has data or space.\<close>

lemma empty_call_parks:
  assumes "d_pc d = Act" "d_tpio d" "d_wbuf d = Some r" "rg_buf r = Some m" "rg_err r = 0"
  shows "fst (write_d mem created c [] d) = Parked"
  using assms by (simp add: write_d_def write_try_def ring_alloc_def ensure_tpio_def error_def copy_in_def)

text \<open>A run that reads: the reader parks, the pump posts a read, two bytes arrive.\<close>

abbreviation ringf :: "nat list \<Rightarrow> nat \<Rightarrow> nat \<Rightarrow> nat ring" where
  "ringf m v p \<equiv> \<lparr>rg_buf = Some m, rg_cap = TS2IO_RING_CAP, rg_head = 0, rg_valid = v, rg_posted = p, rg_eof = False, rg_err = 0\<rparr>"

abbreviation d_posted :: "nat desc" where
  "d_posted \<equiv> d_first\<lparr>d_rbuf := Some (ringf mem0 0 TS2IO_RING_CAP), d_tpio := True, d_rwait := [1], d_rop := True, d_refio := 1\<rparr>"

lemma run_posted: "druns d_first [] d_posted"
proof -
  have "act_start None None (d_parked\<lparr>d_kick := False\<rparr>) = ([], d_posted)"
    by (simp add: act_start_def pump_io_def wake_readers_def wake_writers_def post_read_def post_write_def desc_new_def
        reserve_fill_def Let_def has_data_def is_eof_def error_def addRefio_def)
  then have "dstep d_parked [] d_posted" by (intro dstep.pumps) (simp_all add: desc_new_def)
  from druns.next_step [OF run_park this] show ?thesis by simp
qed

abbreviation mem2 :: "nat list" where "mem2 \<equiv> overlay 0 [5, 6] mem0"

lemma run_filled:
  "druns d_first [Filled [5, 6]] (d_first\<lparr>d_rbuf := Some (ringf mem2 2 0), d_tpio := True, d_rwait := [1], d_kick := True\<rparr>)"
proof -
  have "dstep d_posted [] (d_posted\<lparr>d_rbuf := Some (os_write 0 [5, 6] (ringf mem0 0 TS2IO_RING_CAP))\<rparr>)"
    by (rule dstep.stores) (simp_all add: desc_new_def fill_pos_def TS2IO_RING_CAP_def)
  from druns.next_step [OF run_posted this]
  have s: "druns d_first [] (d_posted\<lparr>d_rbuf := Some (ringf mem2 0 TS2IO_RING_CAP)\<rparr>)" by (simp add: os_write_def)
  let ?d = "d_posted\<lparr>d_rbuf := Some (ringf mem2 0 TS2IO_RING_CAP)\<rparr>"
  have "dstep ?d [Filled (region_bytes (fill_pos (ringf mem2 0 TS2IO_RING_CAP)) 0 2 (ringf mem2 0 TS2IO_RING_CAP))] (io_cb True 0 2 ?d)"
    by (rule dstep.read_completes) (simp_all add: desc_new_def TS2IO_RING_CAP_def)
  moreover have "region_bytes (fill_pos (ringf mem2 0 TS2IO_RING_CAP)) 0 2 (ringf mem2 0 TS2IO_RING_CAP) = [5, 6]"
    by (simp add: region_bytes_def fill_pos_def overlay_def)
  moreover have "io_cb True 0 2 ?d = d_first\<lparr>d_rbuf := Some (ringf mem2 2 0), d_tpio := True, d_rwait := [1], d_kick := True\<rparr>"
    by (simp add: io_cb_def on_complete_def complete_fill_def Let_def wakeup_def delRefio_def desc_new_def)
  ultimately show ?thesis using druns.next_step [OF s] by fastforce
qed

theorem descriptor_bytes_witness: "[5, 6] = ring_list (ringf mem2 2 0)"
  using descriptor_bytes [OF run_filled] by (simp add: desc_new_def rlist_def)

theorem descriptor_operations_witness: "0 < TS2IO_RING_CAP \<and> d_refio d_posted = 1"
  using descriptor_operations [OF run_posted] by (simp add: desc_new_def)


text \<open>A run that closes: a byte is accepted, the descriptor is destroyed before the pump has posted it, and the
  teardown writes it.\<close>

abbreviation mem8 :: "nat list" where "mem8 \<equiv> overlay 0 [8] mem0"

abbreviation d_closing_at :: "dpc \<Rightarrow> nat ring \<Rightarrow> nat desc" where
  "d_closing_at pc r \<equiv> d_first\<lparr>d_wbuf := Some r, d_tpio := True, d_destroyed := True, d_closing := True, d_state := TS2IO_CLOSE, d_pc := pc\<rparr>"

lemma run_closing: "druns d_first [Accepted 1 [8]] (d_closing_at Wait_inflight (ringf mem8 1 0))"
proof -
  let ?w = "d_first\<lparr>d_wbuf := Some (ringf mem8 1 0), d_tpio := True, d_kick := True\<rparr>"
  let ?d = "d_first\<lparr>d_wbuf := Some (ringf mem8 1 0), d_tpio := True, d_kick := True, d_destroyed := True\<rparr>"
  let ?f = "d_first\<lparr>d_wbuf := Some (ringf mem8 1 0), d_tpio := True, d_destroyed := True, d_pc := Fin_start\<rparr>"
  have "write_d (Some mem0) True 1 [8] d_first = (Count 1, ?w)"
    by (simp add: write_d_def write_try_def desc_new_def ring_alloc_def ring_new_def ensure_tpio_def copy_in_def Let_def error_def
        wakeup_def TS2IO_RING_CAP_def)
  from druns.next_step [OF druns.start dstep.writes [OF _ this]] have "druns d_first [Accepted 1 [8]] ?w" by (simp add: mem_ok_def)
  from druns.next_step [OF this dstep.destroys] have d: "druns d_first [Accepted 1 [8]] ?d" by (simp add: wakeup_def desc_new_def)
  have "dstep ?d [] ?f" by (rule dstep.pumps) (simp_all add: act_start_def desc_new_def)
  from druns.next_step [OF d this] have f: "druns d_first [Accepted 1 [8]] ?f" by simp
  have "dstep ?f [] (fin_begin ?f)" by (rule dstep.fin_begins) simp
  from druns.next_step [OF f this] show ?thesis by (simp add: fin_begin_def desc_new_def)
qed

lemma run_closed: "druns d_first [Accepted 1 [8], Drained [8]] (d_closing_at Cancel_all (ringf mem8 0 0\<lparr>rg_head := 1\<rparr>)\<lparr>d_kick := True\<rparr>)"
proof -
  let ?p = "d_closing_at Wait_drain (ringf mem8 1 1)\<lparr>d_wop := True, d_refio := 1\<rparr>"
  let ?q = "d_closing_at Wait_drain (ringf mem8 0 0\<lparr>rg_head := 1\<rparr>)\<lparr>d_kick := True\<rparr>"
  let ?l = "d_closing_at Flush_loop (ringf mem8 0 0\<lparr>rg_head := 1\<rparr>)\<lparr>d_kick := True\<rparr>"
  have cap: "Suc 0 mod TS2IO_RING_CAP = Suc 0" "Suc 0 < TS2IO_RING_CAP" "TS2IO_RING_CAP \<noteq> Suc 0" "\<not> TS2IO_RING_CAP \<le> Suc 0" by (simp_all add: TS2IO_RING_CAP_def)
  have "dstep (d_closing_at Wait_inflight (ringf mem8 1 0)) [] (d_closing_at Flush_loop (ringf mem8 1 0))"
    using dstep.inflight_done [of "d_closing_at Wait_inflight (ringf mem8 1 0)"] by (simp add: desc_new_def)
  from druns.next_step [OF run_closing this] have a: "druns d_first [Accepted 1 [8]] (d_closing_at Flush_loop (ringf mem8 1 0))" by simp
  have "dstep (d_closing_at Flush_loop (ringf mem8 1 0)) [] ?p"
    by (rule dstep.flushes [where answer = None])
      (simp_all add: flush_round_def has_data_def error_def post_write_def reserve_drain_def Let_def addRefio_def desc_new_def cap)
  from druns.next_step [OF a this] have b: "druns d_first [Accepted 1 [8]] ?p" by simp
  have "dstep ?p [Drained (region_bytes 0 0 1 (ringf mem8 1 1))] (io_cb False 0 1 ?p)"
    using dstep.write_completes [of ?p "ringf mem8 1 1" 1 0] by (simp add: desc_new_def)
  moreover have "region_bytes 0 0 1 (ringf mem8 1 1) = [8]" by (simp add: region_bytes_def overlay_def)
  moreover have "io_cb False 0 1 ?p = ?q"
    by (simp add: io_cb_def on_complete_def complete_drain_def Let_def wakeup_def delRefio_def desc_new_def cap)
  ultimately have c: "druns d_first [Accepted 1 [8], Drained [8]] ?q" using druns.next_step [OF b] by fastforce
  have "dstep ?q [] ?l" using dstep.drain_done [of ?q] by (simp add: desc_new_def)
  from druns.next_step [OF c this] have d: "druns d_first [Accepted 1 [8], Drained [8]] ?l" by simp
  have "dstep ?l [] (d_closing_at Cancel_all (ringf mem8 0 0\<lparr>rg_head := 1\<rparr>)\<lparr>d_kick := True\<rparr>)"
    by (rule dstep.flushes [where answer = None]) (simp_all add: flush_round_def has_data_def desc_new_def)
  from druns.next_step [OF d this] show ?thesis by simp
qed

theorem descriptor_graceful_close_witness: "drained [Accepted 1 [8], Drained [8 :: nat]] = [8] \<and> accepted [Accepted 1 [8], Drained [8 :: nat]] = [8]"
  using descriptor_graceful_close [OF run_closed] by (simp add: desc_new_def)

end
