(* ===== verification/DgramRing.thy ===== *)
theory DgramRing
  imports ByteRing "HOL-Library.Word"
begin

text \<open>
  The datagram ring \<open>ts2io_dgram_ring\<close> of \<open>src/arch/posix_MinGW/src/classes/ts2/c++/ts2IOsocket.cpp\<close>: slots of
  a fixed capacity that keep the boundaries of datagrams and the address of the peer.  A receive ring is
  filled by the operating system behind its ready records, a send ring is drained from its head; the
  plain path posts one operation per direction, the registered path (RIO) as many as there are slots.
  Every operation runs under the mutex of the ring.
\<close>

section \<open>The ring\<close>

type_synonym byte = "8 word"

record slot =
  s_buf :: "byte list"
  s_len :: nat
  s_addr :: "byte list"
  s_alen :: nat

record dring =
  dr_sl :: "slot list option"
  dr_n :: nat
  dr_cap :: nat
  dr_head :: nat
  dr_fill :: nat
  dr_posted :: nat
  dr_depth :: int
  dr_err :: int
  dr_reg :: bool

definition sockaddr_storage :: nat where "sockaddr_storage = 128"
definition sockaddr_in :: nat where "sockaddr_in = 16"
definition sockaddr_in6 :: nat where "sockaddr_in6 = 28"
definition AF_INET6 :: nat where "AF_INET6 = 23"
definition ss_family :: "byte list \<Rightarrow> nat" where "ss_family a = unat (a ! 0) + 256 * unat (a ! 1)"

definition dring_new :: dring where
  "dring_new = \<lparr>dr_sl = None, dr_n = 0, dr_cap = 0, dr_head = 0, dr_fill = 0, dr_posted = 0, dr_depth = 0, dr_err = 0, dr_reg = False\<rparr>"

definition set_recv_depth :: "int \<Rightarrow> dring \<Rightarrow> dring" where "set_recv_depth d r = r\<lparr>dr_depth := d\<rparr>"

text \<open>\<open>mem\<close> is what \<open>calloc\<close> gives, if anything; \<open>whole\<close>: each \<open>malloc\<close> of a buffer succeeded.\<close>

definition dring_alloc :: "slot list option \<Rightarrow> bool \<Rightarrow> nat \<Rightarrow> dring \<Rightarrow> int \<times> dring" where
  "dring_alloc mem whole cap r =
     (if dr_sl r \<noteq> None then (0, r)
      else case mem of
        None \<Rightarrow> (- 1, r)
      | Some ss \<Rightarrow>
          if \<not> whole then (- 1, r\<lparr>dr_sl := Some ss\<rparr>)
          else (0, r\<lparr>dr_sl := Some ss, dr_n := length ss, dr_cap := cap\<rparr>))"

definition slot_at :: "dring \<Rightarrow> nat \<Rightarrow> slot" where
  "slot_at r i = the (dr_sl r) ! ((dr_head r + i) mod dr_n r)"

definition set_slot :: "nat \<Rightarrow> slot \<Rightarrow> dring \<Rightarrow> dring" where
  "set_slot i s r = r\<lparr>dr_sl := map_option (\<lambda>ss. ss[(dr_head r + i) mod dr_n r := s]) (dr_sl r)\<rparr>"

definition advance :: "dring \<Rightarrow> dring" where
  "advance r = r\<lparr>dr_head := (dr_head r + 1) mod dr_n r, dr_fill := dr_fill r - 1\<rparr>"

section \<open>Receiving\<close>

definition recv_reserve :: "dring \<Rightarrow> bool \<times> dring" where
  "recv_reserve r =
     (if dr_sl r = None \<or> dr_posted r \<noteq> 0 \<or> dr_err r \<noteq> 0 \<or> dr_fill r \<ge> dr_n r then (False, r)
      else (True, (set_slot (dr_fill r) ((slot_at r (dr_fill r))\<lparr>s_alen := sockaddr_storage\<rparr>) r)\<lparr>dr_posted := 1\<rparr>))"

definition recv_complete :: "nat \<Rightarrow> int \<Rightarrow> dring \<Rightarrow> dring" where
  "recv_complete bytes res r0 =
     (let r = r0\<lparr>dr_posted := 0\<rparr> in
      if res = 0 then (set_slot (dr_fill r) ((slot_at r (dr_fill r))\<lparr>s_len := bytes\<rparr>) r)\<lparr>dr_fill := dr_fill r + 1\<rparr>
      else if res = ERROR_OPERATION_ABORTED then r
      else r\<lparr>dr_err := res\<rparr>)"

text \<open>A record as a receiver sees it: the bytes of the datagram and the address of its sender.\<close>

definition rec_of :: "slot \<Rightarrow> byte list \<times> byte list" where
  "rec_of s = (take (s_len s) (s_buf s), take (s_alen s) (s_addr s))"

definition recv_consume :: "nat \<Rightarrow> nat \<Rightarrow> dring \<Rightarrow> (byte list \<times> byte list \<times> nat) option \<times> dring" where
  "recv_consume dlen fromlen r =
     (if dr_sl r = None \<or> dr_fill r = 0 then (None, r)
      else
        let s = slot_at r 0; nb = (if s_len s < dlen then s_len s else dlen);
            fl = (if s_alen s < fromlen then s_alen s else fromlen)
        in (Some (take nb (s_buf s), take fl (s_addr s), s_alen s), advance r))"

text \<open>\<open>recv_consume_iov\<close> scatters a record over buffers of the given sizes.\<close>

fun scatter :: "nat list \<Rightarrow> byte list \<Rightarrow> byte list list" where
  "scatter [] bs = []"
| "scatter (c # cs) bs = (if bs = [] then [] else take c bs # scatter cs (drop c bs))"

definition recv_consume_iov :: "nat list \<Rightarrow> nat \<Rightarrow> dring \<Rightarrow> (byte list list \<times> byte list \<times> nat \<times> nat) option \<times> dring" where
  "recv_consume_iov iov fromlen r =
     (if dr_sl r = None \<or> dr_fill r = 0 then (None, r)
      else
        let s = slot_at r 0; fl = (if s_alen s < fromlen then s_alen s else fromlen)
        in (Some (scatter iov (take (s_len s) (s_buf s)), take fl (s_addr s), s_alen s, s_len s), advance r))"

section \<open>Sending\<close>

definition put_addr :: "byte list \<Rightarrow> slot \<Rightarrow> slot" where
  "put_addr to s =
     (if to \<noteq> []
      then let al = (if length to \<le> sockaddr_storage then length to else sockaddr_storage)
           in s\<lparr>s_alen := al, s_addr := overlay 0 (take al to) (s_addr s)\<rparr>
      else s\<lparr>s_alen := 0\<rparr>)"

definition send_produce :: "byte list \<Rightarrow> byte list \<Rightarrow> dring \<Rightarrow> int \<times> dring" where
  "send_produce src to r =
     (if dr_sl r = None \<or> dr_fill r \<ge> dr_n r then (- 1, r)
      else
        let s = slot_at r (dr_fill r); nb = (if length src < dr_cap r then length src else dr_cap r);
            s = s\<lparr>s_buf := overlay 0 (take nb src) (s_buf s), s_len := nb\<rparr>
        in (int nb, (set_slot (dr_fill r) (put_addr to s) r)\<lparr>dr_fill := dr_fill r + 1\<rparr>))"

text \<open>The loop that gathers the parts of a message: each part is cut to the room that is left.\<close>

fun gather :: "nat \<Rightarrow> nat \<Rightarrow> byte list list \<Rightarrow> byte list \<Rightarrow> nat \<times> byte list" where
  "gather cap off [] buf = (off, buf)"
| "gather cap off (p # ps) buf =
     (if off < cap
      then let c = length p; c = (if c > cap - off then cap - off else c)
           in gather cap (off + c) ps (overlay off (take c p) buf)
      else (off, buf))"

definition send_produce_iov :: "byte list list \<Rightarrow> byte list \<Rightarrow> dring \<Rightarrow> int \<times> dring" where
  "send_produce_iov iov to r =
     (if dr_sl r = None \<or> dr_fill r \<ge> dr_n r then (- 1, r)
      else
        let s = slot_at r (dr_fill r); (off, buf) = gather (dr_cap r) 0 iov (s_buf s);
            s = s\<lparr>s_buf := buf, s_len := off\<rparr>
        in (int off, (set_slot (dr_fill r) (put_addr to s) r)\<lparr>dr_fill := dr_fill r + 1\<rparr>))"

definition send_reserve :: "dring \<Rightarrow> bool \<times> dring" where
  "send_reserve r =
     (if dr_sl r = None \<or> dr_posted r \<noteq> 0 \<or> dr_err r \<noteq> 0 \<or> dr_fill r = 0 then (False, r)
      else (True, r\<lparr>dr_posted := 1\<rparr>))"

definition send_complete :: "int \<Rightarrow> dring \<Rightarrow> dring" where
  "send_complete res r0 =
     (let r = r0\<lparr>dr_posted := 0\<rparr> in
      if res = 0 then advance r
      else if res = ERROR_OPERATION_ABORTED then r
      else r\<lparr>dr_err := res\<rparr>)"

definition has_ready :: "dring \<Rightarrow> bool" where "has_ready r = (dr_fill r > 0)"
definition dr_has_space :: "dring \<Rightarrow> bool" where "dr_has_space r = (dr_sl r \<noteq> None \<and> dr_fill r < dr_n r)"
definition dr_error :: "dring \<Rightarrow> int" where "dr_error r = dr_err r"

section \<open>The registered path\<close>

text \<open>\<open>ids\<close>: \<open>None\<close> when there is no memory for the identifiers, else whether every registration succeeded.\<close>

definition rio_register :: "bool option \<Rightarrow> dring \<Rightarrow> int \<times> dring" where
  "rio_register ids r =
     (if dr_sl r = None \<or> dr_reg r then (if dr_sl r \<noteq> None then 0 else - 1, r)
      else case ids of
        None \<Rightarrow> (- 1, r)
      | Some whole \<Rightarrow> (if whole then 0 else - 1, r\<lparr>dr_reg := True\<rparr>))"

definition rio_deregister :: "dring \<Rightarrow> dring" where "rio_deregister r = r\<lparr>dr_reg := False\<rparr>"

definition rio_recv_reserve :: "dring \<Rightarrow> bool \<times> dring" where
  "rio_recv_reserve r =
     (if dr_sl r = None \<or> \<not> dr_reg r \<or> dr_err r \<noteq> 0 \<or> dr_fill r + dr_posted r \<ge> dr_n r then (False, r)
      else if dr_depth r > 0 \<and> int (dr_posted r) \<ge> dr_depth r then (False, r)
      else (True, r\<lparr>dr_posted := dr_posted r + 1\<rparr>))"

definition rio_recv_complete :: "nat \<Rightarrow> int \<Rightarrow> dring \<Rightarrow> dring" where
  "rio_recv_complete bytes res r0 =
     (let r = (if dr_posted r0 > 0 then r0\<lparr>dr_posted := dr_posted r0 - 1\<rparr> else r0) in
      if res = 0 then
        let s = slot_at r (dr_fill r);
            s = s\<lparr>s_len := bytes, s_alen := (if ss_family (s_addr s) = AF_INET6 then sockaddr_in6 else sockaddr_in)\<rparr>
        in (set_slot (dr_fill r) s r)\<lparr>dr_fill := dr_fill r + 1\<rparr>
      else if res = ERROR_OPERATION_ABORTED then r
      else r\<lparr>dr_err := res\<rparr>)"

definition rio_send_reserve :: "dring \<Rightarrow> bool \<times> dring" where
  "rio_send_reserve r =
     (if dr_sl r = None \<or> \<not> dr_reg r \<or> dr_err r \<noteq> 0 \<or> dr_posted r \<ge> dr_fill r then (False, r)
      else (True, r\<lparr>dr_posted := dr_posted r + 1\<rparr>))"

definition rio_send_complete :: "int \<Rightarrow> dring \<Rightarrow> dring" where
  "rio_send_complete res r0 =
     (let r = (if dr_posted r0 > 0 then r0\<lparr>dr_posted := dr_posted r0 - 1\<rparr> else r0);
          r = (if res \<noteq> 0 \<and> res \<noteq> ERROR_OPERATION_ABORTED then r\<lparr>dr_err := res\<rparr> else r)
      in if dr_fill r > 0 then advance r else r)"

text \<open>The operating system writes a datagram and an address into the \<open>i\<close>-th posted slot.\<close>

definition os_store :: "nat \<Rightarrow> byte list \<Rightarrow> byte list \<Rightarrow> nat \<Rightarrow> dring \<Rightarrow> dring" where
  "os_store i bs addr al r =
     (let j = dr_fill r + i; s = slot_at r j
      in set_slot j (s\<lparr>s_buf := overlay 0 bs (s_buf s), s_addr := overlay 0 addr (s_addr s), s_alen := al\<rparr>) r)"

section \<open>The ring as a queue of records\<close>

definition slot_ok :: "nat \<Rightarrow> slot \<Rightarrow> bool" where
  "slot_ok cap s \<longleftrightarrow> length (s_buf s) = cap \<and> s_len s \<le> cap \<and> length (s_addr s) = sockaddr_storage \<and> s_alen s \<le> sockaddr_storage"

text \<open>A ring without slots, or whose allocation failed halfway, is empty.\<close>

definition dring_ok :: "dring \<Rightarrow> bool" where
  "dring_ok r \<longleftrightarrow>
     (if dr_n r = 0 then dr_head r = 0 \<and> dr_fill r = 0 \<and> dr_posted r = 0
      else case dr_sl r of None \<Rightarrow> False
        | Some ss \<Rightarrow> length ss = dr_n r \<and> dr_head r < dr_n r \<and> dr_fill r \<le> dr_n r \<and> (\<forall>s\<in>set ss. slot_ok (dr_cap r) s))"

definition recv_ok :: "dring \<Rightarrow> bool" where "recv_ok r \<longleftrightarrow> dring_ok r \<and> dr_fill r + dr_posted r \<le> dr_n r"
definition send_ok :: "dring \<Rightarrow> bool" where "send_ok r \<longleftrightarrow> dring_ok r \<and> dr_posted r \<le> dr_fill r"

definition dg_list :: "dring \<Rightarrow> (byte list \<times> byte list) list" where
  "dg_list r = map (\<lambda>i. rec_of (slot_at r i)) [0..<dr_fill r]"

lemma dring_okE:
  assumes "dring_ok r" "0 < dr_n r"
  obtains ss where "dr_sl r = Some ss" "length ss = dr_n r" "dr_head r < dr_n r" "dr_fill r \<le> dr_n r" "\<forall>s\<in>set ss. slot_ok (dr_cap r) s"
  using assms that by (auto simp: dring_ok_def split: option.splits)

lemma slot_at_ok: "dring_ok r \<Longrightarrow> 0 < dr_n r \<Longrightarrow> slot_ok (dr_cap r) (slot_at r i)"
  by (erule (1) dring_okE) (simp add: slot_at_def)

lemma set_slot_fields [simp]:
  "dr_n (set_slot i s r) = dr_n r" "dr_cap (set_slot i s r) = dr_cap r" "dr_head (set_slot i s r) = dr_head r"
  "dr_fill (set_slot i s r) = dr_fill r" "dr_posted (set_slot i s r) = dr_posted r" "dr_err (set_slot i s r) = dr_err r"
  "dr_depth (set_slot i s r) = dr_depth r" "dr_reg (set_slot i s r) = dr_reg r" "(dr_sl (set_slot i s r) = None) = (dr_sl r = None)"
  by (simp_all add: set_slot_def)

lemma set_slot_ok: "dring_ok r \<Longrightarrow> slot_ok (dr_cap r) s \<Longrightarrow> dring_ok (set_slot i s r)"
proof (cases "dr_n r = 0")
  case False
  assume "dring_ok r" "slot_ok (dr_cap r) s"
  with False obtain ss where "dr_sl r = Some ss" "length ss = dr_n r" "dr_head r < dr_n r" "dr_fill r \<le> dr_n r" "\<forall>x\<in>set ss. slot_ok (dr_cap r) x"
    by (auto elim: dring_okE)
  then show ?thesis using False \<open>slot_ok (dr_cap r) s\<close> set_update_subset_insert [of ss "(dr_head r + i) mod dr_n r" s]
    by (auto simp: dring_ok_def set_slot_def)
qed (simp add: dring_ok_def set_slot_def)

lemma slot_at_set:
  assumes "dring_ok r" "0 < dr_n r" "i < dr_n r" "j < dr_n r"
  shows "slot_at (set_slot j s r) i = (if i = j then s else slot_at r i)"
proof -
  obtain ss where ss: "dr_sl r = Some ss" "length ss = dr_n r" using assms(1,2) by (rule dring_okE)
  have "(dr_head r + i) mod dr_n r \<noteq> (dr_head r + j) mod dr_n r" if "i \<noteq> j"
    using that mod_differs [of "dr_head r + i" "dr_head r + j" "dr_n r"] mod_differs [of "dr_head r + j" "dr_head r + i" "dr_n r"] assms(3,4)
    by (cases "i < j") simp_all
  then show ?thesis using ss assms(2) by (auto simp: slot_at_def set_slot_def nth_list_update)
qed

lemma slot_at_fields [simp]:
  "slot_at (r\<lparr>dr_fill := f\<rparr>) i = slot_at r i" "slot_at (r\<lparr>dr_posted := p\<rparr>) i = slot_at r i" "slot_at (r\<lparr>dr_err := e\<rparr>) i = slot_at r i"
  "slot_at (r\<lparr>dr_depth := d\<rparr>) i = slot_at r i" "slot_at (r\<lparr>dr_reg := b\<rparr>) i = slot_at r i"
  by (simp_all add: slot_at_def)

lemma dg_list_fields [simp]:
  "dg_list (r\<lparr>dr_posted := p\<rparr>) = dg_list r" "dg_list (r\<lparr>dr_err := e\<rparr>) = dg_list r" "dg_list (r\<lparr>dr_depth := d\<rparr>) = dg_list r"
  "dg_list (r\<lparr>dr_reg := b\<rparr>) = dg_list r"
  by (simp_all add: dg_list_def)

lemma dring_ok_fields [simp]:
  "dring_ok (r\<lparr>dr_err := e\<rparr>) = dring_ok r" "dring_ok (r\<lparr>dr_depth := d\<rparr>) = dring_ok r" "dring_ok (r\<lparr>dr_reg := b\<rparr>) = dring_ok r"
  "0 < dr_n r \<Longrightarrow> dring_ok (r\<lparr>dr_posted := p\<rparr>) = dring_ok r" "dring_ok r \<Longrightarrow> dring_ok (r\<lparr>dr_posted := 0\<rparr>)"
  by (auto simp: dring_ok_def split: option.splits if_splits)

lemma set_slot_posted: "set_slot i s (r\<lparr>dr_posted := p\<rparr>) = (set_slot i s r)\<lparr>dr_posted := p\<rparr>"
  by (simp add: set_slot_def)

lemma length_dg_list [simp]: "length (dg_list r) = dr_fill r" by (simp add: dg_list_def)

text \<open>A slot beyond the ready records can change; filled, it becomes the last record.\<close>

lemma dg_list_behind:
  assumes "dring_ok r" "0 < dr_n r" "dr_fill r \<le> j" "j < dr_n r"
  shows "dg_list (set_slot j s r) = dg_list r"
  using assms by (auto simp: dg_list_def slot_at_set intro!: map_cong)

lemma dg_list_add:
  assumes "dring_ok r" "dr_fill r < dr_n r"
  shows "dg_list ((set_slot (dr_fill r) s r)\<lparr>dr_fill := dr_fill r + 1\<rparr>) = dg_list r @ [rec_of s]"
  using assms by (auto simp: dg_list_def slot_at_set intro!: map_cong)

lemma dg_list_advance:
  assumes "0 < dr_fill r"
  shows "dg_list r = rec_of (slot_at r 0) # dg_list (advance r)"
proof -
  have "slot_at (advance r) i = slot_at r (Suc i)" for i
    by (simp add: slot_at_def advance_def mod_add_left_eq)
  then have "dg_list (advance r) = map (\<lambda>i. rec_of (slot_at r (Suc i))) [0..<dr_fill r - 1]"
    by (simp add: dg_list_def advance_def)
  moreover have "[0..<dr_fill r] = 0 # map Suc [0..<dr_fill r - 1]"
    using assms by (simp add: map_Suc_upt upt_conv_Cons)
  ultimately show ?thesis by (simp add: dg_list_def)
qed

lemma advance_fields [simp]:
  "dr_n (advance r) = dr_n r" "dr_cap (advance r) = dr_cap r" "dr_posted (advance r) = dr_posted r" "dr_err (advance r) = dr_err r"
  "dr_fill (advance r) = dr_fill r - 1" "dr_sl (advance r) = dr_sl r" "dr_reg (advance r) = dr_reg r" "dr_depth (advance r) = dr_depth r"
  by (simp_all add: advance_def)

lemma advance_ok: "dring_ok r \<Longrightarrow> 0 < dr_fill r \<Longrightarrow> dring_ok (advance r)"
  by (auto simp: dring_ok_def advance_def split: option.splits if_splits)

lemma overlay_overlay:
  "i + length xs \<le> length m \<Longrightarrow> overlay (i + length xs) ys (overlay i xs m) = overlay i (xs @ ys) m"
  by (simp add: overlay_def ac_simps)

lemma gather_spec:
  assumes "off \<le> cap" "length buf = cap"
  shows "gather cap off ps buf = (min cap (off + length (concat ps)), overlay off (take (cap - off) (concat ps)) buf)"
  using assms
proof (induction ps arbitrary: off buf)
  case Nil
  then show ?case by (simp add: overlay_def)
next
  case (Cons p ps)
  show ?case
  proof (cases "off < cap")
    case False
    with Cons.prems have "off = cap" by simp
    then show ?thesis using Cons.prems by (simp add: overlay_def)
  next
    case True
    define c where "c = min (length p) (cap - off)"
    have c: "off + c \<le> cap" "length (take c p) = c" using Cons.prems(1) by (auto simp: c_def)
    have l: "length (overlay off (take c p) buf) = cap" using c Cons.prems by simp
    have "gather cap off (p # ps) buf = gather cap (off + c) ps (overlay off (take c p) buf)"
      using True by (auto simp: c_def min_def)
    also have "\<dots> = (min cap (off + c + length (concat ps)), overlay (off + c) (take (cap - (off + c)) (concat ps)) (overlay off (take c p) buf))"
      by (rule Cons.IH [OF c(1) l])
    also have "min cap (off + c + length (concat ps)) = min cap (off + length (concat (p # ps)))" by (auto simp: c_def min_def)
    also have "overlay (off + c) (take (cap - (off + c)) (concat ps)) (overlay off (take c p) buf)
        = overlay off (take (cap - off) (concat (p # ps))) buf"
    proof -
      have "take (cap - off) (concat (p # ps)) = take c p @ take (cap - (off + c)) (concat ps)" by (auto simp: c_def min_def)
      then show ?thesis using overlay_overlay [of off "take c p" buf "take (cap - (off + c)) (concat ps)"] c Cons.prems by simp
    qed
    finally show ?thesis .
  qed
qed

section \<open>What the operations do\<close>

lemma recv_okD: "recv_ok r \<Longrightarrow> dring_ok r" by (simp add: recv_ok_def)
lemma send_okD: "send_ok r \<Longrightarrow> dring_ok r" by (simp add: send_ok_def)

lemma dring_ok_fill: "dring_ok r \<Longrightarrow> dr_fill r < dr_n r \<Longrightarrow> dring_ok (r\<lparr>dr_fill := Suc (dr_fill r)\<rparr>)"
  by (auto simp: dring_ok_def split: option.splits)

lemma fill_slot_ok:
  assumes "dring_ok r" "dr_fill r < dr_n r" "slot_ok (dr_cap r) s"
  shows "dring_ok ((set_slot (dr_fill r) s r)\<lparr>dr_fill := dr_fill r + 1\<rparr>)"
  using dring_ok_fill [OF set_slot_ok [OF assms(1,3), of "dr_fill r"]] assms(2) by simp

lemma dring_alloc_ok:
  assumes "dring_ok r" "dring_alloc mem whole cap r = (e, r')" "\<forall>ss. mem = Some ss \<longrightarrow> 0 < length ss \<and> (whole \<longrightarrow> (\<forall>s\<in>set ss. slot_ok cap s))"
    "dr_sl r = None \<longrightarrow> dr_n r = 0"
  shows "dring_ok r'" "dg_list r' = dg_list r" "dr_fill r' = dr_fill r" "dr_posted r' = dr_posted r" "dr_err r' = dr_err r"
    "dr_reg r' = dr_reg r" "dr_sl r' = None \<longrightarrow> dr_n r' = 0" "dr_n r \<le> dr_n r'" "dr_n r > 0 \<longrightarrow> r' = r"
proof -
  have *: "dring_ok r' \<and> dg_list r' = dg_list r \<and> dr_fill r' = dr_fill r \<and> dr_posted r' = dr_posted r \<and> dr_err r' = dr_err r
    \<and> dr_reg r' = dr_reg r \<and> (dr_sl r' = None \<longrightarrow> dr_n r' = 0) \<and> dr_n r \<le> dr_n r' \<and> (dr_n r > 0 \<longrightarrow> r' = r)"
  proof (cases "dr_sl r")
    case None
    then have "dr_n r = 0" "dr_head r = 0" "dr_fill r = 0" "dr_posted r = 0" using assms(1,4) by (simp_all add: dring_ok_def)
    then show ?thesis using None assms(2,3)
      by (cases mem; cases whole) (auto simp: dring_alloc_def dring_ok_def dg_list_def)
  next
    case (Some ss)
    then show ?thesis using assms by (simp add: dring_alloc_def)
  qed
  then show "dring_ok r'" "dg_list r' = dg_list r" "dr_fill r' = dr_fill r" "dr_posted r' = dr_posted r" "dr_err r' = dr_err r"
    "dr_reg r' = dr_reg r" "dr_sl r' = None \<longrightarrow> dr_n r' = 0" "dr_n r \<le> dr_n r'" "dr_n r > 0 \<longrightarrow> r' = r" by blast+
qed

text \<open>Receiving, plain.\<close>

lemma recv_reserve_ok:
  assumes "recv_ok r" "recv_reserve r = (b, r')"
  shows "recv_ok r'" "dg_list r' = dg_list r" "dr_n r' = dr_n r" "dr_err r' = dr_err r" "dr_fill r' = dr_fill r" "dr_reg r' = dr_reg r"
    "b \<longrightarrow> dr_posted r = 0 \<and> dr_posted r' = 1" "\<not> b \<longrightarrow> r' = r \<and> (dr_posted r \<noteq> 0 \<or> dr_err r \<noteq> 0 \<or> dr_fill r \<ge> dr_n r \<or> dr_sl r = None)"
proof -
  have ok: "dring_ok r" using assms(1) by (rule recv_okD)
  have *: "recv_ok r' \<and> dg_list r' = dg_list r \<and> dr_n r' = dr_n r \<and> dr_err r' = dr_err r \<and> dr_fill r' = dr_fill r \<and> dr_reg r' = dr_reg r \<and>
    (b \<longrightarrow> dr_posted r = 0 \<and> dr_posted r' = 1) \<and> (\<not> b \<longrightarrow> r' = r \<and> (dr_posted r \<noteq> 0 \<or> dr_err r \<noteq> 0 \<or> dr_fill r \<ge> dr_n r \<or> dr_sl r = None))"
  proof (cases "dr_sl r = None \<or> dr_posted r \<noteq> 0 \<or> dr_err r \<noteq> 0 \<or> dr_fill r \<ge> dr_n r")
    case True
    then show ?thesis using assms by (auto simp: recv_reserve_def)
  next
    case False
    let ?s = "(slot_at r (dr_fill r))\<lparr>s_alen := sockaddr_storage\<rparr>"
    have s: "slot_ok (dr_cap r) ?s" using slot_at_ok [OF ok, of "dr_fill r"] False by (simp add: slot_ok_def)
    have r': "b" "r' = (set_slot (dr_fill r) ?s r)\<lparr>dr_posted := 1\<rparr>" using assms(2) False by (auto simp: recv_reserve_def)
    have "dring_ok (set_slot (dr_fill r) ?s r)" by (rule set_slot_ok [OF ok s])
    then have "recv_ok r'" using False by (simp add: r' recv_ok_def)
    moreover have "dg_list r' = dg_list r" using dg_list_behind [OF ok, of "dr_fill r" ?s] False by (simp add: r')
    ultimately show ?thesis using False by (simp add: r')
  qed
  show "recv_ok r'" "dg_list r' = dg_list r" "dr_n r' = dr_n r" "dr_err r' = dr_err r" "dr_fill r' = dr_fill r" "dr_reg r' = dr_reg r"
    "b \<longrightarrow> dr_posted r = 0 \<and> dr_posted r' = 1" "\<not> b \<longrightarrow> r' = r \<and> (dr_posted r \<noteq> 0 \<or> dr_err r \<noteq> 0 \<or> dr_fill r \<ge> dr_n r \<or> dr_sl r = None)"
    by (insert *, elim conjE, assumption)+
qed

lemma recv_complete_ok:
  assumes "recv_ok r" "dr_posted r = 1" "bytes \<le> dr_cap r"
  shows "recv_ok (recv_complete bytes res r)" "dr_posted (recv_complete bytes res r) = 0" "dr_n (recv_complete bytes res r) = dr_n r"
    "dg_list (recv_complete bytes res r)
       = dg_list r @ (if res = 0 then [rec_of ((slot_at r (dr_fill r))\<lparr>s_len := bytes\<rparr>)] else [])"
    "dr_sl (recv_complete bytes res r) = None \<longleftrightarrow> dr_sl r = None"
    "dr_err r \<noteq> 0 \<longrightarrow> dr_err (recv_complete bytes res r) \<noteq> 0"
proof -
  have ok: "dring_ok r" using assms(1) by (rule recv_okD)
  have lt: "dr_fill r < dr_n r" using assms(1,2) by (simp add: recv_ok_def)
  let ?r = "r\<lparr>dr_posted := 0\<rparr>" and ?s = "(slot_at r (dr_fill r))\<lparr>s_len := bytes\<rparr>"
  have ok0: "dring_ok ?r" using ok by simp
  have s: "slot_ok (dr_cap r) ?s" using slot_at_ok [OF ok, of "dr_fill r"] lt assms(3) by (simp add: slot_ok_def)
  show "dr_posted (recv_complete bytes res r) = 0" "dr_n (recv_complete bytes res r) = dr_n r"
    "dr_sl (recv_complete bytes res r) = None \<longleftrightarrow> dr_sl r = None" "dr_err r \<noteq> 0 \<longrightarrow> dr_err (recv_complete bytes res r) \<noteq> 0"
    by (simp_all add: recv_complete_def Let_def)
  show "recv_ok (recv_complete bytes res r)"
    using fill_slot_ok [OF ok0, of ?s] s lt ok0 by (simp add: recv_ok_def recv_complete_def Let_def)
  show "dg_list (recv_complete bytes res r) = dg_list r @ (if res = 0 then [rec_of ?s] else [])"
    using dg_list_add [OF ok0, of ?s] lt by (simp add: recv_complete_def Let_def)
qed

lemma recv_consume_ok:
  assumes "recv_ok r" "recv_consume dlen fromlen r = (x, r')"
  shows "recv_ok r'" "dr_posted r' = dr_posted r" "dr_err r' = dr_err r" "dr_n r' = dr_n r" "dr_sl r' = dr_sl r" "dr_reg r' = dr_reg r" "dr_fill r' \<le> dr_fill r"
    "x = None \<Longrightarrow> r' = r \<and> dg_list r = []"
    "x = Some (bs, from, al) \<Longrightarrow> \<exists>d a. dg_list r = (d, a) # dg_list r' \<and> bs = take dlen d \<and> from = take fromlen a \<and> al = length a"
proof -
  have ok: "dring_ok r" using assms(1) by (rule recv_okD)
  have *: "recv_ok r' \<and> dr_posted r' = dr_posted r \<and> dr_err r' = dr_err r \<and> dr_n r' = dr_n r \<and> dr_sl r' = dr_sl r \<and> dr_reg r' = dr_reg r \<and> dr_fill r' \<le> dr_fill r \<and>
    (x = None \<longrightarrow> r' = r \<and> dg_list r = []) \<and>
    (\<forall>bs from al. x = Some (bs, from, al) \<longrightarrow> (\<exists>d a. dg_list r = (d, a) # dg_list r' \<and> bs = take dlen d \<and> from = take fromlen a \<and> al = length a))"
  proof (cases "dr_sl r = None \<or> dr_fill r = 0")
    case True
    then have "dr_fill r = 0" using ok by (auto simp: dring_ok_def split: if_splits)
    then show ?thesis using assms True by (simp add: recv_consume_def dg_list_def)
  next
    case False
    let ?s = "slot_at r 0"
    have fill: "0 < dr_fill r" using False by simp
    have x: "x = Some (take (min (s_len ?s) dlen) (s_buf ?s), take (min (s_alen ?s) fromlen) (s_addr ?s), s_alen ?s)" "r' = advance r"
      using assms(2) False by (auto simp: recv_consume_def Let_def min_def)
    have n: "0 < dr_n r" using fill assms(1) by (simp add: recv_ok_def)
    have s: "slot_ok (dr_cap r) ?s" by (rule slot_at_ok [OF ok n])
    have "recv_ok r'" using advance_ok [OF ok fill] assms(1) by (auto simp: x recv_ok_def)
    moreover have "dg_list r = rec_of ?s # dg_list r'" using dg_list_advance [OF fill] by (simp add: x)
    ultimately show ?thesis using False s by (simp add: x rec_of_def slot_ok_def min.commute min_def)
  qed
  then show "recv_ok r'" "dr_posted r' = dr_posted r" "dr_err r' = dr_err r" "dr_n r' = dr_n r" "dr_sl r' = dr_sl r" "dr_reg r' = dr_reg r" "dr_fill r' \<le> dr_fill r"
    "x = None \<Longrightarrow> r' = r \<and> dg_list r = []"
    "x = Some (bs, from, al) \<Longrightarrow> \<exists>d a. dg_list r = (d, a) # dg_list r' \<and> bs = take dlen d \<and> from = take fromlen a \<and> al = length a"
    by blast+
qed

lemma concat_scatter: "concat (scatter cs bs) = take (sum_list cs) bs"
  by (induction cs bs rule: scatter.induct) (auto simp: take_add)

lemma recv_consume_iov_ok:
  assumes "recv_ok r" "recv_consume_iov iov fromlen r = (x, r')"
  shows "recv_ok r'" "dr_posted r' = dr_posted r" "dr_err r' = dr_err r" "dr_n r' = dr_n r" "dr_sl r' = dr_sl r" "dr_reg r' = dr_reg r" "dr_fill r' \<le> dr_fill r"
    "x = None \<Longrightarrow> r' = r \<and> dg_list r = []"
    "x = Some (parts, from, al, len0) \<Longrightarrow> \<exists>d a. dg_list r = (d, a) # dg_list r' \<and> concat parts = take (sum_list iov) d
       \<and> from = take fromlen a \<and> al = length a \<and> len0 = length d"
proof -
  have ok: "dring_ok r" using assms(1) by (rule recv_okD)
  have *: "recv_ok r' \<and> dr_posted r' = dr_posted r \<and> dr_err r' = dr_err r \<and> dr_n r' = dr_n r \<and> dr_sl r' = dr_sl r \<and> dr_reg r' = dr_reg r \<and> dr_fill r' \<le> dr_fill r \<and>
    (x = None \<longrightarrow> r' = r \<and> dg_list r = []) \<and>
    (\<forall>parts from al len0. x = Some (parts, from, al, len0) \<longrightarrow> (\<exists>d a. dg_list r = (d, a) # dg_list r' \<and> concat parts = take (sum_list iov) d
       \<and> from = take fromlen a \<and> al = length a \<and> len0 = length d))"
  proof (cases "dr_sl r = None \<or> dr_fill r = 0")
    case True
    then have "dr_fill r = 0" using ok by (auto simp: dring_ok_def split: if_splits)
    then show ?thesis using assms True by (simp add: recv_consume_iov_def dg_list_def)
  next
    case False
    let ?s = "slot_at r 0"
    have fill: "0 < dr_fill r" using False by simp
    have x: "x = Some (scatter iov (take (s_len ?s) (s_buf ?s)), take (min (s_alen ?s) fromlen) (s_addr ?s), s_alen ?s, s_len ?s)" "r' = advance r"
      using assms(2) False by (auto simp: recv_consume_iov_def Let_def min_def)
    have n: "0 < dr_n r" using fill assms(1) by (simp add: recv_ok_def)
    have s: "slot_ok (dr_cap r) ?s" by (rule slot_at_ok [OF ok n])
    have "recv_ok r'" using advance_ok [OF ok fill] assms(1) by (auto simp: x recv_ok_def)
    moreover have "dg_list r = rec_of ?s # dg_list r'" using dg_list_advance [OF fill] by (simp add: x)
    ultimately show ?thesis using False s by (simp add: x rec_of_def slot_ok_def concat_scatter min.commute min_def)
  qed
  then show "recv_ok r'" "dr_posted r' = dr_posted r" "dr_err r' = dr_err r" "dr_n r' = dr_n r" "dr_sl r' = dr_sl r" "dr_reg r' = dr_reg r" "dr_fill r' \<le> dr_fill r"
    "x = None \<Longrightarrow> r' = r \<and> dg_list r = []"
    "x = Some (parts, from, al, len0) \<Longrightarrow> \<exists>d a. dg_list r = (d, a) # dg_list r' \<and> concat parts = take (sum_list iov) d
       \<and> from = take fromlen a \<and> al = length a \<and> len0 = length d"
    by blast+
qed

text \<open>Sending, plain.\<close>

lemma put_addr_ok:
  assumes "slot_ok cap s"
  shows "slot_ok cap (put_addr to s)" "rec_of (put_addr to s) = (take (s_len s) (s_buf s), take sockaddr_storage to)"
  using assms by (auto simp: slot_ok_def put_addr_def rec_of_def Let_def overlay_def)

lemma produced_ok:
  fixes to :: "byte list"
  assumes "send_ok r" "dr_sl r \<noteq> None" "dr_fill r < dr_n r" "length buf = dr_cap r" "n \<le> dr_cap r"
  defines "s \<equiv> put_addr to ((slot_at r (dr_fill r))\<lparr>s_buf := buf, s_len := n\<rparr>)"
  shows "send_ok ((set_slot (dr_fill r) s r)\<lparr>dr_fill := dr_fill r + 1\<rparr>)"
    "dg_list ((set_slot (dr_fill r) s r)\<lparr>dr_fill := dr_fill r + 1\<rparr>) = dg_list r @ [(take n buf, take sockaddr_storage to)]"
proof -
  have ok: "dring_ok r" using assms(1) by (rule send_okD)
  have s0: "slot_ok (dr_cap r) ((slot_at r (dr_fill r))\<lparr>s_buf := buf, s_len := n\<rparr>)"
    using slot_at_ok [OF ok, of "dr_fill r"] assms(3-5) by (simp add: slot_ok_def)
  note s = put_addr_ok [OF s0, of to, folded s_def]
  show "send_ok ((set_slot (dr_fill r) s r)\<lparr>dr_fill := dr_fill r + 1\<rparr>)"
    using fill_slot_ok [OF ok assms(3) s(1)] assms(1) by (simp add: send_ok_def)
  show "dg_list ((set_slot (dr_fill r) s r)\<lparr>dr_fill := dr_fill r + 1\<rparr>) = dg_list r @ [(take n buf, take sockaddr_storage to)]"
    using dg_list_add [OF ok assms(3), of s] s(2) by simp
qed

lemma send_produce_ok:
  assumes "send_ok r" "send_produce src to r = (n, r')"
  shows "send_ok r'" "dr_posted r' = dr_posted r" "dr_err r' = dr_err r" "dr_n r' = dr_n r" "dr_sl r' = None \<longleftrightarrow> dr_sl r = None"
    "n < 0 \<longrightarrow> r' = r \<and> (dr_sl r = None \<or> dr_fill r = dr_n r)"
    "n \<ge> 0 \<longrightarrow> n = int (min (length src) (dr_cap r)) \<and> dg_list r' = dg_list r @ [(take (dr_cap r) src, take sockaddr_storage to)] \<and> dr_fill r < dr_n r"
proof -
  have *: "send_ok r' \<and> dr_posted r' = dr_posted r \<and> dr_err r' = dr_err r \<and> dr_n r' = dr_n r \<and> (dr_sl r' = None \<longleftrightarrow> dr_sl r = None) \<and>
    (n < 0 \<longrightarrow> r' = r \<and> (dr_sl r = None \<or> dr_fill r = dr_n r)) \<and>
    (n \<ge> 0 \<longrightarrow> n = int (min (length src) (dr_cap r)) \<and> dg_list r' = dg_list r @ [(take (dr_cap r) src, take sockaddr_storage to)] \<and> dr_fill r < dr_n r)"
  proof (cases "dr_sl r = None \<or> dr_fill r \<ge> dr_n r")
    case True
    moreover have "dr_fill r \<le> dr_n r" using send_okD [OF assms(1)] by (auto simp: dring_ok_def split: if_splits option.splits)
    ultimately show ?thesis using assms by (auto simp: send_produce_def)
  next
    case False
    let ?b = "overlay 0 (take (dr_cap r) src) (s_buf (slot_at r (dr_fill r)))" and ?k = "min (length src) (dr_cap r)"
    have l: "length (s_buf (slot_at r (dr_fill r))) = dr_cap r"
      using slot_at_ok [OF send_okD [OF assms(1)], of "dr_fill r"] False by (simp add: slot_ok_def)
    have b: "length ?b = dr_cap r" "take ?k ?b = take (dr_cap r) src" using l by (simp_all add: overlay_def min_def)
    have lt: "dr_fill r < dr_n r" using False by simp
    have tk: "take (if length src < dr_cap r then length src else dr_cap r) src = take (dr_cap r) src" by simp
    have r': "n = int ?k" "r' = (set_slot (dr_fill r) (put_addr to ((slot_at r (dr_fill r))\<lparr>s_buf := ?b, s_len := ?k\<rparr>)) r)\<lparr>dr_fill := dr_fill r + 1\<rparr>"
      using assms(2) False unfolding send_produce_def Let_def tk by (auto simp: min_def)
    note P = produced_ok [OF assms(1) _ lt b(1), of ?k to]
    show ?thesis using P False b(2) by (simp add: r')
  qed
  then show "send_ok r'" "dr_posted r' = dr_posted r" "dr_err r' = dr_err r" "dr_n r' = dr_n r" "dr_sl r' = None \<longleftrightarrow> dr_sl r = None"
    "n < 0 \<longrightarrow> r' = r \<and> (dr_sl r = None \<or> dr_fill r = dr_n r)"
    "n \<ge> 0 \<longrightarrow> n = int (min (length src) (dr_cap r)) \<and> dg_list r' = dg_list r @ [(take (dr_cap r) src, take sockaddr_storage to)] \<and> dr_fill r < dr_n r"
    by blast+
qed

lemma send_produce_iov_ok:
  assumes "send_ok r" "send_produce_iov iov to r = (n, r')"
  shows "send_produce (concat iov) to r = (n, r')"
proof (cases "dr_sl r = None \<or> dr_fill r \<ge> dr_n r")
  case True
  then show ?thesis using assms by (auto simp: send_produce_def send_produce_iov_def)
next
  case False
  have l: "length (s_buf (slot_at r (dr_fill r))) = dr_cap r"
    using slot_at_ok [OF send_okD [OF assms(1)], of "dr_fill r"] False by (simp add: slot_ok_def)
  have tk: "take (if length (concat iov) < dr_cap r then length (concat iov) else dr_cap r) (concat iov) = take (dr_cap r) (concat iov)" by simp
  have mn: "(if length (concat iov) < dr_cap r then length (concat iov) else dr_cap r) = min (dr_cap r) (length (concat iov))" by simp
  have tk2: "take (min (dr_cap r) (length (concat iov))) (concat iov) = take (dr_cap r) (concat iov)" by (cases "dr_cap r \<le> length (concat iov)") simp_all
  show ?thesis using assms(2) False gather_spec [of 0 "dr_cap r" "s_buf (slot_at r (dr_fill r))" iov] l
    unfolding send_produce_def send_produce_iov_def Let_def tk mn by (simp add: tk2)
qed

lemma send_reserve_ok:
  assumes "send_ok r" "send_reserve r = (b, r')"
  shows "send_ok r'" "dg_list r' = dg_list r" "dr_n r' = dr_n r" "dr_err r' = dr_err r" "dr_fill r' = dr_fill r" "dr_sl r' = dr_sl r"
    "b \<longrightarrow> dr_posted r = 0 \<and> dr_posted r' = 1" "\<not> b \<longrightarrow> r' = r \<and> (dr_posted r \<noteq> 0 \<or> dr_err r \<noteq> 0 \<or> dr_fill r = 0)"
proof -
  have "dr_fill r = 0" if "dr_sl r = None" using assms(1) that by (auto simp: send_ok_def dring_ok_def split: if_splits)
  moreover have "0 < dr_n r" if "dr_fill r \<noteq> 0" using assms(1) that by (auto simp: send_ok_def dring_ok_def split: if_splits)
  ultimately show "send_ok r'" "dg_list r' = dg_list r" "dr_n r' = dr_n r" "dr_err r' = dr_err r" "dr_fill r' = dr_fill r" "dr_sl r' = dr_sl r"
    "b \<longrightarrow> dr_posted r = 0 \<and> dr_posted r' = 1" "\<not> b \<longrightarrow> r' = r \<and> (dr_posted r \<noteq> 0 \<or> dr_err r \<noteq> 0 \<or> dr_fill r = 0)"
    using assms by (auto simp: send_reserve_def send_ok_def split: if_splits)
qed

lemma send_complete_ok:
  assumes "send_ok r" "dr_posted r = 1"
  shows "send_ok (send_complete res r)" "dr_posted (send_complete res r) = 0" "dr_n (send_complete res r) = dr_n r" "dr_sl (send_complete res r) = dr_sl r"
    "dg_list r = (if res = 0 then [hd (dg_list r)] else []) @ dg_list (send_complete res r)"
    "dr_err r \<noteq> 0 \<longrightarrow> dr_err (send_complete res r) \<noteq> 0"
    "dr_err (send_complete res r) \<noteq> 0 \<longrightarrow> dr_err r \<noteq> 0 \<or> res \<noteq> 0 \<and> res \<noteq> ERROR_OPERATION_ABORTED"
proof -
  let ?r = "r\<lparr>dr_posted := 0\<rparr>"
  have ok0: "dring_ok ?r" using assms(1) by (simp add: send_ok_def)
  have fill: "0 < dr_fill ?r" using assms by (simp add: send_ok_def)
  show "send_ok (send_complete res r)" using advance_ok [OF ok0 fill] ok0 by (simp add: send_complete_def Let_def send_ok_def)
  show "dr_posted (send_complete res r) = 0" "dr_n (send_complete res r) = dr_n r" "dr_sl (send_complete res r) = dr_sl r"
    "dr_err r \<noteq> 0 \<longrightarrow> dr_err (send_complete res r) \<noteq> 0"
    "dr_err (send_complete res r) \<noteq> 0 \<longrightarrow> dr_err r \<noteq> 0 \<or> res \<noteq> 0 \<and> res \<noteq> ERROR_OPERATION_ABORTED"
    by (auto simp: send_complete_def Let_def)
  show "dg_list r = (if res = 0 then [hd (dg_list r)] else []) @ dg_list (send_complete res r)"
    using dg_list_advance [OF fill] by (auto simp: send_complete_def Let_def)
qed

text \<open>The registered path.\<close>

lemma rio_recv_reserve_ok:
  assumes "recv_ok r" "rio_recv_reserve r = (b, r')"
  shows "recv_ok r'" "dg_list r' = dg_list r" "dr_n r' = dr_n r" "dr_err r' = dr_err r" "dr_fill r' = dr_fill r" "dr_reg r' = dr_reg r" "dr_sl r' = dr_sl r" "dr_cap r' = dr_cap r"
    "dr_posted r' = dr_posted r + of_bool b"
    "\<not> b \<longrightarrow> r' = r \<and> (dr_posted r \<noteq> 0 \<or> dr_err r \<noteq> 0 \<or> dr_fill r = dr_n r \<or> \<not> dr_reg r \<or> dr_sl r = None)"
proof -
  have "0 < dr_n r" if "dr_fill r + dr_posted r < dr_n r" using that by simp
  then show "recv_ok r'" "dg_list r' = dg_list r" "dr_n r' = dr_n r" "dr_err r' = dr_err r" "dr_fill r' = dr_fill r" "dr_reg r' = dr_reg r" "dr_sl r' = dr_sl r" "dr_cap r' = dr_cap r"
    "dr_posted r' = dr_posted r + of_bool b"
    "\<not> b \<longrightarrow> r' = r \<and> (dr_posted r \<noteq> 0 \<or> dr_err r \<noteq> 0 \<or> dr_fill r = dr_n r \<or> \<not> dr_reg r \<or> dr_sl r = None)"
    using assms by (auto simp: rio_recv_reserve_def recv_ok_def split: if_splits)
qed

lemma rio_recv_complete_ok:
  fixes res :: int
  assumes "recv_ok r" "0 < dr_posted r" "bytes \<le> dr_cap r"
  defines "r' \<equiv> rio_recv_complete bytes res r"
  shows "recv_ok r'" "dr_posted r' = dr_posted r - 1" "dr_n r' = dr_n r" "dr_sl r' = None \<longleftrightarrow> dr_sl r = None" "dr_reg r' = dr_reg r" "dr_cap r' = dr_cap r"
    "dg_list r' = dg_list r @ (if res = 0 then [rec_of ((slot_at r (dr_fill r))\<lparr>s_len := bytes,
       s_alen := (if ss_family (s_addr (slot_at r (dr_fill r))) = AF_INET6 then sockaddr_in6 else sockaddr_in)\<rparr>)] else [])"
    "dr_err r' = (if res = 0 \<or> res = ERROR_OPERATION_ABORTED then dr_err r else res)"
proof -
  have ok: "dring_ok r" using assms(1) by (rule recv_okD)
  have lt: "dr_fill r < dr_n r" using assms(1,2) by (simp add: recv_ok_def)
  let ?r = "r\<lparr>dr_posted := dr_posted r - 1\<rparr>"
  let ?s = "(slot_at r (dr_fill r))\<lparr>s_len := bytes, s_alen := (if ss_family (s_addr (slot_at r (dr_fill r))) = AF_INET6 then sockaddr_in6 else sockaddr_in)\<rparr>"
  have ok0: "dring_ok ?r" using ok lt by simp
  have s: "slot_ok (dr_cap r) ?s" using slot_at_ok [OF ok, of "dr_fill r"] lt assms(3)
    by (simp add: slot_ok_def sockaddr_in_def sockaddr_in6_def sockaddr_storage_def)
  have r': "r' = (if res = 0 then (set_slot (dr_fill r) ?s ?r)\<lparr>dr_fill := dr_fill r + 1\<rparr> else if res = ERROR_OPERATION_ABORTED then ?r else ?r\<lparr>dr_err := res\<rparr>)"
    using assms(2) by (simp add: r'_def rio_recv_complete_def Let_def)
  show "dr_posted r' = dr_posted r - 1" "dr_n r' = dr_n r" "dr_sl r' = None \<longleftrightarrow> dr_sl r = None" "dr_reg r' = dr_reg r" "dr_cap r' = dr_cap r"
    "dr_err r' = (if res = 0 \<or> res = ERROR_OPERATION_ABORTED then dr_err r else res)"
    by (simp_all add: r')
  have "dring_ok ((set_slot (dr_fill r) ?s ?r)\<lparr>dr_fill := dr_fill r + 1\<rparr>)" using fill_slot_ok [OF ok0, of ?s] s lt by simp
  then show "recv_ok r'" using ok0 assms(1,2) by (auto simp: r' recv_ok_def)
  have "dg_list ((set_slot (dr_fill r) ?s ?r)\<lparr>dr_fill := dr_fill r + 1\<rparr>) = dg_list r @ [rec_of ?s]"
    using dg_list_add [OF ok0, of ?s] lt by simp
  then show "dg_list r' = dg_list r @ (if res = 0 then [rec_of ?s] else [])" by (simp add: r')
qed

lemma rio_send_reserve_ok:
  assumes "send_ok r" "rio_send_reserve r = (b, r')"
  shows "send_ok r'" "dg_list r' = dg_list r" "dr_n r' = dr_n r" "dr_err r' = dr_err r" "dr_fill r' = dr_fill r" "dr_reg r' = dr_reg r" "dr_sl r' = dr_sl r"
    "dr_posted r' = dr_posted r + of_bool b"
    "\<not> b \<longrightarrow> r' = r \<and> (dr_posted r = dr_fill r \<or> dr_err r \<noteq> 0 \<or> \<not> dr_reg r \<or> dr_sl r = None)"
proof -
  have "0 < dr_n r" if "dr_posted r < dr_fill r" using assms(1) that by (auto simp: send_ok_def dring_ok_def split: if_splits)
  then show "send_ok r'" "dg_list r' = dg_list r" "dr_n r' = dr_n r" "dr_err r' = dr_err r" "dr_fill r' = dr_fill r" "dr_reg r' = dr_reg r" "dr_sl r' = dr_sl r"
    "dr_posted r' = dr_posted r + of_bool b"
    "\<not> b \<longrightarrow> r' = r \<and> (dr_posted r = dr_fill r \<or> dr_err r \<noteq> 0 \<or> \<not> dr_reg r \<or> dr_sl r = None)"
    using assms by (auto simp: rio_send_reserve_def send_ok_def split: if_splits)
qed

lemma rio_send_complete_ok:
  fixes res :: int
  assumes "send_ok r" "0 < dr_posted r"
  defines "r' \<equiv> rio_send_complete res r"
  shows "send_ok r'" "dr_posted r' = dr_posted r - 1" "dr_fill r' = dr_fill r - 1" "dr_n r' = dr_n r" "dr_sl r' = dr_sl r" "dr_reg r' = dr_reg r"
    "dg_list r = hd (dg_list r) # dg_list r'"
    "dr_err r' = (if res = 0 \<or> res = ERROR_OPERATION_ABORTED then dr_err r else res)"
proof -
  define r1 where "r1 = (if res \<noteq> 0 \<and> res \<noteq> ERROR_OPERATION_ABORTED
    then r\<lparr>dr_posted := dr_posted r - 1, dr_err := res\<rparr> else r\<lparr>dr_posted := dr_posted r - 1\<rparr>)"
  have fill: "0 < dr_fill r" "dr_posted r \<le> dr_fill r" and ok: "dring_ok r" using assms(1,2) by (simp_all add: send_ok_def)
  have n: "0 < dr_n r" using ok fill(1) by (auto simp: dring_ok_def split: if_splits)
  have r': "r' = advance r1" using assms(2) fill(1) by (simp add: r'_def r1_def rio_send_complete_def Let_def)
  have f1: "dr_fill r1 = dr_fill r" "dr_posted r1 = dr_posted r - 1" "dring_ok r1" "dg_list r1 = dg_list r" "dr_n r1 = dr_n r" "dr_sl r1 = dr_sl r" "dr_reg r1 = dr_reg r"
    using ok n by (simp_all add: r1_def)
  show "send_ok r'" using advance_ok [OF f1(3)] f1 fill by (simp add: r' send_ok_def)
  show "dr_posted r' = dr_posted r - 1" "dr_fill r' = dr_fill r - 1" "dr_n r' = dr_n r" "dr_sl r' = dr_sl r" "dr_reg r' = dr_reg r"
    using f1 by (simp_all add: r')
  show "dg_list r = hd (dg_list r) # dg_list r'" using dg_list_advance [of r1] f1 fill by (simp add: r')
  show "dr_err r' = (if res = 0 \<or> res = ERROR_OPERATION_ABORTED then dr_err r else res)" by (simp add: r' r1_def)
qed

lemma os_store_ok:
  assumes "recv_ok r" "i < dr_posted r" "length bs \<le> dr_cap r" "length addr \<le> sockaddr_storage" "al \<le> sockaddr_storage"
  shows "recv_ok (os_store i bs addr al r)" "dg_list (os_store i bs addr al r) = dg_list r"
    "dr_posted (os_store i bs addr al r) = dr_posted r" "dr_n (os_store i bs addr al r) = dr_n r" "dr_cap (os_store i bs addr al r) = dr_cap r"
    "dr_fill (os_store i bs addr al r) = dr_fill r" "dr_err (os_store i bs addr al r) = dr_err r" "dr_sl (os_store i bs addr al r) = None \<longleftrightarrow> dr_sl r = None"
    "dr_reg (os_store i bs addr al r) = dr_reg r"
    "j < dr_posted r \<Longrightarrow> slot_at (os_store i bs addr al r) (dr_fill r + j) = (if i = j then (slot_at r (dr_fill r + i))\<lparr>s_buf := overlay 0 bs (s_buf (slot_at r (dr_fill r + i))),
        s_addr := overlay 0 addr (s_addr (slot_at r (dr_fill r + i))), s_alen := al\<rparr> else slot_at r (dr_fill r + j))"
proof -
  have ok: "dring_ok r" using assms(1) by (rule recv_okD)
  have lt: "dr_fill r + i < dr_n r" "0 < dr_n r" using assms(1,2) by (simp_all add: recv_ok_def)
  let ?o = "slot_at r (dr_fill r + i)"
  let ?s = "?o\<lparr>s_buf := overlay 0 bs (s_buf ?o), s_addr := overlay 0 addr (s_addr ?o), s_alen := al\<rparr>"
  have o: "os_store i bs addr al r = set_slot (dr_fill r + i) ?s r" by (simp add: os_store_def Let_def)
  have s: "slot_ok (dr_cap r) ?s" using slot_at_ok [OF ok lt(2), of "dr_fill r + i"] assms(3-5) by (simp add: slot_ok_def)
  show "recv_ok (os_store i bs addr al r)" using set_slot_ok [OF ok s] assms(1) by (simp add: o recv_ok_def)
  show "dg_list (os_store i bs addr al r) = dg_list r" using dg_list_behind [OF ok lt(2) _ lt(1)] by (simp add: o)
  show "dr_posted (os_store i bs addr al r) = dr_posted r" "dr_n (os_store i bs addr al r) = dr_n r" "dr_cap (os_store i bs addr al r) = dr_cap r"
    "dr_fill (os_store i bs addr al r) = dr_fill r" "dr_err (os_store i bs addr al r) = dr_err r" "dr_sl (os_store i bs addr al r) = None \<longleftrightarrow> dr_sl r = None"
    "dr_reg (os_store i bs addr al r) = dr_reg r"
    by (simp_all add: o)
  show "slot_at (os_store i bs addr al r) (dr_fill r + j) = (if i = j then ?s else slot_at r (dr_fill r + j))" if "j < dr_posted r"
    using slot_at_set [OF ok lt(2), of "dr_fill r + j" "dr_fill r + i" ?s] lt(1) that assms(1) by (simp add: o recv_ok_def)
qed

section \<open>The ring as its users see it\<close>

text \<open>C25: The ring keeps datagrams whole and in order: a receiver gets the first one, cut to its buffer, with the
  address of its sender cut to its own room; a sender appends one, cut to the capacity of a slot, and is
  refused exactly when the slots are full; what the operating system stores in posted slots touches no
  record that is ready.\<close>

theorem dgram_ring_is_queue:
  assumes "recv_ok r" "send_ok w"
  shows "(case recv_consume dlen fromlen r of
       (None, r') \<Rightarrow> r' = r \<and> dg_list r = []
     | (Some (bs, from, al), r') \<Rightarrow> recv_ok r' \<and> (\<exists>d a. dg_list r = (d, a) # dg_list r' \<and> bs = take dlen d \<and> from = take fromlen a \<and> al = length a)) \<and>
    (case send_produce src to w of
       (n, w') \<Rightarrow> send_ok w' \<and> (if n < 0 then w' = w \<and> (dr_sl w = None \<or> length (dg_list w) = dr_n w)
         else n = int (min (length src) (dr_cap w)) \<and> dg_list w' = dg_list w @ [(take (dr_cap w) src, take sockaddr_storage to)])) \<and>
    (i < dr_posted r \<and> length bs \<le> dr_cap r \<and> length addr \<le> sockaddr_storage \<and> al \<le> sockaddr_storage \<longrightarrow>
       recv_ok (os_store i bs addr al r) \<and> dg_list (os_store i bs addr al r) = dg_list r)"
proof -
  obtain x r' where x: "recv_consume dlen fromlen r = (x, r')" by fastforce
  obtain n w' where n: "send_produce src to w = (n, w')" by fastforce
  note R = recv_consume_ok [OF assms(1) x] and W = send_produce_ok [OF assms(2) n]
  have "case x of None \<Rightarrow> r' = r \<and> dg_list r = []
     | Some (bs, from, al) \<Rightarrow> recv_ok r' \<and> (\<exists>d a. dg_list r = (d, a) # dg_list r' \<and> bs = take dlen d \<and> from = take fromlen a \<and> al = length a)"
    using R(1,8,9) by (cases x) auto
  moreover have "send_ok w' \<and> (if n < 0 then w' = w \<and> (dr_sl w = None \<or> length (dg_list w) = dr_n w)
         else n = int (min (length src) (dr_cap w)) \<and> dg_list w' = dg_list w @ [(take (dr_cap w) src, take sockaddr_storage to)])"
    using W(1,6,7) by simp
  ultimately show ?thesis using os_store_ok(1,2) [OF assms(1)] by (auto simp: x n split: option.splits)
qed

abbreviation blank :: slot where
  "blank \<equiv> \<lparr>s_buf = [0, 0, 0], s_len = 0, s_addr = replicate 128 0, s_alen = 0\<rparr>"

abbreviation two_slots :: dring where
  "two_slots \<equiv> \<lparr>dr_sl = Some [blank, blank], dr_n = 2, dr_cap = 3, dr_head = 1, dr_fill = 1, dr_posted = 0, dr_depth = 0, dr_err = 0, dr_reg = False\<rparr>"

lemma two_slots_ok: "recv_ok two_slots" "send_ok two_slots"
  by (simp_all add: recv_ok_def send_ok_def dring_ok_def slot_ok_def sockaddr_storage_def)

theorem dgram_ring_is_queue_witness:
  "\<exists>n w. send_produce [1, 2, 3, 4] [] two_slots = (n, w) \<and> n = 3 \<and> dg_list w = dg_list two_slots @ [([1, 2, 3], [])]"
proof -
  have "fst (send_produce [1, 2, 3, 4] [] two_slots) = 3" by (simp add: send_produce_def slot_at_def Let_def)
  then show ?thesis
    using dgram_ring_is_queue [OF two_slots_ok, of 0 0 "[1, 2, 3, 4]" "[]"] by (auto split: prod.splits)
qed

text \<open>An allocation that fails halfway leaves a ring that answers every later call as if it were merely empty
  or full: callers park instead of being told.\<close>

lemma half_allocated_ring:
  assumes "dring_alloc (Some ss) False cap dring_new = (e, r)"
  shows "e = - 1" "dring_alloc mem whole cap r = (0, r)" "fst (recv_consume dlen fromlen r) = None" "fst (send_produce src to r) = - 1"
    "fst (recv_reserve r) = False"
  using assms by (auto simp: dring_alloc_def dring_new_def recv_consume_def send_produce_def recv_reserve_def)

end
