(* ===== verification/PosixIO.thy ===== *)
theory PosixIO
  imports Reactor Descriptor
begin

text \<open>
  Descriptors and sockets on POSIX: \<open>ts2IOdescriptor_\<close> and \<open>ts2IOsocket_\<close> of
  \<open>src/arch/posix/src/classes/ts2/c++/\<close>.  A call is a loop around one system call that never blocks.  When
  the call would have to wait it registers its caller with the reactor and leaves by \<open>sException\<close>, whose
  test tells a thread that was woken whether the wait is over (\<open>THR_CATCH\<close> of
  \<open>src/src/h/ts2/c++/tsThread.h\<close>).  The batches of datagrams come in the three forms the file has: one system
  call, one system call behind a translation of the headers (macOS), and a loop with a cursor (Cygwin).

  What the system answers is a list; \<^term>\<open>None\<close> is a call that is still inside the loop when the list ends.
\<close>

section \<open>A call\<close>

definition EINTR :: int where "EINTR = 4"
definition EAGAIN :: int where "EAGAIN = 11"

datatype sysans = Answer nat | Errno int

record posix_desc =
  pd_fd :: int
  pd_err :: int
  pd_state :: io_state
  pd_over :: bool
  pd_io :: fwIO

text \<open>\<open>pd_over\<close>: the machine is in a \<open>FIN\<close> or \<open>ZOM\<close> state.  A call returns, leaves by the exception with its
  test, or panics in the reactor.\<close>

datatype called = Value int | Yield "nat \<Rightarrow> fwIO \<Rightarrow> bool" | Panics

datatype sys_end = Got nat | Again | Bad int

fun sys_loop :: "sysans list \<Rightarrow> sys_end option" where
  "sys_loop [] = None"
| "sys_loop (Answer n # as) = Some (Got n)"
| "sys_loop (Errno e # as) = (if e = EINTR then sys_loop as else if e = EAGAIN then Some Again else Some (Bad e))"

text \<open>The registration with the reactor, and the tests that are handed to the exception.\<close>

definition no_read :: "nat \<Rightarrow> fwIO \<Rightarrow> bool" where "no_read c w \<longleftrightarrow> \<not> is_read c w"
definition no_write :: "nat \<Rightarrow> fwIO \<Rightarrow> bool" where "no_write c w \<longleftrightarrow> \<not> is_write c w"

definition yield_on :: "(32 word \<times> fwIO) option \<Rightarrow> (nat \<Rightarrow> fwIO \<Rightarrow> bool) \<Rightarrow> posix_desc \<Rightarrow> called \<times> posix_desc" where
  "yield_on reg test d = (case reg of None \<Rightarrow> (Panics, d) | Some (n, w) \<Rightarrow> (Yield test, d\<lparr>pd_io := w\<rparr>))"

definition sys_fail :: "int \<Rightarrow> posix_desc \<Rightarrow> called \<times> posix_desc" where
  "sys_fail e d = (Value (- 1), d\<lparr>pd_err := e, pd_state := TS2IO_ERROR\<rparr>)"

definition nb_call ::
  "(int \<Rightarrow> fwIO \<Rightarrow> (32 word \<times> fwIO) option) \<Rightarrow> (nat \<Rightarrow> fwIO \<Rightarrow> bool) \<Rightarrow> sysans list \<Rightarrow> posix_desc \<Rightarrow> (called \<times> posix_desc) option" where
  "nb_call reg test as d =
     (if pd_over d then Some (Value (- 1), d\<lparr>pd_err := EBADF\<rparr>)
      else case sys_loop as of
        None \<Rightarrow> None
      | Some (Got n) \<Rightarrow> Some (Value (int n), d)
      | Some Again \<Rightarrow> Some (yield_on (reg (pd_fd d) (pd_io d)) test d)
      | Some (Bad e) \<Rightarrow> Some (sys_fail e d))"


definition p_write :: "nat \<Rightarrow> sysans list \<Rightarrow> posix_desc \<Rightarrow> (called \<times> posix_desc) option" where
  "p_write c = nb_call (\<lambda>fd. fw_write c fd 0) no_write"


text \<open>\<open>sendto\<close> and the native \<open>sendmmsg\<close> register for writing and test for reading.\<close>

definition p_sendto :: "nat \<Rightarrow> sysans list \<Rightarrow> posix_desc \<Rightarrow> (called \<times> posix_desc) option" where
  "p_sendto c = nb_call (\<lambda>fd. fw_write c fd 0) no_read"




section \<open>Batches behind a translation\<close>

text \<open>The headers of macOS.  Pointers are numbers; a successful answer comes with the headers as the system left
  them.\<close>

record msghdr =
  msg_name :: nat
  msg_namelen :: nat
  msg_iov :: nat
  msg_iovlen :: nat
  msg_control :: nat
  msg_controllen :: nat
  msg_flags :: nat

record msghdr_x = msghdr + msg_datalen :: nat
record mmsghdr = msghdr + msg_len :: nat

definition TS2_MMSG_MAXMSG :: nat where "TS2_MMSG_MAXMSG = 64"

datatype xans = Xgot nat "msghdr_x list" | Xerr int

definition x_of :: "nat \<Rightarrow> mmsghdr \<Rightarrow> msghdr_x" where
  "x_of flags h = \<lparr>msg_name = msg_name h, msg_namelen = msg_namelen h, msg_iov = msg_iov h, msg_iovlen = msg_iovlen h,
     msg_control = msg_control h, msg_controllen = msg_controllen h, msg_flags = flags, msg_datalen = 0\<rparr>"

definition sent_back :: "msghdr_x \<Rightarrow> mmsghdr \<Rightarrow> mmsghdr" where
  "sent_back x h = h\<lparr>msg_len := msg_datalen x\<rparr>"

definition received_back :: "msghdr_x \<Rightarrow> mmsghdr \<Rightarrow> mmsghdr" where
  "received_back x h = h\<lparr>msg_namelen := msg_namelen x, msg_controllen := msg_controllen x, msg_flags := msg_flags x,
     msg_len := msg_datalen x\<rparr>"

text \<open>The loops \<open>for ( i = 0 ; i < er ; i++ )\<close> over the answered headers.\<close>

definition copy_back :: "(msghdr_x \<Rightarrow> mmsghdr \<Rightarrow> mmsghdr) \<Rightarrow> nat \<Rightarrow> msghdr_x list \<Rightarrow> mmsghdr list \<Rightarrow> mmsghdr list" where
  "copy_back f er xs ms = map2 f (take er xs) (take er ms) @ drop er ms"

fun x_loop :: "xans list \<Rightarrow> (sys_end \<times> msghdr_x list) option" where
  "x_loop [] = None"
| "x_loop (Xgot n xs # as) = Some (Got n, xs)"
| "x_loop (Xerr e # as) = (if e = EINTR then x_loop as else if e = EAGAIN then Some (Again, []) else Some (Bad e, []))"

definition x_batch ::
  "(int \<Rightarrow> fwIO \<Rightarrow> (32 word \<times> fwIO) option) \<Rightarrow> (msghdr_x \<Rightarrow> mmsghdr \<Rightarrow> mmsghdr) \<Rightarrow> (msghdr_x list \<Rightarrow> xans list) \<Rightarrow>
   (mmsghdr \<Rightarrow> nat) \<Rightarrow> mmsghdr list \<Rightarrow> posix_desc \<Rightarrow> (called \<times> mmsghdr list \<times> posix_desc) option" where
  "x_batch reg back sys flags ms d =
     (if pd_over d then Some (Value (- 1), ms, d\<lparr>pd_err := EBADF\<rparr>)
      else
        let n = (if length ms < TS2_MMSG_MAXMSG then length ms else TS2_MMSG_MAXMSG);
            xv = map (\<lambda>h. x_of (flags h) h) (take n ms)
        in case x_loop (sys xv) of
          None \<Rightarrow> None
        | Some (Got er, xs) \<Rightarrow> Some (Value (int er), copy_back back er xs ms, d)
        | Some (Again, _) \<Rightarrow> (let (v, d) = yield_on (reg (pd_fd d) (pd_io d)) no_read d in Some (v, ms, d))
        | Some (Bad e, _) \<Rightarrow> (let (v, d) = sys_fail e d in Some (v, ms, d)))"

definition x_sendmmsg :: "nat \<Rightarrow> (msghdr_x list \<Rightarrow> xans list) \<Rightarrow> mmsghdr list \<Rightarrow> posix_desc \<Rightarrow> (called \<times> mmsghdr list \<times> posix_desc) option" where
  "x_sendmmsg c sys = x_batch (\<lambda>fd. fw_write c fd 0) sent_back sys msg_flags"

definition x_recvmmsg :: "nat \<Rightarrow> (msghdr_x list \<Rightarrow> xans list) \<Rightarrow> mmsghdr list \<Rightarrow> posix_desc \<Rightarrow> (called \<times> mmsghdr list \<times> posix_desc) option" where
  "x_recvmmsg c sys = x_batch (\<lambda>fd. fw_read c fd 0) received_back sys (\<lambda>h. 0)"

section \<open>Batches one datagram at a time\<close>

text \<open>The lengths of the vector are the list; the cursor \<open>mmsg_i\<close> is a member.\<close>

record cyg_desc = posix_desc + mmsg_i :: nat

datatype batch_end = Full | Dry | Broke int

fun cyg_loop :: "sysans list \<Rightarrow> nat list \<Rightarrow> nat \<Rightarrow> (batch_end \<times> nat list \<times> nat) option" where
  "cyg_loop [] ls i = (if length ls \<le> i then Some (Full, ls, i) else None)"
| "cyg_loop (Answer n # as) ls i =
     (if length ls \<le> i then Some (Full, ls, i) else cyg_loop as (ls[i := n]) (Suc i))"
| "cyg_loop (Errno e # as) ls i =
     (if length ls \<le> i then Some (Full, ls, i)
      else if e = EINTR then cyg_loop as ls i
      else if e = EAGAIN then Some (Dry, ls, i)
      else Some (Broke e, ls, i))"

definition cyg_batch ::
  "(int \<Rightarrow> fwIO \<Rightarrow> (32 word \<times> fwIO) option) \<Rightarrow> sysans list \<Rightarrow> nat list \<Rightarrow> cyg_desc \<Rightarrow> (called \<times> nat list \<times> cyg_desc) option" where
  "cyg_batch reg as ls d =
     (if pd_over d then Some (Value (- 1), ls, d\<lparr>pd_err := EBADF\<rparr>)
      else case cyg_loop as ls (mmsg_i d) of
        None \<Rightarrow> None
      | Some (Full, ls', i) \<Rightarrow> Some (Value (int i), ls', d\<lparr>mmsg_i := 0\<rparr>)
      | Some (Dry, ls', i) \<Rightarrow>
          if i > 0 then Some (Value (int i), ls', d\<lparr>mmsg_i := 0\<rparr>)
          else (case reg (pd_fd d) (pd_io d) of
              None \<Rightarrow> Some (Panics, ls', d)
            | Some (n, w) \<Rightarrow> Some (Yield no_read, ls', d\<lparr>pd_io := w, mmsg_i := i\<rparr>))
      | Some (Broke e, ls', i) \<Rightarrow>
          let d = d\<lparr>pd_err := e, pd_state := TS2IO_ERROR\<rparr>
          in if i > 0 then Some (Value (int i), ls', d\<lparr>mmsg_i := 0\<rparr>) else Some (Value (- 1), ls', d\<lparr>mmsg_i := i\<rparr>))"

definition cyg_sendmmsg :: "nat \<Rightarrow> sysans list \<Rightarrow> nat list \<Rightarrow> cyg_desc \<Rightarrow> (called \<times> nat list \<times> cyg_desc) option" where
  "cyg_sendmmsg c = cyg_batch (\<lambda>fd. fw_write c fd 0)"

definition cyg_recvmmsg :: "nat \<Rightarrow> sysans list \<Rightarrow> nat list \<Rightarrow> cyg_desc \<Rightarrow> (called \<times> nat list \<times> cyg_desc) option" where
  "cyg_recvmmsg c = cyg_batch (\<lambda>fd. fw_read c fd 0)"

section \<open>A call inside a thread\<close>

text \<open>\<open>THR_CATCH\<close>: after the exception the thread waits to be woken and asks the test; each try comes with
  the answers of the system and the reactor as it is after the wait.\<close>

datatype caught = Returns int | Interrupted

fun thr_catch ::
  "(sysans list \<Rightarrow> posix_desc \<Rightarrow> (called \<times> posix_desc) option) \<Rightarrow> nat \<Rightarrow> (sysans list \<times> fwIO) list \<Rightarrow> posix_desc \<Rightarrow>
   (caught \<times> posix_desc) option" where
  "thr_catch f c [] d = None"
| "thr_catch f c ((as, w) # ts) d =
     (case f as d of
        Some (Value v, d) \<Rightarrow> Some (Returns v, d)
      | Some (Yield test, d) \<Rightarrow>
          let d = d\<lparr>pd_io := w\<rparr> in if test c w then thr_catch f c ts d else Some (Interrupted, d)
      | _ \<Rightarrow> None)"

section \<open>What a call answers\<close>

lemma sys_loop_retry [simp]: "sys_loop (replicate k (Errno EINTR) @ as) = sys_loop as"
  by (induction k) simp_all

lemma sys_loop_stays [simp]: "sys_loop (replicate k (Errno EINTR)) = None"
  by (induction k) simp_all



text \<open>The registration of a call: as reader or writer, with the reactor told.\<close>

definition registers :: "nat \<Rightarrow> (int \<Rightarrow> fwIO \<Rightarrow> (32 word \<times> fwIO) option) \<Rightarrow> bool" where
  "registers c reg \<longleftrightarrow> reg = (\<lambda>fd. fw_read c fd 0) \<or> reg = (\<lambda>fd. fw_write c fd 0)"


lemma registers_result:
  assumes "registers c reg"
  shows "if 0 \<le> fd \<and> fd < FD_SETSIZE
     then \<exists>n w'. reg fd w = Some (n, w') \<and> (is_read c w' \<or> is_write c w') \<and> wait_flag w'
     else reg fd w = None"
  using assms by (auto simp: registers_def fw_read_def fw_write_def Let_def is_read_def is_write_def registered_def list_ex_iff fw_elem_def writePipe_def)




section \<open>A reader goes on\<close>






















text \<open>The test of a sender looks at the wrong queue: as long as its caller reads nothing else it holds although the
  caller still waits to write, so a thread that was woken for another reason is not told; and it fails while the
  caller also reads somewhere, so a thread that may write is told it was interrupted.\<close>

lemma sender_test_ignores_writing:
  assumes "p_sendto c as d = Some (Yield test, d')"
  shows "is_write c (pd_io d')" "test c w \<longleftrightarrow> \<not> is_read c w"
  using assms
  by (auto simp: p_sendto_def nb_call_def yield_on_def sys_fail_def no_read_def fw_write_def Let_def is_write_def registered_def list_ex_iff
      fw_elem_def split: if_splits option.splits sys_end.splits)

lemma spurious_wake_not_told:
  assumes "p_sendto c as d = Some (Yield test, d')" "is_write c w" "\<not> is_read c w"
  shows "thr_catch (p_sendto c) c ((as, w) # ts) d = thr_catch (p_sendto c) c ts (d'\<lparr>pd_io := w\<rparr>)"
  using assms sender_test_ignores_writing(2) [OF assms(1), of w] by simp

lemma spurious_wake_told:
  assumes "p_write c as d = Some (Yield test, d')" "is_write c w"
  shows "thr_catch (p_write c) c ((as, w) # ts) d = Some (Interrupted, d'\<lparr>pd_io := w\<rparr>)"
proof -
  have "test = no_write"
    using assms(1) by (auto simp: p_write_def nb_call_def yield_on_def sys_fail_def split: if_splits option.splits sys_end.splits)
  then show ?thesis using assms by (simp add: no_write_def)
qed

section \<open>Batches are exact\<close>

fun results :: "sysans list \<Rightarrow> nat list" where
  "results [] = []"
| "results (Answer n # as) = n # results as"
| "results (Errno e # as) = results as"

lemma cyg_loop_exact:
  assumes "cyg_loop as ls i = Some (x, ls', i')" "i \<le> length ls"
  shows "i \<le> i' \<and> i' \<le> length ls \<and> i' - i \<le> length (results as) \<and> ls' = take i ls @ take (i' - i) (results as) @ drop i' ls
    \<and> (x = Full \<longleftrightarrow> i' = length ls)"
  using assms
proof (induction as ls i rule: cyg_loop.induct)
  case (2 n as ls i)
  show ?case
  proof (cases "length ls \<le> i")
    case False
    then have l: "cyg_loop as (ls[i := n]) (Suc i) = Some (x, ls', i')" "Suc i \<le> length (ls[i := n])" using 2 by simp_all
    have i: "Suc i \<le> i'" "i' \<le> length ls" "i' - Suc i \<le> length (results as)" "x = Full \<longleftrightarrow> i' = length ls"
      "ls' = take (Suc i) (ls[i := n]) @ take (i' - Suc i) (results as) @ drop i' (ls[i := n])" using 2(1) [OF False l] by simp_all
    have "take (Suc i) (ls[i := n]) = take i ls @ [n]" using False by (simp add: take_Suc_conv_app_nth)
    moreover have "i' - i = Suc (i' - Suc i)" using i(1) by simp
    ultimately show ?thesis using i by simp
  qed (use 2 in auto)
qed (auto split: if_splits)

lemma cyg_loop_dry: "cyg_loop as ls i = Some (Dry, ls', i') \<Longrightarrow> Errno EAGAIN \<in> set as"
  by (induction as ls i rule: cyg_loop.induct) (auto split: if_splits)

text \<open>The batch with a cursor is exact.  Every call that begins with the cursor at the start ends with it
  there.  What it answers is the number of datagrams the system took or gave, the first that many entries
  have their lengths in order and the others are untouched; it yields or fails only when there was none, and an
  error after some is kept in \<open>err\<close>.\<close>

theorem cyg_batch_exact:
  assumes "f \<in> {cyg_sendmmsg c, cyg_recvmmsg c}" "f as ls d = Some (v, ls', d')" "mmsg_i d = 0"
  shows "mmsg_i d' = 0 \<and>
    (if pd_over d then v = Value (- 1) \<and> ls' = ls \<and> pd_err d' = EBADF
     else \<exists>k. k \<le> length ls \<and> k \<le> length (results as) \<and> ls' = take k (results as) @ drop k ls
       \<and> (0 < k \<or> ls = [] \<longrightarrow> v = Value (int k) \<and> (k < length ls \<longrightarrow> Errno EAGAIN \<in> set as \<or> pd_state d' = TS2IO_ERROR))
       \<and> (k = 0 \<and> ls \<noteq> [] \<longrightarrow> v = Value (- 1) \<and> pd_state d' = TS2IO_ERROR \<or> v = Panics
            \<or> (\<exists>test. v = Yield test) \<and> (is_read c (pd_io d') \<or> is_write c (pd_io d'))))"
proof -
  obtain reg where f: "f = cyg_batch reg" and r: "registers c reg"
    using assms(1) unfolding cyg_sendmmsg_def cyg_recvmmsg_def registers_def by blast
  show ?thesis
  proof (cases "pd_over d")
    case True
    then show ?thesis using assms(2,3) by (auto simp: f cyg_batch_def)
  next
    case False
    then obtain x ls1 k where l: "cyg_loop as ls 0 = Some (x, ls1, k)"
      using assms(2,3) by (auto simp: f cyg_batch_def split: option.splits)
    note E = cyg_loop_exact [OF l]
    have dry: "Errno EAGAIN \<in> set as" if "x = Dry" using cyg_loop_dry [OF l [unfolded that]] .
    show ?thesis
    proof (cases x)
      case Full
      then show ?thesis using False assms(2,3) E l by (auto simp: f cyg_batch_def)
    next
      case Dry
      then show ?thesis
        using False assms(2,3) E l dry registers_result [OF r, of "pd_fd d" "pd_io d"]
        by (auto simp: f cyg_batch_def split: if_splits option.splits)
    next
      case (Broke e)
      then show ?thesis using False assms(2,3) E l by (auto simp: f cyg_batch_def Let_def split: if_splits)
    qed
  qed
qed

theorem cyg_batch_exact_witness:
  "\<exists>v d'. cyg_recvmmsg 9 [Answer 10, Errno EINTR, Answer 20, Errno EAGAIN] [0, 0, 0]
       \<lparr>pd_fd = 5, pd_err = 0, pd_state = TS2IO_ACTIVE, pd_over = False, pd_io = new_fwIO 1, mmsg_i = 0\<rparr> = Some (v, [10, 20, 0], d')
     \<and> v = Value 2 \<and> mmsg_i d' = 0"
proof -
  let ?d = "\<lparr>pd_fd = 5, pd_err = 0, pd_state = TS2IO_ACTIVE, pd_over = False, pd_io = new_fwIO 1, mmsg_i = 0\<rparr>"
  let ?as = "[Answer 10, Errno EINTR, Answer 20, Errno EAGAIN]"
  have r: "cyg_recvmmsg 9 ?as [0, 0, 0] ?d = Some (Value 2, [10, 20, 0], ?d)"
    by (simp add: cyg_recvmmsg_def cyg_batch_def EINTR_def EAGAIN_def)
  from cyg_batch_exact [of "cyg_recvmmsg 9" 9, OF _ r] have "mmsg_i ?d = 0" by simp
  then show ?thesis using r by blast
qed

text \<open>The translated batch hands over at most 64 headers, gives back what the system reports for the first
  \<open>er\<close> messages, and touches nothing else.\<close>

lemma copy_back_nth:
  assumes "er \<le> length xs" "er \<le> length ms"
  shows "length (copy_back f er xs ms) = length ms"
    "i < length ms \<Longrightarrow> copy_back f er xs ms ! i = (if i < er then f (xs ! i) (ms ! i) else ms ! i)"
  using assms by (simp_all add: copy_back_def nth_append)

lemma x_batch_back:
  assumes "\<not> pd_over d" "sys (map (\<lambda>h. x_of (flags h) h) (take TS2_MMSG_MAXMSG ms)) = replicate k (Xerr EINTR) @ Xgot er xs # as"
    and "er \<le> length xs" "er \<le> length ms"
  shows "\<exists>ms'. x_batch reg back sys flags ms d = Some (Value (int er), ms', d) \<and> length ms' = length ms
    \<and> (\<forall>i < length ms. ms' ! i = (if i < er then back (xs ! i) (ms ! i) else ms ! i))"
proof -
  have "(if length ms < TS2_MMSG_MAXMSG then length ms else TS2_MMSG_MAXMSG) = min (length ms) TS2_MMSG_MAXMSG" by simp
  moreover have "take (min (length ms) TS2_MMSG_MAXMSG) ms = take TS2_MMSG_MAXMSG ms" by (simp add: min_def)
  moreover have "x_loop (replicate k (Xerr EINTR) @ Xgot er xs # as) = Some (Got er, xs)" by (induction k) simp_all
  ultimately have "x_batch reg back sys flags ms d = Some (Value (int er), copy_back back er xs ms, d)"
    using assms(1,2) by (simp add: x_batch_def Let_def)
  then show ?thesis using copy_back_nth [OF assms(3,4)] by simp
qed

end
