(* ===== verification/Endpoints.thy ===== *)
theory Endpoints
  imports PosixIO MemAccount "HOL-Library.Monad_Syntax"
begin

text \<open>
  The machines that open something and then become a descriptor, on POSIX: a file (\<open>ts2IOraw_\<close>), a client of a
  Unix socket (\<open>ts2IOunixClient_\<close>), of TCP (\<open>ts2IOsockTCPconnect_\<close>), a UDP socket (\<open>ts2IOsockUDP_\<close>), all of
  \<open>src/src/classes/ts2/c++/\<close>, with the states they inherit from \<open>ts2IOdescriptor_\<close> and \<open>ts2IO_\<close>; and the
  listening socket \<open>ts2IOsockServer_\<close> of \<open>src/arch/posix/src/classes/ts2/c++/\<close> with its two kinds.

  Descriptors go through the table of \<open>sObject\<close> (theory MemAccount), whose panic is \<^term>\<open>None\<close>; beside it
  \<open>e_open\<close> is the set of descriptors the system holds open.  \<open>e_told\<close> counts the times the listeners were
  told (\<open>invoke_listen\<close> with \<open>TSE_ASSERT\<close>), \<open>e_aborted\<close> the calls of \<open>io->abort\<close> (\<open>abort\<close> of theory Reactor);
  \<open>e_state\<close> is \<^term>\<open>None\<close> for \<open>TS2IO_INIT\<close>.  What the system answers is an argument.
\<close>

section \<open>The machine\<close>

datatype estate = Ini_START | Ini_ts2IOdescriptor | Ini_ts2IO | Act_START | Act_ERROR_PREV | Act_ERROR | Fin_START | Fin_ts2IO | Ended

text \<open>A state function returns the next state, to be entered at once (\<open>rDO\<close>) or at the next event.\<close>

datatype next_state = RDO estate | Rests estate

record ep =
  e_fd :: int
  e_sock :: int
  e_err :: int
  e_errpos :: "string option"
  e_eai :: int
  e_state :: "io_state option"
  e_io :: bool
  e_invoked :: bool
  e_aborted :: "int list"
  e_told :: nat
  e_woken :: nat
  e_open :: "int set"
  e_tab :: fdtab

definition new_ep :: "int set \<Rightarrow> fdtab \<Rightarrow> ep" where
  "new_ep opened ft = \<lparr>e_fd = - 1, e_sock = - 1, e_err = 0, e_errpos = None, e_eai = 0, e_state = None,
     e_io = False, e_invoked = False, e_aborted = [], e_told = 0, e_woken = 0, e_open = opened, e_tab = ft\<rparr>"

text \<open>\<open>soOPEN\<close>, \<open>soSOCKET\<close>, \<open>soACCEPT\<close> at a place of the source, and \<open>soCLOSE\<close>.\<close>

definition so_open :: "int \<Rightarrow> string \<times> nat \<Rightarrow> 'a ep_scheme \<Rightarrow> 'a ep_scheme option" where
  "so_open ret at p = do {
     (r, t) \<leftarrow> sys_open ret (fst at) (snd at) (e_tab p);
     Some (p\<lparr>e_tab := t, e_open := (if ret < 0 then e_open p else insert ret (e_open p))\<rparr>) }"

definition so_close :: "close_answer list \<Rightarrow> int \<Rightarrow> 'a ep_scheme \<Rightarrow> 'a ep_scheme option" where
  "so_close ca s p = do {
     (r, t) \<leftarrow> sys_close ca s (e_tab p);
     Some (p\<lparr>e_tab := t, e_open := (if r = 0 then e_open p - {s} else e_open p)\<rparr>) }"

definition tell :: "ep \<Rightarrow> ep" where "tell p = p\<lparr>e_told := e_told p + 1, e_invoked := True\<rparr>"

section \<open>The states they share\<close>

definition ini_descriptor :: "ep \<Rightarrow> (next_state \<times> ep) option" where
  "ini_descriptor p = Some (RDO Ini_ts2IO, p\<lparr>e_io := True, e_state := Some TS2IO_ACTIVE\<rparr>)"

definition ini_ts2IO :: "ep \<Rightarrow> (next_state \<times> ep) option" where
  "ini_ts2IO p = Some (RDO Act_START, tell p)"

definition act_error :: "ep \<Rightarrow> (next_state \<times> ep) option" where
  "act_error p = Some (RDO Fin_START, tell (p\<lparr>e_state := Some TS2IO_ERROR\<rparr>))"

definition act_error_prev :: "close_answer list \<Rightarrow> ep \<Rightarrow> (next_state \<times> ep) option" where
  "act_error_prev ca p = do { p \<leftarrow> so_close ca (e_sock p) p; Some (RDO Act_ERROR, p) }"

definition fin_descriptor :: "close_answer list \<Rightarrow> ep \<Rightarrow> (next_state \<times> ep) option" where
  "fin_descriptor ca p = do {
     p \<leftarrow> so_close ca (e_fd p) (p\<lparr>e_state := Some TS2IO_CLOSE, e_aborted := (if e_io p then e_aborted p @ [e_fd p] else e_aborted p)\<rparr>);
     Some (RDO Fin_ts2IO, p) }"

definition fin_ts2IO :: "ep \<Rightarrow> (next_state \<times> ep) option" where
  "fin_ts2IO p = Some (RDO Ended, if \<not> e_invoked p then tell p else p)"

section \<open>How each begins\<close>

text \<open>\<open>THR_CATCH_KILL\<close>: a thread that has been told to stop does not make the call.  \<open>er\<close> is the descriptor or
  the negated \<open>errno\<close>.\<close>

definition ini_raw :: "bool \<Rightarrow> int \<Rightarrow> bool \<Rightarrow> ep \<Rightarrow> (next_state \<times> ep) option" where
  "ini_raw killed er destroyed p = do {
     (er, errno, p) \<leftarrow> (if killed then Some (- 1, EINTR, p)
                       else do { p \<leftarrow> so_open er (''ts2IOraw.cpp'', 129) p; Some (er, - er, p) });
     if er < 0 \<or> destroyed then Some (RDO Fin_START, p\<lparr>e_err := errno, e_state := Some TS2IO_ERROR\<rparr>)
     else Some (RDO Ini_ts2IOdescriptor, p\<lparr>e_fd := er\<rparr>) }"

definition ini_unixClient :: "int \<Rightarrow> bool \<Rightarrow> int \<Rightarrow> bool \<Rightarrow> ep \<Rightarrow> (next_state \<times> ep) option" where
  "ini_unixClient er killed er2 destroyed p = do {
     p \<leftarrow> so_open er (''ts2IOunixClient.cpp'', 75) p;
     if er < 0 then Some (RDO Fin_START, p\<lparr>e_err := - er, e_state := Some TS2IO_ERROR\<rparr>)
     else
       let (er2, errno) = (if killed then (- 1, EINTR) else (er2, - er2))
       in if er2 < 0 \<or> destroyed then Some (RDO Fin_START, p\<lparr>e_err := errno, e_state := Some TS2IO_ERROR\<rparr>)
       else Some (RDO Ini_ts2IOdescriptor, p\<lparr>e_fd := er\<rparr>) }"

text \<open>\<open>getaddrinfo\<close> until it does not ask to be called again; a list that ends is a call that goes on.\<close>

definition ETIMEDOUT :: int where "ETIMEDOUT = 110"
definition EAI_AGAIN :: int where "EAI_AGAIN = - 3"
definition EAI_SYSTEM :: int where "EAI_SYSTEM = - 11"

datatype gai = Resolved "int list" | Eai int int

fun gai_loop :: "gai list \<Rightarrow> gai option" where
  "gai_loop [] = None"
| "gai_loop (Resolved ss # gs) = Some (Resolved ss)"
| "gai_loop (Eai s errno # gs) =
     (if s = EAI_AGAIN then gai_loop gs
      else if s = EAI_SYSTEM \<and> (errno = EINTR \<or> errno = EAGAIN) then gai_loop gs
      else Some (Eai s errno))"

text \<open>A socket for the first address that gives one; \<open>sfd\<close> is what the last \<open>socket\<close> answered.\<close>

fun first_socket :: "int list \<Rightarrow> ep \<Rightarrow> (bool \<times> ep) option" where
  "first_socket [] p = Some (False, p)"
| "first_socket (s # ss) p = do {
     p \<leftarrow> so_open s (''ts2IOsockTCPconnect.cpp'', 155) p;
     let p = p\<lparr>e_sock := s\<rparr> in if s \<ge> 0 then Some (True, p) else first_socket ss p }"

fun connect_loop :: "int list \<Rightarrow> int option" where
  "connect_loop [] = None"
| "connect_loop (er # cs) = (if er = EINTR \<or> er = EAGAIN then connect_loop cs else Some er)"

definition ini_TCPconnect :: "gai list \<Rightarrow> int list \<Rightarrow> ep \<Rightarrow> (next_state \<times> ep) option" where
  "ini_TCPconnect gs cs p = do {
     g \<leftarrow> gai_loop gs;
     case g of
       Eai s errno \<Rightarrow>
         Some (RDO Act_ERROR, p\<lparr>e_sock := - 1, e_errpos := Some ''getaddrinfo'', e_eai := s,
                               e_err := (if s = EAI_SYSTEM then errno else e_err p)\<rparr>)
     | Resolved ss \<Rightarrow> do {
         (found, p) \<leftarrow> first_socket ss (p\<lparr>e_sock := - 1\<rparr>);
         if \<not> found then Some (RDO Act_ERROR_PREV, p\<lparr>e_errpos := Some ''socket::no address suceeded''\<rparr>)
         else do {
           er \<leftarrow> connect_loop cs;
           if er = 0 then Some (RDO Ini_ts2IOdescriptor, p\<lparr>e_fd := e_sock p\<rparr>)
           else if er = ETIMEDOUT then Some (RDO Act_ERROR_PREV, p\<lparr>e_err := er\<rparr>)
           else Some (Rests Act_ERROR_PREV, p\<lparr>e_err := er, e_errpos := Some ''connect''\<rparr>) } } }"

text \<open>The answers of the five calls on a UDP socket; \<open>connect\<close> only when a peer is given.\<close>

definition ini_UDP :: "int \<Rightarrow> int \<Rightarrow> int \<Rightarrow> int \<Rightarrow> int option \<Rightarrow> ep \<Rightarrow> (next_state \<times> ep) option" where
  "ini_UDP s opt bnd name conn p = do {
     p \<leftarrow> so_open s (''ts2IOsockUDP.cpp'', 133) p;
     let p = p\<lparr>e_sock := s\<rparr>;
     if s < 0 then Some (RDO Act_ERROR, p\<lparr>e_errpos := Some ''socket'', e_err := - s\<rparr>)
     else if opt \<noteq> 0 then Some (RDO Act_ERROR_PREV, p\<lparr>e_errpos := Some ''setsockopt'', e_err := opt\<rparr>)
     else if bnd \<noteq> 0 then Some (RDO Act_ERROR_PREV, p\<lparr>e_errpos := Some ''bind'', e_err := bnd\<rparr>)
     else if name \<noteq> 0 then Some (RDO Act_ERROR_PREV, p\<lparr>e_errpos := Some ''getsockname'', e_err := name\<rparr>)
     else if conn \<noteq> None \<and> the conn \<noteq> 0 then Some (RDO Act_ERROR_PREV, p\<lparr>e_errpos := Some ''connect'', e_err := the conn\<rparr>)
     else Some (RDO Ini_ts2IOdescriptor, p\<lparr>e_fd := s, e_errpos := Some ''OK'', e_err := 0, e_woken := e_woken p + 1\<rparr>) }"

section \<open>A run\<close>

definition ep_step ::
  "(ep \<Rightarrow> (next_state \<times> ep) option) \<Rightarrow> close_answer list \<Rightarrow> estate \<Rightarrow> ep \<Rightarrow> (next_state \<times> ep) option" where
  "ep_step ini ca s p =
     (case s of
        Ini_START \<Rightarrow> ini p
      | Ini_ts2IOdescriptor \<Rightarrow> ini_descriptor p
      | Ini_ts2IO \<Rightarrow> ini_ts2IO p
      | Act_START \<Rightarrow> Some (Rests Act_START, p)
      | Act_ERROR_PREV \<Rightarrow> act_error_prev ca p
      | Act_ERROR \<Rightarrow> act_error p
      | Fin_START \<Rightarrow> fin_descriptor ca p
      | Fin_ts2IO \<Rightarrow> fin_ts2IO p
      | Ended \<Rightarrow> Some (Rests Ended, p))"

text \<open>The states the machine enters without another event.  No path has more than five.\<close>

fun ep_run :: "nat \<Rightarrow> (ep \<Rightarrow> (next_state \<times> ep) option) \<Rightarrow> close_answer list \<Rightarrow> estate \<Rightarrow> ep \<Rightarrow> (estate \<times> ep) option" where
  "ep_run 0 ini ca s p = None"
| "ep_run (Suc fuel) ini ca s p = do {
     (x, p) \<leftarrow> ep_step ini ca s p;
     case x of RDO s \<Rightarrow> ep_run fuel ini ca s p | Rests s \<Rightarrow> Some (s, p) }"

declare ep_run.simps [simp del]

section \<open>What the runs do\<close>

datatype endpoint =
    Raw bool int bool
  | Unix int bool int bool
  | TCP "gai list" "int list"
  | UDP int int int int "int option"

fun ini_of :: "endpoint \<Rightarrow> ep \<Rightarrow> (next_state \<times> ep) option" where
  "ini_of (Raw killed er destroyed) = ini_raw killed er destroyed"
| "ini_of (Unix er killed er2 destroyed) = ini_unixClient er killed er2 destroyed"
| "ini_of (TCP gs cs) = ini_TCPconnect gs cs"
| "ini_of (UDP s opt bnd name conn) = ini_UDP s opt bnd name conn"

text \<open>The descriptors the system may give in a run; whether the calls that are repeated come to an end.\<close>

fun offered :: "endpoint \<Rightarrow> int set" where
  "offered (Raw killed er destroyed) = {er}"
| "offered (Unix er killed er2 destroyed) = {er}"
| "offered (TCP gs cs) = (case gai_loop gs of Some (Resolved ss) \<Rightarrow> set ss | _ \<Rightarrow> {})"
| "offered (UDP s opt bnd name conn) = {s}"

fun settles :: "endpoint \<Rightarrow> bool" where
  "settles (TCP gs cs) = (gai_loop gs \<noteq> None \<and> connect_loop cs \<noteq> None)"
| "settles x = True"

text \<open>The openings that lose a descriptor, and the connections that are refused without the machine going on.\<close>

fun lost :: "endpoint \<Rightarrow> int set" where
  "lost (Raw killed er destroyed) = (if \<not> killed \<and> 0 \<le> er \<and> destroyed then {er} else {})"
| "lost (Unix er killed er2 destroyed) = (if 0 \<le> er \<and> (killed \<or> er2 < 0 \<or> destroyed) then {er} else {})"
| "lost x = {}"

fun refused :: "endpoint \<Rightarrow> bool" where
  "refused (TCP gs cs) = (case gai_loop gs of
     Some (Resolved ss) \<Rightarrow> (\<exists>s\<in>set ss. 0 \<le> s) \<and> (case connect_loop cs of Some er \<Rightarrow> er \<noteq> 0 \<and> er \<noteq> ETIMEDOUT | None \<Rightarrow> False)
   | _ \<Rightarrow> False)"
| "refused x = False"

definition holds :: "int set \<Rightarrow> 'a ep_scheme \<Rightarrow> bool" where
  "holds S p \<longleftrightarrow> e_open p = S \<and> tracks S (e_tab p)"

lemma holds_upd [simp]:
  "holds S (p\<lparr>e_fd := a\<rparr>) = holds S p" "holds S (p\<lparr>e_sock := a\<rparr>) = holds S p" "holds S (p\<lparr>e_err := a\<rparr>) = holds S p"
  "holds S (p\<lparr>e_errpos := b\<rparr>) = holds S p" "holds S (p\<lparr>e_eai := a\<rparr>) = holds S p" "holds S (p\<lparr>e_state := st\<rparr>) = holds S p"
  "holds S (p\<lparr>e_io := io\<rparr>) = holds S p" "holds S (p\<lparr>e_aborted := as\<rparr>) = holds S p" "holds S (p\<lparr>e_woken := n\<rparr>) = holds S p"
  by (simp_all add: holds_def)

lemma holds_tell [simp]: "holds S (tell p) = holds S p"
  by (simp add: holds_def tell_def)

lemma tell_simps [simp]:
  "e_fd (tell p) = e_fd p" "e_invoked (tell p)" "e_told (tell p) = e_told p + 1" "e_err (tell p) = e_err p" "e_sock (tell p) = e_sock p"
  "e_open (tell p) = e_open p" "e_state (tell p) = e_state p" "e_io (tell p) = e_io p"
  by (simp_all add: tell_def)

lemma so_open_ok:
  assumes "holds S p" "0 \<le> ret \<longrightarrow> ret \<notin> S"
  obtains t where "so_open ret at p = Some (p\<lparr>e_tab := t, e_open := (if ret < 0 then S else insert ret S)\<rparr>)"
    "holds (if ret < 0 then S else insert ret S) (p\<lparr>e_tab := t, e_open := (if ret < 0 then S else insert ret S)\<rparr>)"
proof (cases "ret < 0")
  case True
  then show ?thesis using assms(1) that [of "e_tab p"] by (simp add: so_open_def sys_open_def holds_def)
next
  case False
  have "tracks S (e_tab p)" using assms(1) by (simp add: holds_def)
  have "\<exists>t. sys_open ret (fst at) (snd at) (e_tab p) = Some (ret, t) \<and> tracks (insert ret S) t"
  proof (cases "ret < FD_SETSIZE")
    case True
    have "descriptor_list (e_tab p) ret = None" using \<open>tracks S _\<close> assms(2) False by (auto simp: tracks_def)
    with enter_fd_tracks(1) [OF \<open>tracks S _\<close> this] True False show ?thesis by (simp add: sys_open_def set_open_hash_def)
  next
    case big: False
    then have "tracks (insert ret S) (e_tab p)" using \<open>tracks S _\<close> by (auto simp: tracks_def)
    with big False show ?thesis by (simp add: sys_open_def set_open_hash_def)
  qed
  then show ?thesis using False assms(1) that by (auto simp: so_open_def holds_def)
qed

lemma so_close_ok:
  assumes "holds S p" "0 \<le> s \<longrightarrow> s \<in> S \<and> s < FD_SETSIZE"
  obtains t where "so_close (replicate k Eintr @ [Closed]) s p = Some (p\<lparr>e_tab := t, e_open := S - (if s < 0 then {} else {s})\<rparr>)"
    "holds (S - (if s < 0 then {} else {s})) (p\<lparr>e_tab := t, e_open := S - (if s < 0 then {} else {s})\<rparr>)"
proof (cases "s < 0")
  case True
  then show ?thesis using assms(1) that [of "e_tab p"] by (simp add: so_close_def sys_close_def holds_def)
next
  case False
  have t: "tracks S (e_tab p)" using assms(1) by (simp add: holds_def)
  then have "s \<in> dom (descriptor_list (e_tab p))" using False assms(2) by (simp add: tracks_def)
  then obtain c where c: "descriptor_list (e_tab p) s = Some c" by blast
  have "sys_close (replicate k Eintr @ [Closed]) s (e_tab p) = Some (0, leave_fd s c (e_tab p))"
    using False assms(2) by (simp add: sys_close_run [OF c])
  then show ?thesis using False assms(1) leave_fd_tracks(1) [OF t c] that by (simp add: so_close_def holds_def)
qed

abbreviation closes :: "nat \<Rightarrow> close_answer list" where "closes k \<equiv> replicate k Eintr @ [Closed]"

text \<open>The end of a machine: its descriptor is closed and the listeners are told if they were not before.\<close>

lemma run_fin:
  assumes "holds S p" "0 \<le> e_fd p \<longrightarrow> e_fd p \<in> S \<and> e_fd p < FD_SETSIZE"
  shows "\<exists>p'. ep_run (Suc (Suc (Suc n))) ini (closes k) Fin_START p = Some (Ended, p') \<and> holds (S - (if e_fd p < 0 then {} else {e_fd p})) p'
    \<and> e_told p' = (if e_invoked p then e_told p else e_told p + 1) \<and> e_err p' = e_err p"
proof -
  let ?p = "p\<lparr>e_state := Some TS2IO_CLOSE, e_aborted := (if e_io p then e_aborted p @ [e_fd p] else e_aborted p)\<rparr>"
  have "holds S ?p" using assms(1) by simp
  then obtain t where t: "so_close (closes k) (e_fd p) ?p = Some (?p\<lparr>e_tab := t, e_open := S - (if e_fd p < 0 then {} else {e_fd p})\<rparr>)"
    "holds (S - (if e_fd p < 0 then {} else {e_fd p})) (?p\<lparr>e_tab := t, e_open := S - (if e_fd p < 0 then {} else {e_fd p})\<rparr>)"
    using so_close_ok assms(2) by blast
  let ?q = "?p\<lparr>e_tab := t, e_open := S - (if e_fd p < 0 then {} else {e_fd p})\<rparr>"
  have "ep_run (Suc (Suc (Suc n))) ini (closes k) Fin_START p = Some (Ended, if e_invoked p then ?q else tell ?q)"
    using t(1) by (simp add: ep_run.simps ep_step_def fin_descriptor_def fin_ts2IO_def)
  then show ?thesis using t(2) by simp
qed

lemma run_error:
  assumes "holds S p" "e_fd p = - 1"
  shows "\<exists>p'. ep_run (Suc (Suc (Suc (Suc n)))) ini (closes k) Act_ERROR p = Some (Ended, p') \<and> holds S p'
    \<and> e_told p' = e_told p + 1 \<and> e_err p' = e_err p"
proof -
  let ?p = "tell (p\<lparr>e_state := Some TS2IO_ERROR\<rparr>)"
  have "ep_run (Suc (Suc (Suc (Suc n)))) ini (closes k) Act_ERROR p = ep_run (Suc (Suc (Suc n))) ini (closes k) Fin_START ?p"
    by (simp add: ep_run.simps(2) [of "Suc (Suc (Suc n))"] ep_step_def act_error_def)
  then show ?thesis using run_fin [of S ?p n ini k] assms by simp
qed

lemma run_error_prev:
  assumes "holds S p" "e_fd p = - 1" "0 \<le> e_sock p \<longrightarrow> e_sock p \<in> S \<and> e_sock p < FD_SETSIZE"
  shows "\<exists>p'. ep_run (Suc (Suc (Suc (Suc (Suc n))))) ini (closes k) Act_ERROR_PREV p = Some (Ended, p')
    \<and> holds (S - (if e_sock p < 0 then {} else {e_sock p})) p' \<and> e_told p' = e_told p + 1 \<and> e_err p' = e_err p"
proof -
  let ?S = "S - (if e_sock p < 0 then {} else {e_sock p})"
  obtain t where t: "so_close (closes k) (e_sock p) p = Some (p\<lparr>e_tab := t, e_open := ?S\<rparr>)" "holds ?S (p\<lparr>e_tab := t, e_open := ?S\<rparr>)"
    using so_close_ok [OF assms(1,3)] by blast
  have "ep_run (Suc (Suc (Suc (Suc (Suc n))))) ini (closes k) Act_ERROR_PREV p
      = ep_run (Suc (Suc (Suc (Suc n)))) ini (closes k) Act_ERROR (p\<lparr>e_tab := t, e_open := ?S\<rparr>)"
    using t(1) by (simp add: ep_run.simps(2) [of "Suc (Suc (Suc (Suc n)))"] ep_step_def act_error_prev_def)
  then show ?thesis using run_error [OF t(2), of n ini k] assms(2) by simp
qed

text \<open>A machine that has its descriptor is active at once, and tells so.\<close>

lemma run_ini:
  "ep_run (Suc (Suc (Suc n))) ini ca Ini_ts2IOdescriptor p
     = Some (Act_START, tell (p\<lparr>e_io := True, e_state := Some TS2IO_ACTIVE\<rparr>))"
  by (simp add: ep_run.simps ep_step_def ini_descriptor_def ini_ts2IO_def)

lemma run_start:
  assumes "ini p = Some (x, p')"
  shows "ep_run (Suc n) ini ca Ini_START p = (case x of RDO s \<Rightarrow> ep_run n ini ca s p' | Rests s \<Rightarrow> Some (s, p'))"
  using assms by (simp add: ep_run.simps ep_step_def)

text \<open>What the beginning of a machine does: it goes on to be a descriptor, or to its end by one of the three
  error states, or rests before the close.\<close>

definition began :: "int set \<Rightarrow> endpoint \<Rightarrow> next_state \<Rightarrow> ep \<Rightarrow> bool" where
  "began S x s p \<longleftrightarrow> e_told p = 0 \<and> \<not> e_invoked p \<and>
     (s = RDO Ini_ts2IOdescriptor \<and> 0 \<le> e_fd p \<and> e_fd p \<in> offered x \<and> holds (insert (e_fd p) S) p \<and> lost x = {} \<and> \<not> refused x
    \<or> s = RDO Fin_START \<and> e_fd p = - 1 \<and> holds (S \<union> lost x) p \<and> \<not> refused x
    \<or> s = RDO Act_ERROR \<and> e_fd p = - 1 \<and> holds S p \<and> lost x = {} \<and> \<not> refused x
    \<or> s = RDO Act_ERROR_PREV \<and> e_fd p = - 1 \<and> holds (if e_sock p < 0 then S else insert (e_sock p) S) p
        \<and> (0 \<le> e_sock p \<longrightarrow> e_sock p \<in> offered x) \<and> lost x = {} \<and> \<not> refused x
    \<or> s = Rests Act_ERROR_PREV \<and> e_fd p = - 1 \<and> 0 \<le> e_sock p \<and> e_sock p \<in> offered x \<and> holds (insert (e_sock p) S) p \<and> lost x = {} \<and> refused x)"

lemma first_socket_ok:
  assumes "holds S p" "\<forall>s\<in>set ss. 0 \<le> s \<longrightarrow> s \<notin> S" "e_sock p < 0"
  shows "\<exists>p' t. first_socket ss p = Some (\<exists>s\<in>set ss. 0 \<le> s, p') \<and> p' = p\<lparr>e_sock := e_sock p', e_open := e_open p', e_tab := t\<rparr>
    \<and> (if \<exists>s\<in>set ss. 0 \<le> s then 0 \<le> e_sock p' \<and> e_sock p' \<in> set ss \<and> holds (insert (e_sock p') S) p' else e_sock p' < 0 \<and> holds S p')"
  using assms
proof (induction ss arbitrary: p)
  case Nil
  then show ?case by (intro exI [of _ p] exI [of _ "e_tab p"]) simp
next
  case (Cons s ss)
  obtain t where t: "so_open s (''ts2IOsockTCPconnect.cpp'', 155) p = Some (p\<lparr>e_tab := t, e_open := (if s < 0 then S else insert s S)\<rparr>)"
    "holds (if s < 0 then S else insert s S) (p\<lparr>e_tab := t, e_open := (if s < 0 then S else insert s S)\<rparr>)"
    by (rule so_open_ok [OF Cons.prems(1), of s]) (use Cons.prems(2) in simp)
  show ?case
  proof (cases "s < 0")
    case True
    let ?p = "p\<lparr>e_tab := t, e_open := S, e_sock := s\<rparr>"
    have "holds S ?p" using t(2) True by simp
    from Cons.IH [OF this] Cons.prems(2) True obtain p' t' where IH: "first_socket ss ?p = Some (\<exists>s\<in>set ss. 0 \<le> s, p')"
      "p' = ?p\<lparr>e_sock := e_sock p', e_open := e_open p', e_tab := t'\<rparr>"
      "if \<exists>s\<in>set ss. 0 \<le> s then 0 \<le> e_sock p' \<and> e_sock p' \<in> set ss \<and> holds (insert (e_sock p') S) p' else e_sock p' < 0 \<and> holds S p'"
      by auto
    have "first_socket (s # ss) p = first_socket ss ?p" using t(1) True by (simp add: Let_def)
    moreover have "p' = p\<lparr>e_sock := e_sock p', e_open := e_open p', e_tab := t'\<rparr>" using IH(2) by (cases p; cases p'; simp)
    ultimately show ?thesis using IH(1,3) True by (intro exI [of _ p'] exI [of _ t']) auto
  next
    case False
    let ?p = "p\<lparr>e_tab := t, e_open := insert s S, e_sock := s\<rparr>"
    have "first_socket (s # ss) p = Some (True, ?p)" using t(1) False by (simp add: Let_def)
    moreover have "holds (insert s S) ?p" using t(2) False by simp
    ultimately show ?thesis using False by (intro exI [of _ ?p] exI [of _ t]) auto
  qed
qed

lemma new_ep_simps [simp]:
  "e_fd (new_ep S t) = - 1" "e_sock (new_ep S t) = - 1" "e_told (new_ep S t) = 0" "\<not> e_invoked (new_ep S t)" "e_err (new_ep S t) = 0"
  "tracks S t \<Longrightarrow> holds S (new_ep S t)"
  by (simp_all add: new_ep_def holds_def)

lemma opened_simps [simp]:
  "e_fd (p\<lparr>e_tab := t, e_open := S\<rparr>) = e_fd p" "e_told (p\<lparr>e_tab := t, e_open := S\<rparr>) = e_told p" "e_invoked (p\<lparr>e_tab := t, e_open := S\<rparr>) = e_invoked p"
  by simp_all

lemma raw_began:
  assumes "tracks S t" "0 \<le> er \<longrightarrow> er \<notin> S"
  shows "\<exists>s p. ini_raw killed er destroyed (new_ep S t) = Some (s, p) \<and> began S (Raw killed er destroyed) s p"
proof -
  have h: "holds S (new_ep S t)" using assms(1) by simp
  obtain t' where "so_open er (''ts2IOraw.cpp'', 129) (new_ep S t) = Some ((new_ep S t)\<lparr>e_tab := t', e_open := (if er < 0 then S else insert er S)\<rparr>)"
    "holds (if er < 0 then S else insert er S) ((new_ep S t)\<lparr>e_tab := t', e_open := (if er < 0 then S else insert er S)\<rparr>)"
    by (rule so_open_ok [OF h assms(2)])
  then show ?thesis using h by (cases killed; cases "er < 0"; cases destroyed) (simp_all add: ini_raw_def began_def)
qed

lemma unix_began:
  assumes "tracks S t" "0 \<le> er \<longrightarrow> er \<notin> S"
  shows "\<exists>s p. ini_unixClient er killed er2 destroyed (new_ep S t) = Some (s, p) \<and> began S (Unix er killed er2 destroyed) s p"
proof -
  have h: "holds S (new_ep S t)" using assms(1) by simp
  obtain t' where "so_open er (''ts2IOunixClient.cpp'', 75) (new_ep S t) = Some ((new_ep S t)\<lparr>e_tab := t', e_open := (if er < 0 then S else insert er S)\<rparr>)"
    "holds (if er < 0 then S else insert er S) ((new_ep S t)\<lparr>e_tab := t', e_open := (if er < 0 then S else insert er S)\<rparr>)"
    by (rule so_open_ok [OF h assms(2)])
  then show ?thesis
    by (cases killed; cases "er < 0"; cases "er2 < 0"; cases destroyed) (simp_all add: ini_unixClient_def began_def Let_def)
qed

lemma UDP_began:
  assumes "tracks S t" "0 \<le> s \<longrightarrow> s \<notin> S"
  shows "\<exists>x p. ini_UDP s opt bnd name conn (new_ep S t) = Some (x, p) \<and> began S (UDP s opt bnd name conn) x p"
proof -
  have h: "holds S (new_ep S t)" using assms(1) by simp
  obtain t' where "so_open s (''ts2IOsockUDP.cpp'', 133) (new_ep S t) = Some ((new_ep S t)\<lparr>e_tab := t', e_open := (if s < 0 then S else insert s S)\<rparr>)"
    "holds (if s < 0 then S else insert s S) ((new_ep S t)\<lparr>e_tab := t', e_open := (if s < 0 then S else insert s S)\<rparr>)"
    by (rule so_open_ok [OF h assms(2)])
  then show ?thesis by (cases "s < 0") (simp_all add: ini_UDP_def began_def Let_def)
qed

lemma gai_loop_result: "gai_loop gs = Some (Eai s errno) \<Longrightarrow> s \<noteq> EAI_AGAIN"
  by (induction gs rule: gai_loop.induct) (auto split: if_splits)

lemma TCP_began:
  assumes "tracks S t" "\<forall>s\<in>offered (TCP gs cs). 0 \<le> s \<longrightarrow> s \<notin> S" "settles (TCP gs cs)"
  shows "\<exists>s p. ini_TCPconnect gs cs (new_ep S t) = Some (s, p) \<and> began S (TCP gs cs) s p"
proof -
  have h: "holds S (new_ep S t)" using assms(1) by simp
  obtain g er where g: "gai_loop gs = Some g" and er: "connect_loop cs = Some er" using assms(3) by auto
  show ?thesis
  proof (cases g)
    case (Eai s errno)
    then show ?thesis using g h by (simp add: ini_TCPconnect_def began_def)
  next
    case (Resolved ss)
    let ?p = "(new_ep S t)\<lparr>e_sock := - 1\<rparr>"
    have "\<forall>s\<in>set ss. 0 \<le> s \<longrightarrow> s \<notin> S" using assms(2) g Resolved by simp
    from first_socket_ok [of S ?p, OF _ this] h obtain p' t' where p: "first_socket ss ?p = Some (\<exists>s\<in>set ss. 0 \<le> s, p')"
      "p' = ?p\<lparr>e_sock := e_sock p', e_open := e_open p', e_tab := t'\<rparr>"
      "if \<exists>s\<in>set ss. 0 \<le> s then 0 \<le> e_sock p' \<and> e_sock p' \<in> set ss \<and> holds (insert (e_sock p') S) p' else e_sock p' < 0 \<and> holds S p'"
      by auto
    have f: "e_fd p' = - 1" "e_told p' = 0" "\<not> e_invoked p'" by (subst p(2), simp)+
    show ?thesis using g er p(1,3) f Resolved by (cases "\<exists>s\<in>set ss. 0 \<le> s") (auto simp: ini_TCPconnect_def began_def)
  qed
qed

lemma ini_began:
  assumes "tracks S t" "\<forall>s\<in>offered x. 0 \<le> s \<longrightarrow> s \<notin> S" "settles x"
  shows "\<exists>s p. ini_of x (new_ep S t) = Some (s, p) \<and> began S x s p"
proof (cases x)
  case (Raw killed er destroyed)
  then show ?thesis using raw_began [OF assms(1)] assms(2) by simp
next
  case (Unix er killed er2 destroyed)
  then show ?thesis using unix_began [OF assms(1)] assms(2) by simp
next
  case (TCP gs cs)
  then show ?thesis using TCP_began [OF assms(1)] assms(2,3) by simp
next
  case (UDP s opt bnd name conn)
  then show ?thesis using UDP_began [OF assms(1)] assms(2) by simp
qed

text \<open>A first run ends at rest, at the end, or before the close of a refused connection.\<close>

lemma first_run:
  assumes "tracks S t" "\<forall>s\<in>offered x. 0 \<le> s \<longrightarrow> s \<notin> S \<and> s < FD_SETSIZE" "settles x"
  shows "\<exists>s p. ep_run 9 (ini_of x) (closes k) Ini_START (new_ep S t) = Some (s, p) \<and>
    (if refused x then s = Act_ERROR_PREV \<and> e_told p = 0 \<and> e_fd p = - 1 \<and> 0 \<le> e_sock p \<and> e_sock p < FD_SETSIZE \<and> e_sock p \<notin> S
        \<and> holds (insert (e_sock p) S) p
     else e_told p = 1 \<and> (s = Act_START \<and> lost x = {} \<and> e_invoked p \<and> 0 \<le> e_fd p \<and> e_fd p < FD_SETSIZE \<and> e_fd p \<notin> S
           \<and> holds (insert (e_fd p) S) p \<and> e_state p = Some TS2IO_ACTIVE
        \<or> s = Ended \<and> holds (S \<union> lost x) p))"
proof -
  obtain s p where b: "ini_of x (new_ep S t) = Some (s, p)" "began S x s p" using ini_began [OF assms(1) _ assms(3)] assms(2) by blast
  have r: "ep_run 9 (ini_of x) (closes k) Ini_START (new_ep S t)
      = (case s of RDO s \<Rightarrow> ep_run (Suc (Suc (Suc (Suc (Suc (Suc (Suc (Suc 0)))))))) (ini_of x) (closes k) s p | Rests s \<Rightarrow> Some (s, p))"
    using run_start [of "ini_of x" "new_ep S t" s p "Suc (Suc (Suc (Suc (Suc (Suc (Suc (Suc 0)))))))" "closes k"] b(1) by (simp add: eval_nat_numeral)
  have told: "e_told p = 0" "\<not> e_invoked p" using b(2) by (simp_all add: began_def)
  from b(2) consider (ini) "s = RDO Ini_ts2IOdescriptor" "0 \<le> e_fd p" "e_fd p \<in> offered x" "holds (insert (e_fd p) S) p" "lost x = {}" "\<not> refused x"
    | (fin) "s = RDO Fin_START" "e_fd p = - 1" "holds (S \<union> lost x) p" "\<not> refused x"
    | (err) "s = RDO Act_ERROR" "e_fd p = - 1" "holds S p" "lost x = {}" "\<not> refused x"
    | (prev) "s = RDO Act_ERROR_PREV" "e_fd p = - 1" "holds (if e_sock p < 0 then S else insert (e_sock p) S) p"
        "0 \<le> e_sock p \<longrightarrow> e_sock p \<in> offered x" "lost x = {}" "\<not> refused x"
    | (refused) "s = Rests Act_ERROR_PREV" "e_fd p = - 1" "0 \<le> e_sock p" "e_sock p \<in> offered x" "holds (insert (e_sock p) S) p" "refused x"
    unfolding began_def by blast
  then show ?thesis
  proof cases
    case ini
    then show ?thesis using assms(2) told r by (simp add: run_ini)
  next
    case fin
    then show ?thesis using run_fin [OF fin(3), of "Suc (Suc (Suc (Suc (Suc 0))))" "ini_of x" k] told r by (auto)
  next
    case err
    then show ?thesis using run_error [OF err(3,2), of "Suc (Suc (Suc (Suc 0)))" "ini_of x" k] told r by (auto)
  next
    case prev
    let ?S = "if e_sock p < 0 then S else insert (e_sock p) S"
    have s: "0 \<le> e_sock p \<longrightarrow> e_sock p \<in> ?S \<and> e_sock p < FD_SETSIZE" using prev assms(2) by auto
    have "?S - (if e_sock p < 0 then {} else {e_sock p}) = S" using prev assms(2) by (auto simp: not_less)
    then show ?thesis using run_error_prev [OF prev(3,2) s, of "Suc (Suc (Suc 0))" "ini_of x" k] told r prev by (auto)
  next
    case refused
    then show ?thesis using assms(2) told r by simp
  qed
qed

text \<open>C14: The listeners of a machine that opens something are told once.  Whatever the system answers, as long as
  the calls that are repeated come to an end, the first run ends; then they have been told exactly once and the
  machine is active, with its descriptor open, or over.  The exception is a TCP connection that is refused by
  anything but a timeout: the machine rests before its error state and nobody has been told.\<close>

theorem endpoint_tells:
  assumes "tracks S t" "\<forall>s\<in>offered x. 0 \<le> s \<longrightarrow> s \<notin> S \<and> s < FD_SETSIZE" "settles x"
  shows "\<exists>s p. ep_run 9 (ini_of x) (closes k) Ini_START (new_ep S t) = Some (s, p) \<and>
    (if refused x then s = Act_ERROR_PREV \<and> e_told p = 0
     else e_told p = 1 \<and> (s = Act_START \<and> e_state p = Some TS2IO_ACTIVE \<and> e_fd p \<in> e_open p \<or> s = Ended))"
proof -
  obtain s p where "ep_run 9 (ini_of x) (closes k) Ini_START (new_ep S t) = Some (s, p)"
    "if refused x then s = Act_ERROR_PREV \<and> e_told p = 0 \<and> e_fd p = - 1 \<and> 0 \<le> e_sock p \<and> e_sock p < FD_SETSIZE \<and> e_sock p \<notin> S
        \<and> holds (insert (e_sock p) S) p
     else e_told p = 1 \<and> (s = Act_START \<and> lost x = {} \<and> e_invoked p \<and> 0 \<le> e_fd p \<and> e_fd p < FD_SETSIZE \<and> e_fd p \<notin> S
           \<and> holds (insert (e_fd p) S) p \<and> e_state p = Some TS2IO_ACTIVE
        \<or> s = Ended \<and> holds (S \<union> lost x) p)"
    using first_run [OF assms] by blast
  then show ?thesis by (intro exI [of _ s] exI [of _ p] conjI; cases "refused x") (auto simp: holds_def)
qed

theorem endpoint_tells_witness:
  "\<exists>p. ep_run 9 (ini_of (TCP [Eai EAI_AGAIN 0, Resolved [- 1, 7]] [EINTR, 111])) (closes 2) Ini_START (new_ep {} new_fdtab) = Some (Act_ERROR_PREV, p)
     \<and> e_told p = 0"
proof -
  let ?x = "TCP [Eai EAI_AGAIN 0, Resolved [- 1, 7]] [EINTR, 111]"
  have "settles ?x" "refused ?x" "\<forall>s\<in>offered ?x. 0 \<le> s \<longrightarrow> s \<notin> {} \<and> s < FD_SETSIZE"
    by (simp_all add: EINTR_def EAGAIN_def ETIMEDOUT_def FD_SETSIZE_def)
  with endpoint_tells [OF tracks_new, of ?x 2] show ?thesis by auto
qed



section \<open>The listening socket\<close>

text \<open>The hooks of the two kinds: \<open>SO_REUSEADDR\<close>, the length of the address, and whether a file is removed before
  the bind and after the close.\<close>

record hooks =
  hk_reuse :: bool
  hk_alen :: int
  hk_path :: bool

definition TCPserver :: hooks where "TCPserver = \<lparr>hk_reuse = True, hk_alen = 16, hk_path = False\<rparr>"
definition UnixServer :: hooks where "UnixServer = \<lparr>hk_reuse = False, hk_alen = 110, hk_path = True\<rparr>"

record srv = ep + sv_reuse :: bool sv_unlinked :: nat

datatype sstate = Srv_INI | Srv_ACT | Srv_ERROR | Srv_ERROR_WAIT | Srv_FIN | Srv_CLOSE | Srv_ended
datatype srv_next = Srv_do sstate | Srv_rests sstate

definition new_srv :: "int set \<Rightarrow> fdtab \<Rightarrow> srv" where
  "new_srv opened ft = ep.extend (new_ep opened ft) \<lparr>sv_reuse = False, sv_unlinked = 0\<rparr>"

definition unlink_hook :: "hooks \<Rightarrow> srv \<Rightarrow> srv" where
  "unlink_hook hk p = (if hk_path hk then p\<lparr>sv_unlinked := sv_unlinked p + 1\<rparr> else p)"

text \<open>The answers of \<open>socket\<close>, \<open>bind\<close> and \<open>listen\<close>; \<open>errno\<close> is what an address without a length finds there.\<close>

definition ini_server :: "hooks \<Rightarrow> int \<Rightarrow> int \<Rightarrow> int \<Rightarrow> int \<Rightarrow> srv \<Rightarrow> (srv_next \<times> srv) option" where
  "ini_server hk s errno bnd lst p = do {
     p \<leftarrow> so_open s (''ts2IOsockServer.cpp'', 119) p;
     let p = p\<lparr>e_sock := s\<rparr>;
     if s < 0 then Some (Srv_do Srv_ERROR, p\<lparr>e_errpos := Some ''socket'', e_err := - s\<rparr>)
     else
       let p = unlink_hook hk (if hk_reuse hk then p\<lparr>sv_reuse := True\<rparr> else p)
       in if hk_alen hk \<le> 0 \<or> bnd \<noteq> 0 then Some (Srv_do Srv_ERROR, p\<lparr>e_errpos := Some ''bind'', e_err := (if hk_alen hk \<le> 0 then errno else bnd)\<rparr>)
       else if lst \<noteq> 0 then Some (Srv_do Srv_ERROR, p\<lparr>e_errpos := Some ''listen'', e_err := lst\<rparr>)
       else Some (Srv_do Srv_ACT, p\<lparr>e_io := True, e_errpos := Some ''OK'', e_err := 0, e_woken := e_woken p + 1\<rparr>) }"

definition fin_close :: "hooks \<Rightarrow> close_answer list \<Rightarrow> srv \<Rightarrow> (srv_next \<times> srv) option" where
  "fin_close hk ca p = do {
     p \<leftarrow> (if e_sock p \<ge> 0 then so_close ca (e_sock p) p else Some p);
     Some (Srv_do Srv_ended, (unlink_hook hk (p\<lparr>e_sock := - 1\<rparr>))\<lparr>e_io := False\<rparr>) }"

text \<open>\<open>ini\<close> is the first state; \<open>Srv_ACT\<close> is the resting state of the base class, which leaves it when the machine
  is destroyed.\<close>

definition srv_step ::
  "hooks \<Rightarrow> (srv \<Rightarrow> (srv_next \<times> srv) option) \<Rightarrow> close_answer list \<Rightarrow> bool \<Rightarrow> sstate \<Rightarrow> srv \<Rightarrow> (srv_next \<times> srv) option" where
  "srv_step hk ini ca destroyed s p =
     (case s of
        Srv_INI \<Rightarrow> ini p
      | Srv_ACT \<Rightarrow> Some (if destroyed then Srv_do Srv_FIN else Srv_rests Srv_ACT, p)
      | Srv_ERROR \<Rightarrow> Some (Srv_do Srv_ERROR_WAIT, p\<lparr>e_woken := e_woken p + 1\<rparr>)
      | Srv_ERROR_WAIT \<Rightarrow> Some (if destroyed then Srv_do Srv_FIN else Srv_rests Srv_ERROR_WAIT, p)
      | Srv_FIN \<Rightarrow> Some (Srv_do Srv_CLOSE, p\<lparr>e_aborted := (if e_sock p \<ge> 0 \<and> e_io p then e_aborted p @ [e_sock p] else e_aborted p)\<rparr>)
      | Srv_CLOSE \<Rightarrow> fin_close hk ca p
      | Srv_ended \<Rightarrow> Some (Srv_rests Srv_ended, p))"

fun srv_run :: "nat \<Rightarrow> hooks \<Rightarrow> (srv \<Rightarrow> (srv_next \<times> srv) option) \<Rightarrow> close_answer list \<Rightarrow> bool \<Rightarrow> sstate \<Rightarrow> srv \<Rightarrow> (sstate \<times> srv) option" where
  "srv_run 0 hk ini ca destroyed s p = None"
| "srv_run (Suc fuel) hk ini ca destroyed s p = do {
     (x, p) \<leftarrow> srv_step hk ini ca destroyed s p;
     case x of Srv_do s \<Rightarrow> srv_run fuel hk ini ca destroyed s p | Srv_rests s \<Rightarrow> Some (s, p) }"

text \<open>\<open>accept\<close>: a new descriptor, nothing with an error for the caller, or a wait in the reactor.\<close>

datatype accepted = Accepted int | Nothing int | Accept_yields "nat \<Rightarrow> fwIO \<Rightarrow> bool" | Accept_panics

definition accept :: "nat \<Rightarrow> sysans list \<Rightarrow> bool \<Rightarrow> fwIO \<Rightarrow> srv \<Rightarrow> (accepted \<times> fwIO \<times> srv) option" where
  "accept c as destroyed w p = do {
     r \<leftarrow> sys_loop as;
     case r of
       Got s \<Rightarrow> do { p \<leftarrow> so_open (int s) (''ts2IOsockServer.cpp'', 86) p; Some (Accepted (int s), w, p) }
     | Again \<Rightarrow>
         if destroyed then Some (Nothing EAGAIN, w, p)
         else (case fw_read c (e_sock p) 0 w of None \<Rightarrow> Some (Accept_panics, w, p) | Some (n, w) \<Rightarrow> Some (Accept_yields no_read, w, p))
     | Bad e \<Rightarrow> Some (Nothing e, w, p) }"

text \<open>The first run ends at rest with the parent woken once; after the destruction the socket is closed.\<close>

lemma so_open_srv:
  assumes "tracks S t" "0 \<le> s \<longrightarrow> s \<notin> S"
  obtains p where "so_open s at (new_srv S t) = Some p" "holds (if s < 0 then S else insert s S) p" "e_woken p = 0" "sv_unlinked p = 0" "\<not> e_io p"
proof -
  have h: "holds S (new_srv S t)" using assms(1) by (simp add: holds_def new_srv_def new_ep_def ep.defs)
  obtain t' where "so_open s at (new_srv S t) = Some ((new_srv S t)\<lparr>e_tab := t', e_open := (if s < 0 then S else insert s S)\<rparr>)"
    "holds (if s < 0 then S else insert s S) ((new_srv S t)\<lparr>e_tab := t', e_open := (if s < 0 then S else insert s S)\<rparr>)"
    by (rule so_open_ok [OF h assms(2)])
  then show ?thesis using that by (simp add: new_srv_def new_ep_def ep.defs)
qed

declare srv_run.simps [simp del]

lemma holds_srv [simp]:
  "holds S (p\<lparr>sv_reuse := b\<rparr>) = holds S p" "holds S (p\<lparr>sv_unlinked := n\<rparr>) = holds S p"
  by (simp_all add: holds_def)

lemma unlink_hook_simps [simp]:
  "holds S (unlink_hook hk p) = holds S p" "e_woken (unlink_hook hk p) = e_woken p" "e_sock (unlink_hook hk p) = e_sock p"
  "e_open (unlink_hook hk p) = e_open p" "e_io (unlink_hook hk p) = e_io p" "e_aborted (unlink_hook hk p) = e_aborted p"
  "e_tab (unlink_hook hk p) = e_tab p" "sv_unlinked (unlink_hook hk p) = sv_unlinked p + of_bool (hk_path hk)"
  by (simp_all add: unlink_hook_def holds_def)

definition listening :: "hooks \<Rightarrow> int \<Rightarrow> int \<Rightarrow> int \<Rightarrow> bool" where
  "listening hk s bnd lst \<longleftrightarrow> 0 \<le> s \<and> 0 < hk_alen hk \<and> bnd = 0 \<and> lst = 0"

lemma ini_server_result:
  assumes "tracks S t" "0 \<le> s \<longrightarrow> s \<notin> S"
  obtains p where "ini_server hk s errno bnd lst (new_srv S t) = Some (Srv_do (if listening hk s bnd lst then Srv_ACT else Srv_ERROR), p)"
    "holds (if s < 0 then S else insert s S) p" "e_sock p = s" "e_io p = listening hk s bnd lst" "e_woken p = of_bool (listening hk s bnd lst)"
    "e_aborted p = []" "sv_unlinked p = (if s < 0 then 0 else of_bool (hk_path hk))" "listening hk s bnd lst \<longrightarrow> e_err p = 0"
proof -
  obtain p where p: "so_open s (''ts2IOsockServer.cpp'', 119) (new_srv S t) = Some p" "holds (if s < 0 then S else insert s S) p"
    "e_woken p = 0" "sv_unlinked p = 0" "\<not> e_io p" by (rule so_open_srv [OF assms])
  have a: "e_aborted p = []" using p(1) by (auto simp: so_open_def new_srv_def new_ep_def ep.defs bind_eq_Some_conv)
  let ?r = "if hk_reuse hk then p\<lparr>e_sock := s, sv_reuse := True\<rparr> else p\<lparr>e_sock := s\<rparr>"
  have r: "holds (if s < 0 then S else insert s S) ?r" "e_sock ?r = s" "e_woken ?r = 0" "sv_unlinked ?r = 0" "\<not> e_io ?r" "e_aborted ?r = []"
    using p a by simp_all
  define q where "q = unlink_hook hk ?r"
  have q: "holds (if s < 0 then S else insert s S) q" "e_sock q = s" "e_woken q = 0" "sv_unlinked q = of_bool (hk_path hk)" "\<not> e_io q" "e_aborted q = []"
    unfolding q_def using r by simp_all
  have e: "ini_server hk s errno bnd lst (new_srv S t) =
     (if s < 0 then Some (Srv_do Srv_ERROR, p\<lparr>e_sock := s, e_errpos := Some ''socket'', e_err := - s\<rparr>)
      else if hk_alen hk \<le> 0 \<or> bnd \<noteq> 0
      then Some (Srv_do Srv_ERROR, q\<lparr>e_errpos := Some ''bind'', e_err := (if hk_alen hk \<le> 0 then errno else bnd)\<rparr>)
      else if lst \<noteq> 0 then Some (Srv_do Srv_ERROR, q\<lparr>e_errpos := Some ''listen'', e_err := lst\<rparr>)
      else Some (Srv_do Srv_ACT, q\<lparr>e_io := True, e_errpos := Some ''OK'', e_err := 0, e_woken := e_woken q + 1\<rparr>))"
    by (simp add: ini_server_def p(1) q_def Let_def)
  consider "s < 0" | "0 \<le> s" "hk_alen hk \<le> 0 \<or> bnd \<noteq> 0" | "0 \<le> s" "\<not> (hk_alen hk \<le> 0 \<or> bnd \<noteq> 0)" "lst \<noteq> 0" | "0 \<le> s" "listening hk s bnd lst"
    unfolding listening_def not_le [symmetric] by blast
  then show ?thesis
  proof cases
    case 1
    then show ?thesis using that [of "p\<lparr>e_sock := s, e_errpos := Some ''socket'', e_err := - s\<rparr>"] e p a by (simp add: listening_def)
  next
    case 2
    then show ?thesis using that [of "q\<lparr>e_errpos := Some ''bind'', e_err := (if hk_alen hk \<le> 0 then errno else bnd)\<rparr>"] e q
      by (auto simp: listening_def)
  next
    case 3
    then show ?thesis using that [of "q\<lparr>e_errpos := Some ''listen'', e_err := lst\<rparr>"] e q by (simp add: listening_def)
  next
    case 4
    then show ?thesis using that [of "q\<lparr>e_io := True, e_errpos := Some ''OK'', e_err := 0, e_woken := e_woken q + 1\<rparr>"] e q
      by (simp add: listening_def)
  qed
qed

lemma srv_end:
  assumes "holds S p" "0 \<le> e_sock p \<longrightarrow> e_sock p \<in> S \<and> e_sock p < FD_SETSIZE" "x = Srv_ACT \<or> x = Srv_ERROR_WAIT"
  shows "\<exists>p'. srv_run (Suc (Suc (Suc (Suc n)))) hk ini (closes k) True x p = Some (Srv_ended, p') \<and> e_sock p' = - 1
    \<and> holds (S - (if e_sock p < 0 then {} else {e_sock p})) p' \<and> \<not> e_io p'
    \<and> e_aborted p' = (if 0 \<le> e_sock p \<and> e_io p then e_aborted p @ [e_sock p] else e_aborted p)
    \<and> sv_unlinked p' = sv_unlinked p + of_bool (hk_path hk)"
proof -
  let ?p = "p\<lparr>e_aborted := (if e_sock p \<ge> 0 \<and> e_io p then e_aborted p @ [e_sock p] else e_aborted p)\<rparr>"
  let ?S = "S - (if e_sock p < 0 then {} else {e_sock p})"
  have "holds S ?p" using assms(1) by simp
  then obtain t where t: "so_close (closes k) (e_sock p) ?p = Some (?p\<lparr>e_tab := t, e_open := ?S\<rparr>)" "holds ?S (?p\<lparr>e_tab := t, e_open := ?S\<rparr>)"
    using so_close_ok assms(2) by blast
  let ?q = "if 0 \<le> e_sock p then ?p\<lparr>e_tab := t, e_open := ?S\<rparr> else ?p"
  have "srv_run (Suc (Suc (Suc (Suc n)))) hk ini (closes k) True x p = Some (Srv_ended, (unlink_hook hk (?q\<lparr>e_sock := - 1\<rparr>))\<lparr>e_io := False\<rparr>)"
    using t(1) assms(3) by (auto simp: srv_run.simps srv_step_def fin_close_def)
  moreover have "holds ?S ((unlink_hook hk (?q\<lparr>e_sock := - 1\<rparr>))\<lparr>e_io := False\<rparr>)"
    using t(2) assms(1) by (cases "0 \<le> e_sock p") simp_all
  ultimately show ?thesis by (auto simp: unlink_hook_def)
qed

text \<open>A server tells its parent once and gives its socket back.  The first run ends, listening or waiting after
  an error, with one wakeup for the parent; when the machine is destroyed the registrations of the socket are
  aborted if it was listening, the socket is closed, and the system has open what it had before.\<close>

theorem server_gives_back:
  assumes "tracks S t" "0 \<le> s \<longrightarrow> s \<notin> S \<and> s < FD_SETSIZE"
  shows "\<exists>p p'. srv_run 9 hk (ini_server hk s errno bnd lst) (closes k) False Srv_INI (new_srv S t)
      = Some (if listening hk s bnd lst then Srv_ACT else Srv_ERROR_WAIT, p)
    \<and> e_woken p = 1 \<and> (listening hk s bnd lst \<longrightarrow> e_sock p = s \<and> s \<in> e_open p \<and> e_err p = 0)
    \<and> srv_run 9 hk (ini_server hk s errno bnd lst) (closes k) True (if listening hk s bnd lst then Srv_ACT else Srv_ERROR_WAIT) p
        = Some (Srv_ended, p')
    \<and> e_open p' = S \<and> tracks S (e_tab p') \<and> e_sock p' = - 1 \<and> e_aborted p' = (if listening hk s bnd lst then [s] else [])"
proof -
  let ?l = "listening hk s bnd lst" and ?ini = "ini_server hk s errno bnd lst"
  obtain p where p: "?ini (new_srv S t) = Some (Srv_do (if ?l then Srv_ACT else Srv_ERROR), p)"
    "holds (if s < 0 then S else insert s S) p" "e_sock p = s" "e_io p = ?l" "e_woken p = of_bool ?l" "e_aborted p = []" "?l \<longrightarrow> e_err p = 0"
    by (rule ini_server_result [OF assms(1), of s hk errno bnd lst]) (use assms(2) in blast)+
  let ?x = "if ?l then Srv_ACT else Srv_ERROR_WAIT" and ?p = "if ?l then p else p\<lparr>e_woken := e_woken p + 1\<rparr>"
  have nine: "(9::nat) = Suc (Suc (Suc (Suc (Suc (Suc (Suc (Suc (Suc 0))))))))" by simp
  have run: "srv_run 9 hk ?ini (closes k) False Srv_INI (new_srv S t) = Some (?x, ?p)"
    using p(1) unfolding nine by (simp add: srv_run.simps srv_step_def)
  have h: "holds (if s < 0 then S else insert s S) ?p" "e_sock ?p = s" "e_woken ?p = 1" "e_io ?p = ?l" "e_aborted ?p = []" "?l \<longrightarrow> e_err ?p = 0"
    using p by simp_all
  have "0 \<le> e_sock ?p \<longrightarrow> e_sock ?p \<in> (if s < 0 then S else insert s S) \<and> e_sock ?p < FD_SETSIZE" unfolding h(2) using assms(2) by auto
  moreover have "?x = Srv_ACT \<or> ?x = Srv_ERROR_WAIT" by simp
  ultimately have "\<exists>p'. srv_run 9 hk ?ini (closes k) True ?x ?p = Some (Srv_ended, p') \<and> e_sock p' = - 1
      \<and> holds ((if s < 0 then S else insert s S) - (if s < 0 then {} else {s})) p' \<and> e_aborted p' = (if 0 \<le> s \<and> ?l then [s] else [])"
    using srv_end [OF h(1), of ?x "Suc (Suc (Suc (Suc (Suc 0))))" hk ?ini k] unfolding nine h(2,4,5) append_Nil by blast
  then obtain p' where
    e: "srv_run 9 hk ?ini (closes k) True ?x ?p = Some (Srv_ended, p')" "e_sock p' = - 1"
    and h': "holds ((if s < 0 then S else insert s S) - (if s < 0 then {} else {s})) p'"
    and a: "e_aborted p' = (if 0 \<le> s \<and> ?l then [s] else [])"
    by blast
  have "(if s < 0 then S else insert s S) - (if s < 0 then {} else {s}) = S" using assms(2) by auto
  then have S: "e_open p' = S" "tracks S (e_tab p')" using h' by (simp_all add: holds_def)
  have l: "?l \<longrightarrow> 0 \<le> s" by (simp add: listening_def)
  then have ab: "e_aborted p' = (if ?l then [s] else [])" using a by simp
  have "e_open ?p = (if s < 0 then S else insert s S)" using h(1) unfolding holds_def by blast
  then have "?l \<longrightarrow> s \<in> e_open ?p" by (metis l insertI1 not_le)
  then have "?l \<longrightarrow> e_sock ?p = s \<and> s \<in> e_open ?p \<and> e_err ?p = 0" using h(2,6) by blast
  then show ?thesis using run h(3) e S ab by (intro exI [of _ ?p] exI [of _ p'] conjI)
qed

theorem server_gives_back_witness:
  "\<exists>p p'. srv_run 9 TCPserver (ini_server TCPserver 5 0 0 0) (closes 1) False Srv_INI (new_srv {} new_fdtab) = Some (Srv_ACT, p)
     \<and> srv_run 9 TCPserver (ini_server TCPserver 5 0 0 0) (closes 1) True Srv_ACT p = Some (Srv_ended, p') \<and> e_open p' = {} \<and> e_aborted p' = [5]"
proof -
  have l: "listening TCPserver 5 0 0" by (simp add: listening_def TCPserver_def)
  have "(0::int) \<le> 5 \<longrightarrow> 5 \<notin> {} \<and> 5 < FD_SETSIZE" by (simp add: FD_SETSIZE_def)
  from server_gives_back [OF tracks_new this, of TCPserver 0 0 0 1] show ?thesis unfolding if_P [OF l] by blast
qed

text \<open>A Unix server that got no socket still removes the file at its path when it is destroyed.\<close>

lemma removes_a_file_it_never_made:
  assumes "tracks S t" "s < 0"
  shows "\<exists>p p'. srv_run 9 UnixServer (ini_server UnixServer s errno bnd lst) (closes k) False Srv_INI (new_srv S t) = Some (Srv_ERROR_WAIT, p)
    \<and> srv_run 9 UnixServer (ini_server UnixServer s errno bnd lst) (closes k) True Srv_ERROR_WAIT p = Some (Srv_ended, p') \<and> sv_unlinked p' = 1"
proof -
  let ?ini = "ini_server UnixServer s errno bnd lst"
  have path: "hk_path UnixServer" by (simp add: UnixServer_def)
  have nl: "\<not> listening UnixServer s bnd lst" using assms(2) by (simp add: listening_def)
  obtain p where p: "?ini (new_srv S t) = Some (Srv_do Srv_ERROR, p)" "holds S p" "e_sock p = s" "sv_unlinked p = 0"
    by (rule ini_server_result [OF assms(1), of s UnixServer errno bnd lst]) (use assms(2) nl in auto)
  have nine: "(9::nat) = Suc (Suc (Suc (Suc (Suc (Suc (Suc (Suc (Suc 0))))))))" by simp
  let ?p = "p\<lparr>e_woken := e_woken p + 1\<rparr>"
  have "srv_run 9 UnixServer ?ini (closes k) False Srv_INI (new_srv S t) = Some (Srv_ERROR_WAIT, ?p)"
    using p(1) unfolding nine by (simp add: srv_run.simps srv_step_def)
  moreover have "\<exists>p'. srv_run 9 UnixServer ?ini (closes k) True Srv_ERROR_WAIT ?p = Some (Srv_ended, p') \<and> sv_unlinked p' = 1"
    using srv_end [of S ?p Srv_ERROR_WAIT "Suc (Suc (Suc (Suc (Suc 0))))" UnixServer ?ini k] p assms(2) path unfolding nine by auto
  ultimately show ?thesis by blast
qed

end
