(* ===== verification/Clock.thy ===== *)
theory Clock
  imports Prelude
begin

text \<open>
  The clock \<open>stdInterval::now\<close> of \<open>src/src/classes/ts2/c++/stdInterval.cpp\<close>: every dispatch of an event reads it,
  so it keeps the greatest time it has answered in one atomic variable and no mutex.  A thread reads the time of
  the day, loads the variable, and answers the loaded value if that is not behind; otherwise it tries to
  exchange it, and a failed exchange (which may fail for no reason) leaves the value it found.
\<close>

datatype npc = Out | Timed int | Loaded int int

record clock =
  lastAccessTime :: int
  c_pc :: "nat \<Rightarrow> npc"
  c_log :: "(nat \<times> int) list"
  c_floor :: "nat \<Rightarrow> int"

text \<open>\<open>c_log\<close> are the answers with the threads that got them; \<open>c_floor\<close> is, for a call under way, the variable
  when it began.\<close>

definition time_of_day :: "int \<Rightarrow> int \<Rightarrow> int" where "time_of_day sec usec = usec + sec * 1000000"

definition c_return :: "nat \<Rightarrow> int \<Rightarrow> clock \<Rightarrow> clock" where
  "c_return i v c = c\<lparr>c_pc := (c_pc c)(i := Out), c_log := c_log c @ [(i, v)]\<rparr>"

inductive now_step :: "clock \<Rightarrow> clock \<Rightarrow> bool" where
  n_time: "c_pc c i = Out \<Longrightarrow>
    now_step c (c\<lparr>c_pc := (c_pc c)(i := Timed (time_of_day sec usec)), c_floor := (c_floor c)(i := lastAccessTime c)\<rparr>)"
| n_load: "c_pc c i = Timed ret \<Longrightarrow> now_step c (c\<lparr>c_pc := (c_pc c)(i := Loaded ret (lastAccessTime c))\<rparr>)"
| n_old: "c_pc c i = Loaded ret prev \<Longrightarrow> ret \<le> prev \<Longrightarrow> now_step c (c_return i prev c)"
| n_exchanged: "c_pc c i = Loaded ret prev \<Longrightarrow> \<not> ret \<le> prev \<Longrightarrow> lastAccessTime c = prev \<Longrightarrow>
    now_step c (c_return i ret (c\<lparr>lastAccessTime := ret\<rparr>))"
| n_failed: "c_pc c i = Loaded ret prev \<Longrightarrow> \<not> ret \<le> prev \<Longrightarrow>
    now_step c (c\<lparr>c_pc := (c_pc c)(i := Loaded ret (lastAccessTime c))\<rparr>)"

definition new_clock :: clock where
  "new_clock = \<lparr>lastAccessTime = 0, c_pc = (\<lambda>_. Out), c_log = [], c_floor = (\<lambda>_. 0)\<rparr>"

inductive now_reach :: "clock \<Rightarrow> bool" where
  n_init: "now_reach new_clock"
| n_step: "now_reach c \<Longrightarrow> now_step c c' \<Longrightarrow> now_reach c'"

definition answers_of :: "nat \<Rightarrow> clock \<Rightarrow> int list" where
  "answers_of i c = map snd (filter (\<lambda>e. fst e = i) (c_log c))"

text \<open>Nothing answered is above the variable; a call under way is at or above everything its thread was answered.\<close>

fun thread_ok :: "int list \<Rightarrow> int \<Rightarrow> int \<Rightarrow> npc \<Rightarrow> bool" where
  "thread_ok as f t Out \<longleftrightarrow> sorted as"
| "thread_ok as f t (Timed ret) \<longleftrightarrow> sorted as \<and> (\<forall>v\<in>set as. v \<le> f) \<and> f \<le> t"
| "thread_ok as f t (Loaded ret prev) \<longleftrightarrow> sorted as \<and> (\<forall>v\<in>set as. v \<le> f) \<and> f \<le> prev \<and> prev \<le> t"

definition clock_ok :: "clock \<Rightarrow> bool" where
  "clock_ok c \<longleftrightarrow> (\<forall>e\<in>set (c_log c). snd e \<le> lastAccessTime c) \<and>
     (\<forall>i. thread_ok (answers_of i c) (c_floor c i) (lastAccessTime c) (c_pc c i))"

lemma answers_simps [simp]:
  "answers_of j (c\<lparr>c_pc := p\<rparr>) = answers_of j c" "answers_of j (c\<lparr>c_floor := f\<rparr>) = answers_of j c"
  "answers_of j (c\<lparr>lastAccessTime := t\<rparr>) = answers_of j c"
  "answers_of j (c_return i v c) = (if j = i then answers_of j c @ [v] else answers_of j c)"
  by (simp_all add: answers_of_def c_return_def)

lemma answers_log: "v \<in> set (answers_of i c) \<Longrightarrow> \<exists>e\<in>set (c_log c). snd e = v"
  by (auto simp: answers_of_def)

lemma return_simps [simp]:
  "lastAccessTime (c_return i v c) = lastAccessTime c" "c_floor (c_return i v c) = c_floor c"
  "c_pc (c_return i v c) = (c_pc c)(i := Out)" "c_log (c_return i v c) = c_log c @ [(i, v)]"
  by (simp_all add: c_return_def)

lemma thread_ok_later: "thread_ok as f t pc \<Longrightarrow> t \<le> t' \<Longrightarrow> thread_ok as f t' pc"
  by (cases pc) auto

lemma thread_ok_answer: "thread_ok as f t (Loaded ret prev) \<Longrightarrow> prev \<le> v \<Longrightarrow> thread_ok (as @ [v]) f' t' Out"
  by (force simp: sorted_append)

lemma clock_okD: "clock_ok c \<Longrightarrow> c_pc c i = pc \<Longrightarrow> thread_ok (answers_of i c) (c_floor c i) (lastAccessTime c) pc"
  by (auto simp: clock_ok_def)

lemma clock_ok_return:
  assumes "clock_ok c" "c_pc c i = Loaded ret prev" "prev \<le> v" "lastAccessTime c \<le> t" "v \<le> t"
  shows "clock_ok (c_return i v (c\<lparr>lastAccessTime := t\<rparr>))"
proof -
  have "thread_ok (answers_of i c @ [v]) f t' Out" for f t'
    using thread_ok_answer [OF clock_okD [OF assms(1,2)] assms(3)] .
  moreover have "thread_ok (answers_of j c) (c_floor c j) t (c_pc c j)" for j
    using assms(1,4) thread_ok_later unfolding clock_ok_def by blast
  moreover have "\<forall>e\<in>set (c_log c). snd e \<le> t" using assms(1,4) unfolding clock_ok_def by force
  ultimately show ?thesis using assms(5) by (simp add: clock_ok_def)
qed

text \<open>A step that moves one thread.\<close>

lemma clock_ok_move:
  assumes "clock_ok c" "thread_ok (answers_of i c) f (lastAccessTime c) pc"
  shows "clock_ok (c\<lparr>c_pc := (c_pc c)(i := pc), c_floor := (c_floor c)(i := f)\<rparr>)"
  using assms by (simp add: clock_ok_def)

lemma clock_ok_step:
  assumes "now_step c c'" "clock_ok c"
  shows "clock_ok c' \<and> lastAccessTime c \<le> lastAccessTime c'"
  using assms(1)
proof cases
  case (n_time i sec usec)
  have "\<forall>v\<in>set (answers_of i c). v \<le> lastAccessTime c" using assms(2) answers_log unfolding clock_ok_def by blast
  then show ?thesis using clock_okD [OF assms(2) n_time(2)] clock_ok_move [OF assms(2), of i "lastAccessTime c" "Timed (time_of_day sec usec)"]
    by (simp add: n_time(1))
next
  case (n_load i ret)
  then show ?thesis using clock_okD [OF assms(2) n_load(2)] clock_ok_move [OF assms(2), of i "c_floor c i" "Loaded ret (lastAccessTime c)"] by simp
next
  case (n_old i ret prev)
  have "prev \<le> lastAccessTime c" using clock_okD [OF assms(2) n_old(2)] by simp
  then show ?thesis using clock_ok_return [OF assms(2) n_old(2), of prev "lastAccessTime c"] n_old by simp
next
  case (n_exchanged i ret prev)
  then show ?thesis using clock_ok_return [OF assms(2) n_exchanged(2), of ret ret] by simp
next
  case (n_failed i ret prev)
  then show ?thesis using clock_okD [OF assms(2) n_failed(2)] clock_ok_move [OF assms(2), of i "c_floor c i" "Loaded ret (lastAccessTime c)"] by simp
qed

lemma now_reach_ok: "now_reach c \<Longrightarrow> clock_ok c"
proof (induction rule: now_reach.induct)
  case n_init
  then show ?case by (simp add: clock_ok_def new_clock_def answers_of_def)
qed (use clock_ok_step in blast)

text \<open>The clock never goes back.  In every reachable state the answers of each thread are in order, none is above
  the variable, and a call that answers answers at least what its own clock showed and at least what the
  variable held when the call began, hence at least every answer any thread had got before.\<close>

theorem clock_never_goes_back:
  assumes "now_reach c" "now_step c c'" "c_log c' = c_log c @ [(i, v)]"
  shows "sorted (answers_of i c') \<and> (\<forall>e\<in>set (c_log c'). snd e \<le> lastAccessTime c') \<and> c_floor c i \<le> v
    \<and> (\<exists>ret prev. c_pc c i = Loaded ret prev \<and> v = max ret prev) \<and> lastAccessTime c \<le> lastAccessTime c'"
proof -
  note ok = now_reach_ok [OF assms(1)]
  note ok' = clock_ok_step [OF assms(2) ok]
  have s: "sorted (answers_of i c')" using ok' by (cases "c_pc c' i") (auto simp: clock_ok_def dest!: spec [of _ i])
  have "c_floor c i \<le> v \<and> (\<exists>ret prev. c_pc c i = Loaded ret prev \<and> v = max ret prev)"
    using assms(2)
  proof cases
    case (n_old j ret prev)
    then have "j = i" "v = prev" using assms(3) by simp_all
    then show ?thesis using n_old clock_okD [OF ok n_old(2)] by (auto simp: max_def)
  next
    case (n_exchanged j ret prev)
    then have "j = i" "v = ret" using assms(3) by (simp_all add: c_return_def)
    then show ?thesis using n_exchanged clock_okD [OF ok n_exchanged(2)] by (auto simp: max_def)
  qed (use assms(3) in simp_all)
  then show ?thesis using s ok' by (simp add: clock_ok_def)
qed

text \<open>The floor of a call is above everything answered before it began.\<close>

lemma floor_above:
  assumes "now_reach c" "c_pc c i = Out" "e \<in> set (c_log c)"
  shows "snd e \<le> lastAccessTime c"
  using now_reach_ok [OF assms(1)] assms(3) by (simp add: clock_ok_def)

theorem clock_never_goes_back_witness:
  "\<exists>c c'. now_reach c \<and> now_step c c' \<and> c_log c' = c_log c @ [(3, 2000005)] \<and> sorted (answers_of 3 c')"
proof -
  let ?c1 = "new_clock\<lparr>c_pc := (c_pc new_clock)(3 := Timed (time_of_day 2 5)), c_floor := (c_floor new_clock)(3 := lastAccessTime new_clock)\<rparr>"
  let ?c2 = "?c1\<lparr>c_pc := (c_pc ?c1)(3 := Loaded (time_of_day 2 5) (lastAccessTime ?c1))\<rparr>"
  let ?c3 = "c_return 3 (time_of_day 2 5) (?c2\<lparr>lastAccessTime := time_of_day 2 5\<rparr>)"
  have "now_step new_clock ?c1" by (rule n_time) (simp add: new_clock_def)
  moreover have "now_step ?c1 ?c2" by (rule n_load) simp
  ultimately have r: "now_reach ?c2" using n_init n_step by blast
  have st: "now_step ?c2 ?c3" by (rule n_exchanged) (simp_all add: time_of_day_def new_clock_def)
  have l: "c_log ?c3 = c_log ?c2 @ [(3, 2000005)]" by (simp add: time_of_day_def)
  show ?thesis using clock_never_goes_back [OF r st l] r st l by blast
qed

end
