(* ===== verification/Spec2Isabelle.thy ===== *)
theory Spec2Isabelle
  imports StdQueueSort HalfOrderQueue LimitSemaphore Semaphore BalancedTree TinyState StringTree ObjectGC ThreadPool StdString Endian Listeners CallList ArrayQueue Reactor ParallelGroup StreamIO AppGlobals Application MemAccount Descriptor DgramRing PosixIO Endpoints Clock
begin

text \<open>Verification of the core of tinyState.\<close>

end
